(* ===== verification/Prelude.thy ===== *)
theory Prelude
  imports Main "HOL-Library.Word" "HOL-Library.List_Lexorder" "HOL-Library.Monad_Syntax"
    "HOL-Library.Code_Target_Numeral"
begin

text \<open>
  Shared material of the development: the machine types of the C++ sources, list and
  option lemmas, the model of \<open>std::map\<close> as a sorted association list with its
  contract as a locale, and doubly linked rings (the face and radial cycles of the mesh)
  as a predicate over a successor and a predecessor function.
\<close>

unbundle bit_operations_syntax

named_theorems frame_simps "what an operation leaves unchanged"
named_theorems ring_simps "doubly linked chains and rings"

section \<open>Machine types\<close>

type_synonym u8 = "8 word"
type_synonym u16 = "16 word"
type_synonym u32 = "32 word"
type_synonym i32 = "32 word"
type_synonym u64 = "64 word"
type_synonym bytes = "u8 list"

text \<open>
  A \<open>float\<close> is kept as its IEEE-754 binary32 bit pattern and a \<open>double\<close> as its
  binary64 pattern, so that \<open>std::bit_cast\<close> is the identity.
\<close>

type_synonym f32 = "32 word"
type_synonym f64 = "64 word"

section \<open>Lists and options\<close>

lemma nth_update_eq: "i < length xs \<Longrightarrow> xs[i := x] ! i = x"
  by simp

lemma count_list_distinct: "distinct xs \<Longrightarrow> count_list xs x = (if x \<in> set xs then 1 else 0)"
  by (induction xs) auto

lemma distinct_append_single [simp]: "distinct (xs @ [x]) \<longleftrightarrow> distinct xs \<and> x \<notin> set xs"
  by auto

lemma bind_Some_iff: "Option.bind x f = Some y \<longleftrightarrow> (\<exists>a. x = Some a \<and> f a = Some y)"
  by (cases x) auto

lemma drop_append_exact: "drop n xs = ys @ zs \<Longrightarrow> drop (n + length ys) xs = zs"
  by (metis add.commute append_eq_conv_conj drop_drop)

lemma drop_eq_Cons_nth: "drop n xs = y # ys \<Longrightarrow> n < length xs \<and> xs ! n = y \<and> drop (Suc n) xs = ys"
  by (metis Cons_nth_drop_Suc drop_all linorder_not_le list.distinct(1) list.inject)

lemma filter_remove_distinct: "distinct xs \<Longrightarrow> distinct (filter P xs)"
  by simp

section \<open>std::map as a sorted association list\<close>

text \<open>
  \<open>std::map\<close> iterates in key order, and what the code serialises depends on that
  order. The model is the list of entries in ascending key order; \<open>omap_put\<close> is
  \<open>operator[]\<close> assignment, \<open>omap_emplace\<close> keeps an existing entry.
\<close>

type_synonym ('k, 'v) omap = "('k \<times> 'v) list"

definition omap_inv :: "('k::linorder, 'v) omap \<Rightarrow> bool" where
  "omap_inv m \<longleftrightarrow> sorted_wrt (<) (map fst m)"

definition omap_find :: "('k, 'v) omap \<Rightarrow> 'k \<Rightarrow> 'v option" where
  "omap_find m k = map_of m k"

fun omap_put :: "'k::linorder \<Rightarrow> 'v \<Rightarrow> ('k, 'v) omap \<Rightarrow> ('k, 'v) omap" where
  "omap_put k v [] = [(k, v)]"
| "omap_put k v ((k', v') # m) =
     (if k < k' then (k, v) # (k', v') # m
      else if k = k' then (k, v) # m
      else (k', v') # omap_put k v m)"

definition omap_emplace :: "'k::linorder \<Rightarrow> 'v \<Rightarrow> ('k, 'v) omap \<Rightarrow> ('k, 'v) omap" where
  "omap_emplace k v m = (case omap_find m k of None \<Rightarrow> omap_put k v m | Some _ \<Rightarrow> m)"

definition omap_erase :: "'k \<Rightarrow> ('k, 'v) omap \<Rightarrow> ('k, 'v) omap" where
  "omap_erase k m = filter (\<lambda>(k', _). k' \<noteq> k) m"

definition omap_visit :: "('k \<Rightarrow> 'v \<Rightarrow> 'w) \<Rightarrow> ('k, 'v) omap \<Rightarrow> ('k, 'w) omap" where
  "omap_visit f m = map (\<lambda>(k, v). (k, f k v)) m"

lemma omap_put_keys: "set (map fst (omap_put k v m)) = insert k (set (map fst m))"
  by (induction k v m rule: omap_put.induct) auto

lemma omap_inv_Nil [simp]: "omap_inv []"
  by (simp add: omap_inv_def)

lemma omap_inv_Cons: "omap_inv ((k, v) # m) \<longleftrightarrow> omap_inv m \<and> (\<forall>k' \<in> fst ` set m. k < k')"
  by (auto simp: omap_inv_def)

lemma omap_inv_put [simp, intro]: "omap_inv m \<Longrightarrow> omap_inv (omap_put k v m)"
  using omap_put_keys [of k v]
  by (induction k v m rule: omap_put.induct) (fastforce simp: omap_inv_Cons)+

lemma omap_find_put [simp]: "omap_inv m \<Longrightarrow> omap_find (omap_put k v m) = (omap_find m)(k \<mapsto> v)"
  by (induction k v m rule: omap_put.induct)
    (auto simp: omap_find_def omap_inv_Cons fun_eq_iff)

lemma omap_inv_emplace [simp, intro]: "omap_inv m \<Longrightarrow> omap_inv (omap_emplace k v m)"
  by (auto simp: omap_emplace_def split: option.splits)

lemma omap_inv_erase [simp, intro]: "omap_inv m \<Longrightarrow> omap_inv (omap_erase k m)"
  by (auto simp: omap_inv_def omap_erase_def sorted_wrt_filter sorted_wrt_map)

lemma omap_find_erase [simp]: "omap_find (omap_erase k m) = (omap_find m)(k := None)"
  by (induction m) (auto simp: omap_find_def omap_erase_def fun_eq_iff)

lemma omap_visit_keys [simp]: "map fst (omap_visit f m) = map fst m"
  by (induction m) (auto simp: omap_visit_def)

lemma omap_inv_visit [simp]: "omap_inv (omap_visit f m) \<longleftrightarrow> omap_inv m"
  by (simp add: omap_inv_def)

lemma omap_find_visit [simp]: "omap_find (omap_visit f m) k = map_option (f k) (omap_find m k)"
  by (induction m) (auto simp: omap_find_def omap_visit_def)

lemma omap_ext:
  "omap_inv m \<Longrightarrow> omap_inv m' \<Longrightarrow> omap_find m = omap_find m' \<Longrightarrow> m = m'"
proof (induction m arbitrary: m')
  case Nil
  then show ?case
    by (cases m') (auto simp: omap_find_def fun_eq_iff split: if_splits)
next
  case (Cons e m)
  obtain k v where e: "e = (k, v)" by (cases e)
  from Cons.prems(3) have f: "map_of ((k, v) # m) j = map_of m' j" for j
    by (simp add: e omap_find_def fun_eq_iff)
  obtain k' v' n where m': "m' = (k', v') # n"
    using f [of k] by (cases m') auto
  have lt: "\<forall>j \<in> fst ` set m. k < j" "\<forall>j \<in> fst ` set n. k' < j"
    using Cons.prems(1,2) by (auto simp: e m' omap_inv_Cons)
  have "k' \<in> insert k (fst ` set m)" "k \<in> insert k' (fst ` set n)"
    using f [of k'] f [of k] by (auto simp: m' split: if_splits dest!: map_of_SomeD
        dest: sym intro: rev_image_eqI)
  then have kk: "k' = k" using lt by (auto dest: less_trans less_asym)
  have vv: "v' = v" using f [of k] by (simp add: m' kk)
  have "map_of m j = map_of n j" for j
  proof (cases "j = k")
    case True
    then have "map_of m j = None" "map_of n j = None"
      using lt by (auto simp: map_of_eq_None_iff kk)
    then show ?thesis by simp
  next
    case False
    then show ?thesis using f [of j] by (simp add: m' kk)
  qed
  then have "m = n"
    using Cons.IH Cons.prems(1,2) by (auto simp: e m' omap_inv_Cons omap_find_def fun_eq_iff)
  then show ?case by (simp add: e m' kk vv)
qed

text \<open>The contract of an ordered map, as the code that uses \<open>std::map\<close> relies on it.\<close>

locale ordered_map =
  fixes find :: "'m \<Rightarrow> 'k::linorder \<Rightarrow> 'v option"
    and put :: "'k \<Rightarrow> 'v \<Rightarrow> 'm \<Rightarrow> 'm"
    and entries :: "'m \<Rightarrow> ('k \<times> 'v) list"
    and empty :: "'m"
    and invar :: "'m \<Rightarrow> bool"
  assumes invar_empty: "invar empty"
    and entries_empty: "entries empty = []"
    and invar_put: "invar m \<Longrightarrow> invar (put k v m)"
    and find_put: "invar m \<Longrightarrow> find (put k v m) = (find m)(k \<mapsto> v)"
    and find_entries: "invar m \<Longrightarrow> find m = map_of (entries m)"
    and entries_sorted: "invar m \<Longrightarrow> sorted_wrt (<) (map fst (entries m))"
    and extensional: "invar m \<Longrightarrow> invar m' \<Longrightarrow> find m = find m' \<Longrightarrow> m = m'"
begin

lemma invar_fold: "invar m \<Longrightarrow> invar (fold (\<lambda>(k, v). put k v) kvs m)"
  by (induction kvs arbitrary: m) (auto simp: invar_put)

lemma find_fold:
  "invar m \<Longrightarrow> distinct (map fst kvs) \<Longrightarrow>
    find (fold (\<lambda>(k, v). put k v) kvs m) = find m ++ map_of kvs"
proof (induction kvs arbitrary: m)
  case Nil
  then show ?case by simp
next
  case (Cons e kvs)
  obtain k v where e: "e = (k, v)" by (cases e)
  have "find (fold (\<lambda>(k, v). put k v) kvs (put k v m)) = (find m)(k \<mapsto> v) ++ map_of kvs"
    using Cons by (simp add: e invar_put find_put)
  moreover have "map_of kvs k = None"
    using Cons.prems by (simp add: e map_of_eq_None_iff)
  ultimately show ?case
    by (auto simp: e fun_eq_iff map_add_def split: option.splits)
qed

text \<open>Inserting the entries of a map one after the other into an empty map rebuilds it.\<close>

lemma rebuild: "invar m \<Longrightarrow> fold (\<lambda>(k, v). put k v) (entries m) empty = m"
proof (rule extensional)
  assume m: "invar m"
  show "invar (fold (\<lambda>(k, v). put k v) (entries m) empty)"
    by (rule invar_fold) (rule invar_empty)
  have "distinct (map fst (entries m))"
    using strict_sorted_iff entries_sorted [OF m] by blast
  moreover have "find empty = Map.empty"
    using find_entries [OF invar_empty] by (simp add: entries_empty)
  ultimately show "find (fold (\<lambda>(k, v). put k v) (entries m) empty) = find m"
    using m by (simp add: find_fold invar_empty find_entries)
qed

end

interpretation std_map: ordered_map omap_find omap_put "\<lambda>m. m" "[]" omap_inv
proof unfold_locales
  fix m :: "('a, 'b) omap" and m' k v
  show "omap_inv ([] :: ('a, 'b) omap)" "([] :: ('a, 'b) omap) = []" by simp_all
  show "omap_inv m \<Longrightarrow> omap_inv (omap_put k v m)" by simp
  show "omap_inv m \<Longrightarrow> omap_find (omap_put k v m) = (omap_find m)(k \<mapsto> v)" by simp
  show "omap_inv m \<Longrightarrow> omap_find m = map_of m" by (simp add: omap_find_def fun_eq_iff)
  show "omap_inv m \<Longrightarrow> sorted_wrt (<) (map fst m)" by (simp add: omap_inv_def)
  show "omap_inv m \<Longrightarrow> omap_inv m' \<Longrightarrow> omap_find m = omap_find m' \<Longrightarrow> m = m'"
    by (rule omap_ext)
qed

section \<open>Doubly linked chains and rings\<close>

text \<open>
  \<open>chain n p a xs z\<close>: following the successor function \<open>n\<close> from \<open>a\<close> visits
  exactly \<open>xs\<close> and then arrives at \<open>z\<close>, and the predecessor function \<open>p\<close> undoes
  every one of these steps. A ring is a chain from its head back to its head through
  distinct nodes; the ghost list names the nodes in order.
\<close>

fun chain :: "('a \<Rightarrow> 'a) \<Rightarrow> ('a \<Rightarrow> 'a) \<Rightarrow> 'a \<Rightarrow> 'a list \<Rightarrow> 'a \<Rightarrow> bool" where
  "chain n p a [] z \<longleftrightarrow> n a = z \<and> p z = a"
| "chain n p a (x # xs) z \<longleftrightarrow> n a = x \<and> p x = a \<and> chain n p x xs z"

fun ring :: "('a \<Rightarrow> 'a) \<Rightarrow> ('a \<Rightarrow> 'a) \<Rightarrow> 'a list \<Rightarrow> bool" where
  "ring n p [] \<longleftrightarrow> False"
| "ring n p (x # xs) \<longleftrightarrow> distinct (x # xs) \<and> chain n p x xs x"

lemma chain_append [ring_simps]:
  "chain n p a (xs @ y # ys) z \<longleftrightarrow> chain n p a xs y \<and> chain n p y ys z"
  by (induction xs arbitrary: a) auto

lemma chain_cong:
  "(\<And>x. x \<in> insert a (set xs) \<Longrightarrow> n x = n' x) \<Longrightarrow> (\<And>x. x \<in> insert z (set xs) \<Longrightarrow> p x = p' x) \<Longrightarrow>
    chain n p a xs z \<longleftrightarrow> chain n' p' a xs z"
  by (induction xs arbitrary: a) auto

lemma ring_cong:
  "(\<And>x. x \<in> set xs \<Longrightarrow> n x = n' x) \<Longrightarrow> (\<And>x. x \<in> set xs \<Longrightarrow> p x = p' x) \<Longrightarrow>
    ring n p xs \<longleftrightarrow> ring n' p' xs"
proof (cases xs)
  case (Cons y ys)
  assume "\<And>x. x \<in> set xs \<Longrightarrow> n x = n' x" "\<And>x. x \<in> set xs \<Longrightarrow> p x = p' x"
  then have "chain n p y ys y \<longleftrightarrow> chain n' p' y ys y"
    by (intro chain_cong) (auto simp: Cons)
  then show ?thesis by (simp add: Cons)
qed simp

lemma ring_distinct: "ring n p xs \<Longrightarrow> distinct xs \<and> xs \<noteq> []"
  by (cases xs) auto

lemma ring_rotate: "ring n p (xs @ y # ys) \<Longrightarrow> ring n p (y # ys @ xs)"
  by (cases xs) (auto simp: chain_append)

lemma ring_rotate_to: "ring n p xs \<Longrightarrow> x \<in> set xs \<Longrightarrow> \<exists>ys. ring n p (x # ys) \<and> set (x # ys) = set xs
    \<and> length (x # ys) = length xs"
proof -
  assume r: "ring n p xs" and "x \<in> set xs"
  then obtain us vs where xs: "xs = us @ x # vs" by (auto simp: in_set_conv_decomp)
  with r have "ring n p (x # vs @ us)" using ring_rotate by metis
  then show ?thesis by (intro exI [of _ "vs @ us"]) (auto simp: xs)
qed

lemma chain_next: "chain n p a xs z \<Longrightarrow> x \<in> insert a (set xs) \<Longrightarrow> n x \<in> insert z (set xs) \<and> p (n x) = x"
  by (induction xs arbitrary: a) auto

lemma chain_prev: "chain n p a xs z \<Longrightarrow> x \<in> insert z (set xs) \<Longrightarrow> p x \<in> insert a (set xs) \<and> n (p x) = x"
  by (induction xs arbitrary: a) auto

lemma ring_next: "ring n p xs \<Longrightarrow> x \<in> set xs \<Longrightarrow> n x \<in> set xs \<and> p (n x) = x"
  by (cases xs) (auto dest: chain_next)

lemma ring_prev: "ring n p xs \<Longrightarrow> x \<in> set xs \<Longrightarrow> p x \<in> set xs \<and> n (p x) = x"
  by (cases xs) (auto dest: chain_prev)

lemma chain_last: "chain n p a xs z \<Longrightarrow> p z = last (a # xs) \<and> n (last (a # xs)) = z"
  by (induction xs arbitrary: a) auto

text \<open>Insertion of a fresh node before the head, and removal of a node.\<close>

lemma chain_snoc:
  assumes "chain n p a xs z" "y \<notin> insert a (set xs)" "y \<noteq> z" "distinct (a # xs)" "z \<notin> set xs"
  shows "chain (n(last (a # xs) := y, y := z)) (p(y := last (a # xs), z := y)) a (xs @ [y]) z"
  using assms
proof (induction xs arbitrary: a)
  case Nil
  then show ?case by auto
next
  case (Cons x xs)
  have "last (x # xs) \<noteq> a" using Cons.prems(4) by (metis distinct.simps(2) last_in_set list.distinct(1))
  then have "chain (n(last (x # xs) := y, y := z)) (p(y := last (x # xs), z := y)) x (xs @ [y]) z"
    using Cons.prems by (intro Cons.IH) auto
  moreover have "(n(last (x # xs) := y, y := z)) a = x" "(p(y := last (x # xs), z := y)) x = a"
    using Cons.prems \<open>last (x # xs) \<noteq> a\<close> by auto
  ultimately show ?case by (simp only: append_Cons chain.simps last_ConsR list.distinct not_False_eq_True)
qed

lemma ring_insert:
  assumes "ring n p (h # xs)" "y \<notin> set (h # xs)"
  shows "ring (n(p h := y, y := h)) (p(y := p h, h := y)) (h # xs @ [y])"
proof -
  have c: "chain n p h xs h" and d: "distinct (h # xs)" using assms(1) by auto
  have "p h = last (h # xs)" using chain_last [OF c] by simp
  with chain_snoc [OF c _ _ d] assms(2) d show ?thesis by auto
qed

lemma ring_remove:
  assumes "ring n p (y # x # xs)"
  shows "ring (n(p y := n y)) (p(n y := p y)) (x # xs)"
proof -
  have d: "distinct (y # x # xs)" and y: "n y = x" "p x = y" and c: "chain n p x xs y"
    using assms by auto
  have l: "p y = last (x # xs)" using chain_last [OF c] by simp
  have "chain (n(last (x # xs) := x)) (p(x := last (x # xs))) x xs x"
  proof (cases xs rule: rev_cases)
    case Nil
    then show ?thesis by simp
  next
    case (snoc us u)
    with c d have "chain n p x us u" by (simp add: chain_append)
    moreover have "chain n p x us u \<longleftrightarrow> chain (n(u := x)) (p(x := u)) x us u"
      using d snoc by (intro chain_cong) auto
    ultimately show ?thesis by (simp add: snoc chain_append)
  qed
  with d show ?thesis by (simp add: l y)
qed

text \<open>
  A \<open>do \<dots> while\<close> walk along the successors until the stop node is met again; it need
  not end, so its result is an option, with \<open>None\<close> for a walk that does not return.
\<close>

partial_function (option) walk :: "('a \<Rightarrow> 'a) \<Rightarrow> 'a \<Rightarrow> 'a \<Rightarrow> 'a list option" where
  "walk n stop l =
     (let l' = n l in
      if l' = stop then Some [l] else Option.bind (walk n stop l') (\<lambda>r. Some (l # r)))"

lemma walk_chain: "chain n p a xs z \<Longrightarrow> z \<notin> set xs \<Longrightarrow> walk n z a = Some (a # xs)"
proof (induction xs arbitrary: a)
  case Nil
  then show ?case by (subst walk.simps) simp
next
  case (Cons x xs)
  then show ?case by (subst walk.simps) (auto simp: Let_def)
qed

lemma walk_ring: "ring n p (x # xs) \<Longrightarrow> walk n x x = Some (x # xs)"
  by (auto intro: walk_chain)

section \<open>Loops that may fail to return\<close>

text \<open>A loop over a list whose body may not return, and its invariant rule.\<close>

fun ofold :: "('a \<Rightarrow> 's \<Rightarrow> 's option) \<Rightarrow> 'a list \<Rightarrow> 's \<Rightarrow> 's option" where
  "ofold f [] s = Some s"
| "ofold f (x # xs) s = Option.bind (f x s) (ofold f xs)"

fun omap_list :: "('a \<Rightarrow> 'b option) \<Rightarrow> 'a list \<Rightarrow> 'b list option" where
  "omap_list f [] = Some []"
| "omap_list f (x # xs) = Option.bind (f x) (\<lambda>y. map_option ((#) y) (omap_list f xs))"

lemma ofold_snoc: "ofold f (xs @ [x]) s = Option.bind (ofold f xs s) (f x)"
  by (induction xs arbitrary: s) (auto split: Option.bind_splits)

lemma ofold_inv:
  assumes "P xs s" "\<And>x xs s. P (x # xs) s \<Longrightarrow> \<exists>s'. f x s = Some s' \<and> P xs s'"
  shows "\<exists>s'. ofold f xs s = Some s' \<and> P [] s'"
  using assms(1)
proof (induction xs arbitrary: s)
  case (Cons x xs)
  obtain s' where "f x s = Some s'" "P xs s'" using assms(2) [OF Cons.prems] by blast
  then show ?case using Cons.IH by simp
qed simp

lemma omap_list_Some: "(\<And>x. x \<in> set xs \<Longrightarrow> f x = Some (g x)) \<Longrightarrow> omap_list f xs = Some (map g xs)"
  by (induction xs) auto

lemma omap_list_total:
  assumes "\<And>x. x \<in> set xs \<Longrightarrow> \<exists>y. f x = Some y"
  shows "\<exists>ys. omap_list f xs = Some ys \<and> length ys = length xs"
  using assms by (induction xs) fastforce+

end
