(* ===== verification/Serial.thy ===== *)
theory Serial
  imports Prelude
begin

text \<open>
  The deterministic little-endian byte writer and reader of
  \<open>src/app/include/cyber/app/serial.hpp\<close>. A writer is the byte vector written so far;
  a reader is its span, its cursor and the error latch. \<open>std::string\<close> is a byte list.
  The locale \<open>codec\<close> is the contract between one \<open>ByteWriter\<close> method and the
  \<open>ByteReader\<close> method that undoes it; every pair of the class is an interpretation.
\<close>

section \<open>ByteWriter\<close>

definition low_byte :: "'a::len word \<Rightarrow> u8" where
  "low_byte v = ucast (v AND 0xFF)"

definition w_u8 :: "bytes \<Rightarrow> u8 \<Rightarrow> bytes" where
  "w_u8 w v = w @ [v]"

definition w_u32 :: "bytes \<Rightarrow> u32 \<Rightarrow> bytes" where
  "w_u32 w v = w @ [low_byte v, low_byte (drop_bit 8 v), low_byte (drop_bit 16 v),
                    low_byte (drop_bit 24 v)]"

definition w_i32 :: "bytes \<Rightarrow> i32 \<Rightarrow> bytes" where
  "w_i32 w v = w_u32 w v"

definition w_u64 :: "bytes \<Rightarrow> u64 \<Rightarrow> bytes" where
  "w_u64 w v = fold (\<lambda>shift w. w @ [low_byte (drop_bit shift v)]) [0, 8, 16, 24, 32, 40, 48, 56] w"

definition w_f32 :: "bytes \<Rightarrow> f32 \<Rightarrow> bytes" where
  "w_f32 w v = w_u32 w v"

definition w_bytes :: "bytes \<Rightarrow> bytes \<Rightarrow> bytes" where
  "w_bytes w b = w @ b"

definition w_str :: "bytes \<Rightarrow> bytes \<Rightarrow> bytes" where
  "w_str w s = w_bytes (w_u32 w (of_nat (length s))) s"

section \<open>ByteReader\<close>

record reader =
  r_data :: bytes
  r_pos :: nat
  r_ok :: bool

definition mk_reader :: "bytes \<Rightarrow> reader" where
  "mk_reader d = \<lparr>r_data = d, r_pos = 0, r_ok = True\<rparr>"

definition r_remaining :: "reader \<Rightarrow> nat" where
  "r_remaining r = length (r_data r) - r_pos r"

definition r_ensure :: "nat \<Rightarrow> reader \<Rightarrow> bool \<times> reader" where
  "r_ensure n r =
     (if \<not> r_ok r \<or> n > length (r_data r) - r_pos r then (False, r\<lparr>r_ok := False\<rparr>)
      else (True, r))"

definition r_u8 :: "reader \<Rightarrow> u8 \<times> reader" where
  "r_u8 r = (case r_ensure 1 r of (ok, r) \<Rightarrow>
     if \<not> ok then (0, r)
     else (r_data r ! r_pos r, r\<lparr>r_pos := r_pos r + 1\<rparr>))"

definition r_u32 :: "reader \<Rightarrow> u32 \<times> reader" where
  "r_u32 r = (case r_ensure 4 r of (ok, r) \<Rightarrow>
     if \<not> ok then (0, r)
     else (ucast (r_data r ! r_pos r)
           OR push_bit 8 (ucast (r_data r ! (r_pos r + 1)))
           OR push_bit 16 (ucast (r_data r ! (r_pos r + 2)))
           OR push_bit 24 (ucast (r_data r ! (r_pos r + 3))),
           r\<lparr>r_pos := r_pos r + 4\<rparr>))"

definition r_i32 :: "reader \<Rightarrow> i32 \<times> reader" where
  "r_i32 r = r_u32 r"

definition r_u64 :: "reader \<Rightarrow> u64 \<times> reader" where
  "r_u64 r = (case r_ensure 8 r of (ok, r) \<Rightarrow>
     if \<not> ok then (0, r)
     else (fold (\<lambda>i v. v OR push_bit (i * 8) (ucast (r_data r ! (r_pos r + i)))) [0..<8] 0,
           r\<lparr>r_pos := r_pos r + 8\<rparr>))"

definition r_f32 :: "reader \<Rightarrow> f32 \<times> reader" where
  "r_f32 r = r_u32 r"

definition r_str :: "reader \<Rightarrow> bytes \<times> reader" where
  "r_str r = (case r_u32 r of (len, r) \<Rightarrow>
     (case r_ensure (unat len) r of (ok, r) \<Rightarrow>
        if \<not> ok then ([], r)
        else if len = 0 then ([], r)
        else (take (unat len) (drop (r_pos r) (r_data r)), r\<lparr>r_pos := r_pos r + unat len\<rparr>)))"

definition r_sub :: "nat \<Rightarrow> reader \<Rightarrow> reader \<times> reader" where
  "r_sub n r = (case r_ensure n r of (ok, r) \<Rightarrow>
     if \<not> ok then (mk_reader [], r)
     else (mk_reader (take n (drop (r_pos r) (r_data r))), r\<lparr>r_pos := r_pos r + n\<rparr>))"

text \<open>The loop \<open>for (i = 0; i < k; ++i) out.push_back(read())\<close>.\<close>

fun rd_list :: "(reader \<Rightarrow> 'a \<times> reader) \<Rightarrow> nat \<Rightarrow> reader \<Rightarrow> 'a list \<times> reader" where
  "rd_list rd 0 r = ([], r)"
| "rd_list rd (Suc k) r =
     (case rd r of (x, r1) \<Rightarrow> (case rd_list rd k r1 of (xs, r2) \<Rightarrow> (x # xs, r2)))"

section \<open>The cursor invariant and the codec contract\<close>

text \<open>
  \<open>reader_inv\<close> is the invariant the comment in \<open>ensure\<close> states: the cursor never
  passes the end of the span, so the subtraction in \<open>ensure\<close> cannot underflow.
  \<open>reads_from r bs\<close>: the reader is healthy and the unread bytes are \<open>bs\<close>.
\<close>

definition reader_inv :: "reader \<Rightarrow> bool" where
  "reader_inv r \<longleftrightarrow> r_pos r \<le> length (r_data r)"

definition reads_from :: "reader \<Rightarrow> bytes \<Rightarrow> bool" where
  "reads_from r bs \<longleftrightarrow> r_ok r \<and> reader_inv r \<and> drop (r_pos r) (r_data r) = bs"

definition advances :: "reader \<Rightarrow> reader \<Rightarrow> bool" where
  "advances r r' \<longleftrightarrow> r_data r' = r_data r \<and> r_pos r \<le> r_pos r' \<and> (reader_inv r \<longrightarrow> reader_inv r')
     \<and> (r_ok r' \<longrightarrow> r_ok r)"

lemma advances_refl [simp]: "advances r r"
  by (simp add: advances_def)

lemma advances_trans: "advances a b \<Longrightarrow> advances b c \<Longrightarrow> advances a c"
  by (auto simp: advances_def)

lemma reads_from_mk [simp]: "reads_from (mk_reader bs) bs"
  by (simp add: reads_from_def mk_reader_def reader_inv_def)

lemma reads_from_ok: "reads_from r bs \<Longrightarrow> r_ok r"
  by (simp add: reads_from_def)

lemma reads_from_remaining: "reads_from r bs \<Longrightarrow> r_remaining r = length bs"
  by (auto simp: reads_from_def r_remaining_def)

lemma ensure_ok: "reads_from r (bs @ rest) \<Longrightarrow> n = length bs \<Longrightarrow> r_ensure n r = (True, r)"
  by (auto simp: reads_from_def r_ensure_def dest: arg_cong [where f = length])

lemma ensure_advances: "advances r (snd (r_ensure n r))"
  by (simp add: r_ensure_def advances_def reader_inv_def)

lemma reads_from_advance:
  "reads_from r (bs @ rest) \<Longrightarrow> n = length bs \<Longrightarrow> reads_from (r\<lparr>r_pos := r_pos r + n\<rparr>) rest"
  by (auto simp: reads_from_def reader_inv_def dest: drop_append_exact arg_cong [where f = length])

lemma reads_from_nth:
  "reads_from r (bs @ rest) \<Longrightarrow> i < length bs \<Longrightarrow> r_data r ! (r_pos r + i) = bs ! i"
  by (auto simp: reads_from_def reader_inv_def) (metis length_append nth_append nth_drop trans_less_add1)

locale codec =
  fixes enc :: "'a \<Rightarrow> bytes" and rd :: "reader \<Rightarrow> 'a \<times> reader" and valid :: "'a \<Rightarrow> bool"
  assumes rd_enc: "valid a \<Longrightarrow> reads_from r (enc a @ rest) \<Longrightarrow>
      fst (rd r) = a \<and> reads_from (snd (rd r)) rest"
    and rd_advances: "advances r (snd (rd r))"
begin

lemma rd_enc_pair: "valid a \<Longrightarrow> reads_from r (enc a @ rest) \<Longrightarrow> \<exists>r'. rd r = (a, r') \<and> reads_from r' rest"
  using rd_enc by (metis prod.collapse)

lemma rd_list_advances: "advances r (snd (rd_list rd k r))"
proof (induction k arbitrary: r)
  case (Suc k)
  show ?case
    using rd_advances [of r] Suc [of "snd (rd r)"]
    by (auto split: prod.splits intro: advances_trans)
qed simp

lemma rd_list_enc:
  "\<forall>x \<in> set xs. valid x \<Longrightarrow> reads_from r (concat (map enc xs) @ rest) \<Longrightarrow>
    \<exists>r'. rd_list rd (length xs) r = (xs, r') \<and> reads_from r' rest"
proof (induction xs arbitrary: r)
  case (Cons x xs)
  then obtain r1 where r1: "rd r = (x, r1)" "reads_from r1 (concat (map enc xs) @ rest)"
    using rd_enc_pair [of x r "concat (map enc xs) @ rest"] by auto
  with Cons obtain r2 where "rd_list rd (length xs) r1 = (xs, r2)" "reads_from r2 rest"
    by auto
  with r1 show ?case by auto
qed simp

end

text \<open>
  The readers that validate as they go hand back an option: \<open>ocodec\<close> is their contract,
  and every \<open>codec\<close> satisfies it. The laws alone give round trips, unambiguous
  encodings and the fact that no encoding is a proper prefix of another.
\<close>

locale ocodec =
  fixes enc :: "'a \<Rightarrow> bytes" and ord :: "reader \<Rightarrow> 'a option \<times> reader" and valid :: "'a \<Rightarrow> bool"
  assumes ord_enc: "valid a \<Longrightarrow> reads_from r (enc a @ rest) \<Longrightarrow>
      \<exists>r'. ord r = (Some a, r') \<and> reads_from r' rest"
begin

lemma roundtrip: "valid a \<Longrightarrow> fst (ord (mk_reader (enc a))) = Some a"
  using ord_enc [of a "mk_reader (enc a)" "[]"] by auto

lemma prefix_free:
  assumes "valid a" "valid b" "enc a @ xs = enc b @ ys"
  shows "a = b \<and> xs = ys"
proof -
  let ?r = "mk_reader (enc a @ xs)"
  have "reads_from ?r (enc a @ xs)" "reads_from ?r (enc b @ ys)"
    using reads_from_mk [of "enc a @ xs"] assms(3) by simp_all
  then obtain r1 r2 where "ord ?r = (Some a, r1)" "reads_from r1 xs"
      "ord ?r = (Some b, r2)" "reads_from r2 ys"
    using ord_enc assms(1,2) by meson
  then show ?thesis by (simp add: reads_from_def)
qed

lemma enc_inj: "valid a \<Longrightarrow> valid b \<Longrightarrow> enc a = enc b \<Longrightarrow> a = b"
  using prefix_free [of a b "[]" "[]"] by simp

end

sublocale codec \<subseteq> opt: ocodec enc "\<lambda>r. map_prod Some (\<lambda>r. r) (rd r)" valid
  by unfold_locales (auto dest: rd_enc_pair)

section \<open>The pairs of the class\<close>

definition enc_u8 :: "u8 \<Rightarrow> bytes" where "enc_u8 v = w_u8 [] v"
definition enc_u32 :: "u32 \<Rightarrow> bytes" where "enc_u32 v = w_u32 [] v"
definition enc_u64 :: "u64 \<Rightarrow> bytes" where "enc_u64 v = w_u64 [] v"
definition enc_str :: "bytes \<Rightarrow> bytes" where "enc_str s = w_str [] s"

lemma w_append:
  "w_u8 w v8 = w @ enc_u8 v8" "w_u32 w v = w @ enc_u32 v" "w_i32 w v = w @ enc_u32 v"
  "w_f32 w v = w @ enc_u32 v" "w_u64 w v64 = w @ enc_u64 v64" "w_str w s = w @ enc_str s"
  "w_bytes w b = w @ b"
  by (simp_all add: w_u8_def enc_u8_def w_u32_def enc_u32_def w_i32_def w_f32_def w_u64_def
      enc_u64_def w_str_def enc_str_def w_bytes_def)

lemma enc_length [simp]:
  "length (enc_u8 v8) = 1" "length (enc_u32 v) = 4" "length (enc_u64 v64) = 8"
  "length (enc_str s) = 4 + length s"
  by (simp_all add: enc_u8_def w_u8_def enc_u32_def w_u32_def enc_u64_def w_u64_def enc_str_def
      w_str_def w_bytes_def)

text \<open>Byte \<open>k\<close> of a word holds its bits \<open>8k .. 8k+7\<close>.\<close>

lemma bit_low_byte: "bit (low_byte (v :: 'a::len word)) n \<longleftrightarrow> n < 8 \<and> bit v n"
proof -
  have "v AND 0xFF = take_bit 8 v" by (simp add: take_bit_eq_mask mask_eq_exp_minus_1)
  then show ?thesis
    by (auto simp: low_byte_def bit_simps dest: bit_imp_le_length)
qed

lemma bit_placed_byte32:
  "k + 8 \<le> 32 \<Longrightarrow> bit (push_bit k (ucast (low_byte (drop_bit k v))) :: u32) n \<longleftrightarrow>
    k \<le> n \<and> n < k + 8 \<and> bit (v :: u32) n"
  by (auto simp: bit_simps bit_low_byte)

lemma bit_first_byte32:
  "bit (ucast (low_byte v) :: u32) n \<longleftrightarrow> n < 8 \<and> bit (v :: u32) n"
  by (auto simp: bit_simps bit_low_byte)

lemma bit_placed_byte64:
  "k + 8 \<le> 64 \<Longrightarrow> bit (push_bit k (ucast (low_byte (drop_bit k v))) :: u64) n \<longleftrightarrow>
    k \<le> n \<and> n < k + 8 \<and> bit (v :: u64) n"
  by (auto simp: bit_simps bit_low_byte)

lemma join_u32:
  "ucast (low_byte v) OR push_bit 8 (ucast (low_byte (drop_bit 8 v)))
     OR push_bit 16 (ucast (low_byte (drop_bit 16 v)))
     OR push_bit 24 (ucast (low_byte (drop_bit 24 v))) = (v :: u32)" (is "?l = _")
proof (rule bit_word_eqI)
  fix n :: nat
  assume "n < LENGTH(32)"
  then show "bit ?l n \<longleftrightarrow> bit v n"
    unfolding bit_or_iff bit_first_byte32
      bit_placed_byte32 [of 8 v n, simplified] bit_placed_byte32 [of 16 v n, simplified]
      bit_placed_byte32 [of 24 v n, simplified]
    by auto
qed

lemma join_u64:
  "fold (\<lambda>i w. w OR push_bit (i * 8) (ucast (enc_u64 v ! i))) [0..<8] 0 = v" (is "?l = _")
proof (rule bit_word_eqI)
  fix n :: nat
  assume n: "n < LENGTH(64)"
  have e: "enc_u64 v ! i = low_byte (drop_bit (i * 8) v)" if "i < 8" for i
  proof -
    from that have "i \<in> {0, 1, 2, 3, 4, 5, 6, 7}" by auto
    then show ?thesis by (auto simp: enc_u64_def w_u64_def)
  qed
  have "?l =
        fold (\<lambda>i w. w OR push_bit (i * 8) (ucast (low_byte (drop_bit (i * 8) v)))) [0..<8] 0"
    by (rule fold_cong) (auto simp: e)
  moreover have "bit (fold (\<lambda>i w. w OR push_bit (i * 8) (ucast (low_byte (drop_bit (i * 8) v))))
      [0..<k] (0 :: u64)) n \<longleftrightarrow> n < k * 8 \<and> bit v n" if "k \<le> 8" for k
    using that
  proof (induction k)
    case (Suc k)
    then have "k * 8 + 8 \<le> 64" by simp
    from Suc bit_placed_byte64 [OF this, of v n] show ?case
      by (simp only: upt_Suc_append fold_append o_apply fold_simps bit_or_iff) auto
  qed simp
  from this [of 8] n calculation show "bit ?l n \<longleftrightarrow> bit v n"
    by simp
qed

interpretation u8: codec enc_u8 r_u8 "\<lambda>_. True"
proof unfold_locales
  fix a r rest
  assume r: "reads_from r (enc_u8 a @ rest)"
  with ensure_ok [OF r, of 1] reads_from_advance [OF r, of 1] reads_from_nth [OF r, of 0]
  show "fst (r_u8 r) = a \<and> reads_from (snd (r_u8 r)) rest"
    by (simp add: r_u8_def) (simp add: enc_u8_def w_u8_def)
qed (auto simp: r_u8_def r_ensure_def advances_def reader_inv_def)

interpretation u32: codec enc_u32 r_u32 "\<lambda>_. True"
proof unfold_locales
  fix a r rest
  assume r: "reads_from r (enc_u32 a @ rest)"
  with ensure_ok [OF r, of 4] reads_from_advance [OF r, of 4] reads_from_nth [OF r, of 0]
    reads_from_nth [OF r, of 1] reads_from_nth [OF r, of 2] reads_from_nth [OF r, of 3]
  show "fst (r_u32 r) = a \<and> reads_from (snd (r_u32 r)) rest"
    by (simp add: r_u32_def) (simp add: enc_u32_def w_u32_def join_u32)
qed (auto simp: r_u32_def r_ensure_def advances_def reader_inv_def)

interpretation i32: codec enc_u32 r_i32 "\<lambda>_. True"
  unfolding r_i32_def [abs_def] by (rule u32.codec_axioms)

interpretation f32: codec enc_u32 r_f32 "\<lambda>_. True"
  unfolding r_f32_def [abs_def] by (rule u32.codec_axioms)

interpretation u64: codec enc_u64 r_u64 "\<lambda>_. True"
proof unfold_locales
  fix a r rest
  assume r: "reads_from r (enc_u64 a @ rest)"
  have "fold (\<lambda>i v. v OR push_bit (i * 8) (ucast (r_data r ! (r_pos r + i)))) [0..<8] 0 = a"
    by (subst (2) join_u64 [symmetric], rule fold_cong) (use reads_from_nth [OF r] in auto)
  with ensure_ok [OF r, of 8] reads_from_advance [OF r, of 8]
  show "fst (r_u64 r) = a \<and> reads_from (snd (r_u64 r)) rest"
    by (simp add: r_u64_def)
qed (auto simp: r_u64_def r_ensure_def advances_def reader_inv_def)

definition fits_u32 :: "'a list \<Rightarrow> bool" where
  "fits_u32 xs \<longleftrightarrow> length xs < 2 ^ 32"

lemma unat_of_nat_fits [simp]: "fits_u32 xs \<Longrightarrow> unat (of_nat (length xs) :: u32) = length xs"
  by (simp add: fits_u32_def unat_of_nat take_bit_nat_eq_self)

interpretation str: codec enc_str r_str fits_u32
proof unfold_locales
  fix a r rest
  assume f: "fits_u32 a" and "reads_from r (enc_str a @ rest)"
  then have "reads_from r (enc_u32 (of_nat (length a)) @ a @ rest)"
    by (simp add: enc_str_def w_str_def w_append)
  then obtain r1 where r1: "r_u32 r = (of_nat (length a), r1)" "reads_from r1 (a @ rest)"
    using u32.rd_enc_pair by blast
  have z: "(of_nat (length a) :: u32) = 0 \<longleftrightarrow> a = []"
    using unat_of_nat_fits [OF f] by (metis length_0_conv unat_eq_zero)
  have "take (length a) (drop (r_pos r1) (r_data r1)) = a"
    using r1(2) by (simp add: reads_from_def)
  with f r1 z ensure_ok [OF r1(2), of "length a"] reads_from_advance [OF r1(2), of "length a"]
  show "fst (r_str r) = a \<and> reads_from (snd (r_str r)) rest"
    by (auto simp: r_str_def)
next
  fix r
  obtain len r1 where r1: "r_u32 r = (len, r1)" by (cases "r_u32 r")
  have "advances r r1" using u32.rd_advances [of r] by (simp add: r1)
  then show "advances r (snd (r_str r))"
    by (auto simp: r_str_def r1 r_ensure_def advances_def reader_inv_def)
qed

section \<open>Reading arbitrary bytes\<close>

lemma r_sub_enc:
  "reads_from r (bs @ rest) \<Longrightarrow>
    \<exists>r'. r_sub (length bs) r = (mk_reader bs, r') \<and> reads_from r' rest"
  using ensure_ok [of r bs rest] reads_from_advance [of r bs rest]
  by (auto simp: r_sub_def reads_from_def)

lemma r_sub_advances: "advances r (snd (r_sub n r))"
  by (auto simp: r_sub_def r_ensure_def advances_def reader_inv_def)

text \<open>On underflow every fixed-width read latches the error and yields zero.\<close>

lemma r_u32_underflow:
  "\<not> r_ok r \<or> r_remaining r < 4 \<Longrightarrow> r_u32 r = (0, r\<lparr>r_ok := False\<rparr>)"
  by (auto simp: r_u32_def r_ensure_def r_remaining_def)

lemma r_u64_underflow:
  "\<not> r_ok r \<or> r_remaining r < 8 \<Longrightarrow> r_u64 r = (0, r\<lparr>r_ok := False\<rparr>)"
  by (auto simp: r_u64_def r_ensure_def r_remaining_def)

end
