(* ===== verification/Bridge.thy ===== *)
theory Bridge
  imports Serial
begin

text \<open>
  The local bridge: the frame codec of \<open>src/net/src/protocol.cpp\<close> with its reader in
  \<open>socket_io.cpp\<close>, and the session store of \<open>src/net/src/session.cpp\<close>. Strings are byte lists. Every method of the session takes the mutex
  for its whole body, so a method is one step on the state.
\<close>

section \<open>Frames\<close>

definition kMaxMessageBytes :: nat where
  "kMaxMessageBytes = 256 * 1024 * 1024"

definition encodeFrame :: "bytes \<Rightarrow> bytes" where
  "encodeFrame payload =
     (let n = of_nat (length payload) :: u32
      in [low_byte (drop_bit 24 n), low_byte (drop_bit 16 n), low_byte (drop_bit 8 n), low_byte n] @ payload)"

record frame_decoder =
  fd_buffer :: bytes
  fd_failed :: bool

definition decoder0 :: frame_decoder where
  "decoder0 = \<lparr>fd_buffer = [], fd_failed = False\<rparr>"

definition feed :: "bytes \<Rightarrow> frame_decoder \<Rightarrow> frame_decoder" where
  "feed data d = (if \<not> fd_failed d then d\<lparr>fd_buffer := fd_buffer d @ data\<rparr> else d)"

definition frame_length :: "bytes \<Rightarrow> u64" where
  "frame_length b =
     push_bit 24 (ucast (b ! 0)) OR push_bit 16 (ucast (b ! 1)) OR push_bit 8 (ucast (b ! 2)) OR ucast (b ! 3)"

text \<open>\<open>next(out)\<close>: the frame is there exactly when the call returns true.\<close>

definition next_frame :: "frame_decoder \<Rightarrow> bytes option \<times> frame_decoder" where
  "next_frame d =
     (if fd_failed d \<or> length (fd_buffer d) < 4 then (None, d)
      else (let len = unat (frame_length (fd_buffer d))
            in if len > kMaxMessageBytes then (None, d\<lparr>fd_failed := True\<rparr>)
               else if length (fd_buffer d) < len + 4 then (None, d)
               else (Some (take len (drop 4 (fd_buffer d))), d\<lparr>fd_buffer := drop (len + 4) (fd_buffer d)\<rparr>)))"

text \<open>
  \<open>recvFrame\<close> of \<open>socket_io.cpp\<close>: the results of \<open>recv\<close> are the list of chunks, which ends, or is
  empty, when the peer closes. Reading frame after frame is \<open>recvFrames\<close>.
\<close>

fun recvFrame :: "bytes list \<Rightarrow> frame_decoder \<Rightarrow> bytes option \<times> frame_decoder \<times> bytes list" where
  "recvFrame [] d = (case next_frame d of (out, d) \<Rightarrow> (out, d, []))"
| "recvFrame (c # chunks) d =
     (case next_frame d of
        (Some out, d) \<Rightarrow> (Some out, d, c # chunks)
      | (None, d) \<Rightarrow>
          if fd_failed d then (None, d, c # chunks)
          else if c = [] then (None, d, chunks)
          else recvFrame chunks (feed c d))"

fun recvFrames :: "nat \<Rightarrow> bytes list \<Rightarrow> frame_decoder \<Rightarrow> bytes list" where
  "recvFrames 0 chunks d = []"
| "recvFrames (Suc n) chunks d =
     (case recvFrame chunks d of
        (None, d, chunks) \<Rightarrow> []
      | (Some f, d, chunks) \<Rightarrow> f # recvFrames n chunks d)"

section \<open>The session\<close>

record wire_mesh =
  wm_positions :: "f32 list"
  wm_faces :: "u32 list list"
  wm_uvs :: "f32 list"
  wm_colors :: "f32 list"

definition wire_mesh0 :: wire_mesh where
  "wire_mesh0 = \<lparr>wm_positions = [], wm_faces = [], wm_uvs = [], wm_colors = []\<rparr>"

definition wm_vertexCount :: "wire_mesh \<Rightarrow> nat" where
  "wm_vertexCount m = length (wm_positions m) div 3"

record camera_pose =
  cp_position :: "f32 \<times> f32 \<times> f32"
  cp_target :: "f32 \<times> f32 \<times> f32"
  cp_up :: "f32 \<times> f32 \<times> f32"
  cp_fovDegrees :: f32

definition camera_pose0 :: camera_pose where
  "camera_pose0 = \<lparr>cp_position = (0, 0, 0), cp_target = (0, 0, 0), cp_up = (0, 0x3F800000, 0), cp_fovDegrees = 0x42340000\<rparr>"

record symmetry_state =
  sy_axis :: bytes
  sy_enabled :: bool

definition symmetry_state0 :: symmetry_state where
  "symmetry_state0 = \<lparr>sy_axis = map of_char ''none'', sy_enabled = False\<rparr>"

record action_button =
  ab_id :: bytes
  ab_label :: bytes

record wire_guide =
  wg_points :: "f32 list"
  wg_strength :: f32
  wg_radius :: f32

record session =
  se_target :: "wire_mesh option"
  se_guides :: "wire_guide list"
  se_density :: "f32 list"
  se_editMesh :: wire_mesh
  se_editRevision :: u64
  se_message :: bytes
  se_actions :: "action_button list"
  se_presses :: "bytes list"
  se_symmetry :: symmetry_state
  se_camera :: camera_pose

definition session0 :: session where
  "session0 = \<lparr>se_target = None, se_guides = [], se_density = [], se_editMesh = wire_mesh0, se_editRevision = 0,
     se_message = [], se_actions = [], se_presses = [], se_symmetry = symmetry_state0, se_camera = camera_pose0\<rparr>"

definition setTarget :: "wire_mesh \<Rightarrow> session \<Rightarrow> session" where
  "setTarget mesh s = s\<lparr>se_target := Some mesh\<rparr>"

definition hasTarget :: "session \<Rightarrow> bool" where
  "hasTarget s \<longleftrightarrow> se_target s \<noteq> None"

definition session_target :: "session \<Rightarrow> wire_mesh" where
  "session_target s = (case se_target s of Some m \<Rightarrow> m | None \<Rightarrow> wire_mesh0)"

definition setEditMesh :: "wire_mesh \<Rightarrow> session \<Rightarrow> session" where
  "setEditMesh mesh s = s\<lparr>se_editMesh := mesh, se_editRevision := se_editRevision s + 1\<rparr>"

definition setGuides :: "wire_guide list \<Rightarrow> session \<Rightarrow> session" where
  "setGuides guides s = s\<lparr>se_guides := guides\<rparr>"

definition clearGuides :: "session \<Rightarrow> session" where
  "clearGuides s = s\<lparr>se_guides := []\<rparr>"

definition setDensity :: "f32 list \<Rightarrow> session \<Rightarrow> session" where
  "setDensity density s = s\<lparr>se_density := density\<rparr>"

definition clearScene :: "session \<Rightarrow> session" where
  "clearScene s = s\<lparr>se_target := None, se_editMesh := wire_mesh0, se_editRevision := se_editRevision s + 1,
     se_guides := [], se_density := []\<rparr>"

definition closeDocument :: "session \<Rightarrow> session" where
  "closeDocument s = s\<lparr>se_target := None, se_editMesh := wire_mesh0, se_editRevision := se_editRevision s + 1,
     se_guides := [], se_density := [], se_actions := [], se_presses := [], se_message := []\<rparr>"

definition showMessage :: "bytes \<Rightarrow> session \<Rightarrow> session" where
  "showMessage text s = s\<lparr>se_message := text\<rparr>"

text \<open>The loop of \<open>addAction\<close>: the first button with the id gets the label; the flag is the early return.\<close>

fun relabel :: "bytes \<Rightarrow> bytes \<Rightarrow> action_button list \<Rightarrow> bool \<times> action_button list" where
  "relabel i label [] = (False, [])"
| "relabel i label (a # rest) =
     (if ab_id a = i then (True, a\<lparr>ab_label := label\<rparr> # rest)
      else (let (found, rest) = relabel i label rest in (found, a # rest)))"

definition addAction :: "bytes \<Rightarrow> bytes \<Rightarrow> session \<Rightarrow> session" where
  "addAction i label s =
     (let (found, acts) = relabel i label (se_actions s)
      in if found then s\<lparr>se_actions := acts\<rparr>
         else s\<lparr>se_actions := acts @ [\<lparr>ab_id = i, ab_label = label\<rparr>]\<rparr>)"

definition removeAction :: "bytes \<Rightarrow> session \<Rightarrow> session" where
  "removeAction i s = s\<lparr>se_actions := filter (\<lambda>a. ab_id a \<noteq> i) (se_actions s)\<rparr>"

definition pressAction :: "bytes \<Rightarrow> session \<Rightarrow> session" where
  "pressAction i s = (if list_ex (\<lambda>a. ab_id a = i) (se_actions s) then s\<lparr>se_presses := se_presses s @ [i]\<rparr> else s)"

definition takePresses :: "session \<Rightarrow> bytes list \<times> session" where
  "takePresses s = (se_presses s, s\<lparr>se_presses := []\<rparr>)"

definition setSymmetry :: "symmetry_state \<Rightarrow> session \<Rightarrow> session" where
  "setSymmetry symmetry s = s\<lparr>se_symmetry := symmetry\<rparr>"

definition setCamera :: "camera_pose \<Rightarrow> session \<Rightarrow> session" where
  "setCamera pose s = s\<lparr>se_camera := pose\<rparr>"

section \<open>The frame stream\<close>

text \<open>
  The reference: a byte stream is a sequence of frames, then what is left, and whether the rest
  starts with an oversized length.
\<close>

function parse_stream :: "bytes \<Rightarrow> bytes list \<times> bytes \<times> bool" where
  "parse_stream b =
     (if length b < 4 then ([], b, False)
      else if unat (frame_length b) > kMaxMessageBytes then ([], b, True)
      else if length b < unat (frame_length b) + 4 then ([], b, False)
      else (case parse_stream (drop (unat (frame_length b) + 4) b) of (fs, r) \<Rightarrow>
              (take (unat (frame_length b)) (drop 4 b) # fs, r)))"
  by pat_completeness auto
termination by (relation "measure length") auto

declare parse_stream.simps [simp del]

lemma parse_wait: "length b < 4 \<or> unat (frame_length b) \<le> kMaxMessageBytes \<and> length b < unat (frame_length b) + 4 \<Longrightarrow>
    parse_stream b = ([], b, False)"
  by (subst parse_stream.simps) auto

lemma parse_over: "4 \<le> length b \<Longrightarrow> unat (frame_length b) > kMaxMessageBytes \<Longrightarrow> parse_stream b = ([], b, True)"
  by (subst parse_stream.simps) auto

lemma parse_frame:
  "unat (frame_length b) \<le> kMaxMessageBytes \<Longrightarrow> unat (frame_length b) + 4 \<le> length b \<Longrightarrow>
    parse_stream b = (case parse_stream (drop (unat (frame_length b) + 4) b) of (fs, r) \<Rightarrow>
      (take (unat (frame_length b)) (drop 4 b) # fs, r))"
  by (subst parse_stream.simps) auto

lemma frame_length_append: "4 \<le> length b \<Longrightarrow> frame_length (b @ c) = frame_length b"
  by (auto simp: frame_length_def nth_append)

lemma parse_append:
  "parse_stream b = (fs, r, x) \<Longrightarrow> parse_stream (b @ c) =
    (if x then (fs, r @ c, True) else (case parse_stream (r @ c) of (gs, r') \<Rightarrow> (fs @ gs, r')))"
proof (induction b arbitrary: fs rule: parse_stream.induct)
  case (1 b)
  let ?n = "unat (frame_length b)"
  consider "length b < 4 \<or> ?n \<le> kMaxMessageBytes \<and> length b < ?n + 4" | "4 \<le> length b" "?n > kMaxMessageBytes"
    | "?n \<le> kMaxMessageBytes" "?n + 4 \<le> length b" by linarith
  then show ?case
  proof cases
    case 1
    then show ?thesis using "1.prems" parse_wait [of b] by (auto split: prod.splits)
  next
    case 2
    then show ?thesis using "1.prems" parse_over [of b] parse_over [of "b @ c"] by (auto simp: frame_length_append)
  next
    case 3
    obtain gs where gs: "parse_stream (drop (?n + 4) b) = (gs, r, x)" "fs = take ?n (drop 4 b) # gs"
      using "1.prems" parse_frame [OF 3] by (auto split: prod.splits)
    have f: "\<not> length b < 4" "\<not> kMaxMessageBytes < ?n" "\<not> length b < ?n + 4" using 3 by auto
    have "parse_stream (b @ c) = (case parse_stream (drop (?n + 4) b @ c) of (fs, r) \<Rightarrow> (take ?n (drop 4 b) # fs, r))"
      using parse_frame [of "b @ c"] 3 by (simp add: frame_length_append)
    then show ?thesis using "1.IH" [OF f gs(1)] by (simp add: gs(2) split: prod.splits)
  qed
qed

lemma next_frame_parse:
  assumes "\<not> fd_failed d" "next_frame d = (f, d')"
  shows "case f of
      Some g \<Rightarrow> \<not> fd_failed d' \<and> (\<forall>gs r. parse_stream (fd_buffer d') = (gs, r) \<longrightarrow> parse_stream (fd_buffer d) = (g # gs, r))
    | None \<Rightarrow> fd_buffer d' = fd_buffer d \<and> parse_stream (fd_buffer d) = ([], fd_buffer d, fd_failed d')"
proof -
  let ?b = "fd_buffer d"
  consider "length ?b < 4 \<or> unat (frame_length ?b) \<le> kMaxMessageBytes \<and> length ?b < unat (frame_length ?b) + 4"
    | "4 \<le> length ?b" "unat (frame_length ?b) > kMaxMessageBytes"
    | "unat (frame_length ?b) \<le> kMaxMessageBytes" "unat (frame_length ?b) + 4 \<le> length ?b" by linarith
  then show ?thesis
  proof cases
    case 1
    then have "f = None \<and> d' = d" using assms by (auto simp: next_frame_def Let_def split: if_splits)
    then show ?thesis using assms(1) parse_wait [OF 1] by simp
  next
    case 2
    then have "f = None \<and> d' = d\<lparr>fd_failed := True\<rparr>" using assms by (auto simp: next_frame_def Let_def)
    then show ?thesis using parse_over [OF 2] by simp
  next
    case 3
    then have "f = Some (take (unat (frame_length ?b)) (drop 4 ?b)) \<and>
        d' = d\<lparr>fd_buffer := drop (unat (frame_length ?b) + 4) ?b\<rparr>"
      using assms by (auto simp: next_frame_def Let_def)
    then show ?thesis using parse_frame [OF 3] assms(1) by auto
  qed
qed

text \<open>However the bytes are cut into chunks, the frames are those of the whole stream.\<close>

lemma recvFrame_parse:
  "\<not> fd_failed d \<Longrightarrow> [] \<notin> set chunks \<Longrightarrow> recvFrame chunks d = (f, d', cs) \<Longrightarrow>
    parse_stream (fd_buffer d @ concat chunks) = (fs, r, x) \<Longrightarrow>
    (case f of None \<Rightarrow> fs = [] \<and> fd_failed d' = x
     | Some g \<Rightarrow> \<not> fd_failed d' \<and> set cs \<subseteq> set chunks \<and>
         (\<exists>gs. fs = g # gs \<and> parse_stream (fd_buffer d' @ concat cs) = (gs, r, x)))"
proof (induction chunks arbitrary: d)
  case Nil
  obtain g d1 where n: "next_frame d = (g, d1)" by fastforce
  note p = next_frame_parse [OF Nil.prems(1) n]
  show ?case
  proof (cases g)
    case None
    then show ?thesis using Nil p by (auto simp: n)
  next
    case (Some h)
    obtain gs r1 x1 where q: "parse_stream (fd_buffer d1) = (gs, r1, x1)" by (cases "parse_stream (fd_buffer d1)")
    then show ?thesis using Nil p Some by (auto simp: n)
  qed
next
  case (Cons c chunks)
  obtain g d1 where n: "next_frame d = (g, d1)" by fastforce
  note p = next_frame_parse [OF Cons.prems(1) n]
  show ?case
  proof (cases g)
    case None
    then have d1: "fd_buffer d1 = fd_buffer d" "parse_stream (fd_buffer d) = ([], fd_buffer d, fd_failed d1)" using p by simp_all
    show ?thesis
    proof (cases "fd_failed d1")
      case True
      then show ?thesis
        using Cons.prems parse_append [OF d1(2), of "concat (c # chunks)"] None by (auto simp: n)
    next
      case False
      have "fd_buffer (feed c d1) @ concat chunks = fd_buffer d @ concat (c # chunks)" "\<not> fd_failed (feed c d1)"
        using False d1(1) by (simp_all add: feed_def)
      moreover have "recvFrame chunks (feed c d1) = (f, d', cs)" using Cons.prems False None by (auto simp: n)
      ultimately show ?thesis using Cons.IH [of "feed c d1"] Cons.prems by (auto split: option.splits)
    qed
  next
    case (Some h)
    obtain gs r0 x0 where q: "parse_stream (fd_buffer d1) = (gs, r0, x0)" by (cases "parse_stream (fd_buffer d1)")
    have d: "\<not> fd_failed d1" "parse_stream (fd_buffer d) = (h # gs, r0, x0)" using p q Some by auto
    have "f = Some h \<and> d' = d1 \<and> cs = c # chunks" using Cons.prems Some by (simp add: n)
    then show ?thesis
      using Cons.prems(4) d(1) parse_append [OF d(2), of "concat (c # chunks)"] parse_append [OF q, of "concat (c # chunks)"]
      by (auto split: if_splits prod.splits)
  qed
qed

lemma recvFrames_parse:
  "\<not> fd_failed d \<Longrightarrow> [] \<notin> set chunks \<Longrightarrow>
    recvFrames n chunks d = take n (fst (parse_stream (fd_buffer d @ concat chunks)))"
proof (induction n arbitrary: chunks d)
  case (Suc n)
  obtain f d' cs where r: "recvFrame chunks d = (f, d', cs)" using prod_cases3 by blast
  obtain fs r0 x where p: "parse_stream (fd_buffer d @ concat chunks) = (fs, r0, x)" using prod_cases3 by blast
  note q = recvFrame_parse [OF Suc.prems r p]
  show ?case
  proof (cases f)
    case None
    then show ?thesis using q by (simp add: r p)
  next
    case (Some g)
    then have "\<not> fd_failed d'" "[] \<notin> set cs" using q Suc.prems(2) by auto
    from Suc.IH [OF this] show ?thesis using q Some by (auto simp: r p)
  qed
qed simp

lemma frame_length_encode:
  assumes "length p < 2 ^ 32"
  shows "unat (frame_length (encodeFrame p @ rest)) = length p"
proof -
  let ?n = "of_nat (length p) :: u32"
  have "frame_length (encodeFrame p @ rest) = ucast ?n"
  proof (rule bit_word_eqI)
    fix k :: nat
    assume "k < LENGTH(64)"
    show "bit (frame_length (encodeFrame p @ rest)) k = bit (ucast ?n :: u64) k"
      by (simp add: frame_length_def encodeFrame_def Let_def bit_simps bit_low_byte) (auto dest: bit_imp_le_length)
  qed
  moreover have "unat ?n = length p" using assms by (simp add: unat_of_nat take_bit_nat_eq_self)
  ultimately show ?thesis using assms by (simp add: unsigned_ucast_eq take_bit_nat_eq_self)
qed

lemma parse_encoded:
  "\<forall>p \<in> set ps. length p \<le> kMaxMessageBytes \<Longrightarrow> parse_stream (concat (map encodeFrame ps) @ rest) =
    (case parse_stream rest of (fs, r) \<Rightarrow> (ps @ fs, r))"
proof (induction ps)
  case (Cons p ps)
  let ?b = "encodeFrame p @ concat (map encodeFrame ps) @ rest"
  have "length p < 2 ^ 32" using Cons.prems by (simp add: kMaxMessageBytes_def)
  then have n: "unat (frame_length ?b) = length p" by (rule frame_length_encode)
  have l: "length ?b = 4 + length p + length (concat (map encodeFrame ps) @ rest)" by (simp add: encodeFrame_def Let_def)
  have d: "drop (length p + 4) ?b = concat (map encodeFrame ps) @ rest" "take (length p) (drop 4 ?b) = p"
    by (simp_all add: encodeFrame_def Let_def drop_drop [symmetric] del: drop_drop)
  have "parse_stream ?b = (case parse_stream (concat (map encodeFrame ps) @ rest) of (fs, r) \<Rightarrow> (p # fs, r))"
    using parse_frame [of ?b] Cons.prems by (simp only: n d l) simp
  then show ?case using Cons by (simp split: prod.splits)
qed simp

end
