(* ===== verification/BridgeProps.thy ===== *)
theory BridgeProps
  imports Bridge
begin

text \<open>
  The properties of the bridge: the frame codec under any cutting of the byte stream, the refusal
  of oversized frames, and the session as a transition system over its methods.
\<close>

section \<open>Frames\<close>

text \<open>
  C24. Frames sent one after the other are received one after the other: however the transport cuts
  the byte stream into non-empty chunks, reading frame after frame gives exactly the payloads in
  order, with an incomplete header at the end left over.
\<close>

theorem frames_any_chunking:
  assumes "\<forall>p \<in> set ps. length p \<le> kMaxMessageBytes" "length rest < 4"
    "concat chunks = concat (map encodeFrame ps) @ rest" "[] \<notin> set chunks"
  shows "recvFrames n chunks decoder0 = take n ps"
proof -
  have "parse_stream rest = ([], rest, False)" by (rule parse_wait) (use assms(2) in simp)
  then have "fst (parse_stream (concat chunks)) = ps" using parse_encoded [OF assms(1), of rest] by (simp add: assms(3))
  then show ?thesis using recvFrames_parse [of decoder0 chunks n] assms(4) by (simp add: decoder0_def)
qed

theorem frames_any_chunking_witness:
  "recvFrames 5 (map (\<lambda>b. [b]) (encodeFrame [1, 2, 3] @ encodeFrame [] @ [0, 0])) decoder0 = [[1, 2, 3], []]"
proof -
  have "concat (map (\<lambda>b. [b]) xs) = xs" for xs :: bytes by (induction xs) simp_all
  then show ?thesis
    using frames_any_chunking [of "[[1, 2, 3], []]" "[0, 0]"
        "map (\<lambda>b. [b]) (encodeFrame [1, 2, 3] @ encodeFrame [] @ [0, 0])" 5]
    by (auto simp: kMaxMessageBytes_def)
qed

text \<open>
  C25. A frame whose header announces more than the limit latches failure at once: no frame comes
  out of the decoder any more, and nothing that is fed later is stored.
\<close>

theorem oversized_latches:
  assumes "\<not> fd_failed d" "4 \<le> length (fd_buffer d)" "kMaxMessageBytes < unat (frame_length (fd_buffer d))"
    "next_frame d = (f, d')"
  shows "f = None \<and> fd_failed d' \<and> feed data d' = d' \<and> next_frame d' = (None, d') \<and>
    fst (recvFrame chunks d') = None"
proof -
  have "f = None \<and> d' = d\<lparr>fd_failed := True\<rparr>" using assms by (auto simp: next_frame_def Let_def)
  moreover have "fst (recvFrame chunks (d\<lparr>fd_failed := True\<rparr>)) = None" by (cases chunks) (simp_all add: next_frame_def)
  ultimately show ?thesis by (simp add: feed_def next_frame_def)
qed

theorem oversized_latches_witness:
  "\<exists>d'. next_frame (feed [255, 255, 255, 255] decoder0) = (None, d') \<and> fd_failed d' \<and> feed [1, 2] d' = d'"
proof -
  let ?d = "feed [255, 255, 255, 255] decoder0"
  have h: "\<not> fd_failed ?d" "4 \<le> length (fd_buffer ?d)" "kMaxMessageBytes < unat (frame_length (fd_buffer ?d))"
    by (simp_all add: feed_def decoder0_def kMaxMessageBytes_def frame_length_def)
  obtain f d' where n: "next_frame ?d = (f, d')" by fastforce
  from oversized_latches [OF h n, of "[1, 2]" "[]"] n show ?thesis by auto
qed

section \<open>The session as a transition system\<close>

inductive session_step :: "session \<Rightarrow> session \<Rightarrow> bool" where
  step_setTarget: "session_step s (setTarget mesh s)"
| step_setEditMesh: "session_step s (setEditMesh mesh s)"
| step_setGuides: "session_step s (setGuides guides s)"
| step_clearGuides: "session_step s (clearGuides s)"
| step_setDensity: "session_step s (setDensity density s)"
| step_clearScene: "session_step s (clearScene s)"
| step_closeDocument: "session_step s (closeDocument s)"
| step_showMessage: "session_step s (showMessage text s)"
| step_addAction: "session_step s (addAction i label s)"
| step_removeAction: "session_step s (removeAction i s)"
| step_pressAction: "session_step s (pressAction i s)"
| step_takePresses: "session_step s (snd (takePresses s))"
| step_setSymmetry: "session_step s (setSymmetry symmetry s)"
| step_setCamera: "session_step s (setCamera pose s)"

inductive session_run :: "nat \<Rightarrow> session \<Rightarrow> session \<Rightarrow> bool" where
  run_nil: "session_run 0 s s"
| run_step: "session_run n s s1 \<Longrightarrow> session_step s1 s2 \<Longrightarrow> session_run (Suc n) s s2"

inductive_cases session_stepE: "session_step s s'"





text \<open>Every step either keeps the edit mesh and its revision or counts the revision up.\<close>

lemma session_step_revision:
  "session_step s s' \<Longrightarrow> (se_editRevision s' = se_editRevision s \<and> se_editMesh s' = se_editMesh s) \<or>
    se_editRevision s' = se_editRevision s + 1"
  by (cases rule: session_step.cases, assumption)
    (auto simp: setTarget_def setEditMesh_def setGuides_def clearGuides_def setDensity_def clearScene_def closeDocument_def
      showMessage_def addAction_def removeAction_def pressAction_def takePresses_def setSymmetry_def setCamera_def split_beta Let_def)

lemma session_run_revision:
  "session_run n s s' \<Longrightarrow> \<exists>k \<le> n. se_editRevision s' = se_editRevision s + of_nat k \<and> (k = 0 \<longrightarrow> se_editMesh s' = se_editMesh s)"
proof (induction rule: session_run.induct)
  case (run_step n s s1 s2)
  then obtain k where k: "k \<le> n" "se_editRevision s1 = se_editRevision s + of_nat k" "k = 0 \<longrightarrow> se_editMesh s1 = se_editMesh s" by blast
  from session_step_revision [OF run_step.hyps(2)] show ?case
  proof
    assume "se_editRevision s2 = se_editRevision s1 \<and> se_editMesh s2 = se_editMesh s1"
    then show ?thesis using k by (intro exI [of _ k]) simp
  next
    assume "se_editRevision s2 = se_editRevision s1 + 1"
    then show ?thesis using k by (intro exI [of _ "Suc k"]) (simp add: algebra_simps)
  qed
qed simp


text \<open>
  C26. The change query is sound: over any run of fewer than 2^64 calls, an unchanged revision
  number means an unchanged edit mesh, in spite of the counter's wrap-around.
\<close>

theorem revision_sound:
  assumes "session_run n s s'" "n < 2 ^ 64" "se_editRevision s' = se_editRevision s"
  shows "se_editMesh s' = se_editMesh s"
proof -
  obtain k where k: "k \<le> n" "se_editRevision s' = se_editRevision s + of_nat k" "k = 0 \<longrightarrow> se_editMesh s' = se_editMesh s"
    using session_run_revision [OF assms(1)] by blast
  have "(of_nat k :: u64) = 0" using k(2) assms(3) by simp
  then have "unat (of_nat k :: u64) = 0" by simp
  then have "k = 0" using k(1) assms(2) by (simp add: unat_of_nat take_bit_nat_eq_self)
  then show ?thesis using k(3) by blast
qed

theorem revision_sound_witness:
  "se_editMesh (showMessage [65] (setTarget wire_mesh0 session0)) = se_editMesh session0"
proof -
  have "session_run (Suc (Suc 0)) session0 (showMessage [65] (setTarget wire_mesh0 session0))"
    by (rule run_step [OF run_step [OF run_nil step_setTarget] step_showMessage])
  from revision_sound [OF this] show ?thesis by (simp add: showMessage_def setTarget_def)
qed



end
