(* ===== verification/Floats.thy ===== *)
theory Floats
  imports Prelude
begin

text \<open>
  The floating-point arithmetic the sources use: IEEE-754 binary32 (\<open>float\<close>) and
  binary64 (\<open>double\<close>) in round-to-nearest-even, on bit patterns. A value is decoded to an
  exact dyadic number \<open>m * 2 ^ e\<close>, the operation is carried out exactly, and the result is
  rounded once. A NaN result is the canonical quiet NaN; contraction to fused operations
  and extended intermediate precision are not modelled.
\<close>

section \<open>Formats and decoding\<close>

record float_format =
  ff_prec :: nat   \<comment> \<open>significand bits, the hidden one included\<close>
  ff_emin :: int   \<comment> \<open>exponent of the last place of a subnormal\<close>
  ff_inf :: nat    \<comment> \<open>the magnitude bits of infinity\<close>
  ff_sign :: nat   \<comment> \<open>the value of the sign bit\<close>

definition binary32 :: float_format where
  "binary32 = \<lparr>ff_prec = 24, ff_emin = -149, ff_inf = 0x7F800000, ff_sign = 0x80000000\<rparr>"

definition binary64 :: float_format where
  "binary64 = \<lparr>ff_prec = 53, ff_emin = -1074, ff_inf = 0x7FF0000000000000,
               ff_sign = 0x8000000000000000\<rparr>"

datatype fval = FNan | FInf bool | FFin bool nat int

definition fdecode :: "float_format \<Rightarrow> nat \<Rightarrow> fval" where
  "fdecode F n =
     (let s = (n \<ge> ff_sign F); mag = n mod ff_sign F; h = 2 ^ (ff_prec F - 1)
      in if mag > ff_inf F then FNan
         else if mag = ff_inf F then FInf s
         else if mag div h = 0 then FFin s mag (ff_emin F)
         else FFin s (mag mod h + h) (ff_emin F + int (mag div h) - 1))"

fun bitlen :: "nat \<Rightarrow> nat" where
  "bitlen n = (if n = 0 then 0 else Suc (bitlen (n div 2)))"

declare bitlen.simps [simp del]

text \<open>
  Magnitude bits of \<open>m * 2 ^ e\<close> rounded to nearest, ties to even. With \<open>t\<close> the exponent of
  the last place and \<open>q\<close> the rounded significand, the encoding is
  \<open>(t - emin) * 2 ^ (p - 1) + q\<close>: the hidden bit carries into the exponent field, a
  significand that rounds up to \<open>2 ^ p\<close> moves to the next binade by the same addition, and
  a subnormal is the case \<open>t = emin\<close>.
\<close>

definition fround :: "float_format \<Rightarrow> nat \<Rightarrow> int \<Rightarrow> nat" where
  "fround F m e =
     (if m = 0 then 0
      else let t = max (e + int (bitlen m) - int (ff_prec F)) (ff_emin F);
               q = (if t \<le> e then m * 2 ^ nat (e - t)
                    else let d = 2 ^ nat (t - e); f = m div d; r = m mod d
                         in if 2 * r > d \<or> (2 * r = d \<and> odd f) then f + 1 else f);
               bits = nat (t - ff_emin F) * 2 ^ (ff_prec F - 1) + q
           in min bits (ff_inf F))"

definition fencode :: "float_format \<Rightarrow> fval \<Rightarrow> nat" where
  "fencode F v =
     (case v of
        FNan \<Rightarrow> ff_inf F + 2 ^ (ff_prec F - 2)
      | FInf s \<Rightarrow> (if s then ff_sign F else 0) + ff_inf F
      | FFin s m e \<Rightarrow> (if s then ff_sign F else 0) + fround F m e)"

section \<open>Arithmetic on decoded values\<close>

definition signed_mant :: "bool \<Rightarrow> nat \<Rightarrow> int" where
  "signed_mant s m = (if s then - int m else int m)"

fun fv_neg :: "fval \<Rightarrow> fval" where
  "fv_neg FNan = FNan"
| "fv_neg (FInf s) = FInf (\<not> s)"
| "fv_neg (FFin s m e) = FFin (\<not> s) m e"

fun fv_add :: "fval \<Rightarrow> fval \<Rightarrow> fval" where
  "fv_add (FFin s1 m1 e1) (FFin s2 m2 e2) =
     (let e = min e1 e2;
          m = signed_mant s1 m1 * 2 ^ nat (e1 - e) + signed_mant s2 m2 * 2 ^ nat (e2 - e)
      in if m = 0 then FFin (s1 \<and> s2) 0 e else FFin (m < 0) (nat \<bar>m\<bar>) e)"
| "fv_add (FInf s1) (FInf s2) = (if s1 = s2 then FInf s1 else FNan)"
| "fv_add (FInf s1) (FFin _ _ _) = FInf s1"
| "fv_add (FFin _ _ _) (FInf s2) = FInf s2"
| "fv_add _ _ = FNan"

fun fv_mul :: "fval \<Rightarrow> fval \<Rightarrow> fval" where
  "fv_mul (FFin s1 m1 e1) (FFin s2 m2 e2) = FFin (s1 \<noteq> s2) (m1 * m2) (e1 + e2)"
| "fv_mul (FInf s1) (FInf s2) = FInf (s1 \<noteq> s2)"
| "fv_mul (FInf s1) (FFin s2 m2 _) = (if m2 = 0 then FNan else FInf (s1 \<noteq> s2))"
| "fv_mul (FFin s1 m1 _) (FInf s2) = (if m1 = 0 then FNan else FInf (s1 \<noteq> s2))"
| "fv_mul _ _ = FNan"

text \<open>
  The quotient keeps \<open>k\<close> extra bits and a sticky bit for a non-zero remainder, which is
  enough for one correct rounding as soon as \<open>k\<close> exceeds the precision of both operands.
\<close>

fun fv_div :: "nat \<Rightarrow> fval \<Rightarrow> fval \<Rightarrow> fval" where
  "fv_div k (FFin s1 m1 e1) (FFin s2 m2 e2) =
     (if m2 = 0 then (if m1 = 0 then FNan else FInf (s1 \<noteq> s2))
      else let n = m1 * 2 ^ k
           in FFin (s1 \<noteq> s2) (2 * (n div m2) + (if n mod m2 = 0 then 0 else 1))
                (e1 - e2 - int k - 1))"
| "fv_div _ (FInf s1) (FFin s2 _ _) = FInf (s1 \<noteq> s2)"
| "fv_div _ (FFin s1 _ _) (FInf s2) = FFin (s1 \<noteq> s2) 0 0"
| "fv_div _ _ _ = FNan"

fun isqrt :: "nat \<Rightarrow> nat" where
  "isqrt n = (if n = 0 then 0
              else let r = 2 * isqrt (n div 4) in if (r + 1) * (r + 1) \<le> n then r + 1 else r)"

declare isqrt.simps [simp del]

fun fv_sqrt :: "nat \<Rightarrow> fval \<Rightarrow> fval" where
  "fv_sqrt p (FFin s m e) =
     (if m = 0 then FFin s 0 e
      else if s then FNan
      else let k = 2 * p + 4 + (if even (e - int (2 * p + 4)) then 0 else 1);
               n = m * 2 ^ k; r = isqrt n
           in FFin False (2 * r + (if r * r = n then 0 else 1)) ((e - int k) div 2 - 1))"
| "fv_sqrt p (FInf s) = (if s then FNan else FInf False)"
| "fv_sqrt p FNan = FNan"

section \<open>float\<close>

definition dec32 :: "f32 \<Rightarrow> fval" where
  "dec32 a = fdecode binary32 (unat a)"

definition enc32 :: "fval \<Rightarrow> f32" where
  "enc32 v = of_nat (fencode binary32 v)"

definition fadd :: "f32 \<Rightarrow> f32 \<Rightarrow> f32" where "fadd a b = enc32 (fv_add (dec32 a) (dec32 b))"
definition fsub :: "f32 \<Rightarrow> f32 \<Rightarrow> f32" where "fsub a b = enc32 (fv_add (dec32 a) (fv_neg (dec32 b)))"
definition fmul :: "f32 \<Rightarrow> f32 \<Rightarrow> f32" where "fmul a b = enc32 (fv_mul (dec32 a) (dec32 b))"
definition fdiv :: "f32 \<Rightarrow> f32 \<Rightarrow> f32" where "fdiv a b = enc32 (fv_div 60 (dec32 a) (dec32 b))"
definition fsqrt :: "f32 \<Rightarrow> f32" where "fsqrt a = enc32 (fv_sqrt 24 (dec32 a))"

text \<open>\<open>static_cast<float>(n)\<close> for an unsigned integer.\<close>

definition f32_of_nat :: "nat \<Rightarrow> f32" where
  "f32_of_nat n = enc32 (FFin False n 0)"

text \<open>\<open>std::fabs\<close> clears the sign bit; \<open>std::clamp\<close> returns a NaN operand unchanged.\<close>

definition fabs32 :: "f32 \<Rightarrow> f32" where
  "fabs32 a = a AND 0x7FFFFFFF"

definition f32_isnan :: "f32 \<Rightarrow> bool" where
  "f32_isnan a \<longleftrightarrow> unat a mod 2 ^ 31 > 0x7F800000"

definition f32_isfinite :: "f32 \<Rightarrow> bool" where
  "f32_isfinite a \<longleftrightarrow> unat a mod 2 ^ 31 < 0x7F800000"

text \<open>
  Sign-magnitude patterns of numbers compare as the signed magnitudes do; the two zeros
  have the same key, and a NaN is unordered.
\<close>

definition f32_key :: "f32 \<Rightarrow> int" where
  "f32_key a = (if unat a \<ge> 2 ^ 31 then - int (unat a mod 2 ^ 31) else int (unat a))"

definition flt :: "f32 \<Rightarrow> f32 \<Rightarrow> bool" where
  "flt a b \<longleftrightarrow> \<not> f32_isnan a \<and> \<not> f32_isnan b \<and> f32_key a < f32_key b"

definition fle :: "f32 \<Rightarrow> f32 \<Rightarrow> bool" where
  "fle a b \<longleftrightarrow> \<not> f32_isnan a \<and> \<not> f32_isnan b \<and> f32_key a \<le> f32_key b"

definition feq :: "f32 \<Rightarrow> f32 \<Rightarrow> bool" where
  "feq a b \<longleftrightarrow> \<not> f32_isnan a \<and> \<not> f32_isnan b \<and> f32_key a = f32_key b"

definition fclamp :: "f32 \<Rightarrow> f32 \<Rightarrow> f32 \<Rightarrow> f32" where
  "fclamp v lo hi = (if flt v lo then lo else if flt hi v then hi else v)"

abbreviation f32_0 :: f32 where "f32_0 \<equiv> 0"
abbreviation f32_half :: f32 where "f32_half \<equiv> 0x3F000000"
abbreviation f32_1 :: f32 where "f32_1 \<equiv> 0x3F800000"

section \<open>double\<close>

definition dec64 :: "f64 \<Rightarrow> fval" where
  "dec64 a = fdecode binary64 (unat a)"

definition enc64 :: "fval \<Rightarrow> f64" where
  "enc64 v = of_nat (fencode binary64 v)"

definition dsub :: "f64 \<Rightarrow> f64 \<Rightarrow> f64" where "dsub a b = enc64 (fv_add (dec64 a) (fv_neg (dec64 b)))"

definition dadd :: "f64 \<Rightarrow> f64 \<Rightarrow> f64" where "dadd a b = enc64 (fv_add (dec64 a) (dec64 b))"
definition dmul :: "f64 \<Rightarrow> f64 \<Rightarrow> f64" where "dmul a b = enc64 (fv_mul (dec64 a) (dec64 b))"
definition ddiv :: "f64 \<Rightarrow> f64 \<Rightarrow> f64" where "ddiv a b = enc64 (fv_div 120 (dec64 a) (dec64 b))"
definition dsqrt :: "f64 \<Rightarrow> f64" where "dsqrt a = enc64 (fv_sqrt 53 (dec64 a))"

text \<open>
  The conversions between the formats and from an integer. Narrowing a \<open>double\<close> above the
  largest \<open>float\<close> is undefined in the language; IEEE-754 hardware gives infinity.
\<close>

definition f64_of_f32 :: "f32 \<Rightarrow> f64" where "f64_of_f32 a = enc64 (dec32 a)"
definition f32_of_f64 :: "f64 \<Rightarrow> f32" where "f32_of_f64 a = enc32 (dec64 a)"
definition f64_of_int :: "int \<Rightarrow> f64" where "f64_of_int i = enc64 (FFin (i < 0) (nat \<bar>i\<bar>) 0)"

definition f64_isfinite :: "f64 \<Rightarrow> bool" where
  "f64_isfinite a \<longleftrightarrow> unat a mod 2 ^ 63 < 0x7FF0000000000000"

definition f64_isnan :: "f64 \<Rightarrow> bool" where
  "f64_isnan a \<longleftrightarrow> unat a mod 2 ^ 63 > 0x7FF0000000000000"

definition f64_key :: "f64 \<Rightarrow> int" where
  "f64_key a = (if unat a \<ge> 2 ^ 63 then - int (unat a mod 2 ^ 63) else int (unat a))"

definition dle :: "f64 \<Rightarrow> f64 \<Rightarrow> bool" where
  "dle a b \<longleftrightarrow> \<not> f64_isnan a \<and> \<not> f64_isnan b \<and> f64_key a \<le> f64_key b"

definition dlt :: "f64 \<Rightarrow> f64 \<Rightarrow> bool" where
  "dlt a b \<longleftrightarrow> \<not> f64_isnan a \<and> \<not> f64_isnan b \<and> f64_key a < f64_key b"

section \<open>Order\<close>

lemma flt_irrefl [simp]: "\<not> flt a a"
  by (simp add: flt_def)

lemma flt_trans: "flt a b \<Longrightarrow> flt b c \<Longrightarrow> flt a c"
  by (auto simp: flt_def)

lemma fle_refl_iff: "fle a a \<longleftrightarrow> \<not> f32_isnan a"
  by (simp add: fle_def)

lemma fle_trans: "fle a b \<Longrightarrow> fle b c \<Longrightarrow> fle a c"
  by (auto simp: fle_def)

lemma not_flt_iff: "\<not> f32_isnan a \<Longrightarrow> \<not> f32_isnan b \<Longrightarrow> \<not> flt a b \<longleftrightarrow> fle b a"
  by (auto simp: flt_def fle_def)

lemma finite_not_nan: "f32_isfinite a \<Longrightarrow> \<not> f32_isnan a"
  by (simp add: f32_isfinite_def f32_isnan_def)

section \<open>Arithmetic laws the mesh code relies on\<close>

lemma fv_add_commute: "fv_add a b = fv_add b a"
  by (cases a; cases b) (auto simp: Let_def min.commute add.commute conj_commute)

lemma fadd_commute: "fadd a b = fadd b a"
  by (simp add: fadd_def fv_add_commute)

lemma fv_mul_commute: "fv_mul a b = fv_mul b a"
  by (cases a; cases b) (auto simp: mult.commute add.commute)

lemma fmul_commute: "fmul a b = fmul b a"
  by (simp add: fmul_def fv_mul_commute)

lemma isqrt_bounds: "isqrt n * isqrt n \<le> n \<and> n < (isqrt n + 1) * (isqrt n + 1)"
proof (induction n rule: isqrt.induct)
  case (1 n)
  show ?case
  proof (cases "n = 0")
    case True
    then show ?thesis by (simp add: isqrt.simps)
  next
    case False
    define q where "q = isqrt (n div 4)"
    have q: "q * q \<le> n div 4" "n div 4 < (q + 1) * (q + 1)"
      using 1 False by (auto simp: q_def)
    have "4 * (q * q) \<le> n" using q(1) by linarith
    moreover have "n < 4 * ((q + 1) * (q + 1))" using q(2) by linarith
    moreover have "isqrt n = (if (2 * q + 1) * (2 * q + 1) \<le> n then 2 * q + 1 else 2 * q)"
      using False by (subst isqrt.simps) (simp add: q_def Let_def)
    ultimately show ?thesis by (auto simp: algebra_simps)
  qed
qed

lemma isqrt_eq: "r * r \<le> n \<Longrightarrow> n < (r + 1) * (r + 1) \<Longrightarrow> isqrt n = r"
proof -
  assume r: "r * r \<le> n" "n < (r + 1) * (r + 1)"
  have "isqrt n < r + 1" "r < isqrt n + 1"
    using isqrt_bounds [of n] r by (meson le_less_trans mult_le_mono not_less)+
  then show "isqrt n = r" by simp
qed

end
