(* ===== verification/Vectors.thy ===== *)
theory Vectors
  imports Floats
begin

text \<open>
  The vector types of \<open>src/core/include/cyber/core/math.hpp\<close>, component by component in
  the order the source evaluates them.
\<close>

record vec2 =
  v2x :: f32
  v2y :: f32

record vec3 =
  v3x :: f32
  v3y :: f32
  v3z :: f32

record vec4 =
  v4x :: f32
  v4y :: f32
  v4z :: f32
  v4w :: f32

definition vec2_zero :: vec2 where "vec2_zero = \<lparr>v2x = 0, v2y = 0\<rparr>"
definition vec3_zero :: vec3 where "vec3_zero = \<lparr>v3x = 0, v3y = 0, v3z = 0\<rparr>"
definition vec4_zero :: vec4 where "vec4_zero = \<lparr>v4x = 0, v4y = 0, v4z = 0, v4w = 0\<rparr>"

definition add2 :: "vec2 \<Rightarrow> vec2 \<Rightarrow> vec2" where
  "add2 a b = \<lparr>v2x = fadd (v2x a) (v2x b), v2y = fadd (v2y a) (v2y b)\<rparr>"
definition sub2 :: "vec2 \<Rightarrow> vec2 \<Rightarrow> vec2" where
  "sub2 a b = \<lparr>v2x = fsub (v2x a) (v2x b), v2y = fsub (v2y a) (v2y b)\<rparr>"
definition scale2 :: "vec2 \<Rightarrow> f32 \<Rightarrow> vec2" where
  "scale2 a s = \<lparr>v2x = fmul (v2x a) s, v2y = fmul (v2y a) s\<rparr>"

definition add3 :: "vec3 \<Rightarrow> vec3 \<Rightarrow> vec3" where
  "add3 a b = \<lparr>v3x = fadd (v3x a) (v3x b), v3y = fadd (v3y a) (v3y b), v3z = fadd (v3z a) (v3z b)\<rparr>"
definition sub3 :: "vec3 \<Rightarrow> vec3 \<Rightarrow> vec3" where
  "sub3 a b = \<lparr>v3x = fsub (v3x a) (v3x b), v3y = fsub (v3y a) (v3y b), v3z = fsub (v3z a) (v3z b)\<rparr>"
definition scale3 :: "vec3 \<Rightarrow> f32 \<Rightarrow> vec3" where
  "scale3 a s = \<lparr>v3x = fmul (v3x a) s, v3y = fmul (v3y a) s, v3z = fmul (v3z a) s\<rparr>"
definition div3 :: "vec3 \<Rightarrow> f32 \<Rightarrow> vec3" where
  "div3 a s = \<lparr>v3x = fdiv (v3x a) s, v3y = fdiv (v3y a) s, v3z = fdiv (v3z a) s\<rparr>"

definition add4 :: "vec4 \<Rightarrow> vec4 \<Rightarrow> vec4" where
  "add4 a b = \<lparr>v4x = fadd (v4x a) (v4x b), v4y = fadd (v4y a) (v4y b),
               v4z = fadd (v4z a) (v4z b), v4w = fadd (v4w a) (v4w b)\<rparr>"
definition sub4 :: "vec4 \<Rightarrow> vec4 \<Rightarrow> vec4" where
  "sub4 a b = \<lparr>v4x = fsub (v4x a) (v4x b), v4y = fsub (v4y a) (v4y b),
               v4z = fsub (v4z a) (v4z b), v4w = fsub (v4w a) (v4w b)\<rparr>"
definition scale4 :: "vec4 \<Rightarrow> f32 \<Rightarrow> vec4" where
  "scale4 a s = \<lparr>v4x = fmul (v4x a) s, v4y = fmul (v4y a) s, v4z = fmul (v4z a) s,
                 v4w = fmul (v4w a) s\<rparr>"

definition dot3 :: "vec3 \<Rightarrow> vec3 \<Rightarrow> f32" where
  "dot3 a b = fadd (fadd (fmul (v3x a) (v3x b)) (fmul (v3y a) (v3y b))) (fmul (v3z a) (v3z b))"

definition lengthSquared3 :: "vec3 \<Rightarrow> f32" where
  "lengthSquared3 v = dot3 v v"

definition length3 :: "vec3 \<Rightarrow> f32" where
  "length3 v = fsqrt (lengthSquared3 v)"

definition normalized3 :: "vec3 \<Rightarrow> vec3" where
  "normalized3 v = (let len = length3 v in if flt 0 len then div3 v len else vec3_zero)"

definition lerp3 :: "vec3 \<Rightarrow> vec3 \<Rightarrow> f32 \<Rightarrow> vec3" where
  "lerp3 a b t = add3 a (scale3 (sub3 b a) t)"
definition lerp2 :: "vec2 \<Rightarrow> vec2 \<Rightarrow> f32 \<Rightarrow> vec2" where
  "lerp2 a b t = add2 a (scale2 (sub2 b a) t)"
definition lerp4 :: "vec4 \<Rightarrow> vec4 \<Rightarrow> f32 \<Rightarrow> vec4" where
  "lerp4 a b t = add4 a (scale4 (sub4 b a) t)"

lemma dot3_commute: "dot3 a b = dot3 b a"
  by (simp add: dot3_def fmul_commute)

lemma add3_commute: "add3 a b = add3 b a"
  by (simp add: add3_def fadd_commute)

end
