(* ===== verification/Attributes.thy ===== *)
theory Attributes
  imports Vectors
begin

text \<open>
  The named, typed per-element attribute columns of
  \<open>src/core/include/cyber/core/attributes.hpp\<close>. The \<open>std::variant\<close> of column vectors is
  a datatype with one constructor per alternative, the \<open>std::map\<close> is an ordered
  association list, and an element's row is the map from column names to values that
  \<open>extractRow\<close> detaches. An access \<open>vec[i]\<close> past the end is undefined behaviour in the
  source; the column-length invariant rules it out for ids of live elements.
\<close>

section \<open>Columns and rows\<close>

datatype col_type = TFloat | TInt32 | TVec2 | TVec3 | TVec4

datatype column =
    CFloat "f32 list"
  | CInt32 "i32 list"
  | CVec2 "vec2 list"
  | CVec3 "vec3 list"
  | CVec4 "vec4 list"

datatype row_value =
    RFloat f32
  | RInt32 i32
  | RVec2 vec2
  | RVec3 vec3
  | RVec4 vec4

type_synonym attr_row = "(bytes, row_value) omap"

record attribute_set =
  as_columns :: "(bytes, column) omap"
  as_size :: nat

definition attrs_empty :: attribute_set where
  "attrs_empty = \<lparr>as_columns = [], as_size = 0\<rparr>"

fun col_type_of :: "column \<Rightarrow> col_type" where
  "col_type_of (CFloat _) = TFloat"
| "col_type_of (CInt32 _) = TInt32"
| "col_type_of (CVec2 _) = TVec2"
| "col_type_of (CVec3 _) = TVec3"
| "col_type_of (CVec4 _) = TVec4"

fun val_type_of :: "row_value \<Rightarrow> col_type" where
  "val_type_of (RFloat _) = TFloat"
| "val_type_of (RInt32 _) = TInt32"
| "val_type_of (RVec2 _) = TVec2"
| "val_type_of (RVec3 _) = TVec3"
| "val_type_of (RVec4 _) = TVec4"

fun col_length :: "column \<Rightarrow> nat" where
  "col_length (CFloat v) = length v"
| "col_length (CInt32 v) = length v"
| "col_length (CVec2 v) = length v"
| "col_length (CVec3 v) = length v"
| "col_length (CVec4 v) = length v"

fun col_get :: "column \<Rightarrow> nat \<Rightarrow> row_value" where
  "col_get (CFloat v) i = RFloat (v ! i)"
| "col_get (CInt32 v) i = RInt32 (v ! i)"
| "col_get (CVec2 v) i = RVec2 (v ! i)"
| "col_get (CVec3 v) i = RVec3 (v ! i)"
| "col_get (CVec4 v) i = RVec4 (v ! i)"

text \<open>\<open>if (const T* v = std::get_if<T>(&value)) vec[i] = *v\<close>: a value of another type is skipped.\<close>

fun col_set :: "column \<Rightarrow> nat \<Rightarrow> row_value \<Rightarrow> column" where
  "col_set (CFloat v) i (RFloat x) = CFloat (v[i := x])"
| "col_set (CInt32 v) i (RInt32 x) = CInt32 (v[i := x])"
| "col_set (CVec2 v) i (RVec2 x) = CVec2 (v[i := x])"
| "col_set (CVec3 v) i (RVec3 x) = CVec3 (v[i := x])"
| "col_set (CVec4 v) i (RVec4 x) = CVec4 (v[i := x])"
| "col_set c i _ = c"

fun zero_value :: "col_type \<Rightarrow> row_value" where
  "zero_value TFloat = RFloat 0"
| "zero_value TInt32 = RInt32 0"
| "zero_value TVec2 = RVec2 vec2_zero"
| "zero_value TVec3 = RVec3 vec3_zero"
| "zero_value TVec4 = RVec4 vec4_zero"

text \<open>\<open>std::vector<T>(n)\<close>: \<open>n\<close> value-initialised elements.\<close>

fun fresh_column :: "col_type \<Rightarrow> nat \<Rightarrow> column" where
  "fresh_column TFloat n = CFloat (replicate n 0)"
| "fresh_column TInt32 n = CInt32 (replicate n 0)"
| "fresh_column TVec2 n = CVec2 (replicate n vec2_zero)"
| "fresh_column TVec3 n = CVec3 (replicate n vec3_zero)"
| "fresh_column TVec4 n = CVec4 (replicate n vec4_zero)"

definition vec_resize :: "'a \<Rightarrow> nat \<Rightarrow> 'a list \<Rightarrow> 'a list" where
  "vec_resize d n xs = take n xs @ replicate (n - length xs) d"

fun col_resize :: "nat \<Rightarrow> column \<Rightarrow> column" where
  "col_resize n (CFloat v) = CFloat (vec_resize 0 n v)"
| "col_resize n (CInt32 v) = CInt32 (vec_resize 0 n v)"
| "col_resize n (CVec2 v) = CVec2 (vec_resize vec2_zero n v)"
| "col_resize n (CVec3 v) = CVec3 (vec_resize vec3_zero n v)"
| "col_resize n (CVec4 v) = CVec4 (vec_resize vec4_zero n v)"

section \<open>Operations of AttributeSet\<close>

definition attr_create :: "col_type \<Rightarrow> bytes \<Rightarrow> attribute_set \<Rightarrow> attribute_set" where
  "attr_create ty name a =
     (case omap_find (as_columns a) name of
        None \<Rightarrow> a\<lparr>as_columns := omap_put name (fresh_column ty (as_size a)) (as_columns a)\<rparr>
      | Some c \<Rightarrow>
          if col_type_of c = ty then a
          else a\<lparr>as_columns := omap_put name (fresh_column ty (as_size a)) (as_columns a)\<rparr>)"

definition attr_find :: "col_type \<Rightarrow> bytes \<Rightarrow> attribute_set \<Rightarrow> column option" where
  "attr_find ty name a =
     (case omap_find (as_columns a) name of
        None \<Rightarrow> None
      | Some c \<Rightarrow> if col_type_of c = ty then Some c else None)"

definition attr_contains :: "bytes \<Rightarrow> attribute_set \<Rightarrow> bool" where
  "attr_contains name a \<longleftrightarrow> omap_find (as_columns a) name \<noteq> None"

definition attr_remove :: "bytes \<Rightarrow> attribute_set \<Rightarrow> attribute_set" where
  "attr_remove name a = a\<lparr>as_columns := omap_erase name (as_columns a)\<rparr>"

definition attr_columnCount :: "attribute_set \<Rightarrow> nat" where
  "attr_columnCount a = length (as_columns a)"

definition attr_resize :: "nat \<Rightarrow> attribute_set \<Rightarrow> attribute_set" where
  "attr_resize n a = \<lparr>as_columns = omap_visit (\<lambda>_. col_resize n) (as_columns a), as_size = n\<rparr>"

fun col_interpolate :: "nat \<Rightarrow> nat \<Rightarrow> nat \<Rightarrow> f32 \<Rightarrow> column \<Rightarrow> column" where
  "col_interpolate dst i j t (CInt32 v) = CInt32 (v[dst := (if flt t f32_half then v ! i else v ! j)])"
| "col_interpolate dst i j t (CFloat v) = CFloat (v[dst := fadd (v ! i) (fmul (fsub (v ! j) (v ! i)) t)])"
| "col_interpolate dst i j t (CVec2 v) = CVec2 (v[dst := lerp2 (v ! i) (v ! j) t])"
| "col_interpolate dst i j t (CVec3 v) = CVec3 (v[dst := lerp3 (v ! i) (v ! j) t])"
| "col_interpolate dst i j t (CVec4 v) = CVec4 (v[dst := lerp4 (v ! i) (v ! j) t])"

definition attr_interpolate :: "nat \<Rightarrow> nat \<Rightarrow> nat \<Rightarrow> f32 \<Rightarrow> attribute_set \<Rightarrow> attribute_set" where
  "attr_interpolate dst i j t a =
     a\<lparr>as_columns := omap_visit (\<lambda>_. col_interpolate dst i j t) (as_columns a)\<rparr>"

definition attr_reset :: "nat \<Rightarrow> attribute_set \<Rightarrow> attribute_set" where
  "attr_reset i a =
     a\<lparr>as_columns := omap_visit (\<lambda>_ c. col_set c i (zero_value (col_type_of c))) (as_columns a)\<rparr>"

definition attr_copy :: "nat \<Rightarrow> nat \<Rightarrow> attribute_set \<Rightarrow> attribute_set" where
  "attr_copy dst src a =
     a\<lparr>as_columns := omap_visit (\<lambda>_ c. col_set c dst (col_get c src)) (as_columns a)\<rparr>"

definition attr_adoptSchema :: "attribute_set \<Rightarrow> attribute_set \<Rightarrow> attribute_set" where
  "attr_adoptSchema other a =
     fold (\<lambda>(name, c) a. attr_create (col_type_of c) name a) (as_columns other) a"

definition attr_extractRow :: "attribute_set \<Rightarrow> nat \<Rightarrow> attr_row" where
  "attr_extractRow a i =
     fold (\<lambda>(name, c) row. omap_emplace name (col_get c i) row) (as_columns a) []"

definition attr_applyRow :: "nat \<Rightarrow> attr_row \<Rightarrow> attribute_set \<Rightarrow> attribute_set" where
  "attr_applyRow i row a =
     fold (\<lambda>(name, v) a.
        case omap_find (as_columns a) name of
          None \<Rightarrow> a
        | Some c \<Rightarrow> a\<lparr>as_columns := omap_put name (col_set c i v) (as_columns a)\<rparr>) row a"

fun val_add :: "row_value \<Rightarrow> row_value \<Rightarrow> row_value" where
  "val_add (RFloat a) (RFloat b) = RFloat (fadd a b)"
| "val_add (RVec2 a) (RVec2 b) = RVec2 (add2 a b)"
| "val_add (RVec3 a) (RVec3 b) = RVec3 (add3 a b)"
| "val_add (RVec4 a) (RVec4 b) = RVec4 (add4 a b)"
| "val_add a _ = a"

fun val_scale :: "row_value \<Rightarrow> f32 \<Rightarrow> row_value" where
  "val_scale (RFloat a) s = RFloat (fmul a s)"
| "val_scale (RInt32 a) s = RInt32 a"
| "val_scale (RVec2 a) s = RVec2 (scale2 a s)"
| "val_scale (RVec3 a) s = RVec3 (scale3 a s)"
| "val_scale (RVec4 a) s = RVec4 (scale4 a s)"

definition attr_averageRows :: "attr_row list \<Rightarrow> attr_row" where
  "attr_averageRows rows =
     (case rows of
        [] \<Rightarrow> []
      | front # rest \<Rightarrow>
          fold (\<lambda>(name, first) out.
             let acc = fold (\<lambda>r acc. case omap_find r name of None \<Rightarrow> acc | Some b \<Rightarrow> val_add acc b)
                         rest first;
                 inv = fdiv f32_1 (f32_of_nat (length rows))
             in omap_emplace name (val_scale acc inv) out) front [])"

section \<open>The column-length invariant\<close>

definition attr_inv :: "attribute_set \<Rightarrow> bool" where
  "attr_inv a \<longleftrightarrow> omap_inv (as_columns a) \<and>
     (\<forall>name c. omap_find (as_columns a) name = Some c \<longrightarrow> col_length c = as_size a)"

lemma length_vec_resize [simp]: "length (vec_resize d n xs) = n"
  by (simp add: vec_resize_def)

lemma vec_resize_nth: "i < n \<Longrightarrow> vec_resize d n xs ! i = (if i < length xs then xs ! i else d)"
  by (simp add: vec_resize_def nth_append)

lemma col_length_simps [simp]:
  "col_length (col_set c i v) = col_length c"
  "col_length (fresh_column ty n) = n"
  "col_length (col_resize n c) = n"
  "col_length (col_interpolate d i j t c) = col_length c"
  "col_type_of (col_set c i v) = col_type_of c"
  "col_type_of (fresh_column ty n) = ty"
  "col_type_of (col_resize n c) = col_type_of c"
  "col_type_of (col_interpolate d i j t c) = col_type_of c"
  "val_type_of (col_get c i) = col_type_of c"
  "val_type_of (zero_value ty) = ty"
proof -
  show "col_length (col_set c i v) = col_length c" "col_type_of (col_set c i v) = col_type_of c"
    by (cases c; cases v; simp)+
  show "col_length (fresh_column ty n) = n" "col_type_of (fresh_column ty n) = ty"
    "val_type_of (zero_value ty) = ty"
    by (cases ty; simp)+
  show "col_length (col_resize n c) = n" "col_length (col_interpolate d i j t c) = col_length c"
    "col_type_of (col_resize n c) = col_type_of c"
    "col_type_of (col_interpolate d i j t c) = col_type_of c" "val_type_of (col_get c i) = col_type_of c"
    by (cases c; simp)+
qed

lemma col_get_set:
  "i < col_length c \<Longrightarrow> val_type_of v = col_type_of c \<Longrightarrow>
    col_get (col_set c i v) j = (if j = i then v else col_get c j)"
  by (cases c; cases v) (auto simp: nth_list_update)

lemma col_get_set_other: "j \<noteq> i \<Longrightarrow> col_get (col_set c i v) j = col_get c j"
  by (cases c; cases v) auto

lemma col_set_set: "val_type_of w = col_type_of c \<Longrightarrow> col_set (col_set c i v) i w = col_set c i w"
  by (cases c; cases v; cases w) auto

lemma col_set_get: "i < col_length c \<Longrightarrow> col_set c i (col_get c i) = c"
  by (cases c) auto

lemma col_get_resize:
  "i < n \<Longrightarrow> col_get (col_resize n c) i = (if i < col_length c then col_get c i else zero_value (col_type_of c))"
  by (cases c) (auto simp: vec_resize_nth)

lemma attr_inv_empty [simp]: "attr_inv attrs_empty"
  by (simp add: attr_inv_def attrs_empty_def omap_find_def)

lemma attr_create_size [simp]: "as_size (attr_create ty name a) = as_size a"
  by (auto simp: attr_create_def split: option.splits)

lemma attr_inv_create [intro]: "attr_inv a \<Longrightarrow> attr_inv (attr_create ty name a)"
  by (auto simp: attr_inv_def attr_create_def split: option.splits)

lemma attr_inv_remove [intro]: "attr_inv a \<Longrightarrow> attr_inv (attr_remove name a)"
  by (auto simp: attr_inv_def attr_remove_def split: if_splits)

lemma attr_inv_resize [intro]: "attr_inv a \<Longrightarrow> attr_inv (attr_resize n a)"
  by (auto simp: attr_inv_def attr_resize_def)

lemma attr_inv_interpolate [intro]: "attr_inv a \<Longrightarrow> attr_inv (attr_interpolate d i j t a)"
  by (auto simp: attr_inv_def attr_interpolate_def)

lemma attr_inv_reset [intro]: "attr_inv a \<Longrightarrow> attr_inv (attr_reset i a)"
  by (auto simp: attr_inv_def attr_reset_def)

lemma attr_inv_copy [intro]: "attr_inv a \<Longrightarrow> attr_inv (attr_copy d i a)"
  by (auto simp: attr_inv_def attr_copy_def)

lemma attr_inv_adoptSchema:
  "attr_inv a \<Longrightarrow> attr_inv (attr_adoptSchema other a) \<and> as_size (attr_adoptSchema other a) = as_size a"
proof -
  have "attr_inv a \<Longrightarrow> attr_inv (fold (\<lambda>(name, c) a. attr_create (col_type_of c) name a) cs a) \<and>
      as_size (fold (\<lambda>(name, c) a. attr_create (col_type_of c) name a) cs a) = as_size a" for cs
    by (induction cs arbitrary: a) (auto simp: attr_inv_create)
  then show "attr_inv a \<Longrightarrow> ?thesis" by (simp add: attr_adoptSchema_def)
qed

lemma attr_size_simps [simp]:
  "as_size (attr_resize n a) = n" "as_size (attr_interpolate d i j t a) = as_size a"
  "as_size (attr_reset i a) = as_size a" "as_size (attr_copy d i a) = as_size a"
  "as_size (attr_remove name a) = as_size a"
  by (simp_all add: attr_resize_def attr_interpolate_def attr_reset_def attr_copy_def attr_remove_def)

section \<open>Closed forms of the row operations\<close>

lemma fold_emplace_find:
  "omap_inv m \<Longrightarrow> distinct (map fst kvs) \<Longrightarrow> (\<forall>k \<in> fst ` set kvs. omap_find m k = None) \<Longrightarrow>
    fold (\<lambda>(k, v). omap_emplace k (f v)) kvs m = fold (\<lambda>(k, v). omap_put k v) (omap_visit (\<lambda>_. f) kvs) m"
proof (induction kvs arbitrary: m)
  case (Cons e kvs)
  obtain k v where e: "e = (k, v)" by (cases e)
  have "omap_emplace k (f v) m = omap_put k (f v) m"
    using Cons.prems by (simp add: e omap_emplace_def)
  moreover have "\<forall>j \<in> fst ` set kvs. omap_find (omap_put k (f v) m) j = None"
    using Cons.prems by (auto simp: e rev_image_eqI)
  ultimately show ?case
    using Cons.IH [of "omap_put k (f v) m"] Cons.prems by (simp add: e omap_visit_def)
qed (simp add: omap_visit_def)

lemma omap_inv_distinct: "omap_inv m \<Longrightarrow> distinct (map fst m)"
  using strict_sorted_iff omap_inv_def by blast

lemma attr_extractRow_eq:
  assumes "omap_inv (as_columns a)"
  shows "attr_extractRow a i = omap_visit (\<lambda>_ c. col_get c i) (as_columns a)"
proof -
  have "attr_extractRow a i =
      fold (\<lambda>(k, v). omap_put k v) (omap_visit (\<lambda>_ c. col_get c i) (as_columns a)) []"
    unfolding attr_extractRow_def
    by (rule fold_emplace_find) (use assms omap_inv_distinct in \<open>auto simp: omap_find_def\<close>)
  also have "\<dots> = omap_visit (\<lambda>_ c. col_get c i) (as_columns a)"
    using std_map.rebuild [of "omap_visit (\<lambda>_ c. col_get c i) (as_columns a)"] assms by simp
  finally show ?thesis .
qed

definition set_from_row :: "nat \<Rightarrow> (bytes \<Rightarrow> row_value option) \<Rightarrow> bytes \<Rightarrow> column \<Rightarrow> column" where
  "set_from_row i f name c = (case f name of None \<Rightarrow> c | Some v \<Rightarrow> col_set c i v)"

lemma attr_applyRow_find:
  "omap_inv (as_columns a) \<Longrightarrow> distinct (map fst row) \<Longrightarrow>
    omap_inv (as_columns (attr_applyRow i row a)) \<and> as_size (attr_applyRow i row a) = as_size a \<and>
    omap_find (as_columns (attr_applyRow i row a)) n =
      map_option (set_from_row i (map_of row) n) (omap_find (as_columns a) n)"
proof (induction row arbitrary: a)
  case Nil
  then show ?case by (simp add: attr_applyRow_def set_from_row_def option.map_ident)
next
  case (Cons e row)
  obtain k v where e: "e = (k, v)" by (cases e)
  define a' where "a' = (case omap_find (as_columns a) k of None \<Rightarrow> a
      | Some c \<Rightarrow> a\<lparr>as_columns := omap_put k (col_set c i v) (as_columns a)\<rparr>)"
  have a': "omap_inv (as_columns a')" "as_size a' = as_size a"
      "omap_find (as_columns a') n = (if n = k then map_option (\<lambda>c. col_set c i v) (omap_find (as_columns a) k)
         else omap_find (as_columns a) n)"
    using Cons.prems(1) by (auto simp: a'_def split: option.splits)
  have "attr_applyRow i (e # row) a = attr_applyRow i row a'"
    by (simp add: attr_applyRow_def e a'_def)
  moreover have "map_of row k = None"
    using Cons.prems(2) by (simp add: e map_of_eq_None_iff)
  ultimately show ?case
    using Cons.IH [of a'] Cons.prems(2) a'
    by (auto simp: e set_from_row_def option.map_comp o_def option.map_ident)
qed

lemma attr_applyRow_eq:
  assumes "omap_inv (as_columns a)" "omap_inv row"
  shows "attr_applyRow i row a =
    a\<lparr>as_columns := omap_visit (set_from_row i (omap_find row)) (as_columns a)\<rparr>"
proof -
  note f = attr_applyRow_find [OF assms(1) omap_inv_distinct [OF assms(2)]]
  have "as_columns (attr_applyRow i row a) = omap_visit (set_from_row i (omap_find row)) (as_columns a)"
  proof (rule omap_ext)
    have "map_of row = omap_find row" by (simp add: omap_find_def fun_eq_iff)
    with f show "omap_find (as_columns (attr_applyRow i row a)) =
        omap_find (omap_visit (set_from_row i (omap_find row)) (as_columns a))"
      by (simp add: fun_eq_iff)
  qed (use f assms in auto)
  then show ?thesis using f by (intro attribute_set.equality) simp_all
qed

lemma attr_applyRow_inv:
  "attr_inv a \<Longrightarrow> omap_inv row \<Longrightarrow> attr_inv (attr_applyRow i row a)"
  by (auto simp: attr_inv_def attr_applyRow_eq set_from_row_def split: option.splits)

lemma attr_applyRow_size [simp]:
  "attr_inv a \<Longrightarrow> omap_inv row \<Longrightarrow> as_size (attr_applyRow i row a) = as_size a"
  by (simp add: attr_inv_def attr_applyRow_eq)

text \<open>Also for a row that is not sorted by name, applying it keeps the columns' length.\<close>

lemma attr_applyRow_any:
  "attr_inv a \<Longrightarrow> attr_inv (attr_applyRow i row a) \<and> as_size (attr_applyRow i row a) = as_size a"
proof (induction row arbitrary: a)
  case (Cons e row)
  obtain k v where e: "e = (k, v)" by (cases e)
  define a' where "a' = (case omap_find (as_columns a) k of None \<Rightarrow> a
      | Some c \<Rightarrow> a\<lparr>as_columns := omap_put k (col_set c i v) (as_columns a)\<rparr>)"
  have "attr_inv a' \<and> as_size a' = as_size a"
    using Cons.prems by (auto simp: a'_def attr_inv_def split: option.splits if_splits)
  moreover have "attr_applyRow i (e # row) a = attr_applyRow i row a'"
    by (simp add: attr_applyRow_def e a'_def)
  ultimately show ?case using Cons.IH [of a'] by simp
qed (simp add: attr_applyRow_def)

lemma attr_extractRow_inv: "attr_inv a \<Longrightarrow> omap_inv (attr_extractRow a i)"
  by (simp add: attr_inv_def attr_extractRow_eq)

text \<open>Detaching a row and applying it to another element of the same set copies the element.\<close>

lemma applyRow_extractRow:
  assumes "attr_inv a"
  shows "attr_applyRow dst (attr_extractRow a src) a = attr_copy dst src a"
proof -
  have o: "omap_inv (as_columns a)" using assms by (simp add: attr_inv_def)
  have "omap_visit (set_from_row dst (omap_find (attr_extractRow a src))) (as_columns a) =
      omap_visit (\<lambda>_ c. col_set c dst (col_get c src)) (as_columns a)"
    using o by (intro omap_ext)
      (auto simp: attr_extractRow_eq set_from_row_def fun_eq_iff map_option_case split: option.splits)
  then show ?thesis
    using attr_applyRow_eq [OF o attr_extractRow_inv [OF assms]] by (simp add: attr_copy_def)
qed

definition row_fits :: "attr_row \<Rightarrow> attribute_set \<Rightarrow> bool" where
  "row_fits row a \<longleftrightarrow> (\<forall>n c v. omap_find (as_columns a) n = Some c \<and> omap_find row n = Some v \<longrightarrow>
      val_type_of v = col_type_of c)"

text \<open>What a row wrote is what a row read gives back, on the columns both have.\<close>

lemma extractRow_applyRow:
  assumes "attr_inv a" "omap_inv row" "row_fits row a" "i < as_size a"
  shows "omap_find (attr_extractRow (attr_applyRow i row a) j) n =
    (if j = i \<and> omap_find (as_columns a) n \<noteq> None \<and> omap_find row n \<noteq> None then omap_find row n
     else omap_find (attr_extractRow a j) n)"
proof -
  have o: "omap_inv (as_columns a)" using assms(1) by (simp add: attr_inv_def)
  show ?thesis
    using assms o
    by (auto simp: attr_applyRow_eq attr_extractRow_eq set_from_row_def row_fits_def attr_inv_def
        col_get_set map_option_case split: option.splits)
qed

lemma attr_reset_row:
  assumes "attr_inv a" "i < as_size a"
  shows "omap_find (attr_extractRow (attr_reset i a) j) n =
    (if j = i then map_option (\<lambda>c. zero_value (col_type_of c)) (omap_find (as_columns a) n)
     else omap_find (attr_extractRow a j) n)"
proof -
  have o: "omap_inv (as_columns a)" using assms(1) by (simp add: attr_inv_def)
  then have "omap_inv (as_columns (attr_reset i a))" by (simp add: attr_reset_def)
  with assms o show ?thesis
    by (auto simp: attr_extractRow_eq attr_reset_def attr_inv_def col_get_set map_option_case
        split: option.splits)
qed

end
