(* ===== verification/MeshData.thy ===== *)
theory MeshData
  imports Attributes
begin

text \<open>
  The radial-edge half-edge mesh of \<open>src/core/include/cyber/core/mesh.hpp\<close> and
  \<open>src/core/src/mesh.cpp\<close>: element arrays with alive flags and free lists, allocation,
  linkage, construction and adjacency queries. Ids are naturals; \<open>static_cast<Index>\<close> is
  \<open>to_index\<close> (reduction modulo \<open>2 ^ 32\<close>) and \<open>kInvalidIndex\<close> the largest index. A vector
  access past the end, undefined in the source, is an unspecified element here and is
  excluded by the invariant of \<open>MeshInv\<close>. A \<open>do ... while\<close> walk around a cycle is an
  option: \<open>None\<close> when the cycle does not close.
\<close>

section \<open>Data\<close>

definition kInvalidIndex :: nat where
  "kInvalidIndex = 0xFFFFFFFF"

definition to_index :: "nat \<Rightarrow> nat" where
  "to_index n = n mod 2 ^ 32"

definition id_valid :: "nat \<Rightarrow> bool" where
  "id_valid i \<longleftrightarrow> i \<noteq> kInvalidIndex"

record mvertex =
  mv_position :: vec3
  mv_edges :: "nat list"
  mv_alive :: bool

record medge =
  me_v0 :: nat
  me_v1 :: nat
  me_radial :: nat
  me_feature :: bool
  me_alive :: bool

record mloop =
  ml_vertex :: nat
  ml_edge :: nat
  ml_face :: nat
  ml_next :: nat
  ml_prev :: nat
  ml_rnext :: nat
  ml_rprev :: nat
  ml_alive :: bool

record mface =
  mf_first :: nat
  mf_size :: nat
  mf_alive :: bool

record mesh =
  m_vertices :: "mvertex list"
  m_edges :: "medge list"
  m_loops :: "mloop list"
  m_faces :: "mface list"
  m_freeVertices :: "nat list"
  m_freeEdges :: "nat list"
  m_freeLoops :: "nat list"
  m_freeFaces :: "nat list"
  m_aliveVertices :: nat
  m_aliveEdges :: nat
  m_aliveFaces :: nat
  m_aliveLoops :: nat
  m_vertexAttrs :: attribute_set
  m_edgeAttrs :: attribute_set
  m_faceAttrs :: attribute_set
  m_cornerAttrs :: attribute_set

definition mesh_empty :: mesh where
  "mesh_empty = \<lparr>m_vertices = [], m_edges = [], m_loops = [], m_faces = [],
     m_freeVertices = [], m_freeEdges = [], m_freeLoops = [], m_freeFaces = [],
     m_aliveVertices = 0, m_aliveEdges = 0, m_aliveFaces = 0, m_aliveLoops = 0,
     m_vertexAttrs = attrs_empty, m_edgeAttrs = attrs_empty, m_faceAttrs = attrs_empty,
     m_cornerAttrs = attrs_empty\<rparr>"

text \<open>The value-initialised elements \<open>Vertex{}\<close>, \<open>Edge{}\<close>, \<open>Loop{}\<close>, \<open>Face{}\<close>.\<close>

definition vertex0 :: mvertex where
  "vertex0 = \<lparr>mv_position = vec3_zero, mv_edges = [], mv_alive = False\<rparr>"
definition edge0 :: medge where
  "edge0 = \<lparr>me_v0 = kInvalidIndex, me_v1 = kInvalidIndex, me_radial = kInvalidIndex,
            me_feature = False, me_alive = False\<rparr>"
definition loop0 :: mloop where
  "loop0 = \<lparr>ml_vertex = kInvalidIndex, ml_edge = kInvalidIndex, ml_face = kInvalidIndex,
            ml_next = kInvalidIndex, ml_prev = kInvalidIndex, ml_rnext = kInvalidIndex,
            ml_rprev = kInvalidIndex, ml_alive = False\<rparr>"
definition face0 :: mface where
  "face0 = \<lparr>mf_first = kInvalidIndex, mf_size = 0, mf_alive = False\<rparr>"

text \<open>Assignment to a field of an element, \<open>m_loops[l].field = x\<close>.\<close>

definition set_vertex :: "nat \<Rightarrow> (mvertex \<Rightarrow> mvertex) \<Rightarrow> mesh \<Rightarrow> mesh" where
  "set_vertex i f m = m\<lparr>m_vertices := (m_vertices m)[i := f (m_vertices m ! i)]\<rparr>"
definition set_edge :: "nat \<Rightarrow> (medge \<Rightarrow> medge) \<Rightarrow> mesh \<Rightarrow> mesh" where
  "set_edge i f m = m\<lparr>m_edges := (m_edges m)[i := f (m_edges m ! i)]\<rparr>"
definition set_loop :: "nat \<Rightarrow> (mloop \<Rightarrow> mloop) \<Rightarrow> mesh \<Rightarrow> mesh" where
  "set_loop i f m = m\<lparr>m_loops := (m_loops m)[i := f (m_loops m ! i)]\<rparr>"
definition set_face :: "nat \<Rightarrow> (mface \<Rightarrow> mface) \<Rightarrow> mesh \<Rightarrow> mesh" where
  "set_face i f m = m\<lparr>m_faces := (m_faces m)[i := f (m_faces m ! i)]\<rparr>"

definition vertexAlive :: "mesh \<Rightarrow> nat \<Rightarrow> bool" where
  "vertexAlive m v \<longleftrightarrow> v < length (m_vertices m) \<and> mv_alive (m_vertices m ! v)"
definition edgeAlive :: "mesh \<Rightarrow> nat \<Rightarrow> bool" where
  "edgeAlive m e \<longleftrightarrow> e < length (m_edges m) \<and> me_alive (m_edges m ! e)"
definition faceAlive :: "mesh \<Rightarrow> nat \<Rightarrow> bool" where
  "faceAlive m f \<longleftrightarrow> f < length (m_faces m) \<and> mf_alive (m_faces m ! f)"
definition loopAlive :: "mesh \<Rightarrow> nat \<Rightarrow> bool" where
  "loopAlive m l \<longleftrightarrow> l < length (m_loops m) \<and> ml_alive (m_loops m ! l)"

section \<open>Element allocation\<close>

definition allocVertex :: "mesh \<Rightarrow> nat \<times> mesh" where
  "allocVertex m =
     (let (i, m) =
        (if m_freeVertices m \<noteq> [] then
           (let i = last (m_freeVertices m)
            in (i, m\<lparr>m_freeVertices := butlast (m_freeVertices m),
                     m_vertexAttrs := attr_reset i (m_vertexAttrs m)\<rparr>))
         else
           (let i = to_index (length (m_vertices m)); vs = m_vertices m @ [vertex0]
            in (i, m\<lparr>m_vertices := vs, m_vertexAttrs := attr_resize (length vs) (m_vertexAttrs m)\<rparr>)))
      in (i, m\<lparr>m_vertices := (m_vertices m)[i := vertex0\<lparr>mv_alive := True\<rparr>],
               m_aliveVertices := Suc (m_aliveVertices m)\<rparr>))"

definition allocEdge :: "mesh \<Rightarrow> nat \<times> mesh" where
  "allocEdge m =
     (let (i, m) =
        (if m_freeEdges m \<noteq> [] then
           (let i = last (m_freeEdges m)
            in (i, m\<lparr>m_freeEdges := butlast (m_freeEdges m),
                     m_edgeAttrs := attr_reset i (m_edgeAttrs m)\<rparr>))
         else
           (let i = to_index (length (m_edges m)); es = m_edges m @ [edge0]
            in (i, m\<lparr>m_edges := es, m_edgeAttrs := attr_resize (length es) (m_edgeAttrs m)\<rparr>)))
      in (i, m\<lparr>m_edges := (m_edges m)[i := edge0\<lparr>me_alive := True\<rparr>],
               m_aliveEdges := Suc (m_aliveEdges m)\<rparr>))"

definition allocFace :: "mesh \<Rightarrow> nat \<times> mesh" where
  "allocFace m =
     (let (i, m) =
        (if m_freeFaces m \<noteq> [] then
           (let i = last (m_freeFaces m)
            in (i, m\<lparr>m_freeFaces := butlast (m_freeFaces m),
                     m_faceAttrs := attr_reset i (m_faceAttrs m)\<rparr>))
         else
           (let i = to_index (length (m_faces m)); fs = m_faces m @ [face0]
            in (i, m\<lparr>m_faces := fs, m_faceAttrs := attr_resize (length fs) (m_faceAttrs m)\<rparr>)))
      in (i, m\<lparr>m_faces := (m_faces m)[i := face0\<lparr>mf_alive := True\<rparr>],
               m_aliveFaces := Suc (m_aliveFaces m)\<rparr>))"

definition allocLoop :: "mesh \<Rightarrow> nat \<times> mesh" where
  "allocLoop m =
     (let (i, m) =
        (if m_freeLoops m \<noteq> [] then
           (let i = last (m_freeLoops m)
            in (i, m\<lparr>m_freeLoops := butlast (m_freeLoops m),
                     m_cornerAttrs := attr_reset i (m_cornerAttrs m)\<rparr>))
         else
           (let i = to_index (length (m_loops m)); ls = m_loops m @ [loop0]
            in (i, m\<lparr>m_loops := ls, m_cornerAttrs := attr_resize (length ls) (m_cornerAttrs m)\<rparr>)))
      in (i, m\<lparr>m_loops := (m_loops m)[i := loop0\<lparr>ml_alive := True\<rparr>],
               m_aliveLoops := Suc (m_aliveLoops m)\<rparr>))"

definition freeVertex :: "nat \<Rightarrow> mesh \<Rightarrow> mesh" where
  "freeVertex v m = (set_vertex v (mv_alive_update (\<lambda>_. False)) m)
     \<lparr>m_freeVertices := m_freeVertices m @ [v], m_aliveVertices := m_aliveVertices m - 1\<rparr>"
definition freeEdge :: "nat \<Rightarrow> mesh \<Rightarrow> mesh" where
  "freeEdge e m = (set_edge e (me_alive_update (\<lambda>_. False)) m)
     \<lparr>m_freeEdges := m_freeEdges m @ [e], m_aliveEdges := m_aliveEdges m - 1\<rparr>"
definition freeFace :: "nat \<Rightarrow> mesh \<Rightarrow> mesh" where
  "freeFace f m = (set_face f (mf_alive_update (\<lambda>_. False)) m)
     \<lparr>m_freeFaces := m_freeFaces m @ [f], m_aliveFaces := m_aliveFaces m - 1\<rparr>"
definition freeLoop :: "nat \<Rightarrow> mesh \<Rightarrow> mesh" where
  "freeLoop l m = (set_loop l (ml_alive_update (\<lambda>_. False)) m)
     \<lparr>m_freeLoops := m_freeLoops m @ [l], m_aliveLoops := m_aliveLoops m - 1\<rparr>"

section \<open>Low-level linkage\<close>

definition edge_joins :: "medge \<Rightarrow> nat \<Rightarrow> nat \<Rightarrow> bool" where
  "edge_joins e a b \<longleftrightarrow> (me_v0 e = a \<and> me_v1 e = b) \<or> (me_v0 e = b \<and> me_v1 e = a)"

definition findOrCreateEdge :: "nat \<Rightarrow> nat \<Rightarrow> mesh \<Rightarrow> nat \<times> mesh" where
  "findOrCreateEdge a b m =
     (case find (\<lambda>e. edge_joins (m_edges m ! e) a b) (mv_edges (m_vertices m ! a)) of
        Some e \<Rightarrow> (e, m)
      | None \<Rightarrow>
          (let (e, m) = allocEdge m;
               m = set_edge e (\<lambda>x. x\<lparr>me_v0 := a\<rparr>) m;
               m = set_edge e (\<lambda>x. x\<lparr>me_v1 := b\<rparr>) m;
               m = set_vertex a (\<lambda>x. x\<lparr>mv_edges := mv_edges x @ [e]\<rparr>) m;
               m = set_vertex b (\<lambda>x. x\<lparr>mv_edges := mv_edges x @ [e]\<rparr>) m
           in (e, m)))"

definition radialInsert :: "nat \<Rightarrow> nat \<Rightarrow> mesh \<Rightarrow> mesh" where
  "radialInsert e l m =
     (let m = set_loop l (\<lambda>x. x\<lparr>ml_edge := e\<rparr>) m
      in if \<not> id_valid (me_radial (m_edges m ! e)) then
           (let m = set_loop l (\<lambda>x. x\<lparr>ml_rnext := l, ml_rprev := l\<rparr>) m
            in set_edge e (\<lambda>x. x\<lparr>me_radial := l\<rparr>) m)
         else
           (let head = me_radial (m_edges m ! e);
                tail = ml_rprev (m_loops m ! head);
                m = set_loop l (\<lambda>x. x\<lparr>ml_rnext := head, ml_rprev := tail\<rparr>) m;
                m = set_loop tail (\<lambda>x. x\<lparr>ml_rnext := l\<rparr>) m
            in set_loop head (\<lambda>x. x\<lparr>ml_rprev := l\<rparr>) m))"

definition radialRemove :: "nat \<Rightarrow> mesh \<Rightarrow> mesh" where
  "radialRemove l m =
     (let e = ml_edge (m_loops m ! l);
          m = (if ml_rnext (m_loops m ! l) = l then set_edge e (\<lambda>x. x\<lparr>me_radial := kInvalidIndex\<rparr>) m
               else
                 (let m = set_loop (ml_rprev (m_loops m ! l))
                            (\<lambda>x. x\<lparr>ml_rnext := ml_rnext (m_loops m ! l)\<rparr>) m;
                      m = set_loop (ml_rnext (m_loops m ! l))
                            (\<lambda>x. x\<lparr>ml_rprev := ml_rprev (m_loops m ! l)\<rparr>) m
                  in if me_radial (m_edges m ! e) = l
                     then set_edge e (\<lambda>x. x\<lparr>me_radial := ml_rnext (m_loops m ! l)\<rparr>) m else m))
      in set_loop l (\<lambda>x. x\<lparr>ml_rnext := kInvalidIndex, ml_rprev := kInvalidIndex\<rparr>) m)"

definition vertexEdgeListRemove :: "nat \<Rightarrow> nat \<Rightarrow> mesh \<Rightarrow> mesh" where
  "vertexEdgeListRemove v e m =
     set_vertex v (\<lambda>x. x\<lparr>mv_edges := filter (\<lambda>y. y \<noteq> e) (mv_edges x)\<rparr>) m"

definition destroyEdgeIfUnused :: "nat \<Rightarrow> mesh \<Rightarrow> mesh" where
  "destroyEdgeIfUnused e m =
     (let edge = m_edges m ! e
      in if \<not> me_alive edge \<or> id_valid (me_radial edge) then m
         else freeEdge e (vertexEdgeListRemove (me_v1 edge) e (vertexEdgeListRemove (me_v0 edge) e m)))"

section \<open>Adjacency queries\<close>

definition faceLoops :: "mesh \<Rightarrow> nat \<Rightarrow> nat list option" where
  "faceLoops m f =
     (let first = mf_first (m_faces m ! f) in walk (\<lambda>l. ml_next (m_loops m ! l)) first first)"

definition faceVertices :: "mesh \<Rightarrow> nat \<Rightarrow> nat list option" where
  "faceVertices m f = map_option (map (\<lambda>l. ml_vertex (m_loops m ! l))) (faceLoops m f)"

definition edgeBetween :: "mesh \<Rightarrow> nat \<Rightarrow> nat \<Rightarrow> nat" where
  "edgeBetween m a b =
     (if \<not> vertexAlive m a \<or> \<not> vertexAlive m b then kInvalidIndex
      else case find (\<lambda>e. edge_joins (m_edges m ! e) a b) (mv_edges (m_vertices m ! a)) of
             Some e \<Rightarrow> e | None \<Rightarrow> kInvalidIndex)"

definition edgeLoops :: "mesh \<Rightarrow> nat \<Rightarrow> nat list option" where
  "edgeLoops m e =
     (let head = me_radial (m_edges m ! e)
      in if \<not> id_valid head then Some []
         else walk (\<lambda>l. ml_rnext (m_loops m ! l)) head head)"

definition edgeFaces :: "mesh \<Rightarrow> nat \<Rightarrow> nat list option" where
  "edgeFaces m e = map_option (map (\<lambda>l. ml_face (m_loops m ! l))) (edgeLoops m e)"

definition edgeFaceCount :: "mesh \<Rightarrow> nat \<Rightarrow> nat option" where
  "edgeFaceCount m e = map_option length (edgeLoops m e)"

text \<open>Keeps the first occurrence of each face, then sorts by id.\<close>

fun push_new :: "nat list \<Rightarrow> nat list \<Rightarrow> nat list" where
  "push_new acc [] = acc"
| "push_new acc (f # fs) = push_new (if f \<in> set acc then acc else acc @ [f]) fs"

fun vertexFacesLoop :: "mesh \<Rightarrow> nat list \<Rightarrow> nat list \<Rightarrow> nat list option" where
  "vertexFacesLoop m acc [] = Some acc"
| "vertexFacesLoop m acc (e # es) =
     Option.bind (edgeFaces m e) (\<lambda>fs. vertexFacesLoop m (push_new acc fs) es)"

definition vertexFaces :: "mesh \<Rightarrow> nat \<Rightarrow> nat list option" where
  "vertexFaces m v = map_option sort (vertexFacesLoop m [] (mv_edges (m_vertices m ! v)))"

section \<open>Construction\<close>

fun nested_repeat :: "nat list \<Rightarrow> bool" where
  "nested_repeat [] = False"
| "nested_repeat (v # vs) = (v \<in> set vs \<or> nested_repeat vs)"

fun adjacent_equal :: "nat list \<Rightarrow> bool" where
  "adjacent_equal (a # b # vs) = (a = b \<or> adjacent_equal (b # vs))"
| "adjacent_equal _ = False"

definition hasRepeatedVertex :: "nat list \<Rightarrow> bool" where
  "hasRepeatedVertex vs =
     (if length vs \<le> 16 then nested_repeat vs else adjacent_equal (sort vs))"

definition addVertex :: "vec3 \<Rightarrow> mesh \<Rightarrow> nat \<times> mesh" where
  "addVertex p m = (let (v, m) = allocVertex m in (v, set_vertex v (\<lambda>x. x\<lparr>mv_position := p\<rparr>) m))"

fun allocLoops :: "nat \<Rightarrow> mesh \<Rightarrow> nat list \<times> mesh" where
  "allocLoops 0 m = ([], m)"
| "allocLoops (Suc n) m =
     (let (l, m) = allocLoop m; (ls, m) = allocLoops n m in (l # ls, m))"

definition linkCorner :: "nat list \<Rightarrow> nat \<Rightarrow> nat list \<Rightarrow> nat \<Rightarrow> mesh \<Rightarrow> mesh" where
  "linkCorner vs f loops i m =
     (let n = length vs;
          m = set_loop (loops ! i)
                (\<lambda>x. x\<lparr>ml_vertex := vs ! i, ml_face := f,
                       ml_next := loops ! ((i + 1) mod n),
                       ml_prev := loops ! ((i + n - 1) mod n)\<rparr>) m;
          (e, m) = findOrCreateEdge (vs ! i) (vs ! ((i + 1) mod n)) m
      in radialInsert e (loops ! i) m)"

definition addFace :: "nat list \<Rightarrow> mesh \<Rightarrow> nat \<times> mesh" where
  "addFace vs m =
     (let n = length vs
      in if n < 3 then (kInvalidIndex, m)
         else if \<exists>v \<in> set vs. \<not> vertexAlive m v then (kInvalidIndex, m)
         else if hasRepeatedVertex vs then (kInvalidIndex, m)
         else
           (let (f, m) = allocFace m;
                (loops, m) = allocLoops n m;
                m = fold (linkCorner vs f loops) [0..<n] m
            in (f, set_face f (\<lambda>x. x\<lparr>mf_first := loops ! 0, mf_size := to_index n\<rparr>) m)))"

definition removeFace :: "nat \<Rightarrow> mesh \<Rightarrow> mesh option" where
  "removeFace f m =
     (if \<not> faceAlive m f then Some m
      else map_option
        (\<lambda>loops.
           (let (edges, m) =
              fold (\<lambda>l (edges, m). (edges @ [ml_edge (m_loops m ! l)], freeLoop l (radialRemove l m)))
                loops ([], m);
              m = fold destroyEdgeIfUnused edges m
            in freeFace f m))
        (faceLoops m f))"

definition removeIsolatedVertex :: "nat \<Rightarrow> mesh \<Rightarrow> bool \<times> mesh" where
  "removeIsolatedVertex v m =
     (if \<not> vertexAlive m v \<or> mv_edges (m_vertices m ! v) \<noteq> [] then (False, m)
      else (True, freeVertex v m))"

fun addVertices :: "vec3 list \<Rightarrow> mesh \<Rightarrow> nat list \<times> mesh" where
  "addVertices [] m = ([], m)"
| "addVertices (p # ps) m =
     (let (v, m) = addVertex p m; (vs, m) = addVertices ps m in (v # vs, m))"

definition fromIndexed :: "vec3 list \<Rightarrow> nat list list \<Rightarrow> mesh" where
  "fromIndexed positions faces =
     (let (ids, m) = addVertices positions mesh_empty
      in fold (\<lambda>face m. if \<exists>i \<in> set face. i \<ge> length ids then m
                        else snd (addFace (map (\<lambda>i. ids ! i) face) m)) faces m)"

text \<open>\<open>remap\<close> and \<open>positions\<close> are filled in one pass over the vertex array.\<close>

fun compactVertices :: "mvertex list \<Rightarrow> vec3 list \<Rightarrow> nat list \<times> vec3 list" where
  "compactVertices [] ps = ([], ps)"
| "compactVertices (v # vs) ps =
     (if mv_alive v
      then (let (remap, out) = compactVertices vs (ps @ [mv_position v]) in (to_index (length ps) # remap, out))
      else (let (remap, out) = compactVertices vs ps in (kInvalidIndex # remap, out)))"

fun indexedFaces :: "mesh \<Rightarrow> nat list \<Rightarrow> nat list \<Rightarrow> nat list list option" where
  "indexedFaces m remap [] = Some []"
| "indexedFaces m remap (i # is) =
     (if \<not> mf_alive (m_faces m ! i) then indexedFaces m remap is
      else Option.bind (faceVertices m i) (\<lambda>vs.
             Option.bind (indexedFaces m remap is) (\<lambda>fs. Some (map (\<lambda>v. remap ! v) vs # fs))))"

definition toIndexed :: "mesh \<Rightarrow> (vec3 list \<times> nat list list) option" where
  "toIndexed m =
     (let (remap, positions) = compactVertices (m_vertices m) []
      in map_option (\<lambda>fs. (positions, fs)) (indexedFaces m remap [0..<length (m_faces m)]))"

definition position :: "mesh \<Rightarrow> nat \<Rightarrow> vec3" where
  "position m v = mv_position (m_vertices m ! v)"

definition setPosition :: "nat \<Rightarrow> vec3 \<Rightarrow> mesh \<Rightarrow> mesh" where
  "setPosition v p = set_vertex v (\<lambda>x. x\<lparr>mv_position := p\<rparr>)"

definition faceNormal :: "mesh \<Rightarrow> nat \<Rightarrow> vec3 option" where
  "faceNormal m f = map_option (\<lambda>verts.
     normalized3 (fold (\<lambda>i nrm.
        (let a = position m (verts ! i); b = position m (verts ! ((i + 1) mod length verts))
         in \<lparr>v3x = fadd (v3x nrm) (fmul (fsub (v3y a) (v3y b)) (fadd (v3z a) (v3z b))),
             v3y = fadd (v3y nrm) (fmul (fsub (v3z a) (v3z b)) (fadd (v3x a) (v3x b))),
             v3z = fadd (v3z nrm) (fmul (fsub (v3x a) (v3x b)) (fadd (v3y a) (v3y b)))\<rparr>))
        [0..<length verts] vec3_zero)) (faceVertices m f)"

definition faceCentroid :: "mesh \<Rightarrow> nat \<Rightarrow> vec3 option" where
  "faceCentroid m f = map_option (\<lambda>verts.
     div3 (fold (\<lambda>v sum. add3 sum (position m v)) verts vec3_zero) (f32_of_nat (length verts)))
     (faceVertices m f)"

end
