(* ===== verification/MeshPools.thy ===== *)
theory MeshPools
  imports MeshData
begin

text \<open>
  The allocation discipline of the four element arrays. The locale \<open>element_pool\<close> is the
  interface of one array: how \<open>alloc\<close> and \<open>release\<close> act on the array, its free list and its
  counter. What follows from it is proved once (the free list names exactly the dead slots,
  the counter counts the live ones, a new id was not alive) and interpreted on the
  vertices, edges, faces and loops of the mesh.
\<close>

lemma set_simps [simp]:
  "m_edges (set_vertex i f m) = m_edges m" "m_loops (set_vertex i f m) = m_loops m"
  "m_faces (set_vertex i f m) = m_faces m"
  "m_vertices (set_edge i g m) = m_vertices m" "m_loops (set_edge i g m) = m_loops m"
  "m_faces (set_edge i g m) = m_faces m"
  "m_vertices (set_loop i h m) = m_vertices m" "m_edges (set_loop i h m) = m_edges m"
  "m_faces (set_loop i h m) = m_faces m"
  "m_vertices (set_face i k m) = m_vertices m" "m_edges (set_face i k m) = m_edges m"
  "m_loops (set_face i k m) = m_loops m"
  by (simp_all add: set_vertex_def set_edge_def set_loop_def set_face_def)

lemma set_nth [simp]:
  "m_vertices (set_vertex i f m) = (m_vertices m)[i := f (m_vertices m ! i)]"
  "m_edges (set_edge i g m) = (m_edges m)[i := g (m_edges m ! i)]"
  "m_loops (set_loop i h m) = (m_loops m)[i := h (m_loops m ! i)]"
  "m_faces (set_face i k m) = (m_faces m)[i := k (m_faces m ! i)]"
  by (simp_all add: set_vertex_def set_edge_def set_loop_def set_face_def)

text \<open>The bookkeeping fields: free lists, counters, attribute sets.\<close>

definition books :: "mesh \<Rightarrow> (nat list \<times> nat list \<times> nat list \<times> nat list) \<times>
    (nat \<times> nat \<times> nat \<times> nat) \<times> (attribute_set \<times> attribute_set \<times> attribute_set \<times> attribute_set)" where
  "books m = ((m_freeVertices m, m_freeEdges m, m_freeLoops m, m_freeFaces m),
     (m_aliveVertices m, m_aliveEdges m, m_aliveFaces m, m_aliveLoops m),
     (m_vertexAttrs m, m_edgeAttrs m, m_faceAttrs m, m_cornerAttrs m))"

lemma set_books [simp]:
  "books (set_vertex i f m) = books m" "books (set_edge i g m) = books m"
  "books (set_loop i h m) = books m" "books (set_face i k m) = books m"
  by (simp_all add: books_def set_vertex_def set_edge_def set_loop_def set_face_def)

section \<open>The interface of one element array\<close>

locale element_pool =
  fixes elems :: "'m \<Rightarrow> 'x list" and freel :: "'m \<Rightarrow> nat list" and count :: "'m \<Rightarrow> nat"
    and alive :: "'x \<Rightarrow> bool" and alloc :: "'m \<Rightarrow> nat \<times> 'm" and release :: "nat \<Rightarrow> 'm \<Rightarrow> 'm"
    and blank :: 'x and fresh :: 'x and kill :: "'x \<Rightarrow> 'x"
  assumes alive_fresh: "alive fresh"
    and dead_kill: "\<not> alive (kill x)"
    and alloc_id: "fst (alloc m) = (if freel m = [] then to_index (length (elems m)) else last (freel m))"
    and alloc_elems: "elems (snd (alloc m)) =
        (if freel m = [] then elems m @ [blank] else elems m)[fst (alloc m) := fresh]"
    and alloc_freel: "freel (snd (alloc m)) = butlast (freel m)"
    and alloc_count: "count (snd (alloc m)) = Suc (count m)"
    and release_elems: "elems (release i m) = (elems m)[i := kill (elems m ! i)]"
    and release_freel: "freel (release i m) = freel m @ [i]"
    and release_count: "count (release i m) = count m - 1"
begin

definition live :: "'m \<Rightarrow> nat \<Rightarrow> bool" where
  "live m i \<longleftrightarrow> i < length (elems m) \<and> alive (elems m ! i)"

definition pool_inv :: "'m \<Rightarrow> bool" where
  "pool_inv m \<longleftrightarrow> distinct (freel m) \<and>
     set (freel m) = {i. i < length (elems m) \<and> \<not> alive (elems m ! i)} \<and>
     count m = card {i. live m i}"

definition has_room :: "'m \<Rightarrow> bool" where
  "has_room m \<longleftrightarrow> freel m \<noteq> [] \<or> length (elems m) < kInvalidIndex"

lemma to_index_small: "n < kInvalidIndex \<Longrightarrow> to_index n = n"
  by (simp add: to_index_def kInvalidIndex_def)

lemma finite_live: "finite {i. live m i}"
  by (rule finite_subset [of _ "{..<length (elems m)}"]) (auto simp: live_def)

lemma alloc_spec:
  assumes "pool_inv m" "has_room m" "alloc m = (i, m')"
  shows "\<not> live m i" "i < length (elems m')"
    and "j < length (elems m) \<Longrightarrow> j \<noteq> i \<Longrightarrow> elems m' ! j = elems m ! j"
    and "elems m' ! i = fresh"
    and "length (elems m') = max (length (elems m)) (Suc i)"
    and "live m' j \<longleftrightarrow> j = i \<or> live m j"
    and "pool_inv m'"
proof -
  have i: "i = (if freel m = [] then length (elems m) else last (freel m))"
    using alloc_id [of m] assms(2,3) to_index_small by (auto simp: has_room_def split: if_splits)
  have e: "elems m' = (if freel m = [] then elems m @ [blank] else elems m)[i := fresh]"
    using alloc_elems [of m] assms(3) by simp
  have dead: "freel m \<noteq> [] \<Longrightarrow> i < length (elems m) \<and> \<not> alive (elems m ! i)"
    using i assms(1) last_in_set [of "freel m"] by (auto simp: pool_inv_def)
  show nl: "\<not> live m i" and il: "i < length (elems m')"
    and "length (elems m') = max (length (elems m)) (Suc i)"
    using i e dead by (auto simp: live_def)
  show nth: "j < length (elems m) \<Longrightarrow> j \<noteq> i \<Longrightarrow> elems m' ! j = elems m ! j" for j
    using e by (auto simp: nth_append)
  show nthi: "elems m' ! i = fresh" using il e by (auto split: if_splits)
  show lv: "live m' j \<longleftrightarrow> j = i \<or> live m j" for j
    using nth [of j] nthi il alive_fresh i e
    by (cases "j = i") (auto simp: live_def split: if_splits)
  have "count m' = Suc (count m)" using alloc_count [of m] assms(3) by simp
  moreover have "{j. live m' j} = insert i {j. live m j}" using lv by auto
  ultimately have c: "count m' = card {j. live m' j}"
    using nl finite_live [of m] assms(1) by (simp add: pool_inv_def)
  have f: "freel m' = butlast (freel m)" using alloc_freel [of m] assms(3) by simp
  have "set (freel m') = set (freel m) - {i}" "distinct (freel m')"
    using assms(1) i unfolding f pool_inv_def
    by (cases "freel m" rule: rev_cases; auto)+
  moreover have "{j. j < length (elems m') \<and> \<not> alive (elems m' ! j)} =
      {j. j < length (elems m) \<and> \<not> alive (elems m ! j)} - {i}"
    using alive_fresh i e dead
    by (auto split: if_splits simp: nth_append nth_list_update less_Suc_eq)
  ultimately show "pool_inv m'" using assms(1) c by (simp add: pool_inv_def)
qed

lemma release_spec:
  assumes "pool_inv m" "live m i"
  shows "live (release i m) j \<longleftrightarrow> j \<noteq> i \<and> live m j"
    and "j \<noteq> i \<Longrightarrow> elems (release i m) ! j = elems m ! j"
    and "length (elems (release i m)) = length (elems m)"
    and "pool_inv (release i m)"
proof -
  show lv: "live (release i m) j \<longleftrightarrow> j \<noteq> i \<and> live m j" for j
    using dead_kill
    by (cases "i < length (elems m)"; cases "j = i") (auto simp: live_def release_elems list_update_beyond)
  show "j \<noteq> i \<Longrightarrow> elems (release i m) ! j = elems m ! j"
    and "length (elems (release i m)) = length (elems m)"
    by (simp_all add: release_elems)
  have "{j. live (release i m) j} = {j. live m j} - {i}" using lv by auto
  then have "count (release i m) = card {j. live (release i m) j}"
    using assms finite_live [of m] by (simp add: release_count pool_inv_def)
  moreover have "{j. j < length (elems (release i m)) \<and> \<not> alive (elems (release i m) ! j)} =
      insert i {j. j < length (elems m) \<and> \<not> alive (elems m ! j)}"
    using assms(2) dead_kill by (auto simp: release_elems nth_list_update live_def split: if_splits)
  ultimately show "pool_inv (release i m)"
    using assms by (auto simp: pool_inv_def release_freel live_def)
qed

lemma pool_inv_cong:
  assumes "freel m' = freel m" "count m' = count m" "length (elems m') = length (elems m)"
    and "\<And>i. i < length (elems m) \<Longrightarrow> alive (elems m' ! i) = alive (elems m ! i)"
  shows "pool_inv m' = pool_inv m" "live m' i = live m i"
proof -
  show lv: "live m' i = live m i" for i using assms by (auto simp: live_def)
  have "{i. i < length (elems m') \<and> \<not> alive (elems m' ! i)} =
      {i. i < length (elems m) \<and> \<not> alive (elems m ! i)}" using assms(3,4) by auto
  then show "pool_inv m' = pool_inv m" by (simp add: pool_inv_def assms(1,2) lv)
qed

lemma pool_inv_empty: "elems m = [] \<Longrightarrow> freel m = [] \<Longrightarrow> count m = 0 \<Longrightarrow> pool_inv m"
  by (simp add: pool_inv_def live_def)

end

section \<open>The four arrays of the mesh\<close>

interpretation vpool: element_pool m_vertices m_freeVertices m_aliveVertices mv_alive allocVertex
    freeVertex vertex0 "vertex0\<lparr>mv_alive := True\<rparr>" "mv_alive_update (\<lambda>_. False)"
  by unfold_locales (simp_all add: allocVertex_def freeVertex_def Let_def)

interpretation epool: element_pool m_edges m_freeEdges m_aliveEdges me_alive allocEdge
    freeEdge edge0 "edge0\<lparr>me_alive := True\<rparr>" "me_alive_update (\<lambda>_. False)"
  by unfold_locales (simp_all add: allocEdge_def freeEdge_def Let_def)

interpretation fpool: element_pool m_faces m_freeFaces m_aliveFaces mf_alive allocFace
    freeFace face0 "face0\<lparr>mf_alive := True\<rparr>" "mf_alive_update (\<lambda>_. False)"
  by unfold_locales (simp_all add: allocFace_def freeFace_def Let_def)

interpretation lpool: element_pool m_loops m_freeLoops m_aliveLoops ml_alive allocLoop
    freeLoop loop0 "loop0\<lparr>ml_alive := True\<rparr>" "ml_alive_update (\<lambda>_. False)"
  by unfold_locales (simp_all add: allocLoop_def freeLoop_def Let_def)

end
