(* ===== verification/MeshInv.thy ===== *)
theory MeshInv
  imports MeshPools
begin

text \<open>
  The structural invariant of the mesh and its preservation by the linkage primitives of
  \<open>mesh.cpp\<close>. It is the conjunction of four parts, so that an operation in the middle of
  its work can be described by the parts it keeps: the element arrays (\<open>pools_inv\<close>), edges
  and vertex lists (\<open>edges_inv\<close>), radial cycles (\<open>radial_inv\<close>), face cycles (\<open>faces_inv\<close>),
  and what ties a corner to its edge (\<open>corners_inv\<close>).
\<close>

section \<open>Accessors\<close>

abbreviation vx :: "mesh \<Rightarrow> nat \<Rightarrow> mvertex" where "vx m v \<equiv> m_vertices m ! v"
abbreviation ed :: "mesh \<Rightarrow> nat \<Rightarrow> medge" where "ed m e \<equiv> m_edges m ! e"
abbreviation lp :: "mesh \<Rightarrow> nat \<Rightarrow> mloop" where "lp m l \<equiv> m_loops m ! l"
abbreviation fc :: "mesh \<Rightarrow> nat \<Rightarrow> mface" where "fc m f \<equiv> m_faces m ! f"

definition linked :: "mesh \<Rightarrow> nat \<Rightarrow> bool" where
  "linked m l \<longleftrightarrow> loopAlive m l \<and> ml_rnext (lp m l) \<noteq> kInvalidIndex"

lemma live_alive [simp]:
  "vpool.live m = vertexAlive m" "epool.live m = edgeAlive m"
  "fpool.live m = faceAlive m" "lpool.live m = loopAlive m"
  by (auto simp: fun_eq_iff vpool.live_def epool.live_def fpool.live_def lpool.live_def
      vertexAlive_def edgeAlive_def faceAlive_def loopAlive_def)

section \<open>The parts of the invariant\<close>

definition attrs_inv :: "mesh \<Rightarrow> bool" where
  "attrs_inv m \<longleftrightarrow> attr_inv (m_vertexAttrs m) \<and> as_size (m_vertexAttrs m) = length (m_vertices m) \<and>
     attr_inv (m_edgeAttrs m) \<and> as_size (m_edgeAttrs m) = length (m_edges m) \<and>
     attr_inv (m_faceAttrs m) \<and> as_size (m_faceAttrs m) = length (m_faces m) \<and>
     attr_inv (m_cornerAttrs m) \<and> as_size (m_cornerAttrs m) = length (m_loops m)"

definition capacity :: "mesh \<Rightarrow> nat \<Rightarrow> bool" where
  "capacity m k \<longleftrightarrow> length (m_vertices m) + k \<le> kInvalidIndex \<and> length (m_edges m) + k \<le> kInvalidIndex \<and>
     length (m_faces m) + k \<le> kInvalidIndex \<and> length (m_loops m) + k \<le> kInvalidIndex"

definition pools_inv :: "mesh \<Rightarrow> bool" where
  "pools_inv m \<longleftrightarrow> vpool.pool_inv m \<and> epool.pool_inv m \<and> fpool.pool_inv m \<and> lpool.pool_inv m \<and>
     attrs_inv m \<and> capacity m 0"

definition edges_inv :: "mesh \<Rightarrow> bool" where
  "edges_inv m \<longleftrightarrow>
     (\<forall>e. edgeAlive m e \<longrightarrow> me_v0 (ed m e) \<noteq> me_v1 (ed m e) \<and>
        (\<forall>v \<in> {me_v0 (ed m e), me_v1 (ed m e)}. vertexAlive m v \<and> e \<in> set (mv_edges (vx m v)))) \<and>
     (\<forall>v. vertexAlive m v \<longrightarrow> distinct (mv_edges (vx m v)) \<and>
        (\<forall>e \<in> set (mv_edges (vx m v)). edgeAlive m e \<and> v \<in> {me_v0 (ed m e), me_v1 (ed m e)})) \<and>
     (\<forall>e e'. edgeAlive m e \<and> edgeAlive m e' \<and> edge_joins (ed m e') (me_v0 (ed m e)) (me_v1 (ed m e))
        \<longrightarrow> e = e')"

definition radial_ok :: "mesh \<Rightarrow> nat \<Rightarrow> bool" where
  "radial_ok m e \<longleftrightarrow>
     (let members = {l. linked m l \<and> ml_edge (lp m l) = e}; head = me_radial (ed m e)
      in if head = kInvalidIndex then members = {}
         else \<exists>xs. ring (\<lambda>l. ml_rnext (lp m l)) (\<lambda>l. ml_rprev (lp m l)) (head # xs) \<and>
                   set (head # xs) = members)"

definition radial_inv :: "mesh \<Rightarrow> bool" where
  "radial_inv m \<longleftrightarrow> (\<forall>e. edgeAlive m e \<longrightarrow> radial_ok m e) \<and>
     (\<forall>l. linked m l \<longrightarrow> edgeAlive m (ml_edge (lp m l)))"

definition face_ok :: "mesh \<Rightarrow> nat \<Rightarrow> bool" where
  "face_ok m f \<longleftrightarrow> (\<exists>xs. ring (\<lambda>l. ml_next (lp m l)) (\<lambda>l. ml_prev (lp m l)) (mf_first (fc m f) # xs) \<and>
     set (mf_first (fc m f) # xs) = {l. loopAlive m l \<and> ml_face (lp m l) = f} \<and>
     mf_size (fc m f) = Suc (length xs) \<and> 2 \<le> length xs \<and>
     distinct (map (\<lambda>l. ml_vertex (lp m l)) (mf_first (fc m f) # xs)))"

definition faces_inv :: "mesh \<Rightarrow> bool" where
  "faces_inv m \<longleftrightarrow> (\<forall>f. faceAlive m f \<longrightarrow> face_ok m f) \<and>
     (\<forall>l. loopAlive m l \<longrightarrow> faceAlive m (ml_face (lp m l)) \<and> vertexAlive m (ml_vertex (lp m l)))"

definition no_wire :: "mesh \<Rightarrow> bool" where
  "no_wire m \<longleftrightarrow> (\<forall>e. edgeAlive m e \<longrightarrow> me_radial (ed m e) \<noteq> kInvalidIndex)"

definition corner_ok :: "mesh \<Rightarrow> nat \<Rightarrow> bool" where
  "corner_ok m l \<longleftrightarrow> linked m l \<and>
     edge_joins (ed m (ml_edge (lp m l))) (ml_vertex (lp m l)) (ml_vertex (lp m (ml_next (lp m l))))"

definition corners_inv :: "mesh \<Rightarrow> bool" where
  "corners_inv m \<longleftrightarrow> (\<forall>l. loopAlive m l \<longrightarrow> corner_ok m l)"

definition mesh_inv :: "mesh \<Rightarrow> bool" where
  "mesh_inv m \<longleftrightarrow> pools_inv m \<and> edges_inv m \<and> radial_inv m \<and> faces_inv m \<and> corners_inv m \<and> no_wire m"

lemma edge_joins_commute: "edge_joins e a b \<longleftrightarrow> edge_joins e b a"
  by (auto simp: edge_joins_def)

lemma capacity_mono: "capacity m k \<Longrightarrow> j \<le> k \<Longrightarrow> capacity m j"
  by (simp add: capacity_def)

lemma alive_bound:
  assumes "pools_inv m"
  shows "vertexAlive m v \<Longrightarrow> v < kInvalidIndex" "edgeAlive m e \<Longrightarrow> e < kInvalidIndex"
    "faceAlive m f \<Longrightarrow> f < kInvalidIndex" "loopAlive m l \<Longrightarrow> l < kInvalidIndex"
  using assms
  by (auto simp: pools_inv_def capacity_def vertexAlive_def edgeAlive_def faceAlive_def loopAlive_def)

section \<open>Congruence\<close>

text \<open>
  Writing fields that a part does not mention keeps the part. \<open>same_alive\<close>: lengths, alive
  flags and bookkeeping agree.
\<close>

definition same_alive :: "mesh \<Rightarrow> mesh \<Rightarrow> bool" where
  "same_alive m m' \<longleftrightarrow> books m' = books m \<and>
     map mv_alive (m_vertices m') = map mv_alive (m_vertices m) \<and>
     map me_alive (m_edges m') = map me_alive (m_edges m) \<and>
     map mf_alive (m_faces m') = map mf_alive (m_faces m) \<and>
     map ml_alive (m_loops m') = map ml_alive (m_loops m)"

lemma map_eq_nth: "map f xs = map f ys \<longleftrightarrow> length xs = length ys \<and> (\<forall>i < length xs. f (xs ! i) = f (ys ! i))"
  by (auto simp: list_eq_iff_nth_eq)

lemma same_alive_refl [simp]: "same_alive m m"
  by (simp add: same_alive_def)

lemma same_alive_trans: "same_alive a b \<Longrightarrow> same_alive b c \<Longrightarrow> same_alive a c"
  by (simp add: same_alive_def)

lemma map_update_same: "f x = f (xs ! i) \<Longrightarrow> map f (xs[i := x]) = map f xs"
  by (cases "i < length xs") (auto simp: map_update list_update_beyond list_eq_iff_nth_eq nth_list_update)

lemma same_alive_set [simp]:
  "(\<And>x. mv_alive (f x) = mv_alive x) \<Longrightarrow> same_alive m (set_vertex i f m)"
  "(\<And>x. me_alive (g x) = me_alive x) \<Longrightarrow> same_alive m (set_edge i g m)"
  "(\<And>x. ml_alive (h x) = ml_alive x) \<Longrightarrow> same_alive m (set_loop i h m)"
  "(\<And>x. mf_alive (k x) = mf_alive x) \<Longrightarrow> same_alive m (set_face i k m)"
  by (simp_all add: same_alive_def map_update_same)

lemma same_alive_alive:
  assumes "same_alive m m'"
  shows "vertexAlive m' v = vertexAlive m v" "edgeAlive m' e = edgeAlive m e"
    "faceAlive m' f = faceAlive m f" "loopAlive m' l = loopAlive m l"
  using assms
  by (auto simp: same_alive_def map_eq_nth vertexAlive_def edgeAlive_def faceAlive_def loopAlive_def)

lemma same_alive_length:
  assumes "same_alive m m'"
  shows "length (m_vertices m') = length (m_vertices m)" "length (m_edges m') = length (m_edges m)"
    "length (m_faces m') = length (m_faces m)" "length (m_loops m') = length (m_loops m)"
  using assms by (auto simp: same_alive_def map_eq_nth)

lemma same_alive_pools:
  assumes "same_alive m m'"
  shows "pools_inv m' = pools_inv m"
proof -
  have "vpool.pool_inv m' = vpool.pool_inv m" "epool.pool_inv m' = epool.pool_inv m"
    "fpool.pool_inv m' = fpool.pool_inv m" "lpool.pool_inv m' = lpool.pool_inv m"
    using assms
    by (intro vpool.pool_inv_cong epool.pool_inv_cong fpool.pool_inv_cong lpool.pool_inv_cong;
        auto simp: same_alive_def map_eq_nth books_def)+
  moreover have "attrs_inv m' = attrs_inv m"
    using assms same_alive_length [OF assms] by (simp add: attrs_inv_def same_alive_def books_def)
  moreover have "capacity m' 0 = capacity m 0"
    using same_alive_length [OF assms] by (simp add: capacity_def)
  ultimately show ?thesis by (simp add: pools_inv_def)
qed

lemma edges_inv_cong:
  assumes "edges_inv m"
    and "\<And>v. vertexAlive m' v = vertexAlive m v" "\<And>e. edgeAlive m' e = edgeAlive m e"
    and "\<And>v. vertexAlive m v \<Longrightarrow> mv_edges (vx m' v) = mv_edges (vx m v)"
    and "\<And>e. edgeAlive m e \<Longrightarrow> me_v0 (ed m' e) = me_v0 (ed m e) \<and> me_v1 (ed m' e) = me_v1 (ed m e)"
  shows "edges_inv m'"
proof -
  have j: "edgeAlive m e \<Longrightarrow> edge_joins (ed m' e) a b = edge_joins (ed m e) a b" for e a b
    using assms(5) [of e] by (auto simp: edge_joins_def)
  show ?thesis unfolding edges_inv_def
  proof (intro conjI)
    show "\<forall>e. edgeAlive m' e \<longrightarrow> me_v0 (ed m' e) \<noteq> me_v1 (ed m' e) \<and>
        (\<forall>v \<in> {me_v0 (ed m' e), me_v1 (ed m' e)}. vertexAlive m' v \<and> e \<in> set (mv_edges (vx m' v)))"
      using assms by (simp add: edges_inv_def)
    show "\<forall>v. vertexAlive m' v \<longrightarrow> distinct (mv_edges (vx m' v)) \<and>
        (\<forall>e \<in> set (mv_edges (vx m' v)). edgeAlive m' e \<and> v \<in> {me_v0 (ed m' e), me_v1 (ed m' e)})"
      using assms by (simp add: edges_inv_def)
    show "\<forall>e e'. edgeAlive m' e \<and> edgeAlive m' e' \<and>
        edge_joins (ed m' e') (me_v0 (ed m' e)) (me_v1 (ed m' e)) \<longrightarrow> e = e'"
    proof (intro allI impI)
      fix e e'
      assume a: "edgeAlive m' e \<and> edgeAlive m' e' \<and>
        edge_joins (ed m' e') (me_v0 (ed m' e)) (me_v1 (ed m' e))"
      then have "edgeAlive m e" "edgeAlive m e'" by (simp_all add: assms(3))
      with a j assms(5) have "edge_joins (ed m e') (me_v0 (ed m e)) (me_v1 (ed m e))" by simp
      with \<open>edgeAlive m e\<close> \<open>edgeAlive m e'\<close> show "e = e'"
        using assms(1) unfolding edges_inv_def by blast
    qed
  qed
qed

lemma radial_ok_cong:
  assumes "radial_ok m e"
    and "\<And>l. linked m' l \<and> ml_edge (lp m' l) = e \<longleftrightarrow> linked m l \<and> ml_edge (lp m l) = e"
    and "me_radial (ed m' e) = me_radial (ed m e)"
    and "\<And>l. linked m l \<Longrightarrow> ml_edge (lp m l) = e \<Longrightarrow>
      ml_rnext (lp m' l) = ml_rnext (lp m l) \<and> ml_rprev (lp m' l) = ml_rprev (lp m l)"
  shows "radial_ok m' e"
proof (cases "me_radial (ed m e) = kInvalidIndex")
  case True
  then show ?thesis using assms by (simp add: radial_ok_def)
next
  case False
  then obtain xs where r: "ring (\<lambda>l. ml_rnext (lp m l)) (\<lambda>l. ml_rprev (lp m l)) (me_radial (ed m e) # xs)"
      and s: "set (me_radial (ed m e) # xs) = {l. linked m l \<and> ml_edge (lp m l) = e}"
    using assms(1) by (auto simp: radial_ok_def Let_def)
  have eq: "\<forall>l \<in> set (me_radial (ed m e) # xs). ml_rnext (lp m' l) = ml_rnext (lp m l) \<and>
      ml_rprev (lp m' l) = ml_rprev (lp m l)"
    using s assms(4) by blast
  have "ring (\<lambda>l. ml_rnext (lp m' l)) (\<lambda>l. ml_rprev (lp m' l)) (me_radial (ed m e) # xs)"
    using r by (rule ring_cong [THEN iffD1, rotated 2]) (use eq in auto)
  then show ?thesis using False s assms(2,3) by (auto simp: radial_ok_def Let_def)
qed

lemma face_ok_cong:
  assumes "face_ok m f"
    and "\<And>l. loopAlive m' l \<and> ml_face (lp m' l) = f \<longleftrightarrow> loopAlive m l \<and> ml_face (lp m l) = f"
    and "mf_first (fc m' f) = mf_first (fc m f)" "mf_size (fc m' f) = mf_size (fc m f)"
    and "\<And>l. loopAlive m l \<Longrightarrow> ml_face (lp m l) = f \<Longrightarrow> ml_next (lp m' l) = ml_next (lp m l) \<and>
      ml_prev (lp m' l) = ml_prev (lp m l) \<and> ml_vertex (lp m' l) = ml_vertex (lp m l)"
  shows "face_ok m' f"
proof -
  obtain xs where r: "ring (\<lambda>l. ml_next (lp m l)) (\<lambda>l. ml_prev (lp m l)) (mf_first (fc m f) # xs)"
      and s: "set (mf_first (fc m f) # xs) = {l. loopAlive m l \<and> ml_face (lp m l) = f}"
      and d: "mf_size (fc m f) = Suc (length xs)" "2 \<le> length xs"
        "distinct (map (\<lambda>l. ml_vertex (lp m l)) (mf_first (fc m f) # xs))"
    using assms(1) by (auto simp: face_ok_def)
  have eq: "\<forall>l \<in> set (mf_first (fc m f) # xs). ml_next (lp m' l) = ml_next (lp m l) \<and>
      ml_prev (lp m' l) = ml_prev (lp m l) \<and> ml_vertex (lp m' l) = ml_vertex (lp m l)"
    using s assms(5) by blast
  have "ring (\<lambda>l. ml_next (lp m' l)) (\<lambda>l. ml_prev (lp m' l)) (mf_first (fc m f) # xs)"
    using r by (rule ring_cong [THEN iffD1, rotated 2]) (use eq in auto)
  moreover have "map (\<lambda>l. ml_vertex (lp m' l)) (mf_first (fc m f) # xs) =
      map (\<lambda>l. ml_vertex (lp m l)) (mf_first (fc m f) # xs)"
    using eq by (intro map_cong) auto
  ultimately show ?thesis
    unfolding face_ok_def assms(2,3,4) using s d by (metis (no_types, lifting))
qed

end
