(* ===== verification/MeshLink.thy ===== *)
theory MeshLink
  imports MeshInv
begin

text \<open>
  What the allocation and linkage primitives of \<open>mesh.cpp\<close> do to the parts of the
  structural invariant: each lemma describes one primitive by the parts it keeps, what it
  changes, and what it leaves alone.
\<close>

section \<open>Allocation\<close>

lemma alloc_frame [simp]:
  "m_edges (snd (allocVertex m)) = m_edges m" "m_loops (snd (allocVertex m)) = m_loops m"
  "m_faces (snd (allocVertex m)) = m_faces m"
  "m_vertices (snd (allocEdge m)) = m_vertices m" "m_loops (snd (allocEdge m)) = m_loops m"
  "m_faces (snd (allocEdge m)) = m_faces m"
  "m_vertices (snd (allocFace m)) = m_vertices m" "m_edges (snd (allocFace m)) = m_edges m"
  "m_loops (snd (allocFace m)) = m_loops m"
  "m_vertices (snd (allocLoop m)) = m_vertices m" "m_edges (snd (allocLoop m)) = m_edges m"
  "m_faces (snd (allocLoop m)) = m_faces m"
  by (simp_all add: allocVertex_def allocEdge_def allocFace_def allocLoop_def Let_def)

lemma free_frame [simp]:
  "m_edges (freeVertex v m) = m_edges m" "m_loops (freeVertex v m) = m_loops m"
  "m_faces (freeVertex v m) = m_faces m"
  "m_vertices (freeEdge e m) = m_vertices m" "m_loops (freeEdge e m) = m_loops m"
  "m_faces (freeEdge e m) = m_faces m"
  "m_vertices (freeFace f m) = m_vertices m" "m_edges (freeFace f m) = m_edges m"
  "m_loops (freeFace f m) = m_loops m"
  "m_vertices (freeLoop l m) = m_vertices m" "m_edges (freeLoop l m) = m_edges m"
  "m_faces (freeLoop l m) = m_faces m"
  by (simp_all add: freeVertex_def freeEdge_def freeFace_def freeLoop_def)

lemma alloc_books:
  "m_freeEdges (snd (allocVertex m)) = m_freeEdges m" "m_freeLoops (snd (allocVertex m)) = m_freeLoops m"
  "m_freeFaces (snd (allocVertex m)) = m_freeFaces m" "m_aliveEdges (snd (allocVertex m)) = m_aliveEdges m"
  "m_aliveLoops (snd (allocVertex m)) = m_aliveLoops m" "m_aliveFaces (snd (allocVertex m)) = m_aliveFaces m"
  "m_freeVertices (snd (allocEdge m)) = m_freeVertices m" "m_freeLoops (snd (allocEdge m)) = m_freeLoops m"
  "m_freeFaces (snd (allocEdge m)) = m_freeFaces m" "m_aliveVertices (snd (allocEdge m)) = m_aliveVertices m"
  "m_aliveLoops (snd (allocEdge m)) = m_aliveLoops m" "m_aliveFaces (snd (allocEdge m)) = m_aliveFaces m"
  "m_freeVertices (snd (allocFace m)) = m_freeVertices m" "m_freeLoops (snd (allocFace m)) = m_freeLoops m"
  "m_freeEdges (snd (allocFace m)) = m_freeEdges m" "m_aliveVertices (snd (allocFace m)) = m_aliveVertices m"
  "m_aliveLoops (snd (allocFace m)) = m_aliveLoops m" "m_aliveEdges (snd (allocFace m)) = m_aliveEdges m"
  "m_freeVertices (snd (allocLoop m)) = m_freeVertices m" "m_freeFaces (snd (allocLoop m)) = m_freeFaces m"
  "m_freeEdges (snd (allocLoop m)) = m_freeEdges m" "m_aliveVertices (snd (allocLoop m)) = m_aliveVertices m"
  "m_aliveFaces (snd (allocLoop m)) = m_aliveFaces m" "m_aliveEdges (snd (allocLoop m)) = m_aliveEdges m"
  by (simp_all add: allocVertex_def allocEdge_def allocFace_def allocLoop_def Let_def)

lemma free_books:
  "m_freeEdges (freeVertex i m) = m_freeEdges m" "m_freeLoops (freeVertex i m) = m_freeLoops m"
  "m_freeFaces (freeVertex i m) = m_freeFaces m" "m_aliveEdges (freeVertex i m) = m_aliveEdges m"
  "m_aliveLoops (freeVertex i m) = m_aliveLoops m" "m_aliveFaces (freeVertex i m) = m_aliveFaces m"
  "m_freeVertices (freeEdge i m) = m_freeVertices m" "m_freeLoops (freeEdge i m) = m_freeLoops m"
  "m_freeFaces (freeEdge i m) = m_freeFaces m" "m_aliveVertices (freeEdge i m) = m_aliveVertices m"
  "m_aliveLoops (freeEdge i m) = m_aliveLoops m" "m_aliveFaces (freeEdge i m) = m_aliveFaces m"
  "m_freeVertices (freeFace i m) = m_freeVertices m" "m_freeLoops (freeFace i m) = m_freeLoops m"
  "m_freeEdges (freeFace i m) = m_freeEdges m" "m_aliveVertices (freeFace i m) = m_aliveVertices m"
  "m_aliveLoops (freeFace i m) = m_aliveLoops m" "m_aliveEdges (freeFace i m) = m_aliveEdges m"
  "m_freeVertices (freeLoop i m) = m_freeVertices m" "m_freeFaces (freeLoop i m) = m_freeFaces m"
  "m_freeEdges (freeLoop i m) = m_freeEdges m" "m_aliveVertices (freeLoop i m) = m_aliveVertices m"
  "m_aliveFaces (freeLoop i m) = m_aliveFaces m" "m_aliveEdges (freeLoop i m) = m_aliveEdges m"
  by (simp_all add: freeVertex_def freeEdge_def freeFace_def freeLoop_def
      set_vertex_def set_edge_def set_face_def set_loop_def)

lemma free_attrs: 
  "m_vertexAttrs (freeVertex i m) = m_vertexAttrs m" "m_edgeAttrs (freeVertex i m) = m_edgeAttrs m"
  "m_faceAttrs (freeVertex i m) = m_faceAttrs m" "m_cornerAttrs (freeVertex i m) = m_cornerAttrs m"
  "m_vertexAttrs (freeEdge i m) = m_vertexAttrs m" "m_edgeAttrs (freeEdge i m) = m_edgeAttrs m"
  "m_faceAttrs (freeEdge i m) = m_faceAttrs m" "m_cornerAttrs (freeEdge i m) = m_cornerAttrs m"
  "m_vertexAttrs (freeFace i m) = m_vertexAttrs m" "m_edgeAttrs (freeFace i m) = m_edgeAttrs m"
  "m_faceAttrs (freeFace i m) = m_faceAttrs m" "m_cornerAttrs (freeFace i m) = m_cornerAttrs m"
  "m_vertexAttrs (freeLoop i m) = m_vertexAttrs m" "m_edgeAttrs (freeLoop i m) = m_edgeAttrs m"
  "m_faceAttrs (freeLoop i m) = m_faceAttrs m" "m_cornerAttrs (freeLoop i m) = m_cornerAttrs m"
  by (simp_all add: freeVertex_def freeEdge_def freeFace_def freeLoop_def
      set_vertex_def set_edge_def set_face_def set_loop_def)

lemma alloc_attrs_inv:
  "attrs_inv m \<Longrightarrow> vpool.has_room m \<Longrightarrow> vpool.pool_inv m \<Longrightarrow> attrs_inv (snd (allocVertex m))"
  "attrs_inv m \<Longrightarrow> epool.has_room m \<Longrightarrow> epool.pool_inv m \<Longrightarrow> attrs_inv (snd (allocEdge m))"
  "attrs_inv m \<Longrightarrow> fpool.has_room m \<Longrightarrow> fpool.pool_inv m \<Longrightarrow> attrs_inv (snd (allocFace m))"
  "attrs_inv m \<Longrightarrow> lpool.has_room m \<Longrightarrow> lpool.pool_inv m \<Longrightarrow> attrs_inv (snd (allocLoop m))"
  by (auto simp: attrs_inv_def allocVertex_def allocEdge_def allocFace_def allocLoop_def Let_def)

lemma capacity_room:
  assumes "capacity m (Suc k)"
  shows "vpool.has_room m" "epool.has_room m" "fpool.has_room m" "lpool.has_room m"
  using assms
  by (simp_all add: capacity_def vpool.has_room_def epool.has_room_def fpool.has_room_def lpool.has_room_def)

lemma alloc_length:
  "length (m_vertices (snd (allocVertex m))) \<le> Suc (length (m_vertices m))"
  "length (m_edges (snd (allocEdge m))) \<le> Suc (length (m_edges m))"
  "length (m_faces (snd (allocFace m))) \<le> Suc (length (m_faces m))"
  "length (m_loops (snd (allocLoop m))) \<le> Suc (length (m_loops m))"
  by (simp_all add: allocVertex_def allocEdge_def allocFace_def allocLoop_def Let_def)

lemma alloc_capacity:
  assumes "capacity m (Suc k)"
  shows "capacity (snd (allocVertex m)) k" "capacity (snd (allocEdge m)) k"
    "capacity (snd (allocFace m)) k" "capacity (snd (allocLoop m)) k"
  using assms alloc_length [of m] by (simp_all add: capacity_def)

lemma alloc_pools_inv:
  assumes "pools_inv m" "capacity m (Suc k)"
  shows "pools_inv (snd (allocVertex m))" "pools_inv (snd (allocEdge m))"
    "pools_inv (snd (allocFace m))" "pools_inv (snd (allocLoop m))"
proof -
  note room = capacity_room [OF assms(2)] 
  have p: "vpool.pool_inv m" "epool.pool_inv m" "fpool.pool_inv m" "lpool.pool_inv m" "attrs_inv m"
    using assms(1) by (auto simp: pools_inv_def)
  have c: "capacity (snd (allocVertex m)) 0" "capacity (snd (allocEdge m)) 0"
    "capacity (snd (allocFace m)) 0" "capacity (snd (allocLoop m)) 0"
    using alloc_capacity [OF assms(2)] by (auto elim: capacity_mono)
  show "pools_inv (snd (allocVertex m))"
    using vpool.alloc_spec(7) [OF p(1) room(1) prod.collapse [symmetric]] p alloc_attrs_inv room c
    by (simp add: pools_inv_def epool.pool_inv_cong(1) [of "snd (allocVertex m)" m] fpool.pool_inv_cong(1) [of "snd (allocVertex m)" m]
        lpool.pool_inv_cong(1) [of "snd (allocVertex m)" m] alloc_books)
  show "pools_inv (snd (allocEdge m))"
    using epool.alloc_spec(7) [OF p(2) room(2) prod.collapse [symmetric]] p alloc_attrs_inv room c
    by (simp add: pools_inv_def vpool.pool_inv_cong(1) [of "snd (allocEdge m)" m] fpool.pool_inv_cong(1) [of "snd (allocEdge m)" m]
        lpool.pool_inv_cong(1) [of "snd (allocEdge m)" m] alloc_books)
  show "pools_inv (snd (allocFace m))"
    using fpool.alloc_spec(7) [OF p(3) room(3) prod.collapse [symmetric]] p alloc_attrs_inv room c
    by (simp add: pools_inv_def vpool.pool_inv_cong(1) [of "snd (allocFace m)" m] epool.pool_inv_cong(1) [of "snd (allocFace m)" m]
        lpool.pool_inv_cong(1) [of "snd (allocFace m)" m] alloc_books)
  show "pools_inv (snd (allocLoop m))"
    using lpool.alloc_spec(7) [OF p(4) room(4) prod.collapse [symmetric]] p alloc_attrs_inv room c
    by (simp add: pools_inv_def vpool.pool_inv_cong(1) [of "snd (allocLoop m)" m] epool.pool_inv_cong(1) [of "snd (allocLoop m)" m]
        fpool.pool_inv_cong(1) [of "snd (allocLoop m)" m] alloc_books)
qed

lemma free_pools_inv:
  assumes "pools_inv m"
  shows "vertexAlive m i \<Longrightarrow> pools_inv (freeVertex i m)" "edgeAlive m i \<Longrightarrow> pools_inv (freeEdge i m)"
    "faceAlive m i \<Longrightarrow> pools_inv (freeFace i m)" "loopAlive m i \<Longrightarrow> pools_inv (freeLoop i m)"
proof -
  have p: "vpool.pool_inv m" "epool.pool_inv m" "fpool.pool_inv m" "lpool.pool_inv m" "attrs_inv m"
      "capacity m 0"
    using assms by (auto simp: pools_inv_def)
  have a: "attrs_inv (freeVertex i m)" "attrs_inv (freeEdge i m)" "attrs_inv (freeFace i m)"
      "attrs_inv (freeLoop i m)"
    using p(5) by (simp_all add: attrs_inv_def free_attrs vpool.release_elems epool.release_elems
        fpool.release_elems lpool.release_elems)
  have c: "capacity (freeVertex i m) 0" "capacity (freeEdge i m) 0" "capacity (freeFace i m) 0"
      "capacity (freeLoop i m) 0"
    using p(6) by (simp_all add: capacity_def vpool.release_elems epool.release_elems
        fpool.release_elems lpool.release_elems)
  show "vertexAlive m i \<Longrightarrow> pools_inv (freeVertex i m)"
    using vpool.release_spec(4) [OF p(1), of i] p a c
    by (simp add: pools_inv_def epool.pool_inv_cong(1) [of "freeVertex i m" m] fpool.pool_inv_cong(1) [of "freeVertex i m" m]
        lpool.pool_inv_cong(1) [of "freeVertex i m" m] free_books)
  show "edgeAlive m i \<Longrightarrow> pools_inv (freeEdge i m)"
    using epool.release_spec(4) [OF p(2), of i] p a c
    by (simp add: pools_inv_def vpool.pool_inv_cong(1) [of "freeEdge i m" m] fpool.pool_inv_cong(1) [of "freeEdge i m" m]
        lpool.pool_inv_cong(1) [of "freeEdge i m" m] free_books)
  show "faceAlive m i \<Longrightarrow> pools_inv (freeFace i m)"
    using fpool.release_spec(4) [OF p(3), of i] p a c
    by (simp add: pools_inv_def vpool.pool_inv_cong(1) [of "freeFace i m" m] epool.pool_inv_cong(1) [of "freeFace i m" m]
        lpool.pool_inv_cong(1) [of "freeFace i m" m] free_books)
  show "loopAlive m i \<Longrightarrow> pools_inv (freeLoop i m)"
    using lpool.release_spec(4) [OF p(4), of i] p a c
    by (simp add: pools_inv_def vpool.pool_inv_cong(1) [of "freeLoop i m" m] epool.pool_inv_cong(1) [of "freeLoop i m" m]
        fpool.pool_inv_cong(1) [of "freeLoop i m" m] free_books)
qed

section \<open>findOrCreateEdge\<close>

lemma find_none: "find P xs = None \<longleftrightarrow> (\<forall>x \<in> set xs. \<not> P x)"
  unfolding find_None_iff by blast

lemma find_Some_mem: "find P xs = Some x \<Longrightarrow> x \<in> set xs \<and> P x"
  by (auto simp: find_Some_iff in_set_conv_nth)

lemma edges_invD:
  "edges_inv m \<Longrightarrow> edgeAlive m e \<Longrightarrow> me_v0 (ed m e) \<noteq> me_v1 (ed m e) \<and>
    vertexAlive m (me_v0 (ed m e)) \<and> vertexAlive m (me_v1 (ed m e)) \<and>
    e \<in> set (mv_edges (vx m (me_v0 (ed m e)))) \<and> e \<in> set (mv_edges (vx m (me_v1 (ed m e))))"
  unfolding edges_inv_def by simp

lemma edges_inv_vertexD:
  "edges_inv m \<Longrightarrow> vertexAlive m v \<Longrightarrow> distinct (mv_edges (vx m v))"
  "edges_inv m \<Longrightarrow> vertexAlive m v \<Longrightarrow> e \<in> set (mv_edges (vx m v)) \<Longrightarrow>
    edgeAlive m e \<and> (v = me_v0 (ed m e) \<or> v = me_v1 (ed m e))"
  unfolding edges_inv_def by simp_all

lemma edges_inv_uniqueD:
  "edges_inv m \<Longrightarrow> edgeAlive m e \<Longrightarrow> edgeAlive m e' \<Longrightarrow>
    edge_joins (ed m e') (me_v0 (ed m e)) (me_v1 (ed m e)) \<Longrightarrow> e = e'"
  unfolding edges_inv_def by simp

lemma edges_invI:
  assumes "\<And>e. edgeAlive m e \<Longrightarrow> me_v0 (ed m e) \<noteq> me_v1 (ed m e) \<and>
      vertexAlive m (me_v0 (ed m e)) \<and> vertexAlive m (me_v1 (ed m e)) \<and>
      e \<in> set (mv_edges (vx m (me_v0 (ed m e)))) \<and> e \<in> set (mv_edges (vx m (me_v1 (ed m e))))"
    and "\<And>v. vertexAlive m v \<Longrightarrow> distinct (mv_edges (vx m v))"
    and "\<And>v e. vertexAlive m v \<Longrightarrow> e \<in> set (mv_edges (vx m v)) \<Longrightarrow>
      edgeAlive m e \<and> (v = me_v0 (ed m e) \<or> v = me_v1 (ed m e))"
    and "\<And>e e'. edgeAlive m e \<Longrightarrow> edgeAlive m e' \<Longrightarrow>
      edge_joins (ed m e') (me_v0 (ed m e)) (me_v1 (ed m e)) \<Longrightarrow> e = e'"
  shows "edges_inv m"
  unfolding edges_inv_def using assms by simp

lemma edge_in_lists:
  assumes "edges_inv m" "edgeAlive m e" "edge_joins (ed m e) a b"
  shows "e \<in> set (mv_edges (vx m a))" "e \<in> set (mv_edges (vx m b))" "a \<noteq> b"
    "vertexAlive m a" "vertexAlive m b"
  using edges_invD [OF assms(1,2)] assms(3) by (auto simp: edge_joins_def)

lemma edge_unique:
  assumes "edges_inv m" "edgeAlive m e" "edgeAlive m e'" "edge_joins (ed m e) a b" "edge_joins (ed m e') a b"
  shows "e = e'"
proof -
  have "edge_joins (ed m e') (me_v0 (ed m e)) (me_v1 (ed m e))"
    using assms(4,5) by (auto simp: edge_joins_def)
  with assms(1,2,3) show ?thesis by (rule edges_inv_uniqueD)
qed

definition created_edge :: "nat \<Rightarrow> nat \<Rightarrow> medge" where
  "created_edge a b = edge0\<lparr>me_alive := True, me_v0 := a, me_v1 := b\<rparr>"

definition with_edge :: "nat \<Rightarrow> mvertex \<Rightarrow> mvertex" where
  "with_edge e x = x\<lparr>mv_edges := mv_edges x @ [e]\<rparr>"

lemma created_edge_simps [simp]:
  "me_alive (created_edge a b)" "me_v0 (created_edge a b) = a" "me_v1 (created_edge a b) = b"
  "me_radial (created_edge a b) = kInvalidIndex" "\<not> me_feature (created_edge a b)"
  by (simp_all add: created_edge_def edge0_def)

lemma edges_inv_add:
  assumes inv: "edges_inv m" and ab: "a \<noteq> b" "vertexAlive m a" "vertexAlive m b"
    and new: "\<not> edgeAlive m e" "\<forall>e. edgeAlive m e \<longrightarrow> \<not> edge_joins (ed m e) a b"
    and al: "\<And>v. vertexAlive m' v = vertexAlive m v" "\<And>j. edgeAlive m' j \<longleftrightarrow> j = e \<or> edgeAlive m j"
    and vs: "\<And>v. vertexAlive m v \<Longrightarrow> mv_edges (vx m' v) =
      (if v = a \<or> v = b then mv_edges (vx m v) @ [e] else mv_edges (vx m v))"
    and es: "me_v0 (ed m' e) = a" "me_v1 (ed m' e) = b" "\<And>j. edgeAlive m j \<Longrightarrow> ed m' j = ed m j"
  shows "edges_inv m'"
proof (rule edges_invI)
  fix j assume j: "edgeAlive m' j"
  show "me_v0 (ed m' j) \<noteq> me_v1 (ed m' j) \<and>
      vertexAlive m' (me_v0 (ed m' j)) \<and> vertexAlive m' (me_v1 (ed m' j)) \<and>
      j \<in> set (mv_edges (vx m' (me_v0 (ed m' j)))) \<and> j \<in> set (mv_edges (vx m' (me_v1 (ed m' j))))"
  proof (cases "j = e")
    case True
    then show ?thesis using ab by (simp add: es al(1) vs)
  next
    case False
    then have "edgeAlive m j" using j al(2) by simp
    with edges_invD [OF inv this] show ?thesis by (auto simp: es(3) al(1) vs)
  qed
next
  fix v assume "vertexAlive m' v"
  then have v: "vertexAlive m v" by (simp add: al(1))
  have "e \<notin> set (mv_edges (vx m v))" using edges_inv_vertexD(2) [OF inv v] new(1) by blast
  with edges_inv_vertexD(1) [OF inv v] show "distinct (mv_edges (vx m' v))" by (simp add: vs [OF v])
  fix j assume "j \<in> set (mv_edges (vx m' v))"
  then have "(j = e \<and> (v = a \<or> v = b)) \<or> j \<in> set (mv_edges (vx m v))"
    by (auto simp: vs [OF v] split: if_splits)
  then show "edgeAlive m' j \<and> (v = me_v0 (ed m' j) \<or> v = me_v1 (ed m' j))"
    using edges_inv_vertexD(2) [OF inv v, of j] es al(2) by auto
next
  fix i j
  assume i: "edgeAlive m' i" and j: "edgeAlive m' j"
    and e: "edge_joins (ed m' j) (me_v0 (ed m' i)) (me_v1 (ed m' i))"
  consider "i = j" | "i = e" "edgeAlive m j" | "edgeAlive m i" "j = e" | "edgeAlive m i" "edgeAlive m j"
    using al(2) [of i] al(2) [of j] i j by auto
  then show "i = j"
  proof cases
    case 2
    then show ?thesis using e new(2) by (simp add: es)
  next
    case 3
    then have "edge_joins (ed m i) a b" using e by (auto simp: es edge_joins_def)
    then show ?thesis using new(2) 3 by blast
  next
    case 4
    then show ?thesis using e edges_inv_uniqueD [OF inv] by (simp add: es(3))
  qed
qed

lemma findOrCreateEdge_spec:
  assumes inv: "pools_inv m" "edges_inv m" and cap: "capacity m (Suc k)"
    and ab: "a \<noteq> b" "vertexAlive m a" "vertexAlive m b"
    and res: "findOrCreateEdge a b m = (e, m')"
  shows "pools_inv m' \<and> edges_inv m' \<and> capacity m' k"
    and "edgeAlive m' e \<and> edge_joins (ed m' e) a b"
    and "\<And>j. edgeAlive m j \<Longrightarrow> edgeAlive m' j \<and> ed m' j = ed m j"
    and "\<And>j. edgeAlive m' j \<Longrightarrow> j = e \<or> edgeAlive m j"
    and "\<not> edgeAlive m e \<Longrightarrow> me_radial (ed m' e) = kInvalidIndex"
    and "m_loops m' = m_loops m \<and> m_faces m' = m_faces m \<and> length (m_vertices m') = length (m_vertices m)"
    and "\<And>v. vertexAlive m' v = vertexAlive m v"
    and "\<And>v. mv_position (vx m' v) = mv_position (vx m v)"
proof -
  let ?P = "\<lambda>e. edge_joins (ed m e) a b"
  let ?goal = "(pools_inv m' \<and> edges_inv m' \<and> capacity m' k) \<and> (edgeAlive m' e \<and> edge_joins (ed m' e) a b) \<and>
    (\<forall>j. edgeAlive m j \<longrightarrow> edgeAlive m' j \<and> ed m' j = ed m j) \<and> (\<forall>j. edgeAlive m' j \<longrightarrow> j = e \<or> edgeAlive m j) \<and>
    (\<not> edgeAlive m e \<longrightarrow> me_radial (ed m' e) = kInvalidIndex) \<and>
    (m_loops m' = m_loops m \<and> m_faces m' = m_faces m \<and> length (m_vertices m') = length (m_vertices m)) \<and>
    (\<forall>v. vertexAlive m' v = vertexAlive m v) \<and> (\<forall>v. mv_position (vx m' v) = mv_position (vx m v))"
  have ?goal
  proof (cases "find ?P (mv_edges (vx m a))")
    case (Some j)
    then have m': "e = j" "m' = m" using res by (auto simp: findOrCreateEdge_def)
    from find_Some_mem [OF Some] have "edgeAlive m j" "?P j"
      using edges_inv_vertexD(2) [OF inv(2) ab(2)] by blast+
    with m' inv capacity_mono [OF cap, of k] show ?thesis by auto
  next
    case None
    then have none: "\<forall>j. edgeAlive m j \<longrightarrow> \<not> ?P j"
      using edge_in_lists(1) [OF inv(2)] by (auto simp: find_none)
    obtain m1 where al: "allocEdge m = (e, m1)"
      and m': "m' = set_vertex b (with_edge e) (set_vertex a (with_edge e)
        (set_edge e (\<lambda>x. x\<lparr>me_v1 := b\<rparr>) (set_edge e (\<lambda>x. x\<lparr>me_v0 := a\<rparr>) m1)))"
      using res None by (auto simp: findOrCreateEdge_def with_edge_def [abs_def] Let_def split: prod.splits)
    have m1: "m1 = snd (allocEdge m)" using al by simp
    have pool: "epool.pool_inv m" using inv(1) by (simp add: pools_inv_def)
    note sp = epool.alloc_spec [OF pool capacity_room(2) [OF cap] al, unfolded live_alive]
    have sa: "same_alive m1 m'"
      unfolding m' by (intro same_alive_trans [OF same_alive_set(2) same_alive_trans [OF same_alive_set(2)
          same_alive_trans [OF same_alive_set(1) same_alive_set(1)]]]) (auto simp: with_edge_def)
    have pools: "pools_inv m'" "capacity m' k"
      using alloc_pools_inv(2) [OF inv(1) cap] alloc_capacity(2) [OF cap] same_alive_pools [OF sa]
        same_alive_length [OF sa] by (simp_all add: m1 capacity_def)
    have va: "vertexAlive m' v = vertexAlive m v" for v
      using same_alive_alive(1) [OF sa] by (simp add: m1 vertexAlive_def)
    have ea: "edgeAlive m' j \<longleftrightarrow> j = e \<or> edgeAlive m j" for j
      using same_alive_alive(2) [OF sa] sp(6) by simp
    have vm: "vx m' v = (if v = a \<or> v = b then with_edge e (vx m v) else vx m v)" for v
      using ab by (auto simp: m' m1 vertexAlive_def nth_list_update)
    have ee: "ed m' e = created_edge a b"
      using sp(2,4) by (simp add: m' created_edge_def)
    have eo: "edgeAlive m j \<Longrightarrow> ed m' j = ed m j" for j
    proof -
      assume j: "edgeAlive m j"
      with sp(1) have "j \<noteq> e" by blast
      with j sp(3) [of j] show "ed m' j = ed m j" by (simp add: m' edgeAlive_def)
    qed
    have "edges_inv m'"
      by (rule edges_inv_add [OF inv(2) ab sp(1) none va ea]) (auto simp: vm with_edge_def ee eo)
    with pools ee eo ea va vm show ?thesis
      by (auto simp: m' m1 edge_joins_def with_edge_def)
  qed
  then show "pools_inv m' \<and> edges_inv m' \<and> capacity m' k"
    and "edgeAlive m' e \<and> edge_joins (ed m' e) a b"
    and "\<And>j. edgeAlive m j \<Longrightarrow> edgeAlive m' j \<and> ed m' j = ed m j"
    and "\<And>j. edgeAlive m' j \<Longrightarrow> j = e \<or> edgeAlive m j"
    and "\<not> edgeAlive m e \<Longrightarrow> me_radial (ed m' e) = kInvalidIndex"
    and "m_loops m' = m_loops m \<and> m_faces m' = m_faces m \<and> length (m_vertices m') = length (m_vertices m)"
    and "\<And>v. vertexAlive m' v = vertexAlive m v"
    and "\<And>v. mv_position (vx m' v) = mv_position (vx m v)"
    by blast+
qed

end
