(* ===== verification/MeshRadial.thy ===== *)
theory MeshRadial
  imports MeshLink
begin

text \<open>
  Radial cycles: insertion of a corner into the cycle of its edge, removal from it, and the
  destruction of an edge whose cycle has become empty (\<open>radialInsert\<close>, \<open>radialRemove\<close>,
  \<open>destroyEdgeIfUnused\<close> of \<open>mesh.cpp\<close>).
\<close>

section \<open>Insertion\<close>

definition loop_frame :: "mesh \<Rightarrow> mesh \<Rightarrow> bool" where
  "loop_frame m m' \<longleftrightarrow> same_alive m m' \<and> m_vertices m' = m_vertices m \<and> m_faces m' = m_faces m \<and>
     (\<forall>j. me_v0 (ed m' j) = me_v0 (ed m j) \<and> me_v1 (ed m' j) = me_v1 (ed m j) \<and>
          me_feature (ed m' j) = me_feature (ed m j)) \<and>
     (\<forall>j. ml_vertex (lp m' j) = ml_vertex (lp m j) \<and> ml_face (lp m' j) = ml_face (lp m j) \<and>
          ml_next (lp m' j) = ml_next (lp m j) \<and> ml_prev (lp m' j) = ml_prev (lp m j))"

lemma loop_frame_refl [simp]: "loop_frame m m"
  by (simp add: loop_frame_def)

lemma loop_frame_trans: "loop_frame a b \<Longrightarrow> loop_frame b c \<Longrightarrow> loop_frame a c"
  by (simp add: loop_frame_def same_alive_def)

lemma nth_update_same: "(\<And>x. g (h x) = g x) \<Longrightarrow> g (xs[i := h (xs ! i)] ! j) = g (xs ! j)"
  by (cases "i < length xs"; cases "i = j") (auto simp: list_update_beyond)

lemma loop_frame_set_loop:
  assumes "\<And>x. ml_alive (h x) = ml_alive x" "\<And>x. ml_vertex (h x) = ml_vertex x"
    "\<And>x. ml_face (h x) = ml_face x" "\<And>x. ml_next (h x) = ml_next x" "\<And>x. ml_prev (h x) = ml_prev x"
  shows "loop_frame m (set_loop i h m)"
  using assms by (simp add: loop_frame_def nth_update_same)

lemma loop_frame_set_edge:
  assumes "\<And>x. me_alive (h x) = me_alive x" "\<And>x. me_v0 (h x) = me_v0 x"
    "\<And>x. me_v1 (h x) = me_v1 x" "\<And>x. me_feature (h x) = me_feature x"
  shows "loop_frame m (set_edge i h m)"
  using assms by (simp add: loop_frame_def nth_update_same)

lemma set_loop_nth: "i < length (m_loops m) \<Longrightarrow> lp (set_loop i h m) j = (if j = i then h (lp m i) else lp m j)"
  by (simp add: nth_list_update)

lemma set_edge_nth: "i < length (m_edges m) \<Longrightarrow> ed (set_edge i h m) j = (if j = i then h (ed m i) else ed m j)"
  by (simp add: nth_list_update)

lemma set_loop_length: "length (m_loops (set_loop i h m)) = length (m_loops m)"
  by simp

lemma linked_iff: "linked m l \<longleftrightarrow> l < length (m_loops m) \<and> ml_alive (lp m l) \<and> ml_rnext (lp m l) \<noteq> kInvalidIndex"
  by (auto simp: linked_def loopAlive_def)

lemma radial_members:
  assumes "radial_ok m e" "me_radial (ed m e) \<noteq> kInvalidIndex"
  obtains xs where "ring (\<lambda>l. ml_rnext (lp m l)) (\<lambda>l. ml_rprev (lp m l)) (me_radial (ed m e) # xs)"
    "set (me_radial (ed m e) # xs) = {l. linked m l \<and> ml_edge (lp m l) = e}"
  using assms by (auto simp: radial_ok_def Let_def)

lemma radial_okI:
  assumes "me_radial (ed m e) = h" "h \<noteq> kInvalidIndex"
    "ring (\<lambda>l. ml_rnext (lp m l)) (\<lambda>l. ml_rprev (lp m l)) (h # xs)"
    "set (h # xs) = {l. linked m l \<and> ml_edge (lp m l) = e}"
  shows "radial_ok m e"
  unfolding radial_ok_def Let_def assms(1) using assms(2-4) by auto

lemma radialInsert_frame: "loop_frame m (radialInsert e l m)"
proof -
  have a: "loop_frame m (set_loop l (\<lambda>x. x\<lparr>ml_edge := e\<rparr>) m)" (is "loop_frame m ?m1")
    by (rule loop_frame_set_loop) simp_all
  have "loop_frame ?m1 (set_edge e (\<lambda>x. x\<lparr>me_radial := l\<rparr>) (set_loop l (\<lambda>x. x\<lparr>ml_rnext := l, ml_rprev := l\<rparr>) ?m1))"
    by (rule loop_frame_trans [OF loop_frame_set_loop loop_frame_set_edge]) simp_all
  moreover have "loop_frame ?m1 (set_loop h (\<lambda>x. x\<lparr>ml_rprev := l\<rparr>) (set_loop t (\<lambda>x. x\<lparr>ml_rnext := l\<rparr>)
      (set_loop l (\<lambda>x. x\<lparr>ml_rnext := h, ml_rprev := t\<rparr>) ?m1)))" for h t
    by (rule loop_frame_trans [OF loop_frame_set_loop loop_frame_trans [OF loop_frame_set_loop
          loop_frame_set_loop]]) simp_all
  ultimately have "loop_frame ?m1 (radialInsert e l m)"
    unfolding radialInsert_def Let_def by (simp only: split: if_split) simp
  with a show ?thesis by (rule loop_frame_trans)
qed

lemma radialInsert_empty:
  assumes "me_radial (ed m e) = kInvalidIndex" "e < length (m_edges m)" "l < length (m_loops m)"
  shows "lp (radialInsert e l m) j = (if j = l then (lp m l)\<lparr>ml_edge := e, ml_rnext := l, ml_rprev := l\<rparr> else lp m j)"
    and "ed (radialInsert e l m) j = (if j = e then (ed m e)\<lparr>me_radial := l\<rparr> else ed m j)"
  using assms by (auto simp: radialInsert_def Let_def id_valid_def nth_list_update)

lemma radialInsert_ring:
  assumes "me_radial (ed m e) = h" "h \<noteq> kInvalidIndex" "e < length (m_edges m)" "l < length (m_loops m)"
    "h < length (m_loops m)" "t = ml_rprev (lp m h)" "t < length (m_loops m)" "l \<noteq> h" "l \<noteq> t"
  defines "m' \<equiv> radialInsert e l m"
  shows "ml_edge (lp m' j) = (if j = l then e else ml_edge (lp m j))"
    and "(\<lambda>j. ml_rnext (lp m' j)) = (\<lambda>j. ml_rnext (lp m j))(t := l, l := h)"
    and "(\<lambda>j. ml_rprev (lp m' j)) = (\<lambda>j. ml_rprev (lp m j))(l := t, h := l)"
    and "ed m' j = ed m j"
proof -
  have "m' = set_loop h (\<lambda>x. x\<lparr>ml_rprev := l\<rparr>) (set_loop t (\<lambda>x. x\<lparr>ml_rnext := l\<rparr>)
      (set_loop l (\<lambda>x. x\<lparr>ml_rnext := h, ml_rprev := t\<rparr>) (set_loop l (\<lambda>x. x\<lparr>ml_edge := e\<rparr>) m)))"
    using assms(1-9) by (simp add: m'_def radialInsert_def id_valid_def Let_def)
  then show "ml_edge (lp m' j) = (if j = l then e else ml_edge (lp m j))"
    and "(\<lambda>j. ml_rnext (lp m' j)) = (\<lambda>j. ml_rnext (lp m j))(t := l, l := h)"
    and "(\<lambda>j. ml_rprev (lp m' j)) = (\<lambda>j. ml_rprev (lp m j))(l := t, h := l)"
    and "ed m' j = ed m j"
    using assms(4,5,7-9) by (simp_all add: set_loop_nth set_loop_length fun_eq_iff del: set_nth(3))
qed

lemma radialInsert_spec:
  assumes inv: "pools_inv m" "radial_inv m" and e: "edgeAlive m e" and l: "loopAlive m l" "\<not> linked m l"
  defines "m' \<equiv> radialInsert e l m"
  shows "radial_inv m'" "\<And>j. linked m' j \<longleftrightarrow> j = l \<or> linked m j"
    "\<And>j. ml_edge (lp m' j) = (if j = l then e else ml_edge (lp m j))"
    "me_radial (ed m' e) \<noteq> kInvalidIndex" "\<And>j. j \<noteq> e \<Longrightarrow> ed m' j = ed m j"
proof -
  have lb: "l < length (m_loops m)" "l \<noteq> kInvalidIndex" "e < length (m_edges m)"
    using l(1) alive_bound(4) [OF inv(1) l(1)] e by (auto simp: loopAlive_def edgeAlive_def)
  have la: "loopAlive m' j = loopAlive m j" "edgeAlive m' j = edgeAlive m j" for j
    using radialInsert_frame [of m e l] same_alive_alive by (auto simp: m'_def loop_frame_def)
  have ok: "radial_ok m j" if "edgeAlive m j" for j using inv(2) that by (simp add: radial_inv_def)
  have goal: "(\<forall>j. linked m' j \<longleftrightarrow> j = l \<or> linked m j) \<and>
      (\<forall>j. ml_edge (lp m' j) = (if j = l then e else ml_edge (lp m j))) \<and>
      me_radial (ed m' e) \<noteq> kInvalidIndex \<and> (\<forall>j. j \<noteq> e \<longrightarrow> ed m' j = ed m j) \<and>
      (\<forall>j. linked m j \<longrightarrow> ml_edge (lp m j) \<noteq> e \<longrightarrow> ml_rnext (lp m' j) = ml_rnext (lp m j) \<and>
         ml_rprev (lp m' j) = ml_rprev (lp m j)) \<and> radial_ok m' e"
  proof (cases "me_radial (ed m e) = kInvalidIndex")
    case True
    note eqs = radialInsert_empty [OF True lb(3,1), folded m'_def]
    have lk: "linked m' j \<longleftrightarrow> j = l \<or> linked m j" for j
      using lb l la(1) by (auto simp: linked_def eqs)
    have "{j. linked m j \<and> ml_edge (lp m j) = e} = {}"
      using ok [OF e] True by (simp add: radial_ok_def)
    then have "{j. linked m' j \<and> ml_edge (lp m' j) = e} = {l}"
      using l by (auto simp: lk eqs)
    moreover have "ring (\<lambda>j. ml_rnext (lp m' j)) (\<lambda>j. ml_rprev (lp m' j)) [l]" by (simp add: eqs)
    moreover have "me_radial (ed m' e) = l" by (simp add: eqs)
    ultimately have "radial_ok m' e"
      using lb(2) by (intro radial_okI [where xs = "[]"]) simp_all
    with lk l lb show ?thesis by (simp add: eqs)
  next
    case False
    let ?h = "me_radial (ed m e)" and ?t = "ml_rprev (lp m (me_radial (ed m e)))"
    obtain xs where r: "ring (\<lambda>l. ml_rnext (lp m l)) (\<lambda>l. ml_rprev (lp m l)) (?h # xs)"
        and s: "set (?h # xs) = {l. linked m l \<and> ml_edge (lp m l) = e}"
      using radial_members [OF ok [OF e] False] .
    have ht: "?h \<in> set (?h # xs)" "?t \<in> set (?h # xs)" using ring_prev [OF r] by auto
    then have hl: "linked m ?h \<and> ml_edge (lp m ?h) = e" "linked m ?t \<and> ml_edge (lp m ?t) = e"
      using s by blast+
    have nl: "l \<notin> set (?h # xs)" using s l(2) by blast
    have b: "?h < length (m_loops m)" "?t < length (m_loops m)" "l \<noteq> ?h" "l \<noteq> ?t"
      using hl l(2) by (auto simp: linked_def loopAlive_def)
    note eqs = radialInsert_ring [OF refl False lb(3,1) b(1) refl b(2,3,4), folded m'_def]
    have rn: "ml_rnext (lp m' j) = ((\<lambda>j. ml_rnext (lp m j))(?t := l, l := ?h)) j" for j
      using fun_cong [OF eqs(2), of j] .
    have rp: "ml_rprev (lp m' j) = ((\<lambda>j. ml_rprev (lp m j))(l := ?t, ?h := l)) j" for j
      using fun_cong [OF eqs(3), of j] .
    have lk: "linked m' j \<longleftrightarrow> j = l \<or> linked m j" for j
      using lb l la(1) hl b False by (auto simp: linked_def rn)
    have "ring (\<lambda>j. ml_rnext (lp m' j)) (\<lambda>j. ml_rprev (lp m' j)) (?h # xs @ [l])"
      unfolding eqs(2,3) by (rule ring_insert [OF r nl])
    moreover have "set (?h # xs @ [l]) = {j. linked m' j \<and> ml_edge (lp m' j) = e}"
      using s l by (auto simp: lk eqs(1))
    ultimately have "radial_ok m' e"
      using False by (intro radial_okI [where h = ?h and xs = "xs @ [l]"]) (simp_all add: eqs(4))
    moreover have "ml_rnext (lp m' j) = ml_rnext (lp m j) \<and> ml_rprev (lp m' j) = ml_rprev (lp m j)"
      if "linked m j" "ml_edge (lp m j) \<noteq> e" for j
    proof -
      from that hl l(2) have "j \<noteq> ?h" "j \<noteq> ?t" "j \<noteq> l" by metis+
      then show ?thesis by (simp add: rn rp)
    qed
    ultimately show ?thesis using lk eqs(1,4) False by simp
  qed
  from goal show g: "\<And>j. linked m' j \<longleftrightarrow> j = l \<or> linked m j"
    "\<And>j. ml_edge (lp m' j) = (if j = l then e else ml_edge (lp m j))"
    "me_radial (ed m' e) \<noteq> kInvalidIndex" "\<And>j. j \<noteq> e \<Longrightarrow> ed m' j = ed m j"
    by simp_all
  have "radial_ok m' j" if j: "edgeAlive m' j" for j
  proof (cases "j = e")
    case True
    then show ?thesis using goal by blast
  next
    case False
    have "radial_ok m j" using j la ok by simp
    then show ?thesis
    proof (rule radial_ok_cong)
      fix i
      show "linked m' i \<and> ml_edge (lp m' i) = j \<longleftrightarrow> linked m i \<and> ml_edge (lp m i) = j"
        using False l(2) by (auto simp: g)
      show "me_radial (ed m' j) = me_radial (ed m j)" by (simp add: g(4) False)
      show "linked m i \<Longrightarrow> ml_edge (lp m i) = j \<Longrightarrow>
          ml_rnext (lp m' i) = ml_rnext (lp m i) \<and> ml_rprev (lp m' i) = ml_rprev (lp m i)"
        using goal False by blast
    qed
  qed
  moreover have "edgeAlive m' (ml_edge (lp m' j))" if "linked m' j" for j
    using that inv(2) e by (auto simp: g la radial_inv_def)
  ultimately show "radial_inv m'" by (simp add: radial_inv_def)
qed

section \<open>Removal\<close>

lemma radialRemove_frame: "loop_frame m (radialRemove l m)"
proof -
  have fin: "loop_frame x (set_loop l (\<lambda>x. x\<lparr>ml_rnext := a, ml_rprev := b\<rparr>) x)" for x a b
    by (rule loop_frame_set_loop) simp_all
  have rad: "loop_frame x (set_edge e (\<lambda>x. x\<lparr>me_radial := h\<rparr>) x)" for x e h
    by (rule loop_frame_set_edge) simp_all
  have rn: "loop_frame x (set_loop i (\<lambda>x. x\<lparr>ml_rnext := h\<rparr>) x)" for x i h
    by (rule loop_frame_set_loop) simp_all
  have rp: "loop_frame x (set_loop i (\<lambda>x. x\<lparr>ml_rprev := h\<rparr>) x)" for x i h
    by (rule loop_frame_set_loop) simp_all
  note tr = loop_frame_trans
  show ?thesis unfolding radialRemove_def Let_def
    by (rule tr [OF _ fin], split if_split, intro conjI impI rad, split if_split)
      (intro conjI impI tr [OF rn tr [OF rp rad]] tr [OF rn rp])
qed

lemma radialRemove_single:
  assumes "ml_rnext (lp m l) = l" "l < length (m_loops m)" "e = ml_edge (lp m l)" "e < length (m_edges m)"
  shows "lp (radialRemove l m) j =
      (if j = l then (lp m l)\<lparr>ml_rnext := kInvalidIndex, ml_rprev := kInvalidIndex\<rparr> else lp m j)"
    and "ed (radialRemove l m) j = (if j = e then (ed m e)\<lparr>me_radial := kInvalidIndex\<rparr> else ed m j)"
  using assms by (simp_all add: radialRemove_def Let_def nth_list_update)

lemma radialRemove_ring:
  assumes "n = ml_rnext (lp m l)" "p = ml_rprev (lp m l)" "n \<noteq> l" "p \<noteq> l" "l < length (m_loops m)"
    "n < length (m_loops m)" "p < length (m_loops m)" "e = ml_edge (lp m l)" "e < length (m_edges m)"
  defines "m' \<equiv> radialRemove l m"
  shows "ml_edge (lp m' j) = ml_edge (lp m j)"
    and "ml_rnext (lp m' j) = ((\<lambda>j. ml_rnext (lp m j))(p := n, l := kInvalidIndex)) j"
    and "ml_rprev (lp m' j) = ((\<lambda>j. ml_rprev (lp m j))(n := p, l := kInvalidIndex)) j"
    and "ed m' j = (if j = e \<and> me_radial (ed m e) = l then (ed m e)\<lparr>me_radial := n\<rparr> else ed m j)"
proof -
  let ?m2 = "set_loop n (\<lambda>x. x\<lparr>ml_rprev := p\<rparr>) (set_loop p (\<lambda>x. x\<lparr>ml_rnext := n\<rparr>) m)"
  have l2: "lp ?m2 l = lp m l" using assms(3,4,6,7) by (simp add: nth_list_update)
  have m1: "lp (set_loop p f m) l = lp m l" for f using assms(4) by simp
  have "m' = set_loop l (\<lambda>x. x\<lparr>ml_rnext := kInvalidIndex, ml_rprev := kInvalidIndex\<rparr>)
      (if me_radial (ed m e) = l then set_edge e (\<lambda>x. x\<lparr>me_radial := n\<rparr>) ?m2 else ?m2)"
    unfolding m'_def radialRemove_def Let_def assms(8) [symmetric] assms(1,2) [symmetric] m1 l2
    using assms(3) by (simp del: set_nth(3))
  moreover have len: "l < length (m_loops ?m2)" using assms(5) by simp
  ultimately show "ml_edge (lp m' j) = ml_edge (lp m j)"
    and "ml_rnext (lp m' j) = ((\<lambda>j. ml_rnext (lp m j))(p := n, l := kInvalidIndex)) j"
    and "ml_rprev (lp m' j) = ((\<lambda>j. ml_rprev (lp m j))(n := p, l := kInvalidIndex)) j"
    and "ed m' j = (if j = e \<and> me_radial (ed m e) = l then (ed m e)\<lparr>me_radial := n\<rparr> else ed m j)"
    using assms(3-7,9) by (simp_all add: set_loop_nth set_loop_length nth_list_update(1) del: set_nth(3))
qed

text \<open>After either way of leaving the cycle of \<open>l\<close>'s edge, that cycle is well formed again.\<close>

lemma radialRemove_cycle:
  assumes inv: "pools_inv m" "radial_inv m" and l: "linked m l" and e: "e = ml_edge (lp m l)"
  defines "m' \<equiv> radialRemove l m"
  shows "(\<forall>j. linked m' j \<longleftrightarrow> j \<noteq> l \<and> linked m j) \<and> (\<forall>j. ml_edge (lp m' j) = ml_edge (lp m j)) \<and>
    (\<forall>j. j \<noteq> e \<longrightarrow> ed m' j = ed m j) \<and>
    (\<forall>j. linked m j \<longrightarrow> ml_edge (lp m j) \<noteq> e \<longrightarrow> ml_rnext (lp m' j) = ml_rnext (lp m j) \<and>
       ml_rprev (lp m' j) = ml_rprev (lp m j)) \<and> radial_ok m' e"
proof -
  have ea: "edgeAlive m e" "radial_ok m e" using inv(2) l by (auto simp: radial_inv_def e)
  have lb: "l < length (m_loops m)" "e < length (m_edges m)"
    using l ea by (simp_all add: linked_iff edgeAlive_def)
  have la: "loopAlive m' j = loopAlive m j" for j
    using radialRemove_frame [of m l] same_alive_alive(4) by (auto simp: m'_def loop_frame_def)
  have mem: "l \<in> {j. linked m j \<and> ml_edge (lp m j) = e}" using l e by simp
  then have h: "me_radial (ed m e) \<noteq> kInvalidIndex" (is "?h \<noteq> _")
    using ea(2) by (auto simp: radial_ok_def Let_def split: if_splits)
  obtain zs where z: "ring (\<lambda>l. ml_rnext (lp m l)) (\<lambda>l. ml_rprev (lp m l)) (?h # zs)"
      "set (?h # zs) = {j. linked m j \<and> ml_edge (lp m j) = e}"
    using radial_members [OF ea(2) h] .
  from z mem obtain ys where r: "ring (\<lambda>l. ml_rnext (lp m l)) (\<lambda>l. ml_rprev (lp m l)) (l # ys)"
      and s: "set (l # ys) = {j. linked m j \<and> ml_edge (lp m j) = e}"
    using ring_rotate_to [OF z(1), of l] by auto
  show ?thesis
  proof (cases ys)
    case Nil
    then have "ml_rnext (lp m l) = l" using r by simp
    note eqs = radialRemove_single [OF this lb(1) e lb(2), folded m'_def]
    have lk: "linked m' j \<longleftrightarrow> j \<noteq> l \<and> linked m j" for j
      using la [of j] by (auto simp: linked_def eqs)
    have "{j. linked m' j \<and> ml_edge (lp m' j) = e} = {}"
      using s Nil by (auto simp: lk eqs)
    then have "radial_ok m' e" by (simp add: radial_ok_def eqs(2))
    with lk e show ?thesis by (simp add: eqs)
  next
    case (Cons y us)
    let ?n = "ml_rnext (lp m l)" and ?p = "ml_rprev (lp m l)"
    have n: "?n = y" using r Cons by simp
    have "?p \<in> set (l # ys)" "ml_rnext (lp m ?p) = l" using ring_prev [OF r, of l] by auto
    moreover have "y \<noteq> l" using r Cons by auto
    ultimately have np: "?n \<noteq> l" "?p \<noteq> l" "?n \<in> set ys" "?p \<in> set ys"
      using n Cons by auto
    then have lk0: "linked m ?n" "ml_edge (lp m ?n) = e" "linked m ?p" "ml_edge (lp m ?p) = e"
      using s by auto
    note eqs = radialRemove_ring [OF refl refl np(1,2) lb(1) _ _ e lb(2), folded m'_def]
    have b: "?n < length (m_loops m)" "?p < length (m_loops m)" using lk0 by (simp_all add: linked_iff)
    note eqs = eqs [OF b]
    have lk: "linked m' j \<longleftrightarrow> j \<noteq> l \<and> linked m j" for j
      using la [of j] np lk0 alive_bound(4) [OF inv(1), of ?n] by (auto simp: linked_def eqs)
    have "ring ((\<lambda>j. ml_rnext (lp m j))(?p := ?n)) ((\<lambda>j. ml_rprev (lp m j))(?n := ?p)) ys"
      using ring_remove [OF r [unfolded Cons]] by (simp add: Cons)
    moreover have "l \<notin> set ys" using r by (simp add: Cons)
    ultimately have r': "ring (\<lambda>j. ml_rnext (lp m' j)) (\<lambda>j. ml_rprev (lp m' j)) ys"
      by (elim ring_cong [THEN iffD1, rotated 2]) (auto simp: eqs)
    have "set ys = set (l # ys) - {l}" using \<open>l \<notin> set ys\<close> by simp
    then have s': "set ys = {j. linked m' j \<and> ml_edge (lp m' j) = e}"
      unfolding s by (auto simp: lk eqs(1))
    have hd: "me_radial (ed m' e) = (if ?h = l then y else ?h)" by (simp add: eqs(4) n)
    have hin: "(if ?h = l then y else ?h) \<in> set ys" using z(2) s Cons by auto
    then obtain ws where w: "ring (\<lambda>j. ml_rnext (lp m' j)) (\<lambda>j. ml_rprev (lp m' j)) ((if ?h = l then y else ?h) # ws)"
        "set ((if ?h = l then y else ?h) # ws) = set ys"
      using ring_rotate_to [OF r' hin] by blast
    have "y < kInvalidIndex" using alive_bound(4) [OF inv(1), of ?n] lk0(1) n by (simp add: linked_def)
    with h have "(if ?h = l then y else ?h) \<noteq> kInvalidIndex" by (simp split: if_split)
    then have "radial_ok m' e" using w s' by (intro radial_okI [OF hd]) simp_all
    moreover have "ml_rnext (lp m' j) = ml_rnext (lp m j) \<and> ml_rprev (lp m' j) = ml_rprev (lp m j)"
      if "linked m j" "ml_edge (lp m j) \<noteq> e" for j
    proof -
      from that lk0 e have "j \<noteq> ?n" "j \<noteq> ?p" "j \<noteq> l" by metis+
      then show ?thesis by (simp add: eqs)
    qed
    ultimately show ?thesis using lk eqs(1,4) by simp
  qed
qed

lemma radialRemove_spec:
  assumes inv: "pools_inv m" "radial_inv m" and l: "linked m l"
  defines "m' \<equiv> radialRemove l m"
  shows "radial_inv m'" "\<And>j. linked m' j \<longleftrightarrow> j \<noteq> l \<and> linked m j"
    "\<And>j. ml_edge (lp m' j) = ml_edge (lp m j)" "\<And>j. j \<noteq> ml_edge (lp m l) \<Longrightarrow> ed m' j = ed m j"
proof -
  note goal = radialRemove_cycle [OF inv l refl, folded m'_def]
  then show g: "\<And>j. linked m' j \<longleftrightarrow> j \<noteq> l \<and> linked m j"
    "\<And>j. ml_edge (lp m' j) = ml_edge (lp m j)" "\<And>j. j \<noteq> ml_edge (lp m l) \<Longrightarrow> ed m' j = ed m j"
    by simp_all
  have la: "edgeAlive m' j = edgeAlive m j" for j
    using radialRemove_frame [of m l] same_alive_alive(2) by (auto simp: m'_def loop_frame_def)
  have "radial_ok m' j" if j: "edgeAlive m' j" for j
  proof (cases "j = ml_edge (lp m l)")
    case True
    then show ?thesis using goal by simp
  next
    case False
    have "radial_ok m j" using j la inv(2) by (simp add: radial_inv_def)
    then show ?thesis
    proof (rule radial_ok_cong)
      fix i
      show "linked m' i \<and> ml_edge (lp m' i) = j \<longleftrightarrow> linked m i \<and> ml_edge (lp m i) = j"
        using False l by (auto simp: g)
      show "me_radial (ed m' j) = me_radial (ed m j)" by (simp add: g(3) False)
      show "linked m i \<Longrightarrow> ml_edge (lp m i) = j \<Longrightarrow>
          ml_rnext (lp m' i) = ml_rnext (lp m i) \<and> ml_rprev (lp m' i) = ml_rprev (lp m i)"
        using goal False by blast
    qed
  qed
  moreover have "edgeAlive m' (ml_edge (lp m' j))" if "linked m' j" for j
    using that inv(2) by (auto simp: g la radial_inv_def)
  ultimately show "radial_inv m'" by (simp add: radial_inv_def)
qed

section \<open>Destruction of unused edges\<close>

definition edge_destroyed :: "mesh \<Rightarrow> nat \<Rightarrow> mesh \<Rightarrow> bool" where
  "edge_destroyed m e m' \<longleftrightarrow> m_loops m' = m_loops m \<and> m_faces m' = m_faces m \<and>
     length (m_edges m') = length (m_edges m) \<and> length (m_vertices m') = length (m_vertices m) \<and>
     (\<forall>v. vertexAlive m' v = vertexAlive m v \<and> mv_position (vx m' v) = mv_position (vx m v)) \<and>
     (\<forall>j. edgeAlive m' j \<longleftrightarrow> edgeAlive m j \<and> \<not> (j = e \<and> me_radial (ed m e) = kInvalidIndex)) \<and>
     (\<forall>j. edgeAlive m' j \<longrightarrow> ed m' j = ed m j)"

lemma vertexEdgeListRemove_alive: "same_alive m (vertexEdgeListRemove v e m)"
  by (simp add: vertexEdgeListRemove_def)

lemma vertexEdgeListRemove_frame [simp]:
  "m_loops (vertexEdgeListRemove v e m) = m_loops m" "m_faces (vertexEdgeListRemove v e m) = m_faces m"
  "m_edges (vertexEdgeListRemove v e m) = m_edges m"
  by (simp_all add: vertexEdgeListRemove_def)

lemma vertexEdgeListRemove_vx:
  "mv_position (vx (vertexEdgeListRemove v e m) j) = mv_position (vx m j)"
  "mv_edges (vx (vertexEdgeListRemove v e m) j) =
    (if j = v \<and> v < length (m_vertices m) then filter (\<lambda>y. y \<noteq> e) (mv_edges (vx m j)) else mv_edges (vx m j))"
  by (simp add: vertexEdgeListRemove_def nth_update_same)
    (cases "v < length (m_vertices m)"; cases "j = v";
      simp add: vertexEdgeListRemove_def list_update_beyond)

lemma destroyEdgeIfUnused_spec:
  assumes inv: "pools_inv m" "edges_inv m" and e: "e < length (m_edges m)"
  defines "m' \<equiv> destroyEdgeIfUnused e m"
  shows "pools_inv m'" "edges_inv m'" "edge_destroyed m e m'"
proof -
  have "pools_inv m' \<and> edges_inv m' \<and> edge_destroyed m e m'"
  proof (cases "edgeAlive m e \<and> me_radial (ed m e) = kInvalidIndex")
    case False
    then have "m' = m" using e by (auto simp: m'_def destroyEdgeIfUnused_def edgeAlive_def id_valid_def Let_def)
    with inv False show ?thesis by (auto simp: edge_destroyed_def)
  next
    case True
    let ?a = "me_v0 (ed m e)" and ?b = "me_v1 (ed m e)"
    let ?m1 = "vertexEdgeListRemove ?b e (vertexEdgeListRemove ?a e m)"
    have m': "m' = freeEdge e ?m1"
      using True by (simp add: m'_def destroyEdgeIfUnused_def edgeAlive_def id_valid_def Let_def)
    have sa: "same_alive m ?m1"
      by (rule same_alive_trans [OF vertexEdgeListRemove_alive vertexEdgeListRemove_alive])
    note al = same_alive_alive [OF sa]
    have p1: "pools_inv ?m1" using inv(1) same_alive_pools [OF sa] by simp
    then have p: "pools_inv m'" unfolding m' using True al(2) by (intro free_pools_inv(2)) simp_all
    have ep: "epool.pool_inv ?m1" using p1 by (simp add: pools_inv_def)
    note rel = epool.release_spec [OF ep, of e, unfolded live_alive]
    have ea: "edgeAlive m' j \<longleftrightarrow> edgeAlive m j \<and> j \<noteq> e" for j
      using rel(1) [of j] True al(2) by (auto simp: m')
    have eo: "j \<noteq> e \<Longrightarrow> ed m' j = ed m j" for j
      using rel(2) [of j] True al(2) by (simp add: m')
    have va: "vertexAlive m' v = vertexAlive m v" for v
      using al(1) by (simp add: m' vertexAlive_def)
    have pos: "mv_position (vx m' v) = mv_position (vx m v)" for v
      by (simp add: m' vertexEdgeListRemove_vx)
    have ends: "vertexAlive m ?a" "vertexAlive m ?b" using edges_invD [OF inv(2), of e] True by auto
    have ve: "mv_edges (vx m' v) = filter (\<lambda>y. y \<noteq> e) (mv_edges (vx m v))" if v: "vertexAlive m v" for v
    proof (cases "v = ?a \<or> v = ?b")
      case True
      then show ?thesis
        using v same_alive_length(1) [OF vertexEdgeListRemove_alive [of m ?a e]]
        by (auto simp: m' vertexEdgeListRemove_vx vertexAlive_def)
    next
      case False
      then have "e \<notin> set (mv_edges (vx m v))" using edges_inv_vertexD(2) [OF inv(2) v, of e] by blast
      then have "filter (\<lambda>y. y \<noteq> e) (mv_edges (vx m v)) = mv_edges (vx m v)"
        by (metis (mono_tags, lifting) filter_id_conv)
      then show ?thesis using False by (simp add: m' vertexEdgeListRemove_vx)
    qed
    have "edges_inv m'"
    proof (rule edges_invI)
      fix j assume "edgeAlive m' j"
      then have j: "edgeAlive m j" "j \<noteq> e" using ea by auto
      then show "me_v0 (ed m' j) \<noteq> me_v1 (ed m' j) \<and> vertexAlive m' (me_v0 (ed m' j)) \<and>
          vertexAlive m' (me_v1 (ed m' j)) \<and> j \<in> set (mv_edges (vx m' (me_v0 (ed m' j)))) \<and>
          j \<in> set (mv_edges (vx m' (me_v1 (ed m' j))))"
        using edges_invD [OF inv(2) j(1)] by (simp add: eo va ve)
    next
      fix v assume "vertexAlive m' v"
      then have v: "vertexAlive m v" by (simp add: va)
      show "distinct (mv_edges (vx m' v))" using edges_inv_vertexD(1) [OF inv(2) v] by (simp add: ve [OF v])
      fix j assume "j \<in> set (mv_edges (vx m' v))"
      then show "edgeAlive m' j \<and> (v = me_v0 (ed m' j) \<or> v = me_v1 (ed m' j))"
        using edges_inv_vertexD(2) [OF inv(2) v, of j] by (simp add: ve [OF v] ea eo)
    next
      fix i j
      assume "edgeAlive m' i" "edgeAlive m' j" "edge_joins (ed m' j) (me_v0 (ed m' i)) (me_v1 (ed m' i))"
      then show "i = j" using edges_inv_uniqueD [OF inv(2), of i j] by (simp add: ea eo)
    qed
    moreover have "length (m_edges m') = length (m_edges m)" "length (m_vertices m') = length (m_vertices m)"
      "m_loops m' = m_loops m" "m_faces m' = m_faces m"
      using rel(3) True al(2) same_alive_length [OF sa] by (simp_all add: m')
    ultimately show ?thesis using p True by (auto simp: edge_destroyed_def ea eo va pos)
  qed
  then show "pools_inv m'" "edges_inv m'" "edge_destroyed m e m'" by simp_all
qed

lemma edge_destroyed_radial:
  assumes "edge_destroyed m e m'" "radial_inv m"
  shows "radial_inv m'"
proof -
  have lk: "linked m' l = linked m l" "lp m' l = lp m l" for l
    using assms(1) by (simp_all add: edge_destroyed_def linked_def loopAlive_def)
  have "radial_ok m' j" if "edgeAlive m' j" for j
  proof (rule radial_ok_cong)
    show "radial_ok m j" using that assms by (auto simp: edge_destroyed_def radial_inv_def)
    show "me_radial (ed m' j) = me_radial (ed m j)" using that assms(1) by (simp add: edge_destroyed_def)
  qed (simp_all add: lk)
  moreover have "edgeAlive m' (ml_edge (lp m' l))" if "linked m' l" for l
  proof -
    have l: "linked m l" "edgeAlive m (ml_edge (lp m l))" "radial_ok m (ml_edge (lp m l))"
      using that assms(2) by (auto simp: lk radial_inv_def)
    then have "me_radial (ed m (ml_edge (lp m l))) \<noteq> kInvalidIndex"
      by (auto simp: radial_ok_def Let_def split: if_splits)
    then show ?thesis using l(2) assms(1) by (auto simp: lk edge_destroyed_def)
  qed
  ultimately show ?thesis by (simp add: radial_inv_def)
qed

end
