(* ===== verification/MeshAdd.thy ===== *)
theory MeshAdd
  imports MeshRadial
begin

text \<open>
  Construction of faces: \<open>addFace\<close> of \<open>mesh.cpp\<close> keeps the structural invariant. The loop over
  the corners is described by \<open>building\<close>, the state after \<open>i\<close> corners have been linked.
\<close>

section \<open>Repeated corners\<close>

lemma nested_repeat_iff: "nested_repeat vs \<longleftrightarrow> \<not> distinct vs"
  by (induction vs) auto

lemma adjacent_equal_sorted: "sorted vs \<Longrightarrow> adjacent_equal vs \<longleftrightarrow> \<not> distinct vs"
proof (induction vs rule: adjacent_equal.induct)
  case (1 a b vs)
  have "a \<notin> set (b # vs)" if "a \<noteq> b" using 1(2) that by fastforce
  then show ?case using 1 by (cases "a = b") simp_all
qed simp_all

text \<open>Both scans, nested and sorted, decide the same question.\<close>

lemma hasRepeatedVertex_iff: "hasRepeatedVertex vs \<longleftrightarrow> \<not> distinct vs"
  by (simp add: hasRepeatedVertex_def nested_repeat_iff adjacent_equal_sorted)

section \<open>Cycles given by index\<close>

lemma chain_index:
  "chain n p a xs z \<longleftrightarrow>
    (\<forall>k \<le> length xs. n ((a # xs) ! k) = (xs @ [z]) ! k \<and> p ((xs @ [z]) ! k) = (a # xs) ! k)"
proof (induction xs arbitrary: a)
  case (Cons x xs)
  have split: "(\<forall>k \<le> Suc N. P k) \<longleftrightarrow> P 0 \<and> (\<forall>k \<le> N. P (Suc k))" for P N
    by (metis Suc_le_mono le0 not0_implies_Suc)
  show ?case by (simp only: length_Cons split chain.simps Cons.IH) simp
qed auto

lemma ring_index:
  assumes "distinct xs" "xs \<noteq> []"
    and "\<And>k. k < length xs \<Longrightarrow> n (xs ! k) = xs ! ((k + 1) mod length xs)"
    and "\<And>k. k < length xs \<Longrightarrow> p (xs ! k) = xs ! ((k + length xs - 1) mod length xs)"
  shows "ring n p xs"
proof -
  obtain a ys where xs: "xs = a # ys" using assms(2) by (cases xs) auto
  have wrap: "(ys @ [a]) ! k = xs ! ((k + 1) mod length xs)" if "k \<le> length ys" for k
    using that by (cases "k = length ys") (auto simp: xs nth_append)
  have unwrap: "((k + 1) mod length xs + length xs - 1) mod length xs = k" if "k \<le> length ys" for k
    using that mod_add_self2 [of k "Suc (length ys)"] by (cases "k = length ys") (auto simp: xs)
  have "chain n p a ys a"
    unfolding chain_index
  proof (intro allI impI conjI)
    fix k assume k: "k \<le> length ys"
    show "n ((a # ys) ! k) = (ys @ [a]) ! k"
      using k assms(3) [of k] by (simp add: wrap [OF k] xs)
    show "p ((ys @ [a]) ! k) = (a # ys) ! k"
      using assms(4) [of "(k + 1) mod length xs"] unwrap [OF k] by (simp add: wrap [OF k] xs)
  qed
  then show ?thesis using assms(1) by (simp add: xs)
qed

section \<open>Allocation of the corners\<close>

lemma allocLoops_spec:
  assumes "pools_inv m" "capacity m (n + k)" "allocLoops n m = (ls, m')"
  shows "pools_inv m' \<and> capacity m' k \<and> length ls = n \<and> distinct ls \<and>
    (\<forall>l \<in> set ls. \<not> loopAlive m l \<and> lp m' l = loop0\<lparr>ml_alive := True\<rparr>) \<and>
    (\<forall>j. loopAlive m' j \<longleftrightarrow> j \<in> set ls \<or> loopAlive m j) \<and>
    (\<forall>j. loopAlive m j \<longrightarrow> lp m' j = lp m j) \<and>
    m_vertices m' = m_vertices m \<and> m_edges m' = m_edges m \<and> m_faces m' = m_faces m"
  using assms
proof (induction n arbitrary: m ls m')
  case 0
  then show ?case by simp
next
  case (Suc n)
  obtain l m1 where l: "allocLoop m = (l, m1)" by (cases "allocLoop m")
  obtain ls' m2 where ls: "allocLoops n m1 = (ls', m2)" by (cases "allocLoops n m1")
  have eq: "ls = l # ls'" "m' = m2" using Suc.prems(3) l ls by auto
  have m1: "m1 = snd (allocLoop m)" using l by simp
  have pool: "lpool.pool_inv m" using Suc.prems(1) by (simp add: pools_inv_def)
  have cap: "capacity m (Suc (n + k))" using Suc.prems(2) by simp
  note sp = lpool.alloc_spec [OF pool capacity_room(4) [OF cap] l, unfolded live_alive]
  have "pools_inv m1" "capacity m1 (n + k)"
    using alloc_pools_inv(4) [OF Suc.prems(1) cap] alloc_capacity(4) [OF cap] by (simp_all add: m1)
  note IH = Suc.IH [OF this ls]
  have old: "lp m1 j = lp m j" if "loopAlive m j" for j
    using that sp(1) sp(3) [of j] by (auto simp: loopAlive_def)
  have la: "loopAlive m1 l" using sp(6) by simp
  show ?case
  proof (intro conjI allI ballI impI)
    show "pools_inv m'" "capacity m' k" "length ls = Suc n" using IH by (simp_all add: eq)
    show "distinct ls" using IH la by (auto simp: eq)
    fix j
    show "loopAlive m' j \<longleftrightarrow> j \<in> set ls \<or> loopAlive m j" using IH sp(6) by (auto simp: eq)
    show "j \<in> set ls \<Longrightarrow> \<not> loopAlive m j" using IH sp(1,6) by (auto simp: eq)
    show "j \<in> set ls \<Longrightarrow> lp m' j = loop0\<lparr>ml_alive := True\<rparr>" using IH sp(4) la by (auto simp: eq)
    show "loopAlive m j \<Longrightarrow> lp m' j = lp m j" using IH sp(6) old by (simp add: eq)
  next
    show "m_vertices m' = m_vertices m" "m_edges m' = m_edges m" "m_faces m' = m_faces m"
      using IH by (simp_all add: eq m1)
  qed
qed

section \<open>Radial cycles under changes elsewhere\<close>

lemma radial_inv_cong:
  assumes "radial_inv m"
    and "\<And>e. edgeAlive m e \<Longrightarrow> edgeAlive m' e \<and> me_radial (ed m' e) = me_radial (ed m e)"
    and "\<And>e. edgeAlive m' e \<Longrightarrow> \<not> edgeAlive m e \<Longrightarrow> me_radial (ed m' e) = kInvalidIndex"
    and "\<And>l. linked m' l = linked m l"
    and "\<And>l. linked m l \<Longrightarrow> ml_edge (lp m' l) = ml_edge (lp m l) \<and>
      ml_rnext (lp m' l) = ml_rnext (lp m l) \<and> ml_rprev (lp m' l) = ml_rprev (lp m l)"
  shows "radial_inv m'"
proof -
  have "radial_ok m' e" if e: "edgeAlive m' e" for e
  proof (cases "edgeAlive m e")
    case True
    then have "radial_ok m e" using assms(1) by (simp add: radial_inv_def)
    then show ?thesis
    proof (rule radial_ok_cong)
      show "me_radial (ed m' e) = me_radial (ed m e)" using assms(2) True by simp
    qed (use assms(4,5) in auto)
  next
    case False
    have "{l. linked m' l \<and> ml_edge (lp m' l) = e} = {}"
      using assms(1,4,5) False by (auto simp: radial_inv_def)
    then show ?thesis using assms(3) [OF e False] by (simp add: radial_ok_def)
  qed
  moreover have "edgeAlive m' (ml_edge (lp m' l))" if "linked m' l" for l
    using that assms by (simp add: radial_inv_def)
  ultimately show ?thesis by (simp add: radial_inv_def)
qed

section \<open>The loop over the corners\<close>

definition corner_same :: "mesh \<Rightarrow> mesh \<Rightarrow> nat \<Rightarrow> bool" where
  "corner_same m m' j \<longleftrightarrow> ml_vertex (lp m' j) = ml_vertex (lp m j) \<and> ml_face (lp m' j) = ml_face (lp m j) \<and>
     ml_next (lp m' j) = ml_next (lp m j) \<and> ml_prev (lp m' j) = ml_prev (lp m j) \<and>
     ml_edge (lp m' j) = ml_edge (lp m j)"

definition ends_same :: "mesh \<Rightarrow> mesh \<Rightarrow> bool" where
  "ends_same m m' \<longleftrightarrow> (\<forall>v. vertexAlive m' v = vertexAlive m v \<and> mv_position (vx m' v) = mv_position (vx m v)) \<and>
     (\<forall>e. edgeAlive m e \<longrightarrow> edgeAlive m' e \<and> me_v0 (ed m' e) = me_v0 (ed m e) \<and> me_v1 (ed m' e) = me_v1 (ed m e)) \<and>
     length (m_vertices m') = length (m_vertices m)"

definition fresh_face :: "mesh \<Rightarrow> nat \<Rightarrow> mesh \<Rightarrow> bool" where
  "fresh_face m f m' \<longleftrightarrow> f = fst (allocFace m) \<and> length (m_faces m') = length (m_faces (snd (allocFace m)))"

definition corner_done :: "mesh \<Rightarrow> nat list \<Rightarrow> nat \<Rightarrow> nat list \<Rightarrow> nat \<Rightarrow> bool" where
  "corner_done m vs f loops k \<longleftrightarrow> (let n = length vs; l = loops ! k in linked m l \<and>
     ml_vertex (lp m l) = vs ! k \<and> ml_face (lp m l) = f \<and>
     ml_next (lp m l) = loops ! ((k + 1) mod n) \<and> ml_prev (lp m l) = loops ! ((k + n - 1) mod n) \<and>
     edge_joins (ed m (ml_edge (lp m l))) (vs ! k) (vs ! ((k + 1) mod n)))"

definition building :: "mesh \<Rightarrow> nat list \<Rightarrow> nat \<Rightarrow> nat list \<Rightarrow> nat \<Rightarrow> mesh \<Rightarrow> bool" where
  "building m vs f loops i m' \<longleftrightarrow>
     (pools_inv m' \<and> edges_inv m' \<and> radial_inv m' \<and> no_wire m' \<and> capacity m' (length vs - i)) \<and>
     ends_same m m' \<and>
     m_faces m' = m_faces (snd (allocFace m)) \<and>
     (\<forall>j. loopAlive m' j \<longleftrightarrow> j \<in> set loops \<or> loopAlive m j) \<and>
     (\<forall>j. loopAlive m j \<longrightarrow> linked m' j \<and> corner_same m m' j) \<and>
     (\<forall>k < length vs. i \<le> k \<longrightarrow> \<not> linked m' (loops ! k)) \<and>
     (\<forall>k < i. corner_done m' vs f loops k)"

text \<open>Linking corner \<open>i\<close> leaves the others, and everything that a face does not own, as they were.\<close>

lemma linkCorner_effect:
  fixes f :: nat
  assumes inv: "pools_inv m" "edges_inv m" "radial_inv m" "no_wire m" "capacity m (Suc c)"
    and l: "loopAlive m (loops ! i)" "\<not> linked m (loops ! i)"
    and ab: "vs ! i \<noteq> vs ! ((i + 1) mod length vs)" "vertexAlive m (vs ! i)"
      "vertexAlive m (vs ! ((i + 1) mod length vs))"
  defines "m' \<equiv> linkCorner vs f loops i m"
  shows "pools_inv m' \<and> edges_inv m' \<and> radial_inv m' \<and> no_wire m' \<and> capacity m' c"
    and "ends_same m m'" "m_faces m' = m_faces m" "\<And>j. loopAlive m' j = loopAlive m j"
    and "\<And>j. j \<noteq> loops ! i \<Longrightarrow> (linked m' j \<longleftrightarrow> linked m j) \<and> corner_same m m' j"
    and "corner_done m' vs f loops i"
proof -
  let ?l = "loops ! i" and ?a = "vs ! i" and ?b = "vs ! ((i + 1) mod length vs)"
  define m1 where "m1 = set_loop ?l (\<lambda>x. x\<lparr>ml_vertex := vs ! i, ml_face := f,
      ml_next := loops ! ((i + 1) mod length vs), ml_prev := loops ! ((i + length vs - 1) mod length vs)\<rparr>) m"
  obtain e m2 where em: "findOrCreateEdge ?a ?b m1 = (e, m2)" by (cases "findOrCreateEdge ?a ?b m1")
  have m': "m' = radialInsert e ?l m2" using em by (simp add: m'_def linkCorner_def Let_def m1_def)
  have lb: "?l < length (m_loops m)" using l(1) by (simp add: loopAlive_def)
  have sa1: "same_alive m m1" unfolding m1_def by (rule same_alive_set(3)) simp
  note al1 = same_alive_alive [OF sa1]
  have l1: "lp m1 j = (if j = ?l then (lp m ?l)\<lparr>ml_vertex := vs ! i, ml_face := f,
      ml_next := loops ! ((i + 1) mod length vs), ml_prev := loops ! ((i + length vs - 1) mod length vs)\<rparr>
      else lp m j)" for j
    unfolding m1_def by (rule set_loop_nth [OF lb])
  have lk1: "linked m1 j = linked m j" for j using al1(4) by (simp add: linked_def l1)
  have o1: "m_vertices m1 = m_vertices m" "m_edges m1 = m_edges m" "m_faces m1 = m_faces m"
    by (simp_all add: m1_def)
  have inv1: "pools_inv m1" "edges_inv m1" "radial_inv m1" "capacity m1 (Suc c)"
    using inv same_alive_pools [OF sa1] same_alive_length [OF sa1]
    by (auto simp: o1 al1 capacity_def l1 lk1 intro: edges_inv_cong radial_inv_cong)
  note fs = findOrCreateEdge_spec [OF inv1(1,2,4) ab(1) _ _ em, unfolded al1, OF ab(2,3)]
  have l2: "lp m2 j = lp m1 j" "loopAlive m2 j = loopAlive m j" "linked m2 j = linked m j" for j
    using fs(6) al1(4) lk1 by (simp_all add: linked_def loopAlive_def)
  have rad: "radial_inv m2"
    using inv1(3)
  proof (rule radial_inv_cong)
    show "edgeAlive m1 e' \<Longrightarrow> edgeAlive m2 e' \<and> me_radial (ed m2 e') = me_radial (ed m1 e')" for e'
      using fs(3) al1(2) by simp
    show "edgeAlive m2 e' \<Longrightarrow> \<not> edgeAlive m1 e' \<Longrightarrow> me_radial (ed m2 e') = kInvalidIndex" for e'
      using fs(4,5) al1(2) by auto
  qed (simp_all add: l2 lk1)
  have inv2: "pools_inv m2" "edges_inv m2" "capacity m2 c" "edgeAlive m2 e" "edge_joins (ed m2 e) ?a ?b"
    using fs(1,2) by auto
  have "loopAlive m2 ?l" "\<not> linked m2 ?l" using l l2 by auto
  note ri = radialInsert_spec [OF inv2(1) rad inv2(4) this, folded m']
  have fr: "loop_frame m2 m'" unfolding m' by (rule radialInsert_frame)
  then have sa: "same_alive m2 m'" by (simp add: loop_frame_def)
  note al = same_alive_alive [OF sa]
  have fr': "m_vertices m' = m_vertices m2" "m_faces m' = m_faces m2"
      "me_v0 (ed m' j) = me_v0 (ed m2 j)" "me_v1 (ed m' j) = me_v1 (ed m2 j)"
      "ml_vertex (lp m' j) = ml_vertex (lp m2 j)" "ml_face (lp m' j) = ml_face (lp m2 j)"
      "ml_next (lp m' j) = ml_next (lp m2 j)" "ml_prev (lp m' j) = ml_prev (lp m2 j)" for j
    using fr unfolding loop_frame_def by simp_all
  have "edges_inv m'" using inv2(2) by (rule edges_inv_cong) (simp_all add: al fr')
  moreover have "no_wire m'"
  proof -
    have "me_radial (ed m' j) \<noteq> kInvalidIndex" if "edgeAlive m' j" for j
    proof (cases "j = e")
      case True
      then show ?thesis using ri(4) by simp
    next
      case False
      then have "edgeAlive m j" using that fs(4) [of j] al(2) [of j] by auto
      then show ?thesis using False ri(5) fs(3) inv(4) by (simp add: no_wire_def o1)
    qed
    then show ?thesis by (simp add: no_wire_def)
  qed
  ultimately show "pools_inv m' \<and> edges_inv m' \<and> radial_inv m' \<and> no_wire m' \<and> capacity m' c"
    using ri(1) inv2 same_alive_pools [OF sa] same_alive_length [OF sa] by (simp add: capacity_def)
  show "ends_same m m'"
    using fs(3,7,8) conjunct2 [OF conjunct2 [OF fs(6)]] by (auto simp: ends_same_def al fr' o1)
  show "m_faces m' = m_faces m" using fs(6) by (simp add: fr' o1)
  show "loopAlive m' j = loopAlive m j" for j using l2(2) al(4) by simp
  show "(linked m' j \<longleftrightarrow> linked m j) \<and> corner_same m m' j" if "j \<noteq> ?l" for j
    using that ri(2,3) by (simp add: corner_same_def fr' l2 l1)
  have "edge_joins (ed m' e) ?a ?b" using inv2(5) by (simp add: edge_joins_def fr')
  then show "corner_done m' vs f loops i"
    using ri(2,3) by (simp add: corner_done_def fr' l2 l1 Let_def)
qed

lemma ends_same_trans: "ends_same a b \<Longrightarrow> ends_same b c \<Longrightarrow> ends_same a c"
  by (simp add: ends_same_def)

lemma corner_same_trans: "corner_same a b j \<Longrightarrow> corner_same b c j \<Longrightarrow> corner_same a c j"
  by (simp add: corner_same_def)

text \<open>A linked corner stays linked to an edge with the same ends.\<close>

lemma corner_done_mono:
  assumes "corner_done m vs f loops k" "radial_inv m" "ends_same m m'"
    and "linked m' (loops ! k)" "corner_same m m' (loops ! k)"
  shows "corner_done m' vs f loops k"
proof -
  have "edgeAlive m (ml_edge (lp m (loops ! k)))"
    using assms(1,2) by (simp add: corner_done_def radial_inv_def Let_def)
  then show ?thesis
    using assms(1,3-5) by (auto simp: corner_done_def ends_same_def corner_same_def Let_def edge_joins_def)
qed

lemma building_step:
  assumes b: "building m vs f loops i m'" and i: "i < length vs" and n: "length loops = length vs"
    and d: "distinct vs" "distinct loops" "2 \<le> length vs" and al: "\<forall>v \<in> set vs. vertexAlive m v"
    and new: "\<forall>l \<in> set loops. \<not> loopAlive m l"
  shows "building m vs f loops (Suc i) (linkCorner vs f loops i m')"
proof -
  let ?m2 = "linkCorner vs f loops i m'" and ?j = "(i + 1) mod length vs"
  have j: "?j < length vs" "?j \<noteq> i" using d(3) i by (auto simp: mod_Suc)
  have va: "vertexAlive m' v = vertexAlive m v" for v using b by (simp add: building_def ends_same_def)
  have pre: "pools_inv m'" "edges_inv m'" "radial_inv m'" "no_wire m'"
      "capacity m' (Suc (length vs - Suc i))" "loopAlive m' (loops ! i)" "\<not> linked m' (loops ! i)"
      "vs ! i \<noteq> vs ! ?j" "vertexAlive m' (vs ! i)" "vertexAlive m' (vs ! ?j)"
    using b i n al j d(1) by (auto simp: building_def va nth_eq_iff_index_eq Suc_diff_Suc)
  note eff = linkCorner_effect [OF pre, where f = f]
  have same: "linked ?m2 k \<longleftrightarrow> linked m' k" "corner_same m' ?m2 k" if "k \<noteq> loops ! i" for k
    using eff(5) [OF that] by auto
  have old: "k \<noteq> loops ! i" if "loopAlive m k" for k
    using that new i n nth_mem [of i loops] by metis
  have other: "loops ! k \<noteq> loops ! i" if "k < length vs" "k \<noteq> i" for k
    using that d(2) i n by (simp add: nth_eq_iff_index_eq)
  show ?thesis unfolding building_def
  proof (intro conjI allI impI)
    show "pools_inv ?m2" "edges_inv ?m2" "radial_inv ?m2" "no_wire ?m2" "capacity ?m2 (length vs - Suc i)"
      using eff(1) by auto
    show "ends_same m ?m2" using b eff(2) by (auto simp: building_def intro: ends_same_trans)
    show "m_faces ?m2 = m_faces (snd (allocFace m))" using b eff(3) by (simp add: building_def)
    fix k
    show "loopAlive ?m2 k \<longleftrightarrow> k \<in> set loops \<or> loopAlive m k" using b eff(4) by (simp add: building_def)
    show "linked ?m2 k" if "loopAlive m k"
      using that same(1) [OF old] b by (simp add: building_def)
    show "corner_same m ?m2 k" if "loopAlive m k"
      using that same(2) [OF old] b by (auto simp: building_def intro: corner_same_trans)
    show "\<not> linked ?m2 (loops ! k)" if "k < length vs" "Suc i \<le> k"
      using that same(1) [OF other] b by (simp add: building_def)
    show "corner_done ?m2 vs f loops k" if "k < Suc i"
    proof (cases "k = i")
      case True
      then show ?thesis using eff(6) by simp
    next
      case False
      then have k: "k < length vs" "corner_done m' vs f loops k" using that i b by (auto simp: building_def)
      then have "linked m' (loops ! k)" by (simp add: corner_done_def Let_def)
      then show ?thesis
        using same [OF other [OF k(1) False]] by (intro corner_done_mono [OF k(2) pre(3) eff(2)]) simp_all
    qed
  qed
qed

lemma building_fold:
  assumes "building m vs f loops 0 m0" "length loops = length vs" "distinct vs" "distinct loops"
    "2 \<le> length vs" "\<forall>v \<in> set vs. vertexAlive m v" "\<forall>l \<in> set loops. \<not> loopAlive m l" "i \<le> length vs"
  shows "building m vs f loops i (fold (linkCorner vs f loops) [0..<i] m0)"
  using assms(8)
proof (induction i)
  case (Suc i)
  then show ?case using building_step [OF Suc.IH _ assms(2-7)] by simp
qed (use assms(1) in simp)

section \<open>Walking a face\<close>

definition face_ring :: "mesh \<Rightarrow> nat \<Rightarrow> nat list \<Rightarrow> bool" where
  "face_ring m f ls \<longleftrightarrow> ls \<noteq> [] \<and> hd ls = mf_first (fc m f) \<and>
     ring (\<lambda>l. ml_next (lp m l)) (\<lambda>l. ml_prev (lp m l)) ls \<and>
     set ls = {l. loopAlive m l \<and> ml_face (lp m l) = f} \<and> mf_size (fc m f) = length ls \<and>
     3 \<le> length ls \<and> distinct (map (\<lambda>l. ml_vertex (lp m l)) ls)"

lemma face_ok_ring: "face_ok m f \<longleftrightarrow> (\<exists>ls. face_ring m f ls)"
proof
  assume "face_ok m f"
  then obtain xs where "face_ring m f (mf_first (fc m f) # xs)"
    unfolding face_ok_def face_ring_def by fastforce
  then show "\<exists>ls. face_ring m f ls" ..
next
  assume "\<exists>ls. face_ring m f ls"
  then obtain ls where "face_ring m f ls" ..
  then show "face_ok m f"
    unfolding face_ok_def face_ring_def by (cases ls) (auto intro!: exI [of _ "tl ls"])
qed

lemma face_ring_walk:
  assumes "face_ring m f ls"
  shows "faceLoops m f = Some ls" "faceVertices m f = Some (map (\<lambda>l. ml_vertex (lp m l)) ls)"
proof -
  show a: "faceLoops m f = Some ls"
  proof -
    obtain x xs where "ls = x # xs" "x = mf_first (fc m f)"
      using assms by (cases ls) (auto simp: face_ring_def)
    moreover from this assms have "walk (\<lambda>l. ml_next (lp m l)) x x = Some (x # xs)"
      unfolding face_ring_def by (blast intro: walk_ring)
    ultimately show ?thesis by (simp add: faceLoops_def Let_def)
  qed
  show "faceVertices m f = Some (map (\<lambda>l. ml_vertex (lp m l)) ls)" by (simp add: faceVertices_def a)
qed

lemma mesh_inv_face:
  assumes "mesh_inv m" "faceAlive m f"
  obtains ls where "face_ring m f ls"
  using assms by (auto simp: mesh_inv_def faces_inv_def face_ok_ring)

lemma face_ring_cong:
  assumes "face_ring m f ls" "fc m' f = fc m f"
    and "\<And>l. l \<in> set ls \<Longrightarrow> corner_same m m' l"
    and "\<And>l. loopAlive m' l \<and> ml_face (lp m' l) = f \<longleftrightarrow> loopAlive m l \<and> ml_face (lp m l) = f"
  shows "face_ring m' f ls"
proof -
  have r: "ring (\<lambda>l. ml_next (lp m l)) (\<lambda>l. ml_prev (lp m l)) ls" using assms(1) by (simp add: face_ring_def)
  have "ring (\<lambda>l. ml_next (lp m' l)) (\<lambda>l. ml_prev (lp m' l)) ls"
    by (rule iffD1 [OF ring_cong r]) (use assms(3) in \<open>simp_all add: corner_same_def\<close>)
  moreover have "map (\<lambda>l. ml_vertex (lp m' l)) ls = map (\<lambda>l. ml_vertex (lp m l)) ls"
    using assms(3) by (simp add: corner_same_def)
  moreover have "{l. loopAlive m' l \<and> ml_face (lp m' l) = f} = {l. loopAlive m l \<and> ml_face (lp m l) = f}"
    by (rule Collect_cong) (rule assms(4))
  ultimately show ?thesis using assms(1) unfolding face_ring_def assms(2) by (simp only: simp_thms)
qed

section \<open>The result of addFace\<close>

text \<open>What \<open>addFace\<close> promises when its guards pass.\<close>

definition face_added :: "mesh \<Rightarrow> nat list \<Rightarrow> nat \<Rightarrow> mesh \<Rightarrow> bool" where
  "face_added m vs f m' \<longleftrightarrow> mesh_inv m' \<and> ends_same m m' \<and> \<not> faceAlive m f \<and> f \<noteq> kInvalidIndex \<and>
     fresh_face m f m' \<and>
     (\<forall>j. faceAlive m' j \<longleftrightarrow> j = f \<or> faceAlive m j) \<and>
     (\<forall>j. faceAlive m j \<longrightarrow> fc m' j = fc m j) \<and>
     (\<forall>j. loopAlive m j \<longrightarrow> loopAlive m' j \<and> corner_same m m' j) \<and>
     (\<forall>j. loopAlive m' j \<longrightarrow> \<not> loopAlive m j \<longrightarrow> ml_face (lp m' j) = f) \<and>
     faceVertices m' f = Some vs"

lemma building_start:
  assumes m: "mesh_inv m" "capacity m (Suc (2 * length vs))"
    and f: "allocFace m = (f, m1)" and ls: "allocLoops (length vs) m1 = (loops, m2)"
  shows "building m vs f loops 0 m2" "length loops = length vs" "distinct loops"
    "\<forall>l \<in> set loops. \<not> loopAlive m l"
proof -
  have m1: "m1 = snd (allocFace m)" using f by simp
  have inv: "pools_inv m" "edges_inv m" "radial_inv m" "corners_inv m" "no_wire m"
    using m(1) by (auto simp: mesh_inv_def)
  have p1: "pools_inv m1" "capacity m1 (length vs + length vs)"
    using alloc_pools_inv(3) [OF inv(1) m(2)] alloc_capacity(3) [OF m(2)] by (simp_all add: m1 mult_2)
  note al = allocLoops_spec [OF p1 ls]
  have la1: "loopAlive m1 j = loopAlive m j" for j by (simp add: m1 loopAlive_def)
  show "length loops = length vs" "distinct loops" "\<forall>l \<in> set loops. \<not> loopAlive m l"
    using al la1 by auto
  have same: "m_vertices m2 = m_vertices m" "m_edges m2 = m_edges m" "m_faces m2 = m_faces m1"
    using al by (simp_all add: m1)
  have al2: "vertexAlive m2 v = vertexAlive m v" "edgeAlive m2 e = edgeAlive m e" for v e
    by (simp_all add: same vertexAlive_def edgeAlive_def)
  have lpo: "loopAlive m j \<Longrightarrow> lp m2 j = lp m j" for j using al la1 by (simp add: m1)
  have new: "\<not> linked m2 l" if "l \<in> set loops" for l
    using al that by (simp add: linked_def loop0_def)
  have lk: "linked m2 j = linked m j" for j
    using new [of j] al la1 lpo by (auto simp: linked_def)
  have "edges_inv m2" using inv(2) by (rule edges_inv_cong) (simp_all add: same al2)
  moreover have "radial_inv m2"
    using inv(3)
  proof (rule radial_inv_cong)
    show "ml_edge (lp m2 l) = ml_edge (lp m l) \<and> ml_rnext (lp m2 l) = ml_rnext (lp m l) \<and>
      ml_rprev (lp m2 l) = ml_rprev (lp m l)" if "linked m l" for l
      using that lpo by (simp add: linked_def)
  qed (simp_all add: same al2 lk)
  moreover have "no_wire m2" using inv(5) by (simp add: no_wire_def same al2)
  moreover have "\<forall>j. loopAlive m j \<longrightarrow> linked m2 j \<and> corner_same m m2 j"
    using inv(4) by (simp add: lk corners_inv_def corner_ok_def corner_same_def lpo)
  moreover have "\<forall>k < length vs. \<not> linked m2 (loops ! k)" using new al by simp
  ultimately show "building m vs f loops 0 m2"
    using al by (simp add: building_def ends_same_def al2 same la1 [unfolded m1] m1)
qed

lemma mesh_invI:
  assumes "pools_inv m" "edges_inv m" "radial_inv m" "no_wire m"
    and "\<And>f. faceAlive m f \<Longrightarrow> \<exists>ls. face_ring m f ls"
    and "\<And>l. loopAlive m l \<Longrightarrow> faceAlive m (ml_face (lp m l)) \<and> vertexAlive m (ml_vertex (lp m l)) \<and> corner_ok m l"
  shows "mesh_inv m"
  using assms by (simp add: mesh_inv_def faces_inv_def corners_inv_def face_ok_ring)

lemma mesh_invD:
  assumes "mesh_inv m"
  shows "pools_inv m" "edges_inv m" "radial_inv m" "no_wire m" "faces_inv m" "corners_inv m"
    and "\<And>l. loopAlive m l \<Longrightarrow> faceAlive m (ml_face (lp m l)) \<and> vertexAlive m (ml_vertex (lp m l)) \<and> corner_ok m l"
    and "\<And>f. faceAlive m f \<Longrightarrow> \<exists>ls. face_ring m f ls"
  using assms by (auto simp: mesh_inv_def faces_inv_def corners_inv_def face_ok_ring)

lemma loop_next_alive:
  assumes "mesh_inv m" "loopAlive m l"
  shows "loopAlive m (ml_next (lp m l)) \<and> ml_face (lp m (ml_next (lp m l))) = ml_face (lp m l)"
proof -
  obtain ls where ls: "face_ring m (ml_face (lp m l)) ls"
    using mesh_inv_face [OF assms(1)] mesh_invD(7) [OF assms] by blast
  then have "ml_next (lp m l) \<in> set ls"
    using ring_next [of "\<lambda>l. ml_next (lp m l)" _ ls l] assms(2) unfolding face_ring_def by auto
  then show ?thesis using ls by (auto simp: face_ring_def)
qed

text \<open>A corner whose successor and edge keep their ends keeps its tie to the edge.\<close>

lemma corner_ok_same:
  assumes "corner_ok m l" "radial_inv m" "ends_same m m'" "linked m' l" "corner_same m m' l"
    "corner_same m m' (ml_next (lp m l))"
  shows "corner_ok m' l"
proof -
  have "edgeAlive m (ml_edge (lp m l))" using assms(1,2) by (simp add: corner_ok_def radial_inv_def)
  then show ?thesis
    using assms(1,3-6) by (auto simp: corner_ok_def ends_same_def corner_same_def edge_joins_def)
qed

text \<open>The mesh once every corner is linked and the face names its first corner.\<close>

definition built :: "mesh \<Rightarrow> nat list \<Rightarrow> nat \<Rightarrow> nat list \<Rightarrow> mesh \<Rightarrow> bool" where
  "built m vs f loops m' \<longleftrightarrow> pools_inv m' \<and> edges_inv m' \<and> radial_inv m' \<and> no_wire m' \<and> ends_same m m' \<and>
     \<not> faceAlive m f \<and> (\<forall>j. faceAlive m' j \<longleftrightarrow> j = f \<or> faceAlive m j) \<and> (\<forall>j. faceAlive m j \<longrightarrow> fc m' j = fc m j) \<and>
     fresh_face m f m' \<and>
     mf_first (fc m' f) = loops ! 0 \<and> mf_size (fc m' f) = length vs \<and>
     (\<forall>j. loopAlive m' j \<longleftrightarrow> j \<in> set loops \<or> loopAlive m j) \<and>
     (\<forall>j. loopAlive m j \<longrightarrow> linked m' j \<and> corner_same m m' j) \<and>
     (\<forall>k < length vs. corner_done m' vs f loops k) \<and>
     length loops = length vs \<and> distinct loops \<and> (\<forall>l \<in> set loops. \<not> loopAlive m l)"

lemma addFace_built:
  assumes m: "mesh_inv m" "capacity m (Suc (2 * length vs))"
    and vs: "3 \<le> length vs" "\<forall>v \<in> set vs. vertexAlive m v" "distinct vs"
    and res: "addFace vs m = (f, m')"
  shows "\<exists>loops. built m vs f loops m'"
proof -
  obtain f0 m1 where f: "allocFace m = (f0, m1)" by (cases "allocFace m")
  obtain loops m2 where ls: "allocLoops (length vs) m1 = (loops, m2)" by (cases "allocLoops (length vs) m1")
  define m3 where "m3 = fold (linkCorner vs f0 loops) [0..<length vs] m2"
  have m': "f = f0" "m' = set_face f (\<lambda>x. x\<lparr>mf_first := loops ! 0, mf_size := to_index (length vs)\<rparr>) m3"
    using res vs f ls by (auto simp: addFace_def hasRepeatedVertex_iff Let_def m3_def)
  note start = building_start [OF m f ls]
  have "building m vs f loops (length vs) m3"
    using building_fold [OF start(1,2) vs(3) start(3) _ vs(2) start(4), of "length vs"] vs(1)
    by (simp add: m'(1) m3_def)
  note b3 = this [unfolded building_def]
  have pool: "fpool.pool_inv m" using m(1) by (simp add: mesh_inv_def pools_inv_def)
  note sp = fpool.alloc_spec [OF pool capacity_room(3) [OF m(2)] f, unfolded live_alive]
  have m1: "m1 = snd (allocFace m)" using f by simp
  have f3: "m_faces m3 = m_faces m1" using b3 by (simp add: m1)
  have sa: "same_alive m3 m'" unfolding m'(2) by (rule same_alive_set(4)) simp
  note al = same_alive_alive [OF sa]
  have fa: "faceAlive m' j \<longleftrightarrow> j = f \<or> faceAlive m j" for j
    using sp(6) [of j] al(3) [of j] by (simp add: faceAlive_def [of m3] faceAlive_def [of m1] f3 m'(1))
  have fo: "fc m' j = fc m j" if "faceAlive m j" for j
  proof -
    have "j \<noteq> f0" using that sp(1) by blast
    with sp(3) [of j] that show ?thesis by (simp add: m' f3 faceAlive_def)
  qed
  have "length vs < 2 ^ 32" using m(2) by (simp add: capacity_def kInvalidIndex_def)
  then have ff: "mf_first (fc m' f) = loops ! 0" "mf_size (fc m' f) = length vs"
    using sp(2) by (simp_all add: m' f3 to_index_def)
  have fr: "m_vertices m' = m_vertices m3" "m_edges m' = m_edges m3" "m_loops m' = m_loops m3"
    by (simp_all add: m')
  have lk: "linked m' j = linked m3 j" for j using al(4) by (simp add: linked_def fr)
  have "pools_inv m'" "edges_inv m'" "radial_inv m'" "no_wire m'"
    using b3 same_alive_pools [OF sa]
    by (auto simp: al fr no_wire_def lk intro: edges_inv_cong radial_inv_cong)
  moreover have "corner_done m' vs f loops k" if "k < length vs" for k
    using b3 that by (simp add: lk fr corner_done_def)
  moreover have "fresh_face m f m'" using f by (simp add: fresh_face_def m' f3)
  ultimately show ?thesis
    using b3 fa fo ff sp(1) start(2-4)
    by (intro exI [of _ loops]) (simp add: built_def ends_same_def corner_same_def al fr lk m'(1))
qed

lemma built_members:
  assumes m: "mesh_inv m" and b: "built m vs f loops m'"
  shows "{l. loopAlive m' l \<and> ml_face (lp m' l) = f} = set loops"
proof -
  have "ml_face (lp m' l) = f" if "l \<in> set loops" for l
    using that b by (auto simp: built_def in_set_conv_nth corner_done_def Let_def)
  moreover have "ml_face (lp m' l) \<noteq> f" if "loopAlive m l" for l
    using b that mesh_invD(7) [OF m that] by (auto simp: corner_same_def built_def)
  moreover have "loopAlive m' l \<longleftrightarrow> l \<in> set loops \<or> loopAlive m l" for l using b by (simp add: built_def)
  ultimately show ?thesis by auto
qed

lemma built_ring:
  assumes m: "mesh_inv m" and b: "built m vs f loops m'" and vs: "3 \<le> length vs" "distinct vs"
  shows "face_ring m' f loops" "map (\<lambda>l. ml_vertex (lp m' l)) loops = vs"
proof -
  note d = b [unfolded built_def]
  show verts: "map (\<lambda>l. ml_vertex (lp m' l)) loops = vs"
    using d by (auto simp: list_eq_iff_nth_eq corner_done_def Let_def)
  have "ring (\<lambda>l. ml_next (lp m' l)) (\<lambda>l. ml_prev (lp m' l)) loops"
    using d vs(1) by (intro ring_index) (auto simp: corner_done_def Let_def)
  then show "face_ring m' f loops"
    using d vs built_members [OF m b] verts by (cases loops) (simp_all add: face_ring_def)
qed

lemma built_old_ring:
  assumes m: "mesh_inv m" and b: "built m vs f loops m'" and j: "faceAlive m j" "face_ring m j xs"
  shows "face_ring m' j xs"
proof (rule face_ring_cong [OF j(2)])
  note d = b [unfolded built_def]
  show "fc m' j = fc m j" using d j(1) by simp
  show "corner_same m m' l" if "l \<in> set xs" for l using that j(2) d by (simp add: face_ring_def)
  have "j \<noteq> f" using d j(1) by blast
  then show "loopAlive m' l \<and> ml_face (lp m' l) = j \<longleftrightarrow> loopAlive m l \<and> ml_face (lp m l) = j" for l
    using d built_members [OF m b] by (auto simp: corner_same_def)
qed

lemma built_corner:
  assumes m: "mesh_inv m" and b: "built m vs f loops m'" and vs: "\<forall>v \<in> set vs. vertexAlive m v" "vs \<noteq> []"
    and l: "loopAlive m' l"
  shows "faceAlive m' (ml_face (lp m' l)) \<and> vertexAlive m' (ml_vertex (lp m' l)) \<and> corner_ok m' l"
proof -
  note d = b [unfolded built_def]
  consider k where "k < length vs" "l = loops ! k" | "loopAlive m l"
    using l d by (auto simp: in_set_conv_nth)
  then show ?thesis
  proof cases
    case 1
    have v: "vertexAlive m' (vs ! k)" using vs(1) 1(1) d by (simp add: ends_same_def)
    have "corner_done m' vs f loops ((k + 1) mod length vs)" using vs(2) d by simp
    then have "ml_vertex (lp m' (loops ! ((k + 1) mod length vs))) = vs ! ((k + 1) mod length vs)"
      by (simp add: corner_done_def Let_def)
    moreover have "corner_done m' vs f loops k" using d 1(1) by simp
    ultimately show ?thesis using d v 1(2) by (simp add: corner_done_def corner_ok_def Let_def)
  next
    case 2
    note o = mesh_invD(7) [OF m 2]
    have "corner_ok m' l"
      using o d 2 loop_next_alive [OF m 2] by (intro corner_ok_same [OF _ mesh_invD(3) [OF m], of l m']) auto
    then show ?thesis using o 2 d by (simp add: corner_same_def ends_same_def)
  qed
qed

lemma addFace_success:
  assumes m: "mesh_inv m" "capacity m (Suc (2 * length vs))"
    and vs: "3 \<le> length vs" "\<forall>v \<in> set vs. vertexAlive m v" "distinct vs"
    and res: "addFace vs m = (f, m')"
  shows "face_added m vs f m'"
proof -
  obtain loops where b: "built m vs f loops m'" using addFace_built [OF assms] ..
  note d = b [unfolded built_def]
  note new = built_ring [OF m(1) b vs(1,3)]
  have "mesh_inv m'"
  proof (rule mesh_invI)
    fix j assume "faceAlive m' j"
    then show "\<exists>ls. face_ring m' j ls"
      using d new(1) built_old_ring [OF m(1) b] mesh_invD(8) [OF m(1)] by metis
  next
    have ne: "vs \<noteq> []" using vs(1) by auto
    fix l assume "loopAlive m' l"
    with m(1) b vs(2) ne
    show "faceAlive m' (ml_face (lp m' l)) \<and> vertexAlive m' (ml_vertex (lp m' l)) \<and> corner_ok m' l"
      by (rule built_corner)
  qed (use d in simp_all)
  moreover have "faceVertices m' f = Some vs" using face_ring_walk(2) [OF new(1)] new(2) by simp
  moreover have "f \<noteq> kInvalidIndex" using alive_bound(3) [of m' f] d by auto
  moreover have "ml_face (lp m' j) = f" if "loopAlive m' j" "\<not> loopAlive m j" for j
    using that built_members [OF m(1) b] d by blast
  ultimately show ?thesis using d by (simp add: face_added_def)
qed

text \<open>On degenerate input nothing changes and the id is invalid.\<close>

lemma addFace_failure:
  assumes "length vs < 3 \<or> \<not> (\<forall>v \<in> set vs. vertexAlive m v) \<or> \<not> distinct vs"
  shows "addFace vs m = (kInvalidIndex, m)"
  using assms by (auto simp: addFace_def hasRepeatedVertex_iff Let_def)

lemma addFace_cases:
  assumes "mesh_inv m" "capacity m (Suc (2 * length vs))" "addFace vs m = (f, m')"
  obtains "f = kInvalidIndex" "m' = m"
  | "face_added m vs f m'" "3 \<le> length vs" "\<forall>v \<in> set vs. vertexAlive m v" "distinct vs"
  using addFace_success [OF assms(1,2) _ _ _ assms(3)] addFace_failure [of vs m] assms(3)
  by (cases "length vs < 3 \<or> \<not> (\<forall>v \<in> set vs. vertexAlive m v) \<or> \<not> distinct vs") auto

lemma addFace_inv: "mesh_inv m \<Longrightarrow> capacity m (Suc (2 * length vs)) \<Longrightarrow> mesh_inv (snd (addFace vs m))"
  by (rule addFace_cases [of m vs "fst (addFace vs m)" "snd (addFace vs m)"]) (simp_all add: face_added_def)

text \<open>Every other face keeps its corners.\<close>

lemma face_added_others:
  assumes m: "mesh_inv m" and a: "face_added m vs f m'" and j: "faceAlive m j"
  shows "faceVertices m' j = faceVertices m j"
proof -
  note d = a [unfolded face_added_def]
  obtain xs where xs: "face_ring m j xs" using mesh_inv_face [OF m j] .
  have "j \<noteq> f" using d j by blast
  have "face_ring m' j xs"
  proof (rule face_ring_cong [OF xs])
    show "corner_same m m' l" if "l \<in> set xs" for l using that xs d by (simp add: face_ring_def)
    show "loopAlive m' l \<and> ml_face (lp m' l) = j \<longleftrightarrow> loopAlive m l \<and> ml_face (lp m l) = j" for l
      using d \<open>j \<noteq> f\<close> by (cases "loopAlive m l") (auto simp: corner_same_def)
  qed (use d j in simp)
  moreover have "map (\<lambda>l. ml_vertex (lp m' l)) xs = map (\<lambda>l. ml_vertex (lp m l)) xs"
    using xs d by (auto simp: face_ring_def corner_same_def)
  ultimately show ?thesis using face_ring_walk(2) xs by metis
qed

end
