(* ===== verification/MeshRemove.thy ===== *)
theory MeshRemove
  imports MeshAdd
begin

text \<open>
  Removal: \<open>removeFace\<close> of \<open>mesh.cpp\<close> returns on every mesh that satisfies the structural
  invariant and keeps it. Its first loop unlinks and frees the corners (\<open>unlinking\<close>), its
  second destroys the edges no other face uses (\<open>sweeping\<close>).
\<close>

definition edges_same :: "mesh \<Rightarrow> mesh \<Rightarrow> bool" where
  "edges_same m m' \<longleftrightarrow> (\<forall>v. vertexAlive m' v = vertexAlive m v \<and> mv_position (vx m' v) = mv_position (vx m v)) \<and>
     (\<forall>e. edgeAlive m' e \<longrightarrow> edgeAlive m e \<and> me_v0 (ed m' e) = me_v0 (ed m e) \<and> me_v1 (ed m' e) = me_v1 (ed m e)) \<and>
     length (m_vertices m') = length (m_vertices m) \<and> length (m_edges m') = length (m_edges m) \<and>
     length (m_faces m') = length (m_faces m) \<and> length (m_loops m') = length (m_loops m)"

lemma edges_same_trans: "edges_same a b \<Longrightarrow> edges_same b c \<Longrightarrow> edges_same a c"
  by (simp add: edges_same_def)

definition kept :: "mesh \<Rightarrow> (nat \<Rightarrow> bool) \<Rightarrow> mesh \<Rightarrow> bool" where
  "kept m D m' \<longleftrightarrow> (\<forall>j. loopAlive m' j \<longleftrightarrow> loopAlive m j \<and> \<not> D j) \<and>
     (\<forall>j. loopAlive m j \<longrightarrow> \<not> D j \<longrightarrow> linked m' j \<and> corner_same m m' j)"

section \<open>Unlinking the corners\<close>

definition unlinking :: "mesh \<Rightarrow> nat list \<Rightarrow> nat list \<times> mesh \<Rightarrow> bool" where
  "unlinking m done st \<longleftrightarrow> (case st of (edges, m') \<Rightarrow>
     pools_inv m' \<and> edges_inv m' \<and> radial_inv m' \<and> m_faces m' = m_faces m \<and> edges_same m m' \<and>
     kept m (\<lambda>j. j \<in> set done) m' \<and>
     (\<forall>e \<in> set edges. edgeAlive m' e) \<and>
     (\<forall>e. edgeAlive m' e \<longrightarrow> me_radial (ed m' e) = kInvalidIndex \<longrightarrow> e \<in> set edges))"

lemma freeLoop_spec:
  assumes inv: "pools_inv m" "edges_inv m" "radial_inv m" and l: "loopAlive m l" "\<not> linked m l"
  defines "m' \<equiv> freeLoop l m"
  shows "pools_inv m'" "edges_inv m'" "radial_inv m'" "\<And>j. loopAlive m' j \<longleftrightarrow> loopAlive m j \<and> j \<noteq> l"
    "\<And>j. j \<noteq> l \<Longrightarrow> lp m' j = lp m j" "\<And>j. linked m' j = linked m j"
    "length (m_loops m') = length (m_loops m)"
proof -
  show "pools_inv m'" unfolding m'_def by (rule free_pools_inv(4) [OF inv(1) l(1)])
  have pool: "lpool.pool_inv m" using inv(1) by (simp add: pools_inv_def)
  note rel = lpool.release_spec [OF pool, of l, unfolded live_alive, OF l(1), folded m'_def]
  show la: "\<And>j. loopAlive m' j \<longleftrightarrow> loopAlive m j \<and> j \<noteq> l" and lo: "\<And>j. j \<noteq> l \<Longrightarrow> lp m' j = lp m j"
    and "length (m_loops m') = length (m_loops m)"
    using rel(1,2,3) by auto
  show lk: "linked m' j = linked m j" for j
    using l(2) la lo by (cases "j = l") (simp_all add: linked_def)
  have same: "vertexAlive m' v = vertexAlive m v" "edgeAlive m' e = edgeAlive m e" "m_edges m' = m_edges m"
      "m_vertices m' = m_vertices m" for v e
    by (simp_all add: m'_def vertexAlive_def edgeAlive_def)
  show "edges_inv m'" using inv(2) by (rule edges_inv_cong) (simp_all add: same)
  show "radial_inv m'"
    using inv(3)
  proof (rule radial_inv_cong)
    show "ml_edge (lp m' j) = ml_edge (lp m j) \<and> ml_rnext (lp m' j) = ml_rnext (lp m j) \<and>
      ml_rprev (lp m' j) = ml_rprev (lp m j)" if "linked m j" for j
    proof -
      have "j \<noteq> l" using that l(2) by blast
      then show ?thesis by (simp add: lo)
    qed
  qed (simp_all add: same lk)
qed

lemma unlink_step:
  assumes u: "unlinking m ds (edges, m')" and l: "loopAlive m l" "l \<notin> set ds"
  shows "unlinking m (ds @ [l]) (edges @ [ml_edge (lp m' l)], freeLoop l (radialRemove l m'))"
proof -
  note d = u [unfolded unlinking_def prod.case]
  let ?m1 = "radialRemove l m'" and ?e = "ml_edge (lp m' l)"
  let ?m2 = "freeLoop l ?m1"
  have lk: "linked m' l" using d l by (simp add: kept_def)
  then have e: "edgeAlive m' ?e" using d by (simp add: radial_inv_def)
  have pr: "pools_inv m'" "edges_inv m'" "radial_inv m'" using d by simp_all
  note rr = radialRemove_spec [OF pr(1,3) lk]
  have fr: "loop_frame m' ?m1" by (rule radialRemove_frame)
  then have sa: "same_alive m' ?m1" by (simp add: loop_frame_def)
  note al = same_alive_alive [OF sa]
  have fr1: "m_vertices ?m1 = m_vertices m'" "m_faces ?m1 = m_faces m'" "me_v0 (ed ?m1 j) = me_v0 (ed m' j)"
      "me_v1 (ed ?m1 j) = me_v1 (ed m' j)" "corner_same m' ?m1 j" for j
    using fr rr(3) by (simp_all add: loop_frame_def corner_same_def)
  have p1: "pools_inv ?m1" "edges_inv ?m1" "loopAlive ?m1 l" "\<not> linked ?m1 l"
    using pr same_alive_pools [OF sa] lk rr(2)
    by (auto simp: al fr1 linked_def intro: edges_inv_cong)
  note fl = freeLoop_spec [OF p1(1,2) rr(1) p1(3,4)]
  have ea: "edgeAlive ?m2 j = edgeAlive m' j" "vertexAlive ?m2 v = vertexAlive m' v" for j v
    using al by (simp_all add: edgeAlive_def [of ?m2] edgeAlive_def [of ?m1] vertexAlive_def [of ?m2] vertexAlive_def [of ?m1])
  have "edges_same m ?m2"
    using d fl(7) same_alive_length [OF sa] by (auto simp: edges_same_def ea fr1)
  moreover have "corner_same m' ?m2 j" if "j \<noteq> l" for j
    using that fr1(5) [of j] fl(5) by (simp add: corner_same_def)
  then have "kept m (\<lambda>j. j \<in> set (ds @ [l])) ?m2"
    using d by (auto simp: kept_def fl(4,6) rr(2) al intro: corner_same_trans)
  moreover have "e' \<in> set (edges @ [?e])" if "edgeAlive ?m2 e'" "me_radial (ed ?m2 e') = kInvalidIndex" for e'
  proof (cases "e' = ?e")
    case False
    then have "ed ?m2 e' = ed m' e'" using rr(4) by simp
    then show ?thesis using that d ea by simp
  qed simp
  ultimately show ?thesis
    using d e fl(1-3) by (simp add: unlinking_def ea fr1)
qed

lemma unlink_all:
  assumes "unlinking m ds st" "\<forall>l \<in> set ls. loopAlive m l" "distinct (ds @ ls)"
  shows "unlinking m (ds @ ls) (fold (\<lambda>l (edges, m). (edges @ [ml_edge (lp m l)], freeLoop l (radialRemove l m))) ls st)"
  using assms
proof (induction ls arbitrary: ds st)
  case (Cons l ls)
  obtain edges m' where st: "st = (edges, m')" by (cases st)
  have "unlinking m (ds @ [l]) (edges @ [ml_edge (lp m' l)], freeLoop l (radialRemove l m'))"
    using Cons.prems by (intro unlink_step) (auto simp: st)
  from Cons.IH [OF this] Cons.prems show ?case by (simp add: st)
qed simp

section \<open>Sweeping the unused edges\<close>

definition sweeping :: "mesh \<Rightarrow> nat list \<Rightarrow> mesh \<Rightarrow> bool" where
  "sweeping m edges m' \<longleftrightarrow> pools_inv m' \<and> edges_inv m' \<and> radial_inv m' \<and> edges_same m m' \<and>
     m_loops m' = m_loops m \<and> m_faces m' = m_faces m \<and>
     (\<forall>e. edgeAlive m' e \<longrightarrow> me_radial (ed m' e) = kInvalidIndex \<longrightarrow> e \<in> set edges)"

lemma sweep_step:
  assumes s: "sweeping m (e # edges) m'" and e: "e < length (m_edges m)"
  shows "sweeping m edges (destroyEdgeIfUnused e m')"
proof -
  note d = s [unfolded sweeping_def]
  have pr: "pools_inv m'" "edges_inv m'" "e < length (m_edges m')" using d e by (simp_all add: edges_same_def)
  note sp = destroyEdgeIfUnused_spec [OF pr]
  have "radial_inv (destroyEdgeIfUnused e m')" using edge_destroyed_radial [OF sp(3)] d by simp
  moreover have "edges_same m' (destroyEdgeIfUnused e m')"
    using sp(3) by (simp add: edges_same_def edge_destroyed_def)
  then have "edges_same m (destroyEdgeIfUnused e m')" using d by (blast intro: edges_same_trans)
  moreover have "e' \<in> set edges"
    if "edgeAlive (destroyEdgeIfUnused e m') e'" "me_radial (ed (destroyEdgeIfUnused e m') e') = kInvalidIndex" for e'
    using that sp(3) d by (auto simp: edge_destroyed_def)
  ultimately show ?thesis using sp d by (simp add: sweeping_def edge_destroyed_def)
qed

lemma sweep_all:
  "sweeping m edges m' \<Longrightarrow> \<forall>e \<in> set edges. e < length (m_edges m) \<Longrightarrow>
    sweeping m [] (fold destroyEdgeIfUnused edges m')"
  by (induction edges arbitrary: m') (auto intro: sweep_step)

section \<open>The result of removeFace\<close>

definition face_removed :: "mesh \<Rightarrow> nat \<Rightarrow> mesh \<Rightarrow> bool" where
  "face_removed m f m' \<longleftrightarrow> mesh_inv m' \<and> edges_same m m' \<and>
     (\<forall>j. faceAlive m' j \<longleftrightarrow> j \<noteq> f \<and> faceAlive m j) \<and> (\<forall>j. j \<noteq> f \<longrightarrow> fc m' j = fc m j) \<and>
     kept m (\<lambda>l. ml_face (lp m l) = f) m'"

lemma edges_same_joins:
  "edges_same m m' \<Longrightarrow> edgeAlive m' e \<Longrightarrow> edge_joins (ed m' e) a b = edge_joins (ed m e) a b"
  by (simp add: edges_same_def edge_joins_def)

lemma kept_ring:
  assumes "face_ring m j xs" "fc m' j = fc m j" "kept m (\<lambda>l. ml_face (lp m l) = f) m'" "j \<noteq> f"
  shows "face_ring m' j xs"
proof (rule face_ring_cong [OF assms(1,2)])
  show "corner_same m m' l" if "l \<in> set xs" for l
    using that assms(1,3,4) by (auto simp: face_ring_def kept_def)
  show "loopAlive m' l \<and> ml_face (lp m' l) = j \<longleftrightarrow> loopAlive m l \<and> ml_face (lp m l) = j" for l
    using assms(3,4) by (auto simp: kept_def corner_same_def)
qed

text \<open>Unlinked and swept, the mesh lacks exactly the face.\<close>

lemma removed_inv:
  assumes m: "mesh_inv m" and p: "pools_inv m'" "edges_inv m'" "radial_inv m'" "no_wire m'"
    and es: "edges_same m m'" and fa: "\<And>j. faceAlive m' j \<longleftrightarrow> j \<noteq> f \<and> faceAlive m j"
    and fo: "\<And>j. j \<noteq> f \<Longrightarrow> fc m' j = fc m j" and k: "kept m (\<lambda>l. ml_face (lp m l) = f) m'"
  shows "face_removed m f m'"
proof -
  have "mesh_inv m'"
  proof (rule mesh_invI [OF p])
    fix j assume "faceAlive m' j"
    then have j: "j \<noteq> f" "faceAlive m j" using fa by auto
    obtain xs where "face_ring m j xs" using mesh_inv_face [OF m j(2)] .
    then have "face_ring m' j xs" by (rule kept_ring [OF _ fo [OF j(1)] k j(1)])
    then show "\<exists>ls. face_ring m' j ls" ..
  next
    fix l assume "loopAlive m' l"
    then have l: "loopAlive m l" "ml_face (lp m l) \<noteq> f" "linked m' l" "corner_same m m' l"
      using k by (auto simp: kept_def)
    note o = mesh_invD(7) [OF m l(1)] and nx = loop_next_alive [OF m l(1)]
    have n: "corner_same m m' (ml_next (lp m l))" using k nx l(2) by (simp add: kept_def)
    have "edgeAlive m' (ml_edge (lp m' l))" using p(3) l(3) by (simp add: radial_inv_def)
    then have "corner_ok m' l"
      using o l(3,4) n edges_same_joins [OF es] by (auto simp: corner_ok_def corner_same_def)
    then show "faceAlive m' (ml_face (lp m' l)) \<and> vertexAlive m' (ml_vertex (lp m' l)) \<and> corner_ok m' l"
      using o l es by (simp add: fa corner_same_def edges_same_def)
  qed
  then show ?thesis using es fa fo k by (simp add: face_removed_def)
qed

lemma removeFace_alive:
  assumes m: "mesh_inv m" and f: "faceAlive m f"
  shows "\<exists>m'. removeFace f m = Some m' \<and> face_removed m f m'"
proof -
  obtain ls where ls: "face_ring m f ls" using mesh_inv_face [OF m f] .
  then have mem: "set ls = {l. loopAlive m l \<and> ml_face (lp m l) = f}" by (simp add: face_ring_def)
  have dist: "distinct ls"
    using ls unfolding face_ring_def by (meson ring_distinct)
  have corners: "linked m l" if "loopAlive m l" for l
    using mesh_invD(7) [OF m that] by (simp add: corner_ok_def)
  obtain edges m1 where st: "fold (\<lambda>l (edges, m). (edges @ [ml_edge (lp m l)], freeLoop l (radialRemove l m))) ls ([], m)
      = (edges, m1)" by fastforce
  have "unlinking m [] ([], m)"
    using m corners by (simp add: unlinking_def edges_same_def kept_def corner_same_def mesh_inv_def no_wire_def)
  then have "unlinking m ls (edges, m1)"
    using unlink_all [of m "[]" "([], m)" ls] mem dist by (simp add: st)
  note u = this [unfolded unlinking_def prod.case]
  define m2 where "m2 = fold destroyEdgeIfUnused edges m1"
  have start: "sweeping m1 edges m1" using u by (simp add: sweeping_def edges_same_def)
  have "\<forall>e \<in> set edges. edgeAlive m1 e" using u by simp
  then have "\<forall>e \<in> set edges. e < length (m_edges m1)" by (simp add: edgeAlive_def)
  then have "sweeping m1 [] m2" unfolding m2_def by (rule sweep_all [OF start])
  note s = this [unfolded sweeping_def]
  let ?m' = "freeFace f m2"
  have "removeFace f m = Some ?m'"
    using f by (simp add: removeFace_def face_ring_walk(1) [OF ls] st m2_def)
  moreover have "face_removed m f ?m'"
  proof (rule removed_inv [OF m])
    have fm2: "m_faces m2 = m_faces m" using s u by simp
    have f2: "faceAlive m2 f" using f by (simp add: faceAlive_def fm2)
    show "pools_inv ?m'" using s by (intro free_pools_inv(3)) (simp_all add: f2)
    have pool: "fpool.pool_inv m2" using s by (simp add: pools_inv_def)
    note rel = fpool.release_spec [OF pool, of f, unfolded live_alive, OF f2]
    show "faceAlive ?m' j \<longleftrightarrow> j \<noteq> f \<and> faceAlive m j" for j
      using rel(1) by (simp add: faceAlive_def [of m2] faceAlive_def [of m] fm2)
    show "fc ?m' j = fc m j" if "j \<noteq> f" for j using rel(2) that by (simp add: fm2)
    have al: "vertexAlive ?m' = vertexAlive m2" "edgeAlive ?m' = edgeAlive m2" "loopAlive ?m' = loopAlive m2"
        "linked ?m' = linked m2"
      by (simp_all add: fun_eq_iff vertexAlive_def edgeAlive_def loopAlive_def linked_def)
    show "edges_inv ?m'" by (rule edges_inv_cong [of m2]) (use s in \<open>simp_all add: al\<close>)
    show "radial_inv ?m'" by (rule radial_inv_cong [of m2]) (use s in \<open>simp_all add: al\<close>)
    show "no_wire ?m'" using s by (auto simp: no_wire_def al)
    have "edges_same m m2" using s u by (blast intro: edges_same_trans)
    then show "edges_same m ?m'" using rel(3) by (simp add: edges_same_def al)
    have l2: "loopAlive m2 j = loopAlive m1 j" "linked m2 j = linked m1 j" "lp m2 j = lp m1 j" for j
      using s by (simp_all add: loopAlive_def linked_def)
    show "kept m (\<lambda>l. ml_face (lp m l) = f) ?m'"
      using u mem by (auto simp: kept_def al l2 corner_same_def)
  qed
  ultimately show ?thesis by blast
qed

lemma removeFace_inv:
  assumes "mesh_inv m"
  obtains m' where "removeFace f m = Some m'" "mesh_inv m'" "edges_same m m'"
    "\<And>j. faceAlive m' j \<longleftrightarrow> j \<noteq> f \<and> faceAlive m j"
proof (cases "faceAlive m f")
  case True
  then show ?thesis using removeFace_alive [OF assms] that by (auto simp: face_removed_def)
next
  case False
  then show ?thesis using that [of m] assms by (auto simp: removeFace_def edges_same_def)
qed

lemma face_removed_others:
  assumes "mesh_inv m" "face_removed m f m'" "faceAlive m j" "j \<noteq> f"
  shows "faceVertices m' j = faceVertices m j"
proof -
  obtain xs where xs: "face_ring m j xs" using mesh_inv_face [OF assms(1,3)] .
  have k: "kept m (\<lambda>l. ml_face (lp m l) = f) m'" "fc m' j = fc m j"
    using assms(2,4) by (simp_all add: face_removed_def)
  have r: "face_ring m' j xs" by (rule kept_ring [OF xs k(2,1) assms(4)])
  have "map (\<lambda>l. ml_vertex (lp m' l)) xs = map (\<lambda>l. ml_vertex (lp m l)) xs"
    using xs k(1) assms(4) by (auto simp: face_ring_def kept_def corner_same_def)
  then show ?thesis using face_ring_walk(2) [OF xs] face_ring_walk(2) [OF r] by simp
qed

end
