(* ===== verification/MeshBuild.thy ===== *)
theory MeshBuild
  imports MeshRemove
begin

text \<open>
  Vertices, the indexed constructor and export, and the adjacency queries on a mesh that
  satisfies the invariant (\<open>addVertex\<close>, \<open>removeIsolatedVertex\<close>, \<open>fromIndexed\<close>,
  \<open>toIndexed\<close>, \<open>edgeFaces\<close>, \<open>vertexFaces\<close> of \<open>mesh.cpp\<close>).
\<close>

section \<open>Room in the element arrays\<close>

lemma findOrCreateEdge_capacity:
  "capacity m (Suc c) \<Longrightarrow> capacity (snd (findOrCreateEdge a b m)) c"
  using alloc_capacity(2) [of m c] capacity_mono [of m "Suc c" c]
  by (simp add: findOrCreateEdge_def Let_def split_beta capacity_def split: option.split)

lemma allocLoops_capacity: "capacity m (n + c) \<Longrightarrow> capacity (snd (allocLoops n m)) c"
proof (induction n arbitrary: m)
  case (Suc n)
  then have "capacity (snd (allocLoop m)) (n + c)" by (intro alloc_capacity(4)) simp
  from Suc.IH [OF this] show ?case by (simp add: split_beta)
qed simp

lemma linkCorner_capacity: "capacity m (Suc c) \<Longrightarrow> capacity (linkCorner vs f loops i m) c"
proof -
  assume c: "capacity m (Suc c)"
  have fr: "capacity (radialInsert e l m) k = capacity m k" for e l m k
  proof -
    have "same_alive m (radialInsert e l m)" using radialInsert_frame [of m e l] by (simp add: loop_frame_def)
    then show ?thesis by (simp add: same_alive_length capacity_def)
  qed
  have "capacity (set_loop (loops ! i) h m) (Suc c)" for h using c by (simp add: capacity_def)
  then show ?thesis
    unfolding linkCorner_def Let_def split_beta fr by (rule findOrCreateEdge_capacity)
qed

lemma linkCorners_capacity:
  "capacity m (length is + c) \<Longrightarrow> capacity (fold (linkCorner vs f loops) is m) c"
  by (induction "is" arbitrary: m) (auto intro: linkCorner_capacity)

lemma addFace_capacity:
  assumes "capacity m (Suc (2 * length vs) + c)"
  shows "capacity (snd (addFace vs m)) c"
proof -
  obtain f m1 where f: "allocFace m = (f, m1)" by (cases "allocFace m")
  obtain ls m2 where ls: "allocLoops (length vs) m1 = (ls, m2)" by (cases "allocLoops (length vs) m1")
  have "capacity m1 (2 * length vs + c)" using alloc_capacity(3) [of m] assms f by (metis add_Suc snd_conv)
  then have "capacity m2 (length vs + c)"
    using allocLoops_capacity [of m1 "length vs" "length vs + c"] ls by (simp add: mult_2 add.assoc)
  then have "capacity (fold (linkCorner vs f ls) [0..<length vs] m2) c"
    by (intro linkCorners_capacity) simp
  moreover have "capacity (set_face f h m') k = capacity m' k" for f h m' k by (simp add: capacity_def)
  moreover have "capacity m c" by (rule capacity_mono [OF assms]) simp
  ultimately show ?thesis using f ls by (simp add: addFace_def Let_def)
qed

section \<open>Vertices\<close>

lemma mesh_inv_empty: "mesh_inv mesh_empty"
proof (rule mesh_invI)
  show "pools_inv mesh_empty"
    unfolding pools_inv_def
    by (intro conjI vpool.pool_inv_empty epool.pool_inv_empty fpool.pool_inv_empty lpool.pool_inv_empty)
      (simp_all add: mesh_empty_def attrs_inv_def capacity_def attrs_empty_def attr_inv_def omap_find_def)
  have none: "\<not> vertexAlive mesh_empty i" "\<not> edgeAlive mesh_empty i" "\<not> faceAlive mesh_empty i"
      "\<not> loopAlive mesh_empty i" for i
    by (simp_all add: mesh_empty_def vertexAlive_def edgeAlive_def faceAlive_def loopAlive_def)
  show "edges_inv mesh_empty" by (rule edges_invI) (simp_all add: none)
  show "radial_inv mesh_empty" "no_wire mesh_empty"
    by (simp_all add: radial_inv_def linked_def no_wire_def none)
  show "faceAlive mesh_empty f \<Longrightarrow> \<exists>ls. face_ring mesh_empty f ls" for f by (simp add: none)
  show "loopAlive mesh_empty l \<Longrightarrow> faceAlive mesh_empty (ml_face (lp mesh_empty l)) \<and>
      vertexAlive mesh_empty (ml_vertex (lp mesh_empty l)) \<and> corner_ok mesh_empty l" for l
    by (simp add: none)
qed

text \<open>Faces, loops and edges survive a change of the vertex array that keeps the vertices they use.\<close>

lemma mesh_inv_vertices:
  assumes m: "mesh_inv m" and p: "pools_inv m'" "edges_inv m'"
    and eq: "m_edges m' = m_edges m" "m_loops m' = m_loops m" "m_faces m' = m_faces m"
    and va: "\<And>l. loopAlive m l \<Longrightarrow> vertexAlive m' (ml_vertex (lp m l))"
  shows "mesh_inv m'"
proof (rule mesh_invI [OF p])
  have al: "edgeAlive m' = edgeAlive m" "loopAlive m' = loopAlive m" "faceAlive m' = faceAlive m" "linked m' = linked m"
    by (simp_all add: fun_eq_iff edgeAlive_def loopAlive_def faceAlive_def linked_def eq)
  show "radial_inv m'" using mesh_invD(3) [OF m] by (rule radial_inv_cong) (simp_all add: al eq)
  show "no_wire m'" using mesh_invD(4) [OF m] by (simp add: no_wire_def al eq)
  show "\<exists>ls. face_ring m' f ls" if "faceAlive m' f" for f
    using mesh_invD(8) [OF m, of f] that by (simp add: face_ring_def al eq)
  show "faceAlive m' (ml_face (lp m' l)) \<and> vertexAlive m' (ml_vertex (lp m' l)) \<and> corner_ok m' l"
    if "loopAlive m' l" for l
    using mesh_invD(7) [OF m, of l] that va by (simp add: corner_ok_def al eq)
qed

lemma addVertex_spec:
  assumes m: "mesh_inv m" and c: "capacity m (Suc k)" and res: "addVertex p m = (v, m')"
  shows "mesh_inv m'" "capacity m' k" "\<not> vertexAlive m v" "v = fst (allocVertex m)"
    and "\<And>j. vertexAlive m' j \<longleftrightarrow> j = v \<or> vertexAlive m j"
    and "position m' v = p" "mv_edges (vx m' v) = []" "\<And>j. vertexAlive m j \<Longrightarrow> vx m' j = vx m j"
    and "m_edges m' = m_edges m" "m_loops m' = m_loops m" "m_faces m' = m_faces m"
    and "length (m_vertices m') = length (m_vertices (snd (allocVertex m)))"
proof -
  obtain m1 where al: "allocVertex m = (v, m1)"
      and m': "m' = set_vertex v (\<lambda>x. x\<lparr>mv_position := p\<rparr>) m1"
    using res by (auto simp: addVertex_def split: prod.splits)
  have m1: "m1 = snd (allocVertex m)" using al by simp
  have pool: "vpool.pool_inv m" using mesh_invD(1) [OF m] by (simp add: pools_inv_def)
  note sp = vpool.alloc_spec [OF pool capacity_room(1) [OF c] al, unfolded live_alive]
  have sa: "same_alive m1 m'" unfolding m' by (rule same_alive_set(1)) simp
  show nv: "\<not> vertexAlive m v" and "v = fst (allocVertex m)" using sp(1) al by simp_all
  show "capacity m' k" using alloc_capacity(1) [OF c] same_alive_length [OF sa] by (simp add: capacity_def m1)
  show va: "vertexAlive m' j \<longleftrightarrow> j = v \<or> vertexAlive m j" for j
    using sp(6) same_alive_alive(1) [OF sa] by simp
  show "position m' v = p" "mv_edges (vx m' v) = []"
    using sp(2,4) by (simp_all add: m' position_def vertex0_def)
  show vo: "vx m' j = vx m j" if "vertexAlive m j" for j
    using that sp(1) sp(3) [of j] by (cases "j = v") (auto simp: m' vertexAlive_def)
  show eq: "m_edges m' = m_edges m" "m_loops m' = m_loops m" "m_faces m' = m_faces m"
    by (simp_all add: m' m1)
  show "length (m_vertices m') = length (m_vertices (snd (allocVertex m)))" by (simp add: m' m1)
  show "mesh_inv m'"
  proof (rule mesh_inv_vertices [OF m _ _ eq])
    show "pools_inv m'"
      using alloc_pools_inv(1) [OF mesh_invD(1) [OF m] c] same_alive_pools [OF sa] by (simp add: m1)
    have ea: "edgeAlive m' e = edgeAlive m e" for e by (simp add: edgeAlive_def eq)
    show "edges_inv m'"
    proof (rule edges_invI)
      show "me_v0 (ed m' e) \<noteq> me_v1 (ed m' e) \<and> vertexAlive m' (me_v0 (ed m' e)) \<and>
          vertexAlive m' (me_v1 (ed m' e)) \<and> e \<in> set (mv_edges (vx m' (me_v0 (ed m' e)))) \<and>
          e \<in> set (mv_edges (vx m' (me_v1 (ed m' e))))" if "edgeAlive m' e" for e
        using that edges_invD [OF mesh_invD(2) [OF m], of e] by (simp add: ea eq va vo)
      show "distinct (mv_edges (vx m' j))" if "vertexAlive m' j" for j
        using that edges_inv_vertexD(1) [OF mesh_invD(2) [OF m], of j] va vo \<open>mv_edges (vx m' v) = []\<close>
        by (cases "j = v") simp_all
      show "edgeAlive m' e \<and> (j = me_v0 (ed m' e) \<or> j = me_v1 (ed m' e))"
        if "vertexAlive m' j" "e \<in> set (mv_edges (vx m' j))" for j e
        using that edges_inv_vertexD(2) [OF mesh_invD(2) [OF m], of j e] va vo \<open>mv_edges (vx m' v) = []\<close>
        by (cases "j = v") (simp_all add: ea eq)
      show "i = j" if "edgeAlive m' i" "edgeAlive m' j" "edge_joins (ed m' j) (me_v0 (ed m' i)) (me_v1 (ed m' i))" for i j
        using that edges_inv_uniqueD [OF mesh_invD(2) [OF m], of i j] by (simp add: ea eq)
    qed
    show "vertexAlive m' (ml_vertex (lp m l))" if "loopAlive m l" for l
      using mesh_invD(7) [OF m that] va by simp
  qed
qed

lemma removeIsolatedVertex_spec:
  assumes m: "mesh_inv m" and res: "removeIsolatedVertex v m = (ok, m')"
  shows "mesh_inv m'" "ok \<longleftrightarrow> vertexAlive m v \<and> mv_edges (vx m v) = []"
    "\<And>j. vertexAlive m' j \<longleftrightarrow> vertexAlive m j \<and> \<not> (ok \<and> j = v)" "\<And>j. j \<noteq> v \<Longrightarrow> vx m' j = vx m j"
proof -
  show ok: "ok \<longleftrightarrow> vertexAlive m v \<and> mv_edges (vx m v) = []"
    using res by (auto simp: removeIsolatedVertex_def split: if_splits)
  have "mesh_inv m' \<and> (\<forall>j. vertexAlive m' j \<longleftrightarrow> vertexAlive m j \<and> \<not> (ok \<and> j = v)) \<and>
      (\<forall>j. j \<noteq> v \<longrightarrow> vx m' j = vx m j)"
  proof (cases ok)
    case False
    then show ?thesis using res m by (auto simp: removeIsolatedVertex_def split: if_splits)
  next
    case True
    then have v: "vertexAlive m v" "mv_edges (vx m v) = []" and m': "m' = freeVertex v m"
      using res by (auto simp: removeIsolatedVertex_def split: if_splits)
    have pool: "vpool.pool_inv m" using mesh_invD(1) [OF m] by (simp add: pools_inv_def)
    note rel = vpool.release_spec [OF pool, of v, unfolded live_alive, OF v(1), folded m']
    have eq: "m_edges m' = m_edges m" "m_loops m' = m_loops m" "m_faces m' = m_faces m"
      by (simp_all add: m')
    have noend: "a \<noteq> v" if "edgeAlive m e" "a = me_v0 (ed m e) \<or> a = me_v1 (ed m e)" for e a
      using edges_invD [OF mesh_invD(2) [OF m] that(1)] that(2) v(2) by auto
    have ea: "edgeAlive m' e = edgeAlive m e" for e by (simp add: edgeAlive_def eq)
    have "mesh_inv m'"
    proof (rule mesh_inv_vertices [OF m _ _ eq])
      show "pools_inv m'" unfolding m' by (rule free_pools_inv(1) [OF mesh_invD(1) [OF m] v(1)])
      show "edges_inv m'"
      proof (rule edges_invI)
        fix e assume "edgeAlive m' e"
        then have e: "edgeAlive m e" by (simp add: ea)
        note d = edges_invD [OF mesh_invD(2) [OF m] e]
        have "me_v0 (ed m e) \<noteq> v" "me_v1 (ed m e) \<noteq> v" using noend [OF e] by blast+
        then show "me_v0 (ed m' e) \<noteq> me_v1 (ed m' e) \<and> vertexAlive m' (me_v0 (ed m' e)) \<and>
            vertexAlive m' (me_v1 (ed m' e)) \<and> e \<in> set (mv_edges (vx m' (me_v0 (ed m' e)))) \<and>
            e \<in> set (mv_edges (vx m' (me_v1 (ed m' e))))"
          using d rel(1,2) by (simp add: eq)
      next
        fix j assume "vertexAlive m' j"
        then have j: "vertexAlive m j" "vx m' j = vx m j" using rel(1,2) by auto
        show "distinct (mv_edges (vx m' j))" using edges_inv_vertexD(1) [OF mesh_invD(2) [OF m]] j by simp
        show "edgeAlive m' e \<and> (j = me_v0 (ed m' e) \<or> j = me_v1 (ed m' e))"
          if "e \<in> set (mv_edges (vx m' j))" for e
          using that edges_inv_vertexD(2) [OF mesh_invD(2) [OF m], of j e] j by (simp add: ea eq)
      next
        show "i = j" if "edgeAlive m' i" "edgeAlive m' j" "edge_joins (ed m' j) (me_v0 (ed m' i)) (me_v1 (ed m' i))" for i j
          using that edges_inv_uniqueD [OF mesh_invD(2) [OF m], of i j] by (simp add: ea eq)
      qed
      fix l assume l: "loopAlive m l"
      note c = mesh_invD(7) [OF m l]
      have "edgeAlive m (ml_edge (lp m l))"
        using c mesh_invD(3) [OF m] by (simp add: corner_ok_def radial_inv_def)
      then have "ml_vertex (lp m l) \<noteq> v" using c noend by (auto simp: corner_ok_def edge_joins_def)
      then show "vertexAlive m' (ml_vertex (lp m l))" using c rel(1) by simp
    qed
    then show ?thesis using rel(1,2) True by auto
  qed
  then show "mesh_inv m'" "\<And>j. vertexAlive m' j \<longleftrightarrow> vertexAlive m j \<and> \<not> (ok \<and> j = v)"
    "\<And>j. j \<noteq> v \<Longrightarrow> vx m' j = vx m j" by blast+
qed

section \<open>The indexed constructor and export\<close>

text \<open>
  A mesh is packed when nothing was ever freed: its vertices and faces are numbered in the
  order of their creation.
\<close>

definition packed :: "mesh \<Rightarrow> vec3 list \<Rightarrow> nat list list \<Rightarrow> bool" where
  "packed m ps fs \<longleftrightarrow> mesh_inv m \<and>
     (\<forall>v. vertexAlive m v \<longleftrightarrow> v < length ps) \<and> length (m_vertices m) = length ps \<and>
     (\<forall>v < length ps. mv_position (vx m v) = ps ! v) \<and>
     (\<forall>f. faceAlive m f \<longleftrightarrow> f < length fs) \<and> length (m_faces m) = length fs \<and>
     (\<forall>f < length fs. faceVertices m f = Some (fs ! f))"

lemma free_empty:
  assumes "pools_inv m"
  shows "(\<And>v. v < length (m_vertices m) \<Longrightarrow> vertexAlive m v) \<Longrightarrow> m_freeVertices m = []"
    "(\<And>f. f < length (m_faces m) \<Longrightarrow> faceAlive m f) \<Longrightarrow> m_freeFaces m = []"
proof -
  have "set (m_freeVertices m) = {i. i < length (m_vertices m) \<and> \<not> mv_alive (vx m i)}"
    "set (m_freeFaces m) = {i. i < length (m_faces m) \<and> \<not> mf_alive (fc m i)}"
    using assms by (simp_all add: pools_inv_def vpool.pool_inv_def fpool.pool_inv_def)
  then show "(\<And>v. v < length (m_vertices m) \<Longrightarrow> vertexAlive m v) \<Longrightarrow> m_freeVertices m = []"
    "(\<And>f. f < length (m_faces m) \<Longrightarrow> faceAlive m f) \<Longrightarrow> m_freeFaces m = []"
    unfolding set_empty [symmetric] by (simp_all add: vertexAlive_def faceAlive_def)
qed

lemma packed_addVertex:
  assumes p: "packed m ps fs" and c: "capacity m (Suc k)" and res: "addVertex p m = (v, m')"
  shows "v = length ps" "packed m' (ps @ [p]) fs" "capacity m' k"
proof -
  note d = p [unfolded packed_def]
  have m: "mesh_inv m" using d by simp
  note sp = addVertex_spec [OF m c res]
  have "m_freeVertices m = []" using free_empty(1) [OF mesh_invD(1) [OF m]] d by simp
  moreover have "length (m_vertices m) < kInvalidIndex" using c by (simp add: capacity_def)
  ultimately have v: "fst (allocVertex m) = length ps" "length (m_vertices (snd (allocVertex m))) = Suc (length ps)"
    using d vpool.to_index_small by (simp_all add: allocVertex_def Let_def)
  then show "v = length ps" using sp(4) by simp
  have "faceVertices m' f = faceVertices m f" for f
    by (simp add: faceVertices_def faceLoops_def sp(10,11))
  moreover have "mv_position (vx m' j) = (ps @ [p]) ! j" if "j < Suc (length ps)" for j
    using that sp(4,6,8) v d by (cases "j = length ps") (auto simp: position_def nth_append)
  ultimately show "packed m' (ps @ [p]) fs" using d sp(1,4,5,11,12) v
    by (auto simp: packed_def faceAlive_def)
  show "capacity m' k" by (rule sp(2))
qed

lemma packed_addVertices:
  "packed m ps fs \<Longrightarrow> capacity m (length qs + k) \<Longrightarrow> addVertices qs m = (ids, m') \<Longrightarrow>
    ids = [length ps..<length ps + length qs] \<and> packed m' (ps @ qs) fs \<and> capacity m' k"
proof (induction qs arbitrary: m ps ids)
  case (Cons q qs)
  obtain v m1 where a: "addVertex q m = (v, m1)" by (cases "addVertex q m")
  obtain ids1 where b: "addVertices qs m1 = (ids1, m')" "ids = v # ids1"
    using Cons.prems(3) a by (auto split: prod.splits)
  have "capacity m (Suc (length qs + k))" using Cons.prems(2) by simp
  note p = packed_addVertex [OF Cons.prems(1) this a]
  from Cons.IH [OF p(2,3) b(1)] p(1) b(2) show ?case by (simp add: upt_conv_Cons del: upt_Suc)
qed simp

definition face_valid :: "nat \<Rightarrow> nat list \<Rightarrow> bool" where
  "face_valid n f \<longleftrightarrow> 3 \<le> length f \<and> (\<forall>i \<in> set f. i < n) \<and> distinct f"

lemma packed_addFace:
  assumes p: "packed m ps fs" and c: "capacity m (Suc (2 * length vs))" and res: "addFace vs m = (f, m')"
    and v: "face_valid (length ps) vs"
  shows "packed m' ps (fs @ [vs])" "f = length fs"
proof -
  note d = p [unfolded packed_def]
  have m: "mesh_inv m" using d by simp
  have a: "face_added m vs f m'"
    using v d by (intro addFace_success [OF m c _ _ _ res]) (auto simp: face_valid_def)
  note ad = a [unfolded face_added_def]
  have "m_freeFaces m = []" using free_empty(2) [OF mesh_invD(1) [OF m]] d by simp
  moreover have "length (m_faces m) < kInvalidIndex" using c by (simp add: capacity_def)
  ultimately have f: "f = length fs" "length (m_faces m') = Suc (length fs)"
    using d ad fpool.to_index_small by (simp_all add: fresh_face_def allocFace_def Let_def)
  show "f = length fs" by (rule f(1))
  have "faceVertices m' j = Some ((fs @ [vs]) ! j)" if "j < Suc (length fs)" for j
    using that ad d f face_added_others [OF m a, of j] by (cases "j = length fs") (auto simp: nth_append)
  then show "packed m' ps (fs @ [vs])" using ad d f by (auto simp: packed_def ends_same_def)
qed

text \<open>The room that building the mesh needs, in elements of each kind.\<close>

definition build_room :: "vec3 list \<Rightarrow> nat list list \<Rightarrow> nat" where
  "build_room ps fs = length ps + sum_list (map (\<lambda>f. Suc (2 * length f)) fs)"

definition add_checked :: "nat list \<Rightarrow> nat list \<Rightarrow> mesh \<Rightarrow> mesh" where
  "add_checked ids face m = (if \<exists>i \<in> set face. i \<ge> length ids then m else snd (addFace (map (\<lambda>i. ids ! i) face) m))"

lemma fromIndexed_eq:
  "fromIndexed ps fs = (let (ids, m) = addVertices ps mesh_empty in fold (add_checked ids) fs m)"
  by (simp add: fromIndexed_def add_checked_def [abs_def])

lemma packed_faces:
  "packed m ps fs \<Longrightarrow> capacity m (sum_list (map (\<lambda>f. Suc (2 * length f)) gs)) \<Longrightarrow> ids = [0..<length ps] \<Longrightarrow>
    packed (fold (add_checked ids) gs m) ps (fs @ filter (face_valid (length ps)) gs)"
proof (induction gs arbitrary: m fs)
  case (Cons g gs)
  let ?S = "sum_list (map (\<lambda>f. Suc (2 * length f)) gs)"
  have c: "capacity m (Suc (2 * length g) + ?S)" "capacity m (Suc (2 * length g))"
    using Cons.prems(2) capacity_mono by (auto simp: capacity_def)
  show ?case
  proof (cases "\<exists>i \<in> set g. i \<ge> length ps")
    case True
    then have "\<not> face_valid (length ps) g" "add_checked ids g m = m"
      using Cons.prems(3) by (auto simp: face_valid_def add_checked_def not_le [symmetric])
    moreover have "capacity m ?S" by (rule capacity_mono [OF c(1)]) simp
    ultimately show ?thesis using Cons.IH [OF Cons.prems(1)] Cons.prems(3) by simp
  next
    case False
    have g: "map (\<lambda>i. ids ! i) g = g" using False Cons.prems(3) by (intro map_idI) auto
    then have step: "add_checked ids g m = snd (addFace g m)"
      using False Cons.prems(3) by (simp add: add_checked_def)
    have c': "capacity (snd (addFace g m)) ?S" by (rule addFace_capacity [OF c(1)])
    show ?thesis
    proof (cases "face_valid (length ps) g")
      case True
      have "packed (snd (addFace g m)) ps (fs @ [g])"
        using packed_addFace(1) [OF Cons.prems(1) c(2) prod.collapse [symmetric] True] .
      from Cons.IH [OF this c' Cons.prems(3)] True step show ?thesis by simp
    next
      case bad: False
      have "addFace g m = (kInvalidIndex, m)"
        using bad False by (intro addFace_failure) (auto simp: face_valid_def)
      then show ?thesis using Cons.IH [OF Cons.prems(1) _ Cons.prems(3)] c' bad step by simp
    qed
  qed
qed simp

lemma fromIndexed_packed:
  assumes "build_room ps fs \<le> kInvalidIndex"
  shows "packed (fromIndexed ps fs) ps (filter (face_valid (length ps)) fs)"
proof -
  let ?S = "sum_list (map (\<lambda>f. Suc (2 * length f)) fs)"
  have e: "packed mesh_empty [] []" "capacity mesh_empty (length ps + ?S)"
    using assms mesh_inv_empty
    by (simp_all add: packed_def mesh_empty_def vertexAlive_def faceAlive_def capacity_def build_room_def)
  obtain ids m where a: "addVertices ps mesh_empty = (ids, m)" by (cases "addVertices ps mesh_empty")
  have "ids = [0..<length ps]" "packed m ps []" "capacity m ?S"
    using packed_addVertices [OF e a] by simp_all
  then show ?thesis using packed_faces [of m ps "[]" fs ids] a by (simp add: fromIndexed_eq)
qed

lemma compact_alive:
  "\<forall>v \<in> set vs. mv_alive v \<Longrightarrow> compactVertices vs ps =
    (map to_index [length ps..<length ps + length vs], ps @ map mv_position vs)"
proof (induction vs arbitrary: ps)
  case (Cons v vs)
  then show ?case by (simp add: upt_conv_Cons del: upt_Suc)
qed simp

lemma indexedFaces_alive:
  assumes "\<And>i. i \<in> set is \<Longrightarrow> faceAlive m i \<and> faceVertices m i = Some (g i)"
  shows "indexedFaces m remap is = Some (map (\<lambda>i. map (\<lambda>v. remap ! v) (g i)) is)"
  using assms by (induction "is") (auto simp: faceAlive_def)

lemma packed_toIndexed:
  assumes p: "packed m ps fs" and v: "\<forall>f \<in> set fs. \<forall>i \<in> set f. i < length ps"
  shows "toIndexed m = Some (ps, fs)"
proof -
  note d = p [unfolded packed_def]
  have alive: "\<forall>v \<in> set (m_vertices m). mv_alive v"
    using d by (auto simp: in_set_conv_nth vertexAlive_def)
  have pos: "map mv_position (m_vertices m) = ps" using d by (simp add: list_eq_iff_nth_eq)
  have small: "length ps < 2 ^ 32"
    using d mesh_invD(1) [of m] by (auto simp: pools_inv_def capacity_def kInvalidIndex_def)
  have "map (\<lambda>i. map (\<lambda>v. map to_index [0..<length ps] ! v) (fs ! i)) [0..<length fs] = map (\<lambda>i. fs ! i) [0..<length fs]"
  proof (intro map_cong refl map_idI)
    fix i v assume "i \<in> set [0..<length fs]" "v \<in> set (fs ! i)"
    then have "v < length ps" using v by auto
    then show "map to_index [0..<length ps] ! v = v" using small by (simp add: to_index_def)
  qed
  moreover have "indexedFaces m r [0..<length fs] = Some (map (\<lambda>i. map (\<lambda>v. r ! v) (fs ! i)) [0..<length fs])" for r
    using d by (intro indexedFaces_alive) auto
  ultimately show ?thesis
    using d pos by (simp add: toIndexed_def compact_alive [OF alive] map_nth)
qed

section \<open>Queries return\<close>

lemma edgeLoops_some:
  assumes m: "mesh_inv m" and e: "edgeAlive m e"
  obtains ls where "edgeLoops m e = Some ls" "set ls = {l. loopAlive m l \<and> ml_edge (lp m l) = e}" "distinct ls" "ls \<noteq> []"
proof -
  have h: "me_radial (ed m e) \<noteq> kInvalidIndex" using mesh_invD(4) [OF m] e by (simp add: no_wire_def)
  have ok: "radial_ok m e" using mesh_invD(3) [OF m] e by (simp add: radial_inv_def)
  obtain xs where r: "ring (\<lambda>l. ml_rnext (lp m l)) (\<lambda>l. ml_rprev (lp m l)) (me_radial (ed m e) # xs)"
      and s: "set (me_radial (ed m e) # xs) = {l. linked m l \<and> ml_edge (lp m l) = e}"
    using radial_members [OF ok h] .
  have "linked m l = loopAlive m l" for l
    using mesh_invD(7) [OF m, of l] by (auto simp: corner_ok_def linked_def)
  then show ?thesis
    using that [of "me_radial (ed m e) # xs"] walk_ring [OF r] s h ring_distinct [OF r]
    by (simp add: edgeLoops_def id_valid_def Let_def)
qed

lemma edgeFaces_some:
  assumes m: "mesh_inv m" and e: "edgeAlive m e"
  obtains fs where "edgeFaces m e = Some fs"
    "set fs = {f. faceAlive m f \<and> (\<exists>l. loopAlive m l \<and> ml_edge (lp m l) = e \<and> ml_face (lp m l) = f)}"
    "edgeFaceCount m e = Some (length fs)" "fs \<noteq> []"
proof -
  obtain ls where ls: "edgeLoops m e = Some ls" "set ls = {l. loopAlive m l \<and> ml_edge (lp m l) = e}" "distinct ls" "ls \<noteq> []"
    using edgeLoops_some [OF m e] .
  have "set (map (\<lambda>l. ml_face (lp m l)) ls) =
      {f. faceAlive m f \<and> (\<exists>l. loopAlive m l \<and> ml_edge (lp m l) = e \<and> ml_face (lp m l) = f)}"
    using ls(2) mesh_invD(7) [OF m] by auto
  with that [of "map (\<lambda>l. ml_face (lp m l)) ls"] ls show ?thesis
    by (simp add: edgeFaces_def edgeFaceCount_def)
qed

lemma push_new_set: "set (push_new acc fs) = set acc \<union> set fs \<and> (distinct acc \<longrightarrow> distinct (push_new acc fs))"
  by (induction acc fs rule: push_new.induct) auto

lemma vertexFacesLoop_some:
  assumes m: "mesh_inv m"
  shows "\<forall>e \<in> set es. edgeAlive m e \<Longrightarrow> distinct acc \<Longrightarrow> \<exists>fs. vertexFacesLoop m acc es = Some fs \<and> distinct fs \<and>
    set fs = set acc \<union> {ml_face (lp m l) |l. loopAlive m l \<and> ml_edge (lp m l) \<in> set es}"
proof (induction es arbitrary: acc)
  case (Cons e es)
  have "edgeAlive m e" using Cons.prems(1) by simp
  then obtain fs where fs: "edgeFaces m e = Some fs"
      "set fs = {f. faceAlive m f \<and> (\<exists>l. loopAlive m l \<and> ml_edge (lp m l) = e \<and> ml_face (lp m l) = f)}"
    by (rule edgeFaces_some [OF m])
  have d: "distinct (push_new acc fs)" "\<forall>e \<in> set es. edgeAlive m e"
    using push_new_set Cons.prems by (blast, simp)
  obtain gs where gs: "vertexFacesLoop m (push_new acc fs) es = Some gs" "distinct gs"
      "set gs = set (push_new acc fs) \<union> {ml_face (lp m l) |l. loopAlive m l \<and> ml_edge (lp m l) \<in> set es}"
    using Cons.IH [OF d(2,1)] by (elim exE conjE)
  have "set fs = {ml_face (lp m l) |l. loopAlive m l \<and> ml_edge (lp m l) = e}"
    using fs(2) mesh_invD(7) [OF m] by auto
  then have "set gs = set acc \<union> {ml_face (lp m l) |l. loopAlive m l \<and> ml_edge (lp m l) \<in> set (e # es)}"
    using gs(3) push_new_set [of acc fs] by auto
  then show ?case using fs(1) gs(1,2) by simp
qed simp

text \<open>The faces around a vertex: those with a corner at either end of an edge of the vertex.\<close>

lemma vertexFaces_some:
  assumes m: "mesh_inv m" and v: "vertexAlive m v"
  shows "\<exists>fs. vertexFaces m v = Some fs \<and> sorted fs \<and> distinct fs \<and>
    set fs = {ml_face (lp m l) |l. loopAlive m l \<and> ml_edge (lp m l) \<in> set (mv_edges (vx m v))}"
proof -
  have "\<forall>e \<in> set (mv_edges (vx m v)). edgeAlive m e"
    using edges_inv_vertexD(2) [OF mesh_invD(2) [OF m] v] by blast
  with vertexFacesLoop_some [OF m, of "mv_edges (vx m v)" "[]"] show ?thesis
    by (auto simp: vertexFaces_def)
qed

lemma edgeBetween_spec:
  assumes m: "mesh_inv m"
  shows "edgeAlive m e \<and> edge_joins (ed m e) a b \<Longrightarrow> edgeBetween m a b = e"
    and "\<nexists>e. edgeAlive m e \<and> edge_joins (ed m e) a b \<Longrightarrow> edgeBetween m a b = kInvalidIndex"
proof -
  note ei = mesh_invD(2) [OF m]
  { assume e: "edgeAlive m e \<and> edge_joins (ed m e) a b"
    note l = edge_in_lists [OF ei conjunct1 [OF e] conjunct2 [OF e]]
    then obtain x where x: "find (\<lambda>e. edge_joins (ed m e) a b) (mv_edges (vx m a)) = Some x"
      using e by (metis find_none option.exhaust)
    then have "edgeAlive m x" "edge_joins (ed m x) a b"
      using find_Some_mem [OF x] edges_inv_vertexD(2) [OF ei l(4)] by blast+
    then have "x = e" using edge_unique [OF ei] e by blast
    then show "edgeBetween m a b = e" using x l by (simp add: edgeBetween_def) }
  { assume n: "\<nexists>e. edgeAlive m e \<and> edge_joins (ed m e) a b"
    show "edgeBetween m a b = kInvalidIndex"
    proof (cases "vertexAlive m a \<and> vertexAlive m b")
      case True
      then have "find (\<lambda>e. edge_joins (ed m e) a b) (mv_edges (vx m a)) = None"
        using n edges_inv_vertexD(2) [OF ei, of a] by (auto simp: find_none)
      then show ?thesis by (simp add: edgeBetween_def)
    qed (auto simp: edgeBetween_def) }
qed

end
