(* ===== verification/MeshOps.thy ===== *)
theory MeshOps
  imports MeshBuild
begin

text \<open>
  The mutating operators of \<open>src/core/src/mesh_ops.cpp\<close>. Results of walks around cycles are
  options, so an operator that uses one is an option too; \<open>None\<close> is an operator that does not
  return. \<open>fillHoles\<close> iterates an \<open>unordered_map\<close>: the order of its keys is the parameter
  \<open>order\<close>.
\<close>

section \<open>Attribute rows of elements\<close>

definition applyVertexRow :: "nat \<Rightarrow> attr_row \<Rightarrow> mesh \<Rightarrow> mesh" where
  "applyVertexRow i row m = m\<lparr>m_vertexAttrs := attr_applyRow i row (m_vertexAttrs m)\<rparr>"
definition applyEdgeRow :: "nat \<Rightarrow> attr_row \<Rightarrow> mesh \<Rightarrow> mesh" where
  "applyEdgeRow i row m = m\<lparr>m_edgeAttrs := attr_applyRow i row (m_edgeAttrs m)\<rparr>"
definition applyFaceRow :: "nat \<Rightarrow> attr_row \<Rightarrow> mesh \<Rightarrow> mesh" where
  "applyFaceRow i row m = m\<lparr>m_faceAttrs := attr_applyRow i row (m_faceAttrs m)\<rparr>"
definition applyCornerRow :: "nat \<Rightarrow> attr_row \<Rightarrow> mesh \<Rightarrow> mesh" where
  "applyCornerRow i row m = m\<lparr>m_cornerAttrs := attr_applyRow i row (m_cornerAttrs m)\<rparr>"

definition setFeatureEdge :: "nat \<Rightarrow> bool \<Rightarrow> mesh \<Rightarrow> mesh" where
  "setFeatureEdge e f = set_edge e (\<lambda>x. x\<lparr>me_feature := f\<rparr>)"

section \<open>Merging vertices\<close>

function dedupeCyclic :: "nat list \<Rightarrow> nat list" where
  "dedupeCyclic vs =
     (if length vs > 1 then
        (case find (\<lambda>i. vs ! i = vs ! ((i + 1) mod length vs)) [0..<length vs] of
           Some i \<Rightarrow> dedupeCyclic (take i vs @ drop (Suc i) vs)
         | None \<Rightarrow> vs)
      else vs)"
  by pat_completeness auto
termination
  by (relation "measure length") (auto simp: find_Some_iff)

declare dedupeCyclic.simps [simp del]

definition otherEnd :: "medge \<Rightarrow> nat \<Rightarrow> nat" where
  "otherEnd e v = (if me_v0 e = v then me_v1 e else me_v0 e)"

definition linkConditionHolds :: "mesh \<Rightarrow> nat \<Rightarrow> nat \<Rightarrow> nat \<Rightarrow> bool option" where
  "linkConditionHolds m edge a b =
     Option.bind (edgeFaces m edge) (\<lambda>fs.
     Option.bind (omap_list (faceVertices m) fs) (\<lambda>vss.
       (let apexes = filter (\<lambda>v. v \<noteq> a \<and> v \<noteq> b) (concat vss);
            aNeighbors = sort (map (\<lambda>e. otherEnd (m_edges m ! e) a) (mv_edges (m_vertices m ! a)))
        in Some (\<forall>eb \<in> set (mv_edges (m_vertices m ! b)).
             (let n = otherEnd (m_edges m ! eb) b
              in n = a \<or> n \<notin> set aNeighbors \<or> n \<in> set apexes)))))"

record edge_memo =
  em_other :: nat
  em_feature :: bool
  em_attrs :: attr_row

record face_memo =
  fm_verts :: "nat list"
  fm_corners :: "attr_row list"
  fm_attrs :: attr_row

definition edgeMemos :: "mesh \<Rightarrow> nat \<Rightarrow> edge_memo list" where
  "edgeMemos m remove = map (\<lambda>e.
     (let edge = m_edges m ! e
      in \<lparr>em_other = (if me_v0 edge = remove then me_v1 edge else me_v0 edge),
          em_feature = me_feature edge, em_attrs = attr_extractRow (m_edgeAttrs m) e\<rparr>))
     (mv_edges (m_vertices m ! remove))"

definition faceMemo :: "mesh \<Rightarrow> nat \<Rightarrow> nat \<Rightarrow> nat \<Rightarrow> face_memo option" where
  "faceMemo m keep remove f = map_option (\<lambda>loops.
     \<lparr>fm_verts = map (\<lambda>l. (let v = ml_vertex (m_loops m ! l) in if v = remove then keep else v)) loops,
      fm_corners = map (\<lambda>l. attr_extractRow (m_cornerAttrs m) l) loops,
      fm_attrs = attr_extractRow (m_faceAttrs m) f\<rparr>) (faceLoops m f)"

definition restoreCorner :: "face_memo \<Rightarrow> nat \<Rightarrow> mesh \<Rightarrow> mesh" where
  "restoreCorner memo l m =
     (let v = ml_vertex (m_loops m ! l)
      in case find (\<lambda>i. fm_verts memo ! i = v) [0..<length (fm_verts memo)] of
           Some i \<Rightarrow> applyCornerRow l (fm_corners memo ! i) m
         | None \<Rightarrow> m)"

definition rebuildFace :: "face_memo \<Rightarrow> mesh \<Rightarrow> mesh option" where
  "rebuildFace memo m =
     (let verts = dedupeCyclic (fm_verts memo)
      in if length verts < 3 \<or> nested_repeat verts then Some m
         else (let (nf, m) = addFace verts m
               in if \<not> id_valid nf then Some m
                  else (let m = applyFaceRow nf (fm_attrs memo) m
                        in map_option (\<lambda>loops. fold (restoreCorner memo) loops m) (faceLoops m nf))))"

definition restoreEdge :: "nat \<Rightarrow> edge_memo \<Rightarrow> mesh \<Rightarrow> mesh" where
  "restoreEdge keep memo m =
     (if em_other memo = keep then m
      else (let e = edgeBetween m keep (em_other memo)
            in if id_valid e
               then applyEdgeRow e (em_attrs memo)
                      (setFeatureEdge e (me_feature (m_edges m ! e) \<or> em_feature memo) m)
               else m))"

definition mergeVertices :: "nat \<Rightarrow> nat \<Rightarrow> mesh \<Rightarrow> (bool \<times> mesh) option" where
  "mergeVertices keep remove m =
     (if \<not> vertexAlive m keep \<or> \<not> vertexAlive m remove \<or> keep = remove then Some (False, m)
      else
        (let ememos = edgeMemos m remove
         in Option.bind (vertexFaces m remove) (\<lambda>affected.
            Option.bind (omap_list (faceMemo m keep remove) affected) (\<lambda>memos.
            Option.bind (ofold removeFace affected m) (\<lambda>m.
            Option.bind (ofold rebuildFace memos m) (\<lambda>m.
              (let m = fold (restoreEdge keep) ememos m
               in Some (True, if vertexAlive m remove \<and> mv_edges (m_vertices m ! remove) = []
                              then freeVertex remove m else m))))))))"

definition collapseEdge :: "nat \<Rightarrow> bool \<Rightarrow> mesh \<Rightarrow> (bool \<times> mesh) option" where
  "collapseEdge edge placeAtMidpoint m =
     (if \<not> edgeAlive m edge then Some (False, m)
      else
        (let a = me_v0 (m_edges m ! edge); b = me_v1 (m_edges m ! edge)
         in Option.bind (linkConditionHolds m edge a b) (\<lambda>ok.
            if \<not> ok then Some (False, m)
            else
              (let midpoint = lerp3 (position m a) (position m b) f32_half
               in map_option (\<lambda>(merged, m).
                    if \<not> merged then (False, m)
                    else (True, if placeAtMidpoint \<and> vertexAlive m a
                                then (let m = setPosition a midpoint m
                                      in m\<lparr>m_vertexAttrs := attr_interpolate a a a 0 (m_vertexAttrs m)\<rparr>)
                                else m))
                    (mergeVertices a b m)))))"

section \<open>Flipping an edge\<close>

definition oppositeVertex :: "mesh \<Rightarrow> nat \<Rightarrow> nat \<Rightarrow> nat \<Rightarrow> nat option" where
  "oppositeVertex m va vb f = map_option (\<lambda>vs.
     (case find (\<lambda>v. v \<noteq> va \<and> v \<noteq> vb) vs of Some v \<Rightarrow> v | None \<Rightarrow> kInvalidIndex)) (faceVertices m f)"

definition featureMemos :: "mesh \<Rightarrow> (nat \<times> nat) list \<Rightarrow> ((nat \<times> nat) \<times> bool) list" where
  "featureMemos m pairs =
     concat (map (\<lambda>(x, y). (let e = edgeBetween m x y
                            in if id_valid e then [((x, y), me_feature (m_edges m ! e))] else [])) pairs)"

definition restoreFeature :: "(nat \<times> nat) \<times> bool \<Rightarrow> mesh \<Rightarrow> mesh" where
  "restoreFeature memo m =
     (case memo of ((x, y), feature) \<Rightarrow>
        (let e = edgeBetween m x y in if id_valid e then setFeatureEdge e feature m else m))"

definition flipEdge :: "nat \<Rightarrow> mesh \<Rightarrow> (bool \<times> mesh) option" where
  "flipEdge edge m =
     (if \<not> edgeAlive m edge then Some (False, m)
      else Option.bind (edgeFaceCount m edge) (\<lambda>count.
        if count \<noteq> 2 then Some (False, m)
        else Option.bind (edgeFaces m edge) (\<lambda>faces.
          (let f0 = faces ! 0; f1 = faces ! 1
           in if mf_size (m_faces m ! f0) \<noteq> 3 \<or> mf_size (m_faces m ! f1) \<noteq> 3 then Some (False, m)
              else
                (let a = me_v0 (m_edges m ! edge); b = me_v1 (m_edges m ! edge)
                 in Option.bind (oppositeVertex m a b f0) (\<lambda>c.
                    Option.bind (oppositeVertex m a b f1) (\<lambda>d.
                      if \<not> id_valid c \<or> \<not> id_valid d \<or> c = d then Some (False, m)
                      else if id_valid (edgeBetween m c d) then Some (False, m)
                      else Option.bind (faceLoops m f0) (\<lambda>loops.
                        (let aToB = (case find (\<lambda>l. ml_edge (m_loops m ! l) = edge) loops of
                                       Some l \<Rightarrow> ml_vertex (m_loops m ! l) = a | None \<Rightarrow> False);
                             u = (if aToB then a else b);
                             w = (if aToB then b else a);
                             attrs0 = attr_extractRow (m_faceAttrs m) f0;
                             attrs1 = attr_extractRow (m_faceAttrs m) f1;
                             features = featureMemos m [(u, c), (c, w), (w, d), (d, u)]
                         in Option.bind (removeFace f0 m) (\<lambda>m.
                            Option.bind (removeFace f1 m) (\<lambda>m.
                              (let (n0, m) = addFace [u, d, c] m;
                                   (n1, m) = addFace [d, w, c] m;
                                   m = applyFaceRow n0 attrs0 m;
                                   m = applyFaceRow n1 attrs1 m
                               in Some (True, fold restoreFeature features m)))))))))))))"

section \<open>Splitting an edge\<close>

definition splitCorner :: "nat \<Rightarrow> nat \<Rightarrow> nat \<Rightarrow> nat \<Rightarrow> f32 \<Rightarrow> nat \<Rightarrow> mesh \<Rightarrow> mesh" where
  "splitCorner a mv ea eb t l m =
     (let f = ml_face (m_loops m ! l);
          nextLoop = ml_next (m_loops m ! l);
          forward = (ml_vertex (m_loops m ! l) = a);
          m = radialRemove l m;
          (lm, m) = allocLoop m;
          m = set_loop lm (\<lambda>x. x\<lparr>ml_vertex := mv, ml_face := f, ml_next := nextLoop, ml_prev := l\<rparr>) m;
          m = set_loop nextLoop (\<lambda>x. x\<lparr>ml_prev := lm\<rparr>) m;
          m = set_loop l (\<lambda>x. x\<lparr>ml_next := lm\<rparr>) m;
          m = radialInsert (if forward then ea else eb) l m;
          m = radialInsert (if forward then eb else ea) lm m;
          m = m\<lparr>m_cornerAttrs := attr_interpolate lm l nextLoop (if forward then t else fsub f32_1 t)
                                 (m_cornerAttrs m)\<rparr>
      in set_face f (\<lambda>x. x\<lparr>mf_size := to_index (mf_size x + 1)\<rparr>) m)"

definition splitEdge :: "nat \<Rightarrow> f32 \<Rightarrow> mesh \<Rightarrow> (nat \<times> mesh) option" where
  "splitEdge edge t m =
     (if \<not> edgeAlive m edge then Some (kInvalidIndex, m)
      else
        (let a = me_v0 (m_edges m ! edge); b = me_v1 (m_edges m ! edge);
             feature = me_feature (m_edges m ! edge);
             edgeAttrs = attr_extractRow (m_edgeAttrs m) edge;
             (mv, m) = addVertex (lerp3 (position m a) (position m b) t) m;
             m = m\<lparr>m_vertexAttrs := attr_interpolate mv a b t (m_vertexAttrs m)\<rparr>
         in map_option (\<lambda>radials.
              (let (ea, m) = findOrCreateEdge a mv m;
                   (eb, m) = findOrCreateEdge mv b m;
                   m = fold (\<lambda>half m. applyEdgeRow half edgeAttrs (setFeatureEdge half feature m)) [ea, eb] m;
                   m = fold (splitCorner a mv ea eb t) radials m
               in (mv, destroyEdgeIfUnused edge m)))
            (edgeLoops m edge)))"

section \<open>Splitting a face\<close>

text \<open>The last corner at \<open>a\<close> and the last at \<open>b\<close>, as the loop over the corners finds them.\<close>

definition findCorners :: "mesh \<Rightarrow> nat \<Rightarrow> nat \<Rightarrow> nat list \<Rightarrow> nat \<times> nat" where
  "findCorners m a b loops = fold (\<lambda>l (la, lb).
     if ml_vertex (m_loops m ! l) = a then (l, lb)
     else if ml_vertex (m_loops m ! l) = b then (la, l) else (la, lb))
     loops (kInvalidIndex, kInvalidIndex)"

text \<open>Links a new closing corner between \<open>from\<close> and \<open>to\<close>.\<close>

definition closeCorner :: "nat \<Rightarrow> nat \<Rightarrow> nat \<Rightarrow> nat \<Rightarrow> nat \<Rightarrow> nat \<Rightarrow> mesh \<Rightarrow> mesh" where
  "closeCorner diagonal close v face prev next m =
     (let m = set_loop close (\<lambda>x. x\<lparr>ml_vertex := v, ml_face := face, ml_next := next, ml_prev := prev\<rparr>) m;
          m = set_loop prev (\<lambda>x. x\<lparr>ml_next := close\<rparr>) m;
          m = set_loop next (\<lambda>x. x\<lparr>ml_prev := close\<rparr>) m
      in radialInsert diagonal close m)"

text \<open>Reassigning the face of a corner does not change the successors the walk follows.\<close>

definition reassign :: "nat \<Rightarrow> nat \<Rightarrow> mesh \<Rightarrow> (nat \<times> mesh) option" where
  "reassign face start m = map_option (\<lambda>ls.
     (to_index (length ls), fold (\<lambda>l. set_loop l (\<lambda>x. x\<lparr>ml_face := face\<rparr>)) ls m))
     (walk (\<lambda>l. ml_next (m_loops m ! l)) start start)"

definition splitFace :: "nat \<Rightarrow> nat \<Rightarrow> nat \<Rightarrow> mesh \<Rightarrow> (nat \<times> mesh) option" where
  "splitFace face a b m =
     (if \<not> faceAlive m face \<or> a = b then Some (kInvalidIndex, m)
      else Option.bind (faceLoops m face) (\<lambda>loops.
        (let (la, lb) = findCorners m a b loops
         in if \<not> id_valid la \<or> \<not> id_valid lb then Some (kInvalidIndex, m)
            else if ml_next (m_loops m ! la) = lb \<or> ml_next (m_loops m ! lb) = la then Some (kInvalidIndex, m)
            else
              (let (diagonal, m) = findOrCreateEdge a b m;
                   laPrev = ml_prev (m_loops m ! la);
                   lbPrev = ml_prev (m_loops m ! lb);
                   (closeF, m) = allocLoop m;
                   (closeN, m) = allocLoop m;
                   (newFace, m) = allocFace m;
                   m = closeCorner diagonal closeF b face lbPrev la m;
                   m = closeCorner diagonal closeN a newFace laPrev lb m
               in Option.bind (reassign face la m) (\<lambda>(size1, m).
                  Option.bind (reassign newFace lb m) (\<lambda>(size2, m).
                    (let m = set_face face (\<lambda>x. x\<lparr>mf_first := la, mf_size := size1\<rparr>) m;
                         m = set_face newFace (\<lambda>x. x\<lparr>mf_first := lb, mf_size := size2\<rparr>) m;
                         m = m\<lparr>m_faceAttrs := attr_copy newFace face (m_faceAttrs m)\<rparr>;
                         m = m\<lparr>m_cornerAttrs := attr_copy closeF lb (m_cornerAttrs m)\<rparr>;
                         m = m\<lparr>m_cornerAttrs := attr_copy closeN la (m_cornerAttrs m)\<rparr>
                     in Some (newFace, m))))))))"

partial_function (option) triangulateFace :: "nat \<Rightarrow> mesh \<Rightarrow> mesh option" where
  "triangulateFace current m =
     (if faceAlive m current \<and> mf_size (m_faces m ! current) > 3 then
        Option.bind (faceVertices m current) (\<lambda>verts.
        Option.bind (splitFace current (verts ! 0) (verts ! 2) m) (\<lambda>(rest, m).
          if \<not> id_valid rest then Some m else triangulateFace rest m))
      else Some m)"

definition triangulate :: "mesh \<Rightarrow> mesh option" where
  "triangulate m =
     ofold (\<lambda>i m. if mf_alive (m_faces m ! i) then triangulateFace i m else Some m)
       [0..<length (m_faces m)] m"

section \<open>Filling holes\<close>

text \<open>\<open>succ\<close> as an association list in the order of insertion, \<open>ambiguous\<close> as a set.\<close>

definition emplaceSucc :: "nat \<Rightarrow> nat \<Rightarrow> (nat \<times> nat) list \<times> nat set \<Rightarrow> (nat \<times> nat) list \<times> nat set" where
  "emplaceSucc b a st = (case st of (succ, ambiguous) \<Rightarrow>
     if map_of succ b = None then (succ @ [(b, a)], ambiguous) else (succ, insert b ambiguous))"

definition holeCorner :: "mesh \<Rightarrow> nat \<Rightarrow> (nat \<times> nat) list \<times> nat set \<Rightarrow> ((nat \<times> nat) list \<times> nat set) option" where
  "holeCorner m l st = map_option (\<lambda>count.
     if count \<noteq> 1 then st
     else emplaceSucc (ml_vertex (m_loops m ! ml_next (m_loops m ! l))) (ml_vertex (m_loops m ! l)) st)
     (edgeFaceCount m (ml_edge (m_loops m ! l)))"

definition holeEdges :: "mesh \<Rightarrow> ((nat \<times> nat) list \<times> nat set) option" where
  "holeEdges m = ofold (\<lambda>fi st.
     if \<not> mf_alive (m_faces m ! fi) then Some st
     else Option.bind (faceLoops m fi) (\<lambda>loops. ofold (holeCorner m) loops st))
     [0..<length (m_faces m)] ([], {})"

text \<open>The walk around one hole: whether it closed, its vertices, and the visited set.\<close>

function holeWalk :: "(nat \<times> nat) list \<Rightarrow> nat set \<Rightarrow> nat \<Rightarrow> nat \<Rightarrow> nat \<Rightarrow> nat list \<Rightarrow> nat set \<Rightarrow>
    bool \<times> nat list \<times> nat set" where
  "holeWalk succ ambiguous maxEdges start cur loop visited =
     (if cur \<in> ambiguous then (False, loop, visited)
      else
        (let visited = insert cur visited; loop = loop @ [cur]
         in case map_of succ cur of
              None \<Rightarrow> (False, loop, visited)
            | Some next \<Rightarrow>
                if next = start then (True, loop, visited)
                else if length loop > maxEdges then (False, loop, visited)
                else holeWalk succ ambiguous maxEdges start next loop visited))"
  by pat_completeness auto
termination
  by (relation "measure (\<lambda>(succ, ambiguous, maxEdges, start, cur, loop, visited). Suc maxEdges - length loop)") auto

declare holeWalk.simps [simp del]

definition fillHole :: "(nat \<times> nat) list \<Rightarrow> nat set \<Rightarrow> nat \<Rightarrow> nat \<Rightarrow> nat \<times> nat set \<times> mesh \<Rightarrow> nat \<times> nat set \<times> mesh" where
  "fillHole succ ambiguous maxEdges start st = (case st of (filled, visited, m) \<Rightarrow>
     if start \<in> visited then st
     else
       (let (ok, loop, visited) = holeWalk succ ambiguous maxEdges start start [] visited
        in if ok \<and> 3 \<le> length loop \<and> length loop \<le> maxEdges
           then (let (f, m) = addFace loop m in (if id_valid f then filled + 1 else filled, visited, m))
           else (filled, visited, m)))"

definition fillHoles :: "((nat \<times> nat) list \<Rightarrow> nat list) \<Rightarrow> nat \<Rightarrow> mesh \<Rightarrow> (nat \<times> mesh) option" where
  "fillHoles order maxBoundaryEdges m =
     (if maxBoundaryEdges < 3 then Some (0, m)
      else map_option (\<lambda>(succ, ambiguous).
        (case fold (fillHole succ ambiguous maxBoundaryEdges) (order succ) (0, {}, m) of
           (filled, _, m) \<Rightarrow> (filled, m)))
        (holeEdges m))"

section \<open>Linear subdivision\<close>

record subdivision_map =
  sd_vertexPoints :: "nat list"
  sd_edgePoints :: "nat list"
  sd_facePoints :: "nat list"

definition subdivideEmpty :: "mesh \<Rightarrow> mesh" where
  "subdivideEmpty m = mesh_empty
     \<lparr>m_vertexAttrs := attr_adoptSchema (m_vertexAttrs m) attrs_empty,
      m_edgeAttrs := attr_adoptSchema (m_edgeAttrs m) attrs_empty,
      m_faceAttrs := attr_adoptSchema (m_faceAttrs m) attrs_empty,
      m_cornerAttrs := attr_adoptSchema (m_cornerAttrs m) attrs_empty\<rparr>"

definition subdivideVertex :: "mesh \<Rightarrow> nat \<Rightarrow> nat list \<times> mesh \<Rightarrow> nat list \<times> mesh" where
  "subdivideVertex m i st = (case st of (vertexMap, out) \<Rightarrow>
     if \<not> mv_alive (m_vertices m ! i) then st
     else (let (v, out) = addVertex (mv_position (m_vertices m ! i)) out
           in (vertexMap[i := v], applyVertexRow v (attr_extractRow (m_vertexAttrs m) i) out)))"

definition subdivideEdge :: "mesh \<Rightarrow> nat \<Rightarrow> nat list \<times> mesh \<Rightarrow> nat list \<times> mesh" where
  "subdivideEdge m i st = (case st of (midMap, out) \<Rightarrow>
     if \<not> me_alive (m_edges m ! i) then st
     else (let e = m_edges m ! i;
               (v, out) = addVertex (lerp3 (position m (me_v0 e)) (position m (me_v1 e)) f32_half) out
           in (midMap[i := v],
               applyVertexRow v (attr_averageRows [attr_extractRow (m_vertexAttrs m) (me_v0 e),
                                                   attr_extractRow (m_vertexAttrs m) (me_v1 e)]) out)))"

definition inheritFeature :: "mesh \<Rightarrow> nat \<times> nat \<times> nat \<Rightarrow> mesh \<Rightarrow> mesh" where
  "inheritFeature m p out = (case p of (parentEdge, x, y) \<Rightarrow>
     if me_feature (m_edges m ! parentEdge)
     then (let ce = edgeBetween out x y in if id_valid ce then setFeatureEdge ce True out else out)
     else out)"

definition subdivideCorner :: "mesh \<Rightarrow> nat list \<Rightarrow> nat list \<Rightarrow> nat list \<Rightarrow> nat \<Rightarrow> attr_row list \<Rightarrow> attr_row \<Rightarrow>
    nat \<Rightarrow> mesh \<Rightarrow> mesh option" where
  "subdivideCorner m vertexMap midMap loops center cornerRows faceRow i out =
     (let n = length loops;
          prev = (i + n - 1) mod n;
          vi = ml_vertex (m_loops m ! (loops ! i));
          eNext = ml_edge (m_loops m ! (loops ! i));
          ePrev = ml_edge (m_loops m ! (loops ! prev));
          (child, out) = addFace [vertexMap ! vi, midMap ! eNext, center, midMap ! ePrev] out
      in if \<not> id_valid child then Some out
         else
           (let out = applyFaceRow child faceRow out
            in map_option (\<lambda>childLoops.
                 (let out = applyCornerRow (childLoops ! 0) (cornerRows ! i) out;
                      out = applyCornerRow (childLoops ! 1)
                              (attr_averageRows [cornerRows ! i, cornerRows ! ((i + 1) mod n)]) out;
                      out = applyCornerRow (childLoops ! 2) (attr_averageRows cornerRows) out;
                      out = applyCornerRow (childLoops ! 3)
                              (attr_averageRows [cornerRows ! prev, cornerRows ! i]) out
                  in fold (inheritFeature m)
                       [(eNext, vertexMap ! vi, midMap ! eNext), (ePrev, midMap ! ePrev, vertexMap ! vi)] out))
               (faceLoops out child)))"

definition subdivideFace :: "mesh \<Rightarrow> nat list \<Rightarrow> nat list \<Rightarrow> nat \<Rightarrow> nat list \<times> mesh \<Rightarrow> (nat list \<times> mesh) option" where
  "subdivideFace m vertexMap midMap fi st = (case st of (faceMap, out) \<Rightarrow>
     if \<not> mf_alive (m_faces m ! fi) then Some st
     else
       Option.bind (faceLoops m fi) (\<lambda>loops.
       Option.bind (faceCentroid m fi) (\<lambda>centroid.
         (let (center, out) = addVertex centroid out;
              rows = map (\<lambda>l. attr_extractRow (m_vertexAttrs m) (ml_vertex (m_loops m ! l))) loops;
              out = applyVertexRow center (attr_averageRows rows) out;
              cornerRows = map (\<lambda>l. attr_extractRow (m_cornerAttrs m) l) loops;
              faceRow = attr_extractRow (m_faceAttrs m) fi
          in map_option (\<lambda>out. (faceMap[fi := center], out))
               (ofold (subdivideCorner m vertexMap midMap loops center cornerRows faceRow)
                  [0..<length loops] out)))))"

definition linearSubdivide :: "mesh \<Rightarrow> (mesh \<times> subdivision_map) option" where
  "linearSubdivide m =
     (let (vertexMap, out) = fold (subdivideVertex m) [0..<length (m_vertices m)]
                               (replicate (length (m_vertices m)) kInvalidIndex, subdivideEmpty m);
          (midMap, out) = fold (subdivideEdge m) [0..<length (m_edges m)]
                               (replicate (length (m_edges m)) kInvalidIndex, out)
      in map_option (\<lambda>(faceMap, out).
           (out, \<lparr>sd_vertexPoints = vertexMap, sd_edgePoints = midMap, sd_facePoints = faceMap\<rparr>))
         (ofold (subdivideFace m vertexMap midMap) [0..<length (m_faces m)]
            (replicate (length (m_faces m)) kInvalidIndex, out)))"

end
