(* ===== verification/Text.thy ===== *)
theory Text
  imports Floats
begin

text \<open>
  The decimal text the sources print: \<open>std::to_string\<close> of unsigned and signed integers and of a
  \<open>float\<close> (the \<open>%f\<close> conversion: six fractional digits of the exact value, ties to even).
\<close>

fun decimal :: "nat \<Rightarrow> string" where
  "decimal n = (if n < 10 then [char_of (48 + n)] else decimal (n div 10) @ [char_of (48 + n mod 10)])"

declare decimal.simps [simp del]

definition to_string_int :: "i32 \<Rightarrow> string" where
  "to_string_int w = (let v = sint w in if v < 0 then ''-'' @ decimal (nat (- v)) else decimal (nat v))"

text \<open>\<open>m * 2 ^ e * 10 ^ 6\<close> rounded to an integer, ties to even.\<close>

definition scaled_digits :: "nat \<Rightarrow> int \<Rightarrow> nat" where
  "scaled_digits m e =
     (if e \<ge> 0 then m * 2 ^ nat e * 10 ^ 6
      else let d = 2 ^ nat (- e); n = m * 10 ^ 6; q = n div d; r = n mod d
           in if 2 * r > d \<or> (2 * r = d \<and> odd q) then q + 1 else q)"

definition pad_digits :: "nat \<Rightarrow> nat \<Rightarrow> string" where
  "pad_digits w n = (let s = decimal n in replicate (w - length s) (CHR ''0'') @ s)"

definition to_string_f32 :: "f32 \<Rightarrow> string" where
  "to_string_f32 a =
     (case dec32 a of
        FNan \<Rightarrow> (if unat a \<ge> 2 ^ 31 then ''-nan'' else ''nan'')
      | FInf s \<Rightarrow> (if s then ''-inf'' else ''inf'')
      | FFin s m e \<Rightarrow> (let n = scaled_digits m e
          in (if s then ''-'' else '''') @ decimal (n div 10 ^ 6) @ ''.'' @ pad_digits 6 (n mod 10 ^ 6)))"

section \<open>Reading digits back\<close>

definition digit_value :: "char \<Rightarrow> nat" where
  "digit_value c = of_char c - 48"

definition is_digit :: "char \<Rightarrow> bool" where
  "is_digit c \<longleftrightarrow> 48 \<le> (of_char c :: nat) \<and> (of_char c :: nat) \<le> 57"

definition digits_value :: "string \<Rightarrow> nat" where
  "digits_value s = foldl (\<lambda>n c. 10 * n + digit_value c) 0 s"

lemma digit_char: "d < 10 \<Longrightarrow> is_digit (char_of (48 + d)) \<and> digit_value (char_of (48 + d)) = d"
  by (simp add: is_digit_def digit_value_def of_char_of)

lemma decimal_digits: "digits_value (decimal n) = n \<and> (\<forall>c \<in> set (decimal n). is_digit c) \<and> decimal n \<noteq> []"
proof (induction n rule: decimal.induct)
  case (1 n)
  show ?case
  proof (cases "n < 10")
    case True
    then show ?thesis using digit_char by (simp add: decimal.simps [of n] digits_value_def)
  next
    case False
    then show ?thesis using 1 [OF False] digit_char [of "n mod 10"]
      by (simp add: decimal.simps [of n] digits_value_def)
  qed
qed

lemma decimal_inj: "decimal a = decimal b \<Longrightarrow> a = b"
  using decimal_digits by metis

end
