(* ===== verification/RemeshParams.thy ===== *)
theory RemeshParams
  imports Text Vectors
begin

text \<open>
  The user-facing remesh parameters and guidance, and the validation every entry point runs:
  \<open>src/core/include/cyber/core/remesh_params.hpp\<close>, \<open>src/core/src/remesh_params.cpp\<close> and the
  value types of \<open>guidance.hpp\<close>. An \<open>int\<close> is its 32-bit pattern, compared as signed. The policy is
  the pattern of its enum: a value read from a file need not name an enumerator.
\<close>

section \<open>Data\<close>

type_synonym small_patch_policy = i32

definition KeepLargest :: small_patch_policy where "KeepLargest = 0"
definition KeepAll :: small_patch_policy where "KeepAll = 1"
definition MinFaces :: small_patch_policy where "MinFaces = 2"

record parameters =
  p_targetQuadCount :: i32
  p_edgeScale :: f32
  p_sharpEdgeDegrees :: f32
  p_smoothNormalDegrees :: f32
  p_adaptivity :: f32
  p_pureQuads :: bool
  p_holeFillMaxBoundary :: i32
  p_smallPatchPolicy :: small_patch_policy
  p_smallPatchMinFaces :: i32

definition parameters0 :: parameters where
  "parameters0 = \<lparr>p_targetQuadCount = 50000, p_edgeScale = f32_1, p_sharpEdgeDegrees = 0x42B40000,
     p_smoothNormalDegrees = 0, p_adaptivity = f32_1, p_pureQuads = False, p_holeFillMaxBoundary = 64,
     p_smallPatchPolicy = KeepLargest, p_smallPatchMinFaces = 0\<rparr>"

record parameter_issue =
  pi_parameter :: string
  pi_message :: string
  pi_fatal :: bool

type_synonym issues = "parameter_issue list"

definition issues_ok :: "issues \<Rightarrow> bool" where
  "issues_ok is \<longleftrightarrow> (\<forall>i \<in> set is. \<not> pi_fatal i)"

section \<open>Clamping\<close>

definition issue :: "string \<Rightarrow> string \<Rightarrow> bool \<Rightarrow> parameter_issue" where
  "issue name msg fatal = \<lparr>pi_parameter = name, pi_message = msg, pi_fatal = fatal\<rparr>"

definition range_message :: "string \<Rightarrow> string \<Rightarrow> string \<Rightarrow> string \<Rightarrow> string \<Rightarrow> string" where
  "range_message name value lo hi clamped =
     name @ '' '' @ value @ '' out of range ['' @ lo @ '', '' @ hi @ ''], clamped to '' @ clamped"

definition clampInt :: "i32 \<Rightarrow> i32 \<Rightarrow> string \<Rightarrow> i32 \<times> issues \<Rightarrow> i32 \<times> issues" where
  "clampInt lo hi name st = (case st of (v, iss) \<Rightarrow>
     if sint v < sint lo \<or> sint v > sint hi then
       (let clamped = (if sint v < sint lo then lo else hi)
        in (clamped, iss @ [issue name (range_message name (to_string_int v) (to_string_int lo)
              (to_string_int hi) (to_string_int clamped)) False]))
     else st)"

definition clampFloat :: "f32 \<Rightarrow> f32 \<Rightarrow> string \<Rightarrow> f32 \<times> issues \<Rightarrow> f32 \<times> issues" where
  "clampFloat lo hi name st = (case st of (v, iss) \<Rightarrow>
     if \<not> f32_isfinite v then (lo, iss @ [issue name (name @ '' is not a finite number'') True])
     else if flt v lo \<or> flt hi v then
       (let clamped = fclamp v lo hi
        in (clamped, iss @ [issue name (range_message name (to_string_f32 v) (to_string_f32 lo)
              (to_string_f32 hi) (to_string_f32 clamped)) False]))
     else st)"

definition validateParameters :: "parameters \<Rightarrow> parameters \<times> issues" where
  "validateParameters raw =
     (let p = raw; iss = [];
          (q, iss) = clampInt 100 2000000 ''targetQuadCount'' (p_targetQuadCount p, iss);
          p = p\<lparr>p_targetQuadCount := q\<rparr>;
          (x, iss) = clampFloat f32_half 0x40800000 ''edgeScale'' (p_edgeScale p, iss);
          p = p\<lparr>p_edgeScale := x\<rparr>;
          (x, iss) = clampFloat 0x41F00000 0x43340000 ''sharpEdgeDegrees'' (p_sharpEdgeDegrees p, iss);
          p = p\<lparr>p_sharpEdgeDegrees := x\<rparr>;
          (x, iss) = clampFloat 0 0x43340000 ''smoothNormalDegrees'' (p_smoothNormalDegrees p, iss);
          p = p\<lparr>p_smoothNormalDegrees := x\<rparr>;
          (x, iss) = clampFloat 0 f32_1 ''adaptivity'' (p_adaptivity p, iss);
          p = p\<lparr>p_adaptivity := x\<rparr>;
          (q, iss) = clampInt 0 10000 ''holeFillMaxBoundary'' (p_holeFillMaxBoundary p, iss);
          p = p\<lparr>p_holeFillMaxBoundary := q\<rparr>
      in if p_smallPatchPolicy p = MinFaces then
           (let (q, iss) = clampInt 0 1000000 ''smallPatchMinFaces'' (p_smallPatchMinFaces p, iss)
            in (p\<lparr>p_smallPatchMinFaces := q\<rparr>, iss))
         else (p, iss))"

section \<open>Guidance\<close>

text \<open>\<open>GuideMode\<close> of \<open>guidance.hpp\<close>.\<close>

datatype guide_mode = Orientation | Topology

record flow_guide =
  fg_points :: "vec3 list"
  fg_strength :: f32
  fg_radius :: f32
  fg_mode :: guide_mode
  fg_closed :: bool

record density_field =
  df_vertexValues :: "f32 list"
  df_faceValues :: "f32 list"

record guidance =
  g_guides :: "flow_guide list"
  g_density :: density_field

definition density_empty :: "density_field \<Rightarrow> bool" where
  "density_empty d \<longleftrightarrow> df_vertexValues d = [] \<and> df_faceValues d = []"

definition neutral_value :: "f32 \<Rightarrow> bool" where
  "neutral_value v \<longleftrightarrow> fle (fabs32 (fsub v f32_1)) 0x358637BD"

definition isNeutral :: "density_field \<Rightarrow> bool" where
  "isNeutral d \<longleftrightarrow> \<not> density_empty d \<and> list_all neutral_value (df_vertexValues d) \<and>
     list_all neutral_value (df_faceValues d)"

definition topologyGuideCount :: "guidance \<Rightarrow> nat" where
  "topologyGuideCount g = length (filter (\<lambda>x. fg_mode x = Topology) (g_guides g))"

definition kDensityMin :: f32 where "kDensityMin = 0x3E800000"
definition kDensityMax :: f32 where "kDensityMax = 0x40800000"

definition point_finite :: "vec3 \<Rightarrow> bool" where
  "point_finite p \<longleftrightarrow> f32_isfinite (v3x p) \<and> f32_isfinite (v3y p) \<and> f32_isfinite (v3z p)"

text \<open>The kept guide, or \<open>None\<close> for a rejected one, with the issues so far.\<close>

definition validateOneGuide :: "flow_guide \<Rightarrow> nat \<Rightarrow> issues \<Rightarrow> flow_guide option \<times> issues" where
  "validateOneGuide guide index iss =
     (let name = ''guides['' @ decimal index @ '']''
      in if length (fg_points guide) < 2 then
           (None, iss @ [issue name (name @ '' has '' @ decimal (length (fg_points guide)) @
              '' point(s); a flow guide needs at least 2'') True])
         else case find (\<lambda>i. \<not> point_finite (fg_points guide ! i)) [0..<length (fg_points guide)] of
           Some i \<Rightarrow> (None, iss @ [issue name (name @ ''.points['' @ decimal i @ ''] is not a finite point'') True])
         | None \<Rightarrow>
             if \<not> f32_isfinite (fg_radius guide) \<or> fle (fg_radius guide) 0 then
               (None, iss @ [issue name (name @ ''.radius '' @ to_string_f32 (fg_radius guide) @
                  '' must be a finite value greater than 0 (a zero-radius guide can never be honored)'') True])
             else (let (s, iss) = clampFloat 0 f32_1 (name @ ''.strength'') (fg_strength guide, iss)
                   in (Some (guide\<lparr>fg_strength := s\<rparr>), iss)))"

fun validateGuides :: "flow_guide list \<Rightarrow> nat \<Rightarrow> issues \<Rightarrow> flow_guide list \<times> issues" where
  "validateGuides [] i iss = ([], iss)"
| "validateGuides (g # gs) i iss =
     (let (r, iss) = validateOneGuide g i iss; (kept, iss) = validateGuides gs (Suc i) iss
      in ((case r of None \<Rightarrow> kept | Some g' \<Rightarrow> g' # kept), iss))"

text \<open>The values, whether a non-finite one stopped the pass, and the count of clamped ones.\<close>

fun clampDensityValues :: "f32 list \<Rightarrow> nat \<Rightarrow> f32 list \<times> bool \<times> nat" where
  "clampDensityValues [] clamped = ([], False, clamped)"
| "clampDensityValues (v # vs) clamped =
     (if \<not> f32_isfinite v then (v # vs, True, clamped)
      else if flt v kDensityMin \<or> flt kDensityMax v then
        (let (ws, bad, n) = clampDensityValues vs (Suc clamped)
         in (fclamp v kDensityMin kDensityMax # ws, bad, n))
      else (let (ws, bad, n) = clampDensityValues vs clamped in (v # ws, bad, n)))"

definition validateDensity :: "density_field \<Rightarrow> nat \<Rightarrow> nat \<Rightarrow> issues \<Rightarrow> density_field \<times> issues" where
  "validateDensity density targetVertexCount targetFaceCount iss =
     (if df_vertexValues density \<noteq> [] \<and> df_faceValues density \<noteq> [] then
        (density, iss @ [issue ''density''
           ''density carries both per-vertex and per-face values; supply exactly one'' True])
      else
        (let perVertex = (df_vertexValues density \<noteq> []);
             values = (if perVertex then df_vertexValues density else df_faceValues density);
             expected = (if perVertex then targetVertexCount else targetFaceCount);
             store = (\<lambda>vs. if perVertex then density\<lparr>df_vertexValues := vs\<rparr> else density\<lparr>df_faceValues := vs\<rparr>)
         in if values = [] then (density, iss)
            else if length values \<noteq> expected then
              (density, iss @ [issue ''density'' (''density has '' @ decimal (length values) @
                 (if perVertex then '' per-vertex'' else '' per-face'') @
                 '' values but the target has '' @ decimal expected) True])
            else
              (let (vs, sawNonFinite, clamped) = clampDensityValues values 0;
                   density = store vs
               in if sawNonFinite then
                    (density, iss @ [issue ''density''
                       ''density contains a value that is not a finite number'' True])
                  else
                    (let iss = (if clamped > 0 then iss @ [issue ''density'' (''density: '' @ decimal clamped @
                            '' value(s) out of range, clamped to ['' @ to_string_f32 kDensityMin @ '', '' @
                            to_string_f32 kDensityMax @ '']'') False] else iss)
                     in if isNeutral density then
                          (store [], iss @ [issue ''density''
                             ''density is 1.0 everywhere (no sizing change); ignored'' False])
                        else (density, iss)))))"

definition validateGuidance :: "guidance \<Rightarrow> nat \<Rightarrow> nat \<Rightarrow> guidance \<times> issues" where
  "validateGuidance raw targetVertexCount targetFaceCount =
     (let (kept, iss) = validateGuides (g_guides raw) 0 [];
          (density, iss) = validateDensity (g_density raw) targetVertexCount targetFaceCount iss
      in (raw\<lparr>g_guides := kept, g_density := density\<rparr>, iss))"

section \<open>The derived edge length\<close>

text \<open>The edge length and the error text, empty on success.\<close>

definition targetEdgeLength :: "f64 \<Rightarrow> i32 \<Rightarrow> f32 \<Rightarrow> f32 \<times> string" where
  "targetEdgeLength totalArea targetQuadCount edgeScale =
     (if sint targetQuadCount \<le> 0 then (0, ''target quad count must be positive'')
      else if \<not> dlt 0 totalArea \<or> \<not> f64_isfinite totalArea then (0, ''mesh surface area must be positive'')
      else
        (let triangleCount = dmul 0x4000000000000000 (f64_of_int (sint targetQuadCount));
             perTriangle = ddiv totalArea triangleCount;
             len = dmul (dsqrt (ddiv perTriangle 0x3FDBB67AE857B07F)) (f64_of_f32 edgeScale)
         in if \<not> f64_isfinite len \<or> dle len 0 then (0, ''derived edge length is not usable'')
            else (f32_of_f64 len, '''')))"

section \<open>Ranges\<close>

definition irange :: "i32 \<Rightarrow> i32 \<Rightarrow> i32 \<Rightarrow> bool" where
  "irange lo hi v \<longleftrightarrow> sint lo \<le> sint v \<and> sint v \<le> sint hi"

definition frange :: "f32 \<Rightarrow> f32 \<Rightarrow> f32 \<Rightarrow> bool" where
  "frange lo hi v \<longleftrightarrow> f32_isfinite v \<and> fle lo v \<and> fle v hi"

text \<open>What a clamp does to a value and to the list of issues.\<close>

definition clamped :: "('a \<Rightarrow> bool) \<Rightarrow> ('a \<Rightarrow> bool) \<Rightarrow> 'a \<Rightarrow> issues \<Rightarrow> 'a \<times> issues \<Rightarrow> bool" where
  "clamped ok usable v iss st \<longleftrightarrow> (\<exists>js. snd st = iss @ js \<and> ok (fst st) \<and> (js = [] \<longleftrightarrow> ok v) \<and>
     (ok v \<longrightarrow> fst st = v) \<and> (issues_ok js \<longleftrightarrow> usable v))"

lemma clampedD:
  assumes "clamped ok usable v iss (v', iss')"
  shows "ok v'" "iss' = [] \<longleftrightarrow> iss = [] \<and> ok v" "ok v \<Longrightarrow> v' = v" "issues_ok iss' \<longleftrightarrow> issues_ok iss \<and> usable v"
  using assms by (auto simp: clamped_def issues_ok_def)

lemma clampInt_clamped:
  "sint lo \<le> sint hi \<Longrightarrow> clamped (irange lo hi) (\<lambda>_. True) v iss (clampInt lo hi name (v, iss))"
  by (auto simp: clamped_def clampInt_def irange_def Let_def issue_def issues_ok_def)

lemma clampFloat_clamped:
  assumes "frange lo hi lo" "frange lo hi hi"
  shows "clamped (frange lo hi) f32_isfinite v iss (clampFloat lo hi name (v, iss))"
proof (cases "f32_isfinite v")
  case True
  have n: "\<not> f32_isnan v" "\<not> f32_isnan lo" "\<not> f32_isnan hi"
    using True assms by (auto simp: frange_def finite_not_nan)
  have "frange lo hi v \<longleftrightarrow> \<not> flt v lo \<and> \<not> flt hi v"
    using True n by (auto simp: frange_def flt_def fle_def)
  moreover have "\<not> frange lo hi v \<Longrightarrow> frange lo hi (fclamp v lo hi)"
    using assms True n by (auto simp: fclamp_def frange_def flt_def fle_def)
  ultimately show ?thesis
    using True by (auto simp: clamped_def clampFloat_def Let_def issue_def issues_ok_def)
next
  case False
  then show ?thesis using assms(1)
    by (auto simp: clamped_def clampFloat_def issue_def issues_ok_def frange_def)
qed

lemma literal_ranges:
  "frange f32_half 0x40800000 f32_half" "frange f32_half 0x40800000 0x40800000"
  "frange 0x41F00000 0x43340000 0x41F00000" "frange 0x41F00000 0x43340000 0x43340000"
  "frange 0 0x43340000 0" "frange 0 0x43340000 0x43340000" "frange 0 f32_1 0" "frange 0 f32_1 f32_1"
  "frange kDensityMin kDensityMax kDensityMin" "frange kDensityMin kDensityMax kDensityMax"
  by (simp_all add: frange_def f32_isfinite_def fle_def f32_isnan_def f32_key_def kDensityMin_def kDensityMax_def)

definition params_in_range :: "parameters \<Rightarrow> bool" where
  "params_in_range p \<longleftrightarrow> irange 100 2000000 (p_targetQuadCount p) \<and> frange f32_half 0x40800000 (p_edgeScale p) \<and>
     frange 0x41F00000 0x43340000 (p_sharpEdgeDegrees p) \<and> frange 0 0x43340000 (p_smoothNormalDegrees p) \<and>
     frange 0 f32_1 (p_adaptivity p) \<and> irange 0 10000 (p_holeFillMaxBoundary p) \<and>
     (p_smallPatchPolicy p = MinFaces \<longrightarrow> irange 0 1000000 (p_smallPatchMinFaces p))"

definition params_usable :: "parameters \<Rightarrow> bool" where
  "params_usable p \<longleftrightarrow> f32_isfinite (p_edgeScale p) \<and> f32_isfinite (p_sharpEdgeDegrees p) \<and>
     f32_isfinite (p_smoothNormalDegrees p) \<and> f32_isfinite (p_adaptivity p)"

lemma validateParameters_spec:
  assumes "validateParameters raw = (p, iss)"
  shows "params_in_range p" "iss = [] \<longleftrightarrow> params_in_range raw" "params_in_range raw \<Longrightarrow> p = raw"
    "issues_ok iss \<longleftrightarrow> params_usable raw"
proof -
  obtain q1 i1 where c1: "clampInt 100 2000000 ''targetQuadCount'' (p_targetQuadCount raw, []) = (q1, i1)" by fastforce
  obtain x2 i2 where c2: "clampFloat f32_half 0x40800000 ''edgeScale'' (p_edgeScale raw, i1) = (x2, i2)" by fastforce
  obtain x3 i3 where c3: "clampFloat 0x41F00000 0x43340000 ''sharpEdgeDegrees'' (p_sharpEdgeDegrees raw, i2) = (x3, i3)" by fastforce
  obtain x4 i4 where c4: "clampFloat 0 0x43340000 ''smoothNormalDegrees'' (p_smoothNormalDegrees raw, i3) = (x4, i4)" by fastforce
  obtain x5 i5 where c5: "clampFloat 0 f32_1 ''adaptivity'' (p_adaptivity raw, i4) = (x5, i5)" by fastforce
  obtain q6 i6 where c6: "clampInt 0 10000 ''holeFillMaxBoundary'' (p_holeFillMaxBoundary raw, i5) = (q6, i6)" by fastforce
  obtain q7 i7 where c7: "clampInt 0 1000000 ''smallPatchMinFaces'' (p_smallPatchMinFaces raw, i6) = (q7, i7)" by fastforce
  define r where "r = raw\<lparr>p_targetQuadCount := q1, p_edgeScale := x2, p_sharpEdgeDegrees := x3,
      p_smoothNormalDegrees := x4, p_adaptivity := x5, p_holeFillMaxBoundary := q6\<rparr>"
  have res: "(p, iss) = (if p_smallPatchPolicy raw = MinFaces then (r\<lparr>p_smallPatchMinFaces := q7\<rparr>, i7) else (r, i6))"
    using assms by (cases "p_smallPatchPolicy raw = MinFaces")
      (simp_all add: validateParameters_def c1 c2 c3 c4 c5 c6 c7 r_def Let_def)
  have d1: "clamped (irange 100 2000000) (\<lambda>_. True) (p_targetQuadCount raw) [] (q1, i1)"
    using clampInt_clamped [of 100 2000000 "p_targetQuadCount raw" "[]" "''targetQuadCount''"] c1 by simp
  have d2: "clamped (frange f32_half 0x40800000) f32_isfinite (p_edgeScale raw) i1 (x2, i2)"
    unfolding c2 [symmetric] by (rule clampFloat_clamped; rule literal_ranges)
  have d3: "clamped (frange 0x41F00000 0x43340000) f32_isfinite (p_sharpEdgeDegrees raw) i2 (x3, i3)"
    unfolding c3 [symmetric] by (rule clampFloat_clamped; rule literal_ranges)
  have d4: "clamped (frange 0 0x43340000) f32_isfinite (p_smoothNormalDegrees raw) i3 (x4, i4)"
    unfolding c4 [symmetric] by (rule clampFloat_clamped; rule literal_ranges)
  have d5: "clamped (frange 0 f32_1) f32_isfinite (p_adaptivity raw) i4 (x5, i5)"
    unfolding c5 [symmetric] by (rule clampFloat_clamped; rule literal_ranges)
  have d6: "clamped (irange 0 10000) (\<lambda>_. True) (p_holeFillMaxBoundary raw) i5 (q6, i6)"
    using clampInt_clamped [of 0 10000 "p_holeFillMaxBoundary raw" i5 "''holeFillMaxBoundary''"] c6 by simp
  have d7: "clamped (irange 0 1000000) (\<lambda>_. True) (p_smallPatchMinFaces raw) i6 (q7, i7)"
    using clampInt_clamped [of 0 1000000 "p_smallPatchMinFaces raw" i6 "''smallPatchMinFaces''"] c7 by simp
  note ds = d1 d2 d3 d4 d5 d6 d7
  note ok = ds [THEN clampedD(1)] and empty = ds [THEN clampedD(2)] and fatal = ds [THEN clampedD(4)]
  show "params_in_range p" "iss = [] \<longleftrightarrow> params_in_range raw" "issues_ok iss \<longleftrightarrow> params_usable raw"
    using res ok empty fatal
    by (auto simp: params_in_range_def params_usable_def r_def issues_ok_def [of "[]"] split: if_splits)
  show "p = raw" if "params_in_range raw"
    using that res d1 [THEN clampedD(3)] d2 [THEN clampedD(3)] d3 [THEN clampedD(3)] d4 [THEN clampedD(3)]
      d5 [THEN clampedD(3)] d6 [THEN clampedD(3)] d7 [THEN clampedD(3)]
    by (auto simp: params_in_range_def r_def split: if_splits)
qed

section \<open>Guidance\<close>

definition guide_usable :: "flow_guide \<Rightarrow> bool" where
  "guide_usable g \<longleftrightarrow> 2 \<le> length (fg_points g) \<and> (\<forall>p \<in> set (fg_points g). point_finite p) \<and>
     f32_isfinite (fg_radius g) \<and> flt 0 (fg_radius g)"

lemma validateOneGuide_spec:
  assumes "validateOneGuide g i iss = (r, iss')"
  shows "r \<noteq> None \<longleftrightarrow> guide_usable g"
    "\<And>g'. r = Some g' \<Longrightarrow> guide_usable g' \<and> frange 0 f32_1 (fg_strength g') \<and> fg_points g' = fg_points g"
    "issues_ok iss' \<Longrightarrow> issues_ok iss \<and> guide_usable g"
proof -
  define name where "name = ''guides['' @ decimal i @ '']''"
  obtain s js where c: "clampFloat 0 f32_1 (name @ ''.strength'') (fg_strength g, iss) = (s, js)" by fastforce
  have d: "clamped (frange 0 f32_1) f32_isfinite (fg_strength g) iss (s, js)"
    unfolding c [symmetric] by (rule clampFloat_clamped; rule literal_ranges)
  have pts: "find (\<lambda>i. \<not> point_finite (fg_points g ! i)) [0..<length (fg_points g)] = None \<longleftrightarrow>
      (\<forall>p \<in> set (fg_points g). point_finite p)"
    by (simp add: find_None_iff) (metis in_set_conv_nth)
  have rad: "f32_isfinite (fg_radius g) \<Longrightarrow> \<not> fle (fg_radius g) 0 \<longleftrightarrow> flt 0 (fg_radius g)"
    by (auto simp: f32_isfinite_def fle_def flt_def f32_isnan_def)
  note unf = assms [unfolded validateOneGuide_def Let_def name_def [symmetric] c split]
  show "r \<noteq> None \<longleftrightarrow> guide_usable g"
    using unf pts rad by (auto simp: guide_usable_def split: if_splits option.splits)
  show "guide_usable g' \<and> frange 0 f32_1 (fg_strength g') \<and> fg_points g' = fg_points g" if "r = Some g'" for g'
    using unf pts rad that clampedD(1) [OF d] by (auto simp: guide_usable_def split: if_splits option.splits)
  show "issues_ok iss \<and> guide_usable g" if "issues_ok iss'"
    using unf pts rad that clampedD(4) [OF d]
    by (auto simp: guide_usable_def issues_ok_def issue_def split: if_splits option.splits)
qed

lemma validateGuides_spec:
  "validateGuides gs i iss = (kept, iss') \<Longrightarrow>
    (\<forall>g \<in> set kept. guide_usable g \<and> frange 0 f32_1 (fg_strength g)) \<and>
    map fg_points kept = map fg_points (filter guide_usable gs) \<and>
    (issues_ok iss' \<longrightarrow> issues_ok iss \<and> list_all guide_usable gs)"
proof (induction gs arbitrary: i iss kept iss')
  case (Cons g gs)
  obtain r iss1 where r: "validateOneGuide g i iss = (r, iss1)" by fastforce
  obtain kept1 iss2 where k: "validateGuides gs (Suc i) iss1 = (kept1, iss2)" by fastforce
  note ih = Cons.IH [OF k] and one = validateOneGuide_spec [OF r]
  have kept: "kept = (case r of None \<Rightarrow> kept1 | Some g' \<Rightarrow> g' # kept1)" "iss' = iss2"
    using Cons.prems by (simp_all add: r k)
  have ok: "issues_ok iss' \<longrightarrow> issues_ok iss \<and> list_all guide_usable (g # gs)"
    using ih one(3) kept(2) by simp
  show ?case
  proof (cases r)
    case None
    then have "\<not> guide_usable g" using one(1) by simp
    with ih kept ok None show ?thesis by simp
  next
    case (Some g')
    then have "guide_usable g" using one(1) by simp
    with ih kept ok Some one(2) [OF Some] show ?thesis by simp
  qed
qed simp

lemma clampDensityValues_spec:
  "clampDensityValues vs n = (ws, bad, k) \<Longrightarrow> length ws = length vs \<and>
    (bad \<longleftrightarrow> \<not> list_all f32_isfinite vs) \<and> (\<not> bad \<longrightarrow> list_all (frange kDensityMin kDensityMax) ws)"
proof (induction vs arbitrary: n ws bad k)
  case (Cons v vs)
  show ?case
  proof (cases "f32_isfinite v")
    case True
    obtain ws1 b1 k1 where a: "clampDensityValues vs (Suc n) = (ws1, b1, k1)" by (metis prod_cases3)
    obtain ws2 b2 k2 where b: "clampDensityValues vs n = (ws2, b2, k2)" by (metis prod_cases3)
    have n: "\<not> f32_isnan v" "\<not> f32_isnan kDensityMin" "\<not> f32_isnan kDensityMax"
      using True literal_ranges(9,10) by (auto simp: frange_def finite_not_nan)
    have in1: "\<not> flt v kDensityMin \<Longrightarrow> \<not> flt kDensityMax v \<Longrightarrow> frange kDensityMin kDensityMax v"
      using True n by (auto simp: frange_def flt_def fle_def)
    have in2: "flt v kDensityMin \<or> flt kDensityMax v \<Longrightarrow> frange kDensityMin kDensityMax (fclamp v kDensityMin kDensityMax)"
      using literal_ranges(9,10) by (auto simp: fclamp_def)
    from Cons.prems Cons.IH [OF a] Cons.IH [OF b] True in1 in2 show ?thesis
      by (auto simp: a b split: if_splits)
  qed (use Cons.prems in auto)
qed simp

definition density_usable :: "density_field \<Rightarrow> nat \<Rightarrow> nat \<Rightarrow> bool" where
  "density_usable d nv nf \<longleftrightarrow> density_empty d \<or>
     \<not> isNeutral d \<and>
     (df_faceValues d = [] \<and> length (df_vertexValues d) = nv \<and>
        list_all (frange kDensityMin kDensityMax) (df_vertexValues d) \<or>
      df_vertexValues d = [] \<and> length (df_faceValues d) = nf \<and>
        list_all (frange kDensityMin kDensityMax) (df_faceValues d))"

lemma not_ok_snoc: "\<not> issues_ok (iss @ [issue a b True])"
  by (simp add: issues_ok_def issue_def)

lemma ok_snoc: "issues_ok (iss @ [issue a b False]) \<longleftrightarrow> issues_ok iss"
  by (simp add: issues_ok_def issue_def)

lemma validateDensity_spec:
  assumes "validateDensity d nv nf iss = (d', iss')" "issues_ok iss'"
  shows "issues_ok iss \<and> density_usable d' nv nf"
proof (cases "df_vertexValues d \<noteq> [] \<and> df_faceValues d \<noteq> []")
  case True
  then show ?thesis using assms by (auto simp: validateDensity_def not_ok_snoc)
next
  case both: False
  define perVertex where "perVertex = (df_vertexValues d \<noteq> [])"
  define vals where "vals = (if perVertex then df_vertexValues d else df_faceValues d)"
  define store where "store vs = (if perVertex then d\<lparr>df_vertexValues := vs\<rparr> else d\<lparr>df_faceValues := vs\<rparr>)" for vs
  obtain vs bad n where c: "clampDensityValues vals 0 = (vs, bad, n)" by (metis prod_cases3)
  define iss1 where "iss1 = (if n > 0 then iss @ [issue ''density'' (''density: '' @ decimal n @
      '' value(s) out of range, clamped to ['' @ to_string_f32 kDensityMin @ '', '' @
      to_string_f32 kDensityMax @ '']'') False] else iss)"
  have ok1: "issues_ok iss1 \<longleftrightarrow> issues_ok iss" by (simp add: iss1_def ok_snoc)
  have empty: "vals = [] \<Longrightarrow> density_empty d"
    using both by (auto simp: vals_def perVertex_def density_empty_def split: if_splits)
  have both': "\<not> (perVertex \<and> df_faceValues d \<noteq> [])" using both by (simp add: perVertex_def)
  note res = assms(1) [unfolded validateDensity_def perVertex_def [symmetric] Let_def if_not_P [OF both']
      vals_def [symmetric] c split]
  have spec: "length vs = length vals" "bad \<longleftrightarrow> \<not> list_all f32_isfinite vals"
    "\<not> bad \<Longrightarrow> list_all (frange kDensityMin kDensityMax) vs"
    using clampDensityValues_spec [OF c] by auto
  show ?thesis
  proof (cases "vals = []")
    case True
    then show ?thesis using res assms(2) empty by (simp add: density_usable_def)
  next
    case False
    have len: "length vals = (if perVertex then nv else nf)"
      using res False assms(2) by (auto simp: not_ok_snoc split: if_splits)
    have fine: "\<not> bad" using res False len assms(2) by (auto simp: not_ok_snoc split: if_splits)
    have r: "(d', iss') = (if isNeutral (store vs) then (store [], iss1 @ [issue ''density''
        ''density is 1.0 everywhere (no sizing change); ignored'' False]) else (store vs, iss1))"
      using res False len fine by (simp add: store_def iss1_def split: if_splits)
    have other: "if perVertex then df_faceValues d = [] else df_vertexValues d = []"
      using both by (auto simp: perVertex_def)
    show ?thesis
    proof (cases "isNeutral (store vs)")
      case True
      then have "d' = store []" "issues_ok iss" using r assms(2) ok1 by (auto simp: ok_snoc)
      then show ?thesis using other by (auto simp: density_usable_def density_empty_def store_def split: if_splits)
    next
      case False
      then have "d' = store vs" "issues_ok iss" using r assms(2) ok1 by auto
      then show ?thesis using other False len spec(1) spec(3) [OF fine]
        by (auto simp: density_usable_def store_def split: if_splits)
    qed
  qed
qed

lemma validateGuidance_spec:
  assumes "validateGuidance raw nv nf = (g, iss)" "issues_ok iss"
  shows "(\<forall>x \<in> set (g_guides g). guide_usable x \<and> frange 0 f32_1 (fg_strength x)) \<and>
    map fg_points (g_guides g) = map fg_points (g_guides raw) \<and> density_usable (g_density g) nv nf"
proof -
  obtain kept iss1 where k: "validateGuides (g_guides raw) 0 [] = (kept, iss1)" by fastforce
  obtain d iss2 where d: "validateDensity (g_density raw) nv nf iss1 = (d, iss2)" by fastforce
  have g: "g_guides g = kept" "g_density g = d" "iss = iss2"
    using assms(1) by (auto simp: validateGuidance_def k d)
  note den = validateDensity_spec [OF d assms(2) [unfolded g(3)]]
  note gs = validateGuides_spec [OF k]
  have "list_all guide_usable (g_guides raw)" using gs den by blast
  then have "filter guide_usable (g_guides raw) = g_guides raw" by (simp add: list_all_iff filter_id_conv)
  with gs den show ?thesis by (simp add: g)
qed

section \<open>The edge length\<close>

lemma targetEdgeLength_error:
  "snd (targetEdgeLength area n scale) \<noteq> [] \<Longrightarrow> fst (targetEdgeLength area n scale) = 0"
  by (auto simp: targetEdgeLength_def Let_def split: if_splits)

text \<open>A step of the computation of an edge length that does not fit a \<open>float\<close>.\<close>

lemma huge_root: "dsqrt 0x7FE279A745909B39 = 0x5FE85092ED86E6EE"
proof -
  have "isqrt 13500773819814404076251464832154053876875031216128 = 3674339916204596887411328"
    by (rule isqrt_eq) simp_all
  then show ?thesis
    by (simp add: dsqrt_def dec64_def enc64_def fdecode_def fencode_def fround_def binary64_def bitlen.simps Let_def)
qed

lemma targetEdgeLength_huge: "targetEdgeLength 0x7FE0000000000000 1 f32_1 = (0x7F800000, [])"
proof -
  note eval = dec64_def enc64_def dec32_def enc32_def fdecode_def fencode_def fround_def binary32_def
    binary64_def bitlen.simps Let_def
  have a: "f64_of_int (sint (1 :: i32)) = 0x3FF0000000000000" by (simp add: f64_of_int_def eval)
  have b: "dmul 0x4000000000000000 0x3FF0000000000000 = 0x4000000000000000" by (simp add: dmul_def eval)
  have c: "ddiv 0x7FE0000000000000 0x4000000000000000 = 0x7FD0000000000000" by (simp add: ddiv_def eval)
  have d: "ddiv 0x7FD0000000000000 0x3FDBB67AE857B07F = 0x7FE279A745909B39" by (simp add: ddiv_def eval)
  have e: "f64_of_f32 f32_1 = 0x3FF0000000000000" by (simp add: f64_of_f32_def eval)
  have f: "dmul 0x5FE85092ED86E6EE 0x3FF0000000000000 = 0x5FE85092ED86E6EE" by (simp add: dmul_def eval)
  have g: "f32_of_f64 0x5FE85092ED86E6EE = 0x7F800000" by (simp add: f32_of_f64_def eval)
  have h: "dlt 0 0x7FE0000000000000" "f64_isfinite 0x7FE0000000000000" "f64_isfinite 0x5FE85092ED86E6EE"
    "\<not> dle 0x5FE85092ED86E6EE 0"
    by (simp_all add: dlt_def dle_def f64_isnan_def f64_key_def f64_isfinite_def)
  show ?thesis
    unfolding targetEdgeLength_def Let_def a b c d e huge_root f g using h by simp
qed

end
