(* ===== verification/Document.thy ===== *)
theory Document
  imports Serial MeshOps RemeshParams
begin

text \<open>
  The application document of \<open>src/app/include/cyber/app/document.hpp\<close> and
  \<open>src/app/src/document.cpp\<close>: two meshes, the remesh parameters, the bake settings and the
  soft-selection slots, saved to a sectioned byte container and loaded back. Reading a mesh
  walks its faces, so what depends on the mesh is an option (\<open>None\<close>: does not return), separate
  from the \<open>nullopt\<close> of a rejected file, which is the inner option of \<open>load\<close>.
\<close>

section \<open>Data\<close>

record bake_state =
  bk_map :: u32
  bk_width :: i32
  bk_height :: i32
  bk_cageDistance :: f32
  bk_samples :: i32
  bk_baked :: bool
  bk_bakeRevision :: u64

definition bake_state0 :: bake_state where
  "bake_state0 = \<lparr>bk_map = 0, bk_width = 512, bk_height = 512, bk_cageDistance = 0x3DCCCCCD, bk_samples = 16,
     bk_baked = False, bk_bakeRevision = 0\<rparr>"

type_synonym selections = "(bytes, f32 list) omap"

record document =
  doc_target :: mesh
  doc_editMesh :: mesh
  doc_params :: parameters
  doc_bake :: bake_state
  doc_softSelections :: selections
  doc_dirty :: bool

definition document0 :: document where
  "document0 = \<lparr>doc_target = mesh_empty, doc_editMesh = mesh_empty, doc_params = parameters0,
     doc_bake = bake_state0, doc_softSelections = [], doc_dirty = False\<rparr>"

definition kMagic :: u32 where "kMagic = 0x43594443"
definition kFormatVersion :: u32 where "kFormatVersion = 1"

text \<open>\<open>SectionId\<close>; any other id is skipped on load.\<close>

datatype section_id =
    Target | EditMesh | ParametersSec | BakeStateSec | SoftSelectionsSec | TargetExtras | EditMeshExtras

fun section_code :: "section_id \<Rightarrow> u32" where
  "section_code Target = 1"
| "section_code EditMesh = 2"
| "section_code ParametersSec = 3"
| "section_code BakeStateSec = 4"
| "section_code SoftSelectionsSec = 5"
| "section_code TargetExtras = 6"
| "section_code EditMeshExtras = 7"

section \<open>Meshes\<close>

definition writeVec3 :: "bytes \<Rightarrow> vec3 \<Rightarrow> bytes" where
  "writeVec3 w p = w_f32 (w_f32 (w_f32 w (v3x p)) (v3y p)) (v3z p)"

definition writeFace :: "bytes \<Rightarrow> nat list \<Rightarrow> bytes" where
  "writeFace w face = fold (\<lambda>vi w. w_u32 w (of_nat vi)) face (w_u32 w (of_nat (length face)))"

definition serializeIndexed :: "vec3 list \<Rightarrow> nat list list \<Rightarrow> bytes" where
  "serializeIndexed positions faces =
     (let w = w_u32 [] (of_nat (length positions));
          w = fold (\<lambda>p w. writeVec3 w p) positions w;
          w = w_u32 w (of_nat (length faces))
      in fold (\<lambda>face w. writeFace w face) faces w)"

definition serializeMesh :: "mesh \<Rightarrow> bytes option" where
  "serializeMesh m = map_option (\<lambda>(positions, faces). serializeIndexed positions faces) (toIndexed m)"

definition readVec3 :: "reader \<Rightarrow> vec3 \<times> reader" where
  "readVec3 r = (let (x, r) = r_f32 r; (y, r) = r_f32 r; (z, r) = r_f32 r
                 in (\<lparr>v3x = x, v3y = y, v3z = z\<rparr>, r))"

definition readIndex :: "reader \<Rightarrow> nat \<times> reader" where
  "readIndex r = (let (i, r) = r_u32 r in (unat i, r))"

fun readFaces :: "nat \<Rightarrow> nat list list \<Rightarrow> reader \<Rightarrow> nat list list option \<times> reader" where
  "readFaces 0 faces r = (Some faces, r)"
| "readFaces (Suc n) faces r =
     (let (arity, r) = r_u32 r
      in if unat arity > r_remaining r div 4 then (None, r)
         else (let (face, r) = rd_list readIndex (unat arity) r in readFaces n (faces @ [face]) r))"

definition readIndexed :: "reader \<Rightarrow> (vec3 list \<times> nat list list) option \<times> reader" where
  "readIndexed r =
     (let (vertexCount, r) = r_u32 r
      in if unat vertexCount > r_remaining r div 12 then (None, r)
         else
           (let (positions, r) = rd_list readVec3 (unat vertexCount) r;
                (faceCount, r) = r_u32 r
            in if unat faceCount > r_remaining r div 4 then (None, r)
               else (case readFaces (unat faceCount) [] r of
                       (None, r) \<Rightarrow> (None, r)
                     | (Some faces, r) \<Rightarrow> (if \<not> r_ok r then (None, r) else (Some (positions, faces), r)))))"

definition readMesh :: "reader \<Rightarrow> mesh option \<times> reader" where
  "readMesh r = (let (res, r) = readIndexed r
                 in (map_option (\<lambda>(positions, faces). fromIndexed positions faces) res, r))"

section \<open>Parameters and bake state\<close>

definition serializeParams :: "parameters \<Rightarrow> bytes" where
  "serializeParams p =
     (let w = w_i32 [] (p_targetQuadCount p);
          w = w_f32 w (p_edgeScale p);
          w = w_f32 w (p_sharpEdgeDegrees p);
          w = w_f32 w (p_smoothNormalDegrees p);
          w = w_f32 w (p_adaptivity p);
          w = w_u8 w (if p_pureQuads p then 1 else 0);
          w = w_i32 w (p_holeFillMaxBoundary p);
          w = w_u32 w (p_smallPatchPolicy p)
      in w_i32 w (p_smallPatchMinFaces p))"

definition readParams :: "reader \<Rightarrow> parameters \<times> reader" where
  "readParams r =
     (let (targetQuadCount, r) = r_i32 r;
          (edgeScale, r) = r_f32 r;
          (sharpEdgeDegrees, r) = r_f32 r;
          (smoothNormalDegrees, r) = r_f32 r;
          (adaptivity, r) = r_f32 r;
          (pureQuads, r) = r_u8 r;
          (holeFillMaxBoundary, r) = r_i32 r;
          (smallPatchPolicy, r) = r_u32 r;
          (smallPatchMinFaces, r) = r_i32 r
      in (\<lparr>p_targetQuadCount = targetQuadCount, p_edgeScale = edgeScale, p_sharpEdgeDegrees = sharpEdgeDegrees,
           p_smoothNormalDegrees = smoothNormalDegrees, p_adaptivity = adaptivity, p_pureQuads = (pureQuads \<noteq> 0),
           p_holeFillMaxBoundary = holeFillMaxBoundary, p_smallPatchPolicy = smallPatchPolicy,
           p_smallPatchMinFaces = smallPatchMinFaces\<rparr>, r))"

definition serializeBake :: "bake_state \<Rightarrow> bytes" where
  "serializeBake b =
     (let w = w_u32 [] (bk_map b);
          w = w_i32 w (bk_width b);
          w = w_i32 w (bk_height b);
          w = w_f32 w (bk_cageDistance b);
          w = w_i32 w (bk_samples b);
          w = w_u8 w (if bk_baked b then 1 else 0)
      in w_u64 w (bk_bakeRevision b))"

definition readBake :: "reader \<Rightarrow> bake_state \<times> reader" where
  "readBake r =
     (let (mp, r) = r_u32 r;
          (width, r) = r_i32 r;
          (height, r) = r_i32 r;
          (cageDistance, r) = r_f32 r;
          (samples, r) = r_i32 r;
          (baked, r) = r_u8 r;
          (bakeRevision, r) = r_u64 r
      in (\<lparr>bk_map = mp, bk_width = width, bk_height = height, bk_cageDistance = cageDistance, bk_samples = samples,
           bk_baked = (baked \<noteq> 0), bk_bakeRevision = bakeRevision\<rparr>, r))"

section \<open>Soft selections\<close>

definition aliveIds :: "mesh \<Rightarrow> nat list" where
  "aliveIds m = filter (vertexAlive m) [0..<length (m_vertices m)]"

definition rebase :: "nat list \<Rightarrow> f32 list \<Rightarrow> f32 list" where
  "rebase ids weights = map (\<lambda>i. if i < length weights then weights ! i else 0) ids"

definition compactSelections :: "mesh \<Rightarrow> selections \<Rightarrow> selections" where
  "compactSelections m slots =
     (if m_aliveVertices m = length (m_vertices m) then slots
      else fold (\<lambda>(name, weights) compact. omap_emplace name (rebase (aliveIds m) weights) compact) slots [])"

definition writeSlot :: "bytes \<Rightarrow> bytes \<Rightarrow> f32 list \<Rightarrow> bytes" where
  "writeSlot w name weights =
     fold (\<lambda>v w. w_f32 w v) weights (w_u32 (w_str w name) (of_nat (length weights)))"

definition serializeSelections :: "selections \<Rightarrow> bytes" where
  "serializeSelections slots =
     fold (\<lambda>(name, weights) w. writeSlot w name weights) slots (w_u32 [] (of_nat (length slots)))"

fun readSlots :: "nat \<Rightarrow> selections \<Rightarrow> reader \<Rightarrow> selections option \<times> reader" where
  "readSlots 0 slots r = (if \<not> r_ok r then (None, r) else (Some slots, r))"
| "readSlots (Suc n) slots r =
     (let (name, r) = r_str r; (weightCount, r) = r_u32 r
      in if \<not> r_ok r \<or> unat weightCount > r_remaining r div 4 then (None, r)
         else (let (weights, r) = rd_list r_f32 (unat weightCount) r
               in readSlots n (omap_emplace name weights slots) r))"

definition readSelections :: "reader \<Rightarrow> selections option \<times> reader" where
  "readSelections r =
     (let (slotCount, r) = r_u32 r
      in if \<not> r_ok r \<or> unat slotCount > r_remaining r div 8 then (None, r)
         else readSlots (unat slotCount) [] r)"

section \<open>Attribute columns and feature edges\<close>

definition kNoElement :: nat where "kNoElement = 2 ^ 64 - 1"

fun columnTag :: "col_type \<Rightarrow> u8" where
  "columnTag TFloat = 0"
| "columnTag TInt32 = 1"
| "columnTag TVec2 = 2"
| "columnTag TVec3 = 3"
| "columnTag TVec4 = 4"

fun columnValueBytes :: "col_type \<Rightarrow> nat" where
  "columnValueBytes TVec2 = 8"
| "columnValueBytes TVec3 = 12"
| "columnValueBytes TVec4 = 16"
| "columnValueBytes _ = 4"

fun writeValue :: "bytes \<Rightarrow> row_value \<Rightarrow> bytes" where
  "writeValue w (RFloat v) = w_f32 w v"
| "writeValue w (RInt32 v) = w_i32 w v"
| "writeValue w (RVec2 v) = w_f32 (w_f32 w (v2x v)) (v2y v)"
| "writeValue w (RVec3 v) = w_f32 (w_f32 (w_f32 w (v3x v)) (v3y v)) (v3z v)"
| "writeValue w (RVec4 v) = w_f32 (w_f32 (w_f32 (w_f32 w (v4x v)) (v4y v)) (v4z v)) (v4w v)"

fun readValue :: "col_type \<Rightarrow> reader \<Rightarrow> row_value \<times> reader" where
  "readValue TFloat r = (let (v, r) = r_f32 r in (RFloat v, r))"
| "readValue TInt32 r = (let (v, r) = r_i32 r in (RInt32 v, r))"
| "readValue TVec2 r = (let (x, r) = r_f32 r; (y, r) = r_f32 r in (RVec2 \<lparr>v2x = x, v2y = y\<rparr>, r))"
| "readValue TVec3 r = (let (x, r) = r_f32 r; (y, r) = r_f32 r; (z, r) = r_f32 r
                        in (RVec3 \<lparr>v3x = x, v3y = y, v3z = z\<rparr>, r))"
| "readValue TVec4 r = (let (x, r) = r_f32 r; (y, r) = r_f32 r; (z, r) = r_f32 r; (a, r) = r_f32 r
                        in (RVec4 \<lparr>v4x = x, v4y = y, v4z = z, v4w = a\<rparr>, r))"

text \<open>The value of row \<open>i\<close>, the default past the end of the column.\<close>

definition columnValue :: "column \<Rightarrow> nat \<Rightarrow> row_value" where
  "columnValue c i = (if i < col_length c then col_get c i else zero_value (col_type_of c))"

definition writeColumn :: "bytes \<Rightarrow> bytes \<Rightarrow> column \<Rightarrow> nat list \<Rightarrow> bytes" where
  "writeColumn w name c order =
     fold (\<lambda>i w. writeValue w (columnValue c i)) order
       (w_u32 (w_u8 (w_str w name) (columnTag (col_type_of c))) (of_nat (length order)))"

definition writeAttributeSet :: "bytes \<Rightarrow> attribute_set \<Rightarrow> nat list \<Rightarrow> bytes" where
  "writeAttributeSet w attrs order =
     fold (\<lambda>(name, c) w. writeColumn w name c order) (as_columns attrs)
       (w_u32 w (of_nat (attr_columnCount attrs)))"

fun readRows :: "col_type \<Rightarrow> nat list \<Rightarrow> column \<Rightarrow> reader \<Rightarrow> column \<times> reader" where
  "readRows ty [] c r = (c, r)"
| "readRows ty (i # order) c r =
     (let (v, r) = readValue ty r
      in readRows ty order (if i < col_length c then col_set c i v else c) r)"

definition readColumn :: "col_type \<Rightarrow> bytes \<Rightarrow> nat list \<Rightarrow> attribute_set \<Rightarrow> reader \<Rightarrow> bool \<times> attribute_set \<times> reader" where
  "readColumn ty name order attrs r =
     (let (rows, r) = r_u32 r
      in if \<not> r_ok r \<or> unat rows \<noteq> length order \<or> unat rows > r_remaining r div columnValueBytes ty
         then (False, attrs, r)
         else
           (let attrs = attr_create ty name attrs
            in case attr_find ty name attrs of
                 None \<Rightarrow> (False, attrs, r)
               | Some c \<Rightarrow>
                   (let (c, r) = readRows ty order c r
                    in (r_ok r, attrs\<lparr>as_columns := omap_put name c (as_columns attrs)\<rparr>, r))))"

definition tagType :: "u8 \<Rightarrow> col_type option" where
  "tagType tag = (if tag = 0 then Some TFloat else if tag = 1 then Some TInt32 else if tag = 2 then Some TVec2
     else if tag = 3 then Some TVec3 else if tag = 4 then Some TVec4 else None)"

definition readColumnOfTag :: "u8 \<Rightarrow> bytes \<Rightarrow> nat list \<Rightarrow> attribute_set \<Rightarrow> reader \<Rightarrow> bool \<times> attribute_set \<times> reader" where
  "readColumnOfTag tag name order attrs r =
     (case tagType tag of Some ty \<Rightarrow> readColumn ty name order attrs r | None \<Rightarrow> (False, attrs, r))"

fun readColumns :: "nat \<Rightarrow> nat list \<Rightarrow> attribute_set \<Rightarrow> reader \<Rightarrow> bool \<times> attribute_set \<times> reader" where
  "readColumns 0 order attrs r = (r_ok r, attrs, r)"
| "readColumns (Suc n) order attrs r =
     (let (name, r) = r_str r; (tag, r) = r_u8 r
      in if \<not> r_ok r then (False, attrs, r)
         else (case readColumnOfTag tag name order attrs r of
                 (ok, attrs, r) \<Rightarrow> if \<not> ok then (False, attrs, r) else readColumns n order attrs r))"

definition readAttributeSet :: "nat list \<Rightarrow> attribute_set \<Rightarrow> reader \<Rightarrow> bool \<times> attribute_set \<times> reader" where
  "readAttributeSet order attrs r =
     (let (columns, r) = r_u32 r
      in if \<not> r_ok r \<or> unat columns > r_remaining r div 9 then (False, attrs, r)
         else readColumns (unat columns) order attrs r)"

record element_order =
  eo_vertices :: "nat list"
  eo_faces :: "nat list"
  eo_corners :: "nat list"

definition aliveFaces :: "mesh \<Rightarrow> nat list" where
  "aliveFaces m = filter (faceAlive m) [0..<length (m_faces m)]"

definition compactOrder :: "mesh \<Rightarrow> element_order option" where
  "compactOrder m = map_option (\<lambda>loops.
     \<lparr>eo_vertices = aliveIds m, eo_faces = aliveFaces m, eo_corners = concat loops\<rparr>)
     (omap_list (faceLoops m) (aliveFaces m))"

definition persistedEdges :: "mesh \<Rightarrow> nat list" where
  "persistedEdges m =
     (let everything = attr_columnCount (m_edgeAttrs m) > 0
      in filter (\<lambda>i. edgeAlive m i \<and> (everything \<or> me_feature (m_edges m ! i))) [0..<length (m_edges m)])"

definition hasMeshExtras :: "mesh \<Rightarrow> bool" where
  "hasMeshExtras m \<longleftrightarrow>
     attr_columnCount (m_vertexAttrs m) + attr_columnCount (m_edgeAttrs m) +
       attr_columnCount (m_faceAttrs m) + attr_columnCount (m_cornerAttrs m) > 0 \<or> persistedEdges m \<noteq> []"

definition compactVertex :: "mesh \<Rightarrow> nat list \<Rightarrow> nat list" where
  "compactVertex m vertices =
     fold (\<lambda>k cv. cv[vertices ! k := to_index k]) [0..<length vertices] (replicate (length (m_vertices m)) kInvalidIndex)"

definition writeEdgeRecord :: "mesh \<Rightarrow> nat list \<Rightarrow> nat \<Rightarrow> bytes \<Rightarrow> bytes" where
  "writeEdgeRecord m cv e w =
     w_u8 (w_u32 (w_u32 w (of_nat (cv ! me_v0 (m_edges m ! e)))) (of_nat (cv ! me_v1 (m_edges m ! e))))
       (if me_feature (m_edges m ! e) then 1 else 0)"

definition serializeMeshExtras :: "mesh \<Rightarrow> bytes option" where
  "serializeMeshExtras m = map_option (\<lambda>order.
     (let cv = compactVertex m (eo_vertices order);
          w = writeAttributeSet [] (m_vertexAttrs m) (eo_vertices order);
          w = writeAttributeSet w (m_faceAttrs m) (eo_faces order);
          w = writeAttributeSet w (m_cornerAttrs m) (eo_corners order);
          edges = persistedEdges m;
          w = w_u32 w (of_nat (length edges));
          w = fold (writeEdgeRecord m cv) edges w
      in writeAttributeSet w (m_edgeAttrs m) edges)) (compactOrder m)"

fun readEdgeLoop :: "nat \<Rightarrow> nat list \<Rightarrow> mesh \<Rightarrow> reader \<Rightarrow> nat list option \<times> mesh \<times> reader" where
  "readEdgeLoop 0 ids m r = (Some ids, m, r)"
| "readEdgeLoop (Suc n) ids m r =
     (let (a, r) = readIndex r; (b, r) = readIndex r; (feature, r) = r_u8 r
      in if \<not> r_ok r then (None, m, r)
         else
           (let edge = edgeBetween m a b
            in if \<not> id_valid edge then readEdgeLoop n (ids @ [kNoElement]) m r
               else readEdgeLoop n (ids @ [edge]) (setFeatureEdge edge (feature \<noteq> 0) m) r))"

definition readEdgeRecords :: "mesh \<Rightarrow> reader \<Rightarrow> nat list option \<times> mesh \<times> reader" where
  "readEdgeRecords m r =
     (let (count, r) = r_u32 r
      in if \<not> r_ok r \<or> unat count > r_remaining r div 9 then (None, m, r)
         else readEdgeLoop (unat count) [] m r)"

text \<open>
  The three element sets in turn, then the edges. The outer option is \<open>compactOrder\<close>; the flag is
  the function's result, and the mesh is what the reference argument holds afterwards.
\<close>

definition readMeshExtras :: "mesh \<Rightarrow> reader \<Rightarrow> (bool \<times> mesh) option" where
  "readMeshExtras m r = map_option (\<lambda>order.
     (case readAttributeSet (eo_vertices order) (m_vertexAttrs m) r of (ok, attrs, r) \<Rightarrow>
        (let m = m\<lparr>m_vertexAttrs := attrs\<rparr> in if \<not> ok then (False, m) else
        (case readAttributeSet (eo_faces order) (m_faceAttrs m) r of (ok, attrs, r) \<Rightarrow>
           (let m = m\<lparr>m_faceAttrs := attrs\<rparr> in if \<not> ok then (False, m) else
           (case readAttributeSet (eo_corners order) (m_cornerAttrs m) r of (ok, attrs, r) \<Rightarrow>
              (let m = m\<lparr>m_cornerAttrs := attrs\<rparr> in if \<not> ok then (False, m) else
              (case readEdgeRecords m r of
                 (None, m, r) \<Rightarrow> (False, m)
               | (Some edges, m, r) \<Rightarrow>
                   (case readAttributeSet edges (m_edgeAttrs m) r of (ok, attrs, r) \<Rightarrow>
                      (ok, m\<lparr>m_edgeAttrs := attrs\<rparr>)))))))))) (compactOrder m)"

section \<open>Save and load\<close>

definition writeSection :: "section_id \<times> bytes \<Rightarrow> bytes \<Rightarrow> bytes" where
  "writeSection s w = (case s of (sid, payload) \<Rightarrow>
     w_bytes (w_u64 (w_u32 w (section_code sid)) (of_nat (length payload))) payload)"

definition docSections :: "document \<Rightarrow> (section_id \<times> bytes) list option" where
  "docSections d =
     Option.bind (serializeMesh (doc_target d)) (\<lambda>target.
     Option.bind (serializeMesh (doc_editMesh d)) (\<lambda>editMesh.
     Option.bind (if hasMeshExtras (doc_target d) then map_option (\<lambda>x. [(TargetExtras, x)]) (serializeMeshExtras (doc_target d))
                  else Some []) (\<lambda>targetExtras.
     Option.bind (if hasMeshExtras (doc_editMesh d) then map_option (\<lambda>x. [(EditMeshExtras, x)]) (serializeMeshExtras (doc_editMesh d))
                  else Some []) (\<lambda>editExtras.
       Some ([(Target, target), (EditMesh, editMesh), (ParametersSec, serializeParams (doc_params d)),
              (BakeStateSec, serializeBake (doc_bake d))] @
             (if doc_softSelections d \<noteq> [] then
                [(SoftSelectionsSec, serializeSelections (compactSelections (doc_editMesh d) (doc_softSelections d)))]
              else []) @ targetExtras @ editExtras)))))"

definition saveDocument :: "document \<Rightarrow> bytes option" where
  "saveDocument d = map_option (\<lambda>sections.
     (let w = w_u32 (w_u32 (w_u32 [] kMagic) kFormatVersion) (of_nat (length sections))
      in fold writeSection sections w)) (docSections d)"

text \<open>One section: the inner option is the \<open>return std::nullopt\<close> of its case.\<close>

definition loadSection :: "u32 \<Rightarrow> reader \<Rightarrow> document \<Rightarrow> document option option" where
  "loadSection sid r d =
     (if sid = section_code Target then Some (map_option (\<lambda>m. d\<lparr>doc_target := m\<rparr>) (fst (readMesh r)))
      else if sid = section_code EditMesh then Some (map_option (\<lambda>m. d\<lparr>doc_editMesh := m\<rparr>) (fst (readMesh r)))
      else if sid = section_code ParametersSec then
        (let (p, r) = readParams r in Some (if \<not> r_ok r then None else Some (d\<lparr>doc_params := p\<rparr>)))
      else if sid = section_code BakeStateSec then
        (let (b, r) = readBake r in Some (if \<not> r_ok r then None else Some (d\<lparr>doc_bake := b\<rparr>)))
      else if sid = section_code SoftSelectionsSec then
        Some (map_option (\<lambda>s. d\<lparr>doc_softSelections := s\<rparr>) (fst (readSelections r)))
      else if sid = section_code TargetExtras then
        map_option (\<lambda>(ok, m). if ok then Some (d\<lparr>doc_target := m\<rparr>) else None) (readMeshExtras (doc_target d) r)
      else if sid = section_code EditMeshExtras then
        map_option (\<lambda>(ok, m). if ok then Some (d\<lparr>doc_editMesh := m\<rparr>) else None) (readMeshExtras (doc_editMesh d) r)
      else Some (Some d))"

fun loadSections :: "nat \<Rightarrow> reader \<Rightarrow> document \<Rightarrow> document option option" where
  "loadSections 0 r d = Some (Some d)"
| "loadSections (Suc n) r d =
     (let (sid, r) = r_u32 r; (len, r) = r_u64 r
      in if \<not> r_ok r then Some None
         else if unat len > r_remaining r then Some None
         else
           (let (sec, r) = r_sub (unat len) r
            in if \<not> r_ok r then Some None
               else Option.bind (loadSection sid sec d) (\<lambda>res.
                 case res of None \<Rightarrow> Some None | Some d \<Rightarrow> loadSections n r d)))"

definition loadDocument :: "bytes \<Rightarrow> document option option" where
  "loadDocument bs =
     (let r = mk_reader bs; (magic, r) = r_u32 r; (version, r) = r_u32 r; (sectionCount, r) = r_u32 r
      in if \<not> r_ok r \<or> magic \<noteq> kMagic \<or> version > kFormatVersion then Some None
         else loadSections (unat sectionCount) r document0)"

text \<open>The sink receives the buffer; the result is whether a save happened, the buffer, the document.\<close>

definition autosaveIfDirty :: "document \<Rightarrow> (bool \<times> bytes option \<times> document) option" where
  "autosaveIfDirty d =
     (if \<not> doc_dirty d then Some (False, None, d)
      else map_option (\<lambda>buffer. (True, Some buffer, d\<lparr>doc_dirty := False\<rparr>)) (saveDocument d))"

section \<open>Equality\<close>

definition sameVec3 :: "vec3 \<Rightarrow> vec3 \<Rightarrow> bool" where
  "sameVec3 a b \<longleftrightarrow> feq (v3x a) (v3x b) \<and> feq (v3y a) (v3y b) \<and> feq (v3z a) (v3z b)"

definition sameMesh :: "mesh \<Rightarrow> mesh \<Rightarrow> bool option" where
  "sameMesh a b = Option.bind (toIndexed a) (\<lambda>(pa, fa). map_option (\<lambda>(pb, fb).
     list_all2 sameVec3 pa pb \<and> fa = fb) (toIndexed b))"

definition sameParams :: "parameters \<Rightarrow> parameters \<Rightarrow> bool" where
  "sameParams a b \<longleftrightarrow> p_targetQuadCount a = p_targetQuadCount b \<and> feq (p_edgeScale a) (p_edgeScale b) \<and>
     feq (p_sharpEdgeDegrees a) (p_sharpEdgeDegrees b) \<and> feq (p_smoothNormalDegrees a) (p_smoothNormalDegrees b) \<and>
     feq (p_adaptivity a) (p_adaptivity b) \<and> p_pureQuads a = p_pureQuads b \<and>
     p_holeFillMaxBoundary a = p_holeFillMaxBoundary b \<and> p_smallPatchPolicy a = p_smallPatchPolicy b \<and>
     p_smallPatchMinFaces a = p_smallPatchMinFaces b"

definition sameBake :: "bake_state \<Rightarrow> bake_state \<Rightarrow> bool" where
  "sameBake a b \<longleftrightarrow> bk_map a = bk_map b \<and> bk_width a = bk_width b \<and> bk_height a = bk_height b \<and>
     feq (bk_cageDistance a) (bk_cageDistance b) \<and> bk_samples a = bk_samples b \<and> bk_baked a = bk_baked b \<and>
     bk_bakeRevision a = bk_bakeRevision b"

definition sameSelections :: "selections \<Rightarrow> selections \<Rightarrow> bool" where
  "sameSelections a b \<longleftrightarrow> list_all2 (\<lambda>(n, ws) (n', ws'). n = n' \<and> list_all2 feq ws ws') a b"

definition sameDocument :: "document \<Rightarrow> document \<Rightarrow> bool option" where
  "sameDocument a b =
     Option.bind (sameMesh (doc_target a) (doc_target b)) (\<lambda>t.
     map_option (\<lambda>e. t \<and> e \<and> sameParams (doc_params a) (doc_params b) \<and> sameBake (doc_bake a) (doc_bake b) \<and>
       sameSelections (compactSelections (doc_editMesh a) (doc_softSelections a))
         (compactSelections (doc_editMesh b) (doc_softSelections b)))
       (sameMesh (doc_editMesh a) (doc_editMesh b)))"

end
