(* ===== verification/DocCodec.thy ===== *)
theory DocCodec
  imports Document
begin

text \<open>
  Every part of the document container as an interpretation of the codec contracts of
  \<open>Serial\<close>: what the writer of a part appends, the reader of the part returns and consumes.
\<close>

lemmas rd_u8 = u8.rd_enc_pair [OF TrueI]
lemmas rd_u32 = u32.rd_enc_pair [OF TrueI]
lemmas rd_i32 = i32.rd_enc_pair [OF TrueI]
lemmas rd_f32 = f32.rd_enc_pair [OF TrueI]
lemmas rd_u64 = u64.rd_enc_pair [OF TrueI]

lemma fold_append: "(\<And>x w. x \<in> set xs \<Longrightarrow> f x w = w @ g x) \<Longrightarrow> fold f xs w = w @ concat (map g xs)"
  by (induction xs arbitrary: w) simp_all

lemma concat_length_ge: "(\<And>x. x \<in> set xs \<Longrightarrow> k \<le> length (f x)) \<Longrightarrow> k * length xs \<le> length (concat (map f xs))"
proof (induction xs)
  case (Cons x xs)
  then have "k \<le> length (f x)" "k * length xs \<le> length (concat (map f xs))" by simp_all
  then show ?case by simp
qed simp

lemma count_guard:
  assumes "\<And>x. x \<in> set xs \<Longrightarrow> k \<le> length (f x)" "0 < k" "reads_from r (concat (map f xs) @ rest)"
  shows "length xs \<le> r_remaining r div k"
proof -
  have "k * length xs \<le> r_remaining r"
    using concat_length_ge [of xs k f] assms(1) by (simp add: reads_from_remaining [OF assms(3)])
  then show ?thesis using assms(2) by (simp add: less_eq_div_iff_mult_less_eq mult.commute)
qed

section \<open>Indexed meshes\<close>

definition enc_vec3 :: "vec3 \<Rightarrow> bytes" where
  "enc_vec3 p = enc_u32 (v3x p) @ enc_u32 (v3y p) @ enc_u32 (v3z p)"

definition enc_index :: "nat \<Rightarrow> bytes" where
  "enc_index i = enc_u32 (of_nat i)"

definition enc_face :: "nat list \<Rightarrow> bytes" where
  "enc_face f = enc_u32 (of_nat (length f)) @ concat (map enc_index f)"

lemma enc_lengths [simp]: "length (enc_vec3 p) = 12" "length (enc_index i) = 4"
  by (simp_all add: enc_vec3_def enc_index_def)

lemma readVec3_enc: "reads_from r (enc_vec3 p @ rest) \<Longrightarrow> \<exists>r'. readVec3 r = (p, r') \<and> reads_from r' rest"
proof -
  assume "reads_from r (enc_vec3 p @ rest)"
  then have "reads_from r (enc_u32 (v3x p) @ enc_u32 (v3y p) @ enc_u32 (v3z p) @ rest)" by (simp add: enc_vec3_def)
  then obtain r1 where r1: "r_f32 r = (v3x p, r1)" "reads_from r1 (enc_u32 (v3y p) @ enc_u32 (v3z p) @ rest)"
    using rd_f32 by blast
  obtain r2 where r2: "r_f32 r1 = (v3y p, r2)" "reads_from r2 (enc_u32 (v3z p) @ rest)" using rd_f32 [OF r1(2)] by blast
  obtain r3 where r3: "r_f32 r2 = (v3z p, r3)" "reads_from r3 rest" using rd_f32 [OF r2(2)] by blast
  then show ?thesis by (simp add: readVec3_def r1 r2)
qed

lemma readVec3_advances: "advances r (snd (readVec3 r))"
  using f32.rd_advances by (auto simp: readVec3_def split: prod.splits intro: advances_trans)
    (metis advances_trans snd_conv)

interpretation vec3_codec: codec enc_vec3 readVec3 "\<lambda>_. True"
  by unfold_locales (use readVec3_enc readVec3_advances in \<open>fastforce+\<close>)

definition index_valid :: "nat \<Rightarrow> bool" where
  "index_valid i \<longleftrightarrow> i < 2 ^ 32"

interpretation index_codec: codec enc_index readIndex index_valid
proof unfold_locales
  fix i r rest
  assume "index_valid i" "reads_from r (enc_index i @ rest)"
  then show "fst (readIndex r) = i \<and> reads_from (snd (readIndex r)) rest"
    using rd_u32 [of r "of_nat i" rest]
    by (auto simp: readIndex_def enc_index_def index_valid_def unat_of_nat)
next
  show "advances r (snd (readIndex r))" for r
    using u32.rd_advances [of r] by (auto simp: readIndex_def split: prod.splits)
qed

type_synonym indexed = "vec3 list \<times> nat list list"

definition indexed_valid :: "indexed \<Rightarrow> bool" where
  "indexed_valid x \<longleftrightarrow> fits_u32 (fst x) \<and> fits_u32 (snd x) \<and>
     (\<forall>f \<in> set (snd x). fits_u32 f \<and> (\<forall>i \<in> set f. index_valid i))"

definition enc_indexed :: "indexed \<Rightarrow> bytes" where
  "enc_indexed x = serializeIndexed (fst x) (snd x)"

lemma enc_indexed_eq:
  "enc_indexed (ps, fs) = enc_u32 (of_nat (length ps)) @ concat (map enc_vec3 ps) @
     enc_u32 (of_nat (length fs)) @ concat (map enc_face fs)"
proof -
  have face: "writeFace w f = w @ enc_face f" for w f
  proof -
    have "fold (\<lambda>vi w. w_u32 w (of_nat vi)) f w' = w' @ concat (map enc_index f)" for w'
      by (rule fold_append) (simp add: w_append enc_index_def)
    then show ?thesis by (simp add: writeFace_def w_append enc_face_def)
  qed
  have "fold (\<lambda>p w. writeVec3 w p) ps w' = w' @ concat (map enc_vec3 ps)" for w'
    by (rule fold_append) (simp add: writeVec3_def w_append enc_vec3_def)
  moreover have "fold (\<lambda>f w. writeFace w f) fs w' = w' @ concat (map enc_face fs)" for w'
    by (rule fold_append) (simp add: face)
  ultimately show ?thesis by (simp add: enc_indexed_def serializeIndexed_def w_append Let_def)
qed

lemma readFaces_enc:
  "\<forall>f \<in> set fs. fits_u32 f \<and> (\<forall>i \<in> set f. index_valid i) \<Longrightarrow> reads_from r (concat (map enc_face fs) @ rest) \<Longrightarrow>
    \<exists>r'. readFaces (length fs) acc r = (Some (acc @ fs), r') \<and> reads_from r' rest"
proof (induction fs arbitrary: acc r)
  case (Cons f fs)
  have f: "fits_u32 f" "\<forall>i \<in> set f. index_valid i" using Cons.prems(1) by auto
  have "reads_from r (enc_u32 (of_nat (length f)) @ concat (map enc_index f) @ concat (map enc_face fs) @ rest)"
    using Cons.prems(2) by (simp add: enc_face_def [of f])
  then obtain r1 where r1: "r_u32 r = (of_nat (length f), r1)"
      "reads_from r1 (concat (map enc_index f) @ concat (map enc_face fs) @ rest)"
    using rd_u32 by blast
  have "length f \<le> r_remaining r1 div 4" by (rule count_guard [OF _ _ r1(2)]) simp_all
  moreover obtain r2 where r2: "rd_list readIndex (length f) r1 = (f, r2)" "reads_from r2 (concat (map enc_face fs) @ rest)"
    using index_codec.rd_list_enc [OF f(2) r1(2)] by blast
  moreover obtain r3 where "readFaces (length fs) (acc @ [f]) r2 = (Some ((acc @ [f]) @ fs), r3)" "reads_from r3 rest"
    using Cons.IH [OF _ r2(2)] Cons.prems(1) by fastforce
  ultimately show ?case using f(1) by (simp add: r1)
qed simp

interpretation indexed_codec: ocodec enc_indexed readIndexed indexed_valid
proof unfold_locales
  fix x r rest
  assume v: "indexed_valid x" and e: "reads_from r (enc_indexed x @ rest)"
  obtain ps fs where x: "x = (ps, fs)" by (cases x)
  have fits: "fits_u32 ps" "fits_u32 fs" "\<forall>f \<in> set fs. fits_u32 f \<and> (\<forall>i \<in> set f. index_valid i)"
    using v by (simp_all add: indexed_valid_def x)
  have "reads_from r (enc_u32 (of_nat (length ps)) @ concat (map enc_vec3 ps) @
      enc_u32 (of_nat (length fs)) @ concat (map enc_face fs) @ rest)"
    using e by (simp add: x enc_indexed_eq)
  then obtain r1 where r1: "r_u32 r = (of_nat (length ps), r1)"
      "reads_from r1 (concat (map enc_vec3 ps) @ enc_u32 (of_nat (length fs)) @ concat (map enc_face fs) @ rest)"
    using rd_u32 by blast
  have g1: "length ps \<le> r_remaining r1 div 12" by (rule count_guard [OF _ _ r1(2)]) simp_all
  obtain r2 where r2: "rd_list readVec3 (length ps) r1 = (ps, r2)"
      "reads_from r2 (enc_u32 (of_nat (length fs)) @ concat (map enc_face fs) @ rest)"
    using vec3_codec.rd_list_enc [OF _ r1(2)] by blast
  obtain r3 where r3: "r_u32 r2 = (of_nat (length fs), r3)" "reads_from r3 (concat (map enc_face fs) @ rest)"
    using rd_u32 [OF r2(2)] by blast
  have g3: "length fs \<le> r_remaining r3 div 4" by (rule count_guard [OF _ _ r3(2)]) (simp_all add: enc_face_def)
  obtain r4 where r4: "readFaces (length fs) [] r3 = (Some fs, r4)" "reads_from r4 rest"
    using readFaces_enc [OF fits(3) r3(2), of "[]"] by auto
  show "\<exists>r'. readIndexed r = (Some x, r') \<and> reads_from r' rest"
    using r4 reads_from_ok [OF r4(2)] g1 g3 fits(1,2) by (simp add: readIndexed_def r1 r2 r3 x)
qed

section \<open>Parameters, bake state and selections\<close>

lemma byte_flag: "((if b then 1 else 0 :: u8) \<noteq> 0) = b"
  by simp

lemma readParams_enc: "reads_from r (serializeParams p @ rest) \<Longrightarrow> \<exists>r'. readParams r = (p, r') \<and> reads_from r' rest"
proof -
  let ?flag = "if p_pureQuads p then 1 else 0 :: u8"
  assume "reads_from r (serializeParams p @ rest)"
  then have r0: "reads_from r (enc_u32 (p_targetQuadCount p) @ enc_u32 (p_edgeScale p) @ enc_u32 (p_sharpEdgeDegrees p) @
      enc_u32 (p_smoothNormalDegrees p) @ enc_u32 (p_adaptivity p) @ enc_u8 ?flag @
      enc_u32 (p_holeFillMaxBoundary p) @ enc_u32 (p_smallPatchPolicy p) @ enc_u32 (p_smallPatchMinFaces p) @ rest)"
    by (simp add: serializeParams_def w_append Let_def)
  obtain r1 where r1: "r_i32 r = (p_targetQuadCount p, r1)" "reads_from r1 (enc_u32 (p_edgeScale p) @
      enc_u32 (p_sharpEdgeDegrees p) @ enc_u32 (p_smoothNormalDegrees p) @ enc_u32 (p_adaptivity p) @ enc_u8 ?flag @
      enc_u32 (p_holeFillMaxBoundary p) @ enc_u32 (p_smallPatchPolicy p) @ enc_u32 (p_smallPatchMinFaces p) @ rest)"
    using rd_i32 [OF r0] by blast
  obtain r2 where r2: "r_f32 r1 = (p_edgeScale p, r2)" "reads_from r2 (enc_u32 (p_sharpEdgeDegrees p) @
      enc_u32 (p_smoothNormalDegrees p) @ enc_u32 (p_adaptivity p) @ enc_u8 ?flag @
      enc_u32 (p_holeFillMaxBoundary p) @ enc_u32 (p_smallPatchPolicy p) @ enc_u32 (p_smallPatchMinFaces p) @ rest)"
    using rd_f32 [OF r1(2)] by blast
  obtain r3 where r3: "r_f32 r2 = (p_sharpEdgeDegrees p, r3)" "reads_from r3 (enc_u32 (p_smoothNormalDegrees p) @
      enc_u32 (p_adaptivity p) @ enc_u8 ?flag @
      enc_u32 (p_holeFillMaxBoundary p) @ enc_u32 (p_smallPatchPolicy p) @ enc_u32 (p_smallPatchMinFaces p) @ rest)"
    using rd_f32 [OF r2(2)] by blast
  obtain r4 where r4: "r_f32 r3 = (p_smoothNormalDegrees p, r4)" "reads_from r4 (enc_u32 (p_adaptivity p) @ enc_u8 ?flag @
      enc_u32 (p_holeFillMaxBoundary p) @ enc_u32 (p_smallPatchPolicy p) @ enc_u32 (p_smallPatchMinFaces p) @ rest)"
    using rd_f32 [OF r3(2)] by blast
  obtain r5 where r5: "r_f32 r4 = (p_adaptivity p, r5)" "reads_from r5 (enc_u8 ?flag @
      enc_u32 (p_holeFillMaxBoundary p) @ enc_u32 (p_smallPatchPolicy p) @ enc_u32 (p_smallPatchMinFaces p) @ rest)"
    using rd_f32 [OF r4(2)] by blast
  obtain r6 where r6: "r_u8 r5 = (?flag, r6)" "reads_from r6 (enc_u32 (p_holeFillMaxBoundary p) @
      enc_u32 (p_smallPatchPolicy p) @ enc_u32 (p_smallPatchMinFaces p) @ rest)"
    using rd_u8 [OF r5(2)] by blast
  obtain r7 where r7: "r_i32 r6 = (p_holeFillMaxBoundary p, r7)"
      "reads_from r7 (enc_u32 (p_smallPatchPolicy p) @ enc_u32 (p_smallPatchMinFaces p) @ rest)"
    using rd_i32 [OF r6(2)] by blast
  obtain r8 where r8: "r_u32 r7 = (p_smallPatchPolicy p, r8)" "reads_from r8 (enc_u32 (p_smallPatchMinFaces p) @ rest)"
    using rd_u32 [OF r7(2)] by blast
  obtain r9 where r9: "r_i32 r8 = (p_smallPatchMinFaces p, r9)" "reads_from r9 rest"
    using rd_i32 [OF r8(2)] by blast
  show ?thesis using r9(2)
    by (simp add: readParams_def r1(1) r2(1) r3(1) r4(1) r5(1) r6(1) r7(1) r8(1) r9(1) byte_flag)
qed

interpretation params_codec: ocodec serializeParams "\<lambda>r. map_prod Some (\<lambda>r. r) (readParams r)" "\<lambda>_. True"
  by unfold_locales (auto dest: readParams_enc)

lemma readBake_enc: "reads_from r (serializeBake b @ rest) \<Longrightarrow> \<exists>r'. readBake r = (b, r') \<and> reads_from r' rest"
proof -
  let ?flag = "if bk_baked b then 1 else 0 :: u8"
  assume "reads_from r (serializeBake b @ rest)"
  then have r0: "reads_from r (enc_u32 (bk_map b) @ enc_u32 (bk_width b) @ enc_u32 (bk_height b) @
      enc_u32 (bk_cageDistance b) @ enc_u32 (bk_samples b) @ enc_u8 ?flag @ enc_u64 (bk_bakeRevision b) @ rest)"
    by (simp add: serializeBake_def w_append Let_def)
  obtain r1 where r1: "r_u32 r = (bk_map b, r1)" "reads_from r1 (enc_u32 (bk_width b) @ enc_u32 (bk_height b) @
      enc_u32 (bk_cageDistance b) @ enc_u32 (bk_samples b) @ enc_u8 ?flag @ enc_u64 (bk_bakeRevision b) @ rest)"
    using rd_u32 [OF r0] by blast
  obtain r2 where r2: "r_i32 r1 = (bk_width b, r2)" "reads_from r2 (enc_u32 (bk_height b) @
      enc_u32 (bk_cageDistance b) @ enc_u32 (bk_samples b) @ enc_u8 ?flag @ enc_u64 (bk_bakeRevision b) @ rest)"
    using rd_i32 [OF r1(2)] by blast
  obtain r3 where r3: "r_i32 r2 = (bk_height b, r3)" "reads_from r3 (enc_u32 (bk_cageDistance b) @
      enc_u32 (bk_samples b) @ enc_u8 ?flag @ enc_u64 (bk_bakeRevision b) @ rest)"
    using rd_i32 [OF r2(2)] by blast
  obtain r4 where r4: "r_f32 r3 = (bk_cageDistance b, r4)"
      "reads_from r4 (enc_u32 (bk_samples b) @ enc_u8 ?flag @ enc_u64 (bk_bakeRevision b) @ rest)"
    using rd_f32 [OF r3(2)] by blast
  obtain r5 where r5: "r_i32 r4 = (bk_samples b, r5)" "reads_from r5 (enc_u8 ?flag @ enc_u64 (bk_bakeRevision b) @ rest)"
    using rd_i32 [OF r4(2)] by blast
  obtain r6 where r6: "r_u8 r5 = (?flag, r6)" "reads_from r6 (enc_u64 (bk_bakeRevision b) @ rest)"
    using rd_u8 [OF r5(2)] by blast
  obtain r7 where r7: "r_u64 r6 = (bk_bakeRevision b, r7)" "reads_from r7 rest"
    using rd_u64 [OF r6(2)] by blast
  show ?thesis using r7(2)
    by (simp add: readBake_def r1(1) r2(1) r3(1) r4(1) r5(1) r6(1) r7(1) byte_flag)
qed

interpretation bake_codec: ocodec serializeBake "\<lambda>r. map_prod Some (\<lambda>r. r) (readBake r)" "\<lambda>_. True"
  by unfold_locales (auto dest: readBake_enc)

definition enc_slot :: "bytes \<times> f32 list \<Rightarrow> bytes" where
  "enc_slot s = enc_str (fst s) @ enc_u32 (of_nat (length (snd s))) @ concat (map enc_u32 (snd s))"

definition slots_valid :: "selections \<Rightarrow> bool" where
  "slots_valid s \<longleftrightarrow> omap_inv s \<and> fits_u32 s \<and> (\<forall>(n, ws) \<in> set s. fits_u32 n \<and> fits_u32 ws)"

lemma serializeSelections_eq:
  "serializeSelections s = enc_u32 (of_nat (length s)) @ concat (map enc_slot s)"
proof -
  have "writeSlot w n ws = w @ enc_slot (n, ws)" for w n ws
  proof -
    have "fold (\<lambda>v w. w_f32 w v) ws w' = w' @ concat (map enc_u32 ws)" for w'
      by (rule fold_append) (simp add: w_append)
    then show ?thesis by (simp add: writeSlot_def enc_slot_def w_append)
  qed
  then have "fold (\<lambda>(n, ws) w. writeSlot w n ws) s w' = w' @ concat (map enc_slot s)" for w'
    by (intro fold_append) auto
  then show ?thesis by (simp add: serializeSelections_def w_append)
qed

lemma readSlots_enc:
  "\<forall>(n, ws) \<in> set s. fits_u32 n \<and> fits_u32 ws \<Longrightarrow> reads_from r (concat (map enc_slot s) @ rest) \<Longrightarrow>
    \<exists>r'. readSlots (length s) acc r = (Some (fold (\<lambda>(n, ws). omap_emplace n ws) s acc), r') \<and> reads_from r' rest"
proof (induction s arbitrary: acc r)
  case Nil
  then show ?case using reads_from_ok [of r rest] by auto
next
  case (Cons e s)
  obtain n ws where e: "e = (n, ws)" by (cases e)
  have fits: "fits_u32 n" "fits_u32 ws" using Cons.prems(1) by (auto simp: e)
  have "reads_from r (enc_str n @ enc_u32 (of_nat (length ws)) @ concat (map enc_u32 ws) @ concat (map enc_slot s) @ rest)"
    using Cons.prems(2) by (simp add: e enc_slot_def [of "(n, ws)"])
  then obtain r1 where r1: "r_str r = (n, r1)"
      "reads_from r1 (enc_u32 (of_nat (length ws)) @ concat (map enc_u32 ws) @ concat (map enc_slot s) @ rest)"
    using str.rd_enc_pair [OF fits(1)] by blast
  obtain r2 where r2: "r_u32 r1 = (of_nat (length ws), r2)"
      "reads_from r2 (concat (map enc_u32 ws) @ concat (map enc_slot s) @ rest)"
    using rd_u32 [OF r1(2)] by blast
  have g: "length ws \<le> r_remaining r2 div 4" by (rule count_guard [OF _ _ r2(2)]) simp_all
  obtain r3 where r3: "rd_list r_f32 (length ws) r2 = (ws, r3)" "reads_from r3 (concat (map enc_slot s) @ rest)"
    using f32.rd_list_enc [OF _ r2(2)] by blast
  obtain r4 where "readSlots (length s) (omap_emplace n ws acc) r3 =
      (Some (fold (\<lambda>(n, ws). omap_emplace n ws) s (omap_emplace n ws acc)), r4)" "reads_from r4 rest"
    using Cons.IH [OF _ r3(2), of "omap_emplace n ws acc"] Cons.prems(1) by auto
  then show ?case using g fits(2) reads_from_ok [OF r2(2)] r1(1) r2(1) r3(1) by (simp add: e)
qed

lemma emplace_rebuild: "omap_inv s \<Longrightarrow> fold (\<lambda>(n, ws). omap_emplace n ws) s [] = s"
  using fold_emplace_find [of "[]" s "\<lambda>x. x"] std_map.rebuild [of s] omap_inv_distinct [of s]
  by (simp add: omap_visit_def omap_find_def case_prod_beta')

interpretation selections_codec: ocodec serializeSelections readSelections slots_valid
proof unfold_locales
  fix s r rest
  assume v: "slots_valid s" and "reads_from r (serializeSelections s @ rest)"
  then have "reads_from r (enc_u32 (of_nat (length s)) @ concat (map enc_slot s) @ rest)"
    by (simp add: serializeSelections_eq)
  then obtain r1 where r1: "r_u32 r = (of_nat (length s), r1)" "reads_from r1 (concat (map enc_slot s) @ rest)"
    using rd_u32 by blast
  have g: "length s \<le> r_remaining r1 div 8" by (rule count_guard [OF _ _ r1(2)]) (simp_all add: enc_slot_def)
  obtain r2 where "readSlots (length s) [] r1 = (Some s, r2)" "reads_from r2 rest"
    using readSlots_enc [OF _ r1(2), of "[]"] v emplace_rebuild [of s] by (auto simp: slots_valid_def)
  then show "\<exists>r'. readSelections r = (Some s, r') \<and> reads_from r' rest"
    using g v r1(1) reads_from_ok [OF r1(2)] by (simp add: readSelections_def slots_valid_def)
qed

end
