(* ===== verification/DocAttrs.thy ===== *)
theory DocAttrs
  imports DocCodec
begin

text \<open>
  The attribute sections of a document: what \<open>writeAttributeSet\<close> writes in one element order,
  \<open>readAttributeSet\<close> puts back on the elements of another order, row by row.
\<close>

definition enc_value :: "row_value \<Rightarrow> bytes" where
  "enc_value v = writeValue [] v"

lemma writeValue_append: "writeValue w v = w @ enc_value v"
  by (cases v) (simp_all add: enc_value_def w_append)

lemma enc_value_length [simp]: "length (enc_value v) = columnValueBytes (val_type_of v)"
  by (cases v) (simp_all add: enc_value_def w_append)

lemma readValue_enc:
  assumes "val_type_of v = ty" "reads_from r (enc_value v @ rest)"
  shows "\<exists>r'. readValue ty r = (v, r') \<and> reads_from r' rest"
proof (cases v)
  case (RFloat a)
  then show ?thesis using assms rd_f32 [of r a rest] by (auto simp: enc_value_def w_append)
next
  case (RInt32 a)
  then show ?thesis using assms rd_i32 [of r a rest] by (auto simp: enc_value_def w_append)
next
  case (RVec2 a)
  with assms have "reads_from r (enc_u32 (v2x a) @ enc_u32 (v2y a) @ rest)" by (simp add: enc_value_def w_append)
  then obtain r1 where r1: "r_f32 r = (v2x a, r1)" "reads_from r1 (enc_u32 (v2y a) @ rest)" using rd_f32 by blast
  obtain r2 where r2: "r_f32 r1 = (v2y a, r2)" "reads_from r2 rest" using rd_f32 [OF r1(2)] by blast
  then show ?thesis using assms(1) RVec2 r1 by auto
next
  case (RVec3 a)
  with assms(2) have "reads_from r (enc_vec3 a @ rest)" by (simp add: enc_value_def w_append enc_vec3_def)
  from readVec3_enc [OF this] show ?thesis using assms(1) RVec3
    by (auto simp: readVec3_def split: prod.splits)
next
  case (RVec4 a)
  with assms have "reads_from r (enc_u32 (v4x a) @ enc_u32 (v4y a) @ enc_u32 (v4z a) @ enc_u32 (v4w a) @ rest)"
    by (simp add: enc_value_def w_append)
  then obtain r1 where r1: "r_f32 r = (v4x a, r1)" "reads_from r1 (enc_u32 (v4y a) @ enc_u32 (v4z a) @ enc_u32 (v4w a) @ rest)"
    using rd_f32 by blast
  obtain r2 where r2: "r_f32 r1 = (v4y a, r2)" "reads_from r2 (enc_u32 (v4z a) @ enc_u32 (v4w a) @ rest)"
    using rd_f32 [OF r1(2)] by blast
  obtain r3 where r3: "r_f32 r2 = (v4z a, r3)" "reads_from r3 (enc_u32 (v4w a) @ rest)" using rd_f32 [OF r2(2)] by blast
  obtain r4 where r4: "r_f32 r3 = (v4w a, r4)" "reads_from r4 rest" using rd_f32 [OF r3(2)] by blast
  then show ?thesis using assms(1) RVec4 r1 r2 r3 by auto
qed

lemma columnValue_type [simp]: "val_type_of (columnValue c i) = col_type_of c"
  by (simp add: columnValue_def)

lemma tagType_columnTag [simp]: "tagType (columnTag ty) = Some ty"
  by (cases ty) (simp_all add: tagType_def)

section \<open>One column\<close>

definition put_row :: "nat \<times> row_value \<Rightarrow> column \<Rightarrow> column" where
  "put_row p c = (case p of (i, v) \<Rightarrow> if i < col_length c then col_set c i v else c)"

definition fill :: "nat list \<Rightarrow> row_value list \<Rightarrow> column \<Rightarrow> column" where
  "fill order vs c = fold put_row (zip order vs) c"

lemma put_row_shape [simp]: "col_length (put_row p c) = col_length c" "col_type_of (put_row p c) = col_type_of c"
  by (auto simp: put_row_def split: prod.splits)

lemma fill_shape [simp]: "col_length (fill order vs c) = col_length c" "col_type_of (fill order vs c) = col_type_of c"
proof -
  have "col_length (fold put_row xs c) = col_length c \<and> col_type_of (fold put_row xs c) = col_type_of c" for xs
    by (induction xs arbitrary: c) simp_all
  then show "col_length (fill order vs c) = col_length c" "col_type_of (fill order vs c) = col_type_of c"
    by (simp_all add: fill_def)
qed

lemma fill_other: "i \<notin> set order \<Longrightarrow> col_get (fill order vs c) i = col_get c i"
proof -
  have "\<forall>p \<in> set xs. fst p \<noteq> i \<Longrightarrow> col_get (fold put_row xs c) i = col_get c i" for xs
    by (induction xs arbitrary: c) (auto simp: put_row_def col_get_set_other split: prod.splits)
  then show "i \<notin> set order \<Longrightarrow> col_get (fill order vs c) i = col_get c i"
    by (simp add: fill_def) (metis prod.collapse set_zip_leftD)
qed

lemma fill_get:
  "distinct order \<Longrightarrow> length vs = length order \<Longrightarrow> \<forall>i \<in> set order. i < col_length c \<Longrightarrow>
    \<forall>v \<in> set vs. val_type_of v = col_type_of c \<Longrightarrow> k < length order \<Longrightarrow> col_get (fill order vs c) (order ! k) = vs ! k"
proof (induction order arbitrary: vs c k)
  case (Cons i order)
  then obtain v ws where vs: "vs = v # ws" by (cases vs) auto
  have step: "fill (i # order) vs c = fill order ws (put_row (i, v) c)" by (simp add: fill_def vs)
  show ?case
  proof (cases k)
    case 0
    have "i \<notin> set order" using Cons.prems(1) by simp
    then have "col_get (fill (i # order) vs c) i = col_get (put_row (i, v) c) i"
      unfolding step by (rule fill_other)
    also have "\<dots> = v" using Cons.prems(3,4) by (simp add: put_row_def vs col_get_set)
    finally show ?thesis by (simp add: 0 vs)
  next
    case (Suc j)
    then show ?thesis unfolding step using Cons.IH [of ws "put_row (i, v) c" j] Cons.prems by (simp add: vs)
  qed
qed simp

definition enc_rows :: "column \<Rightarrow> nat list \<Rightarrow> bytes" where
  "enc_rows c order = concat (map (\<lambda>i. enc_value (columnValue c i)) order)"

lemma readRows_enc:
  "length src = length order \<Longrightarrow> reads_from r (enc_rows c src @ rest) \<Longrightarrow>
    \<exists>r'. readRows (col_type_of c) order c0 r = (fill order (map (columnValue c) src) c0, r') \<and> reads_from r' rest"
proof (induction order arbitrary: src c0 r)
  case (Cons i order)
  then obtain j js where src: "src = j # js" by (cases src) auto
  have "reads_from r (enc_value (columnValue c j) @ enc_rows c js @ rest)"
    using Cons.prems(2) by (simp add: src enc_rows_def)
  then obtain r1 where r1: "readValue (col_type_of c) r = (columnValue c j, r1)" "reads_from r1 (enc_rows c js @ rest)"
    using readValue_enc [OF columnValue_type] by blast
  with Cons.IH [of js r1 "put_row (i, columnValue c j) c0"] Cons.prems(1) show ?case
    by (simp add: src fill_def put_row_def)
qed (simp add: fill_def enc_rows_def)

section \<open>A set of columns\<close>

definition enc_column :: "nat list \<Rightarrow> bytes \<times> column \<Rightarrow> bytes" where
  "enc_column order nc = enc_str (fst nc) @ enc_u8 (columnTag (col_type_of (snd nc))) @
     enc_u32 (of_nat (length order)) @ enc_rows (snd nc) order"

definition enc_attrs :: "attribute_set \<Rightarrow> nat list \<Rightarrow> bytes" where
  "enc_attrs a order = enc_u32 (of_nat (attr_columnCount a)) @ concat (map (enc_column order) (as_columns a))"

lemma writeAttributeSet_append: "writeAttributeSet w a order = w @ enc_attrs a order"
proof -
  have "writeColumn w n c order = w @ enc_column order (n, c)" for w n c
  proof -
    have "fold (\<lambda>i w. writeValue w (columnValue c i)) order w' = w' @ enc_rows c order" for w'
      unfolding enc_rows_def by (rule fold_append) (simp add: writeValue_append)
    then show ?thesis by (simp add: writeColumn_def enc_column_def w_append)
  qed
  then have "fold (\<lambda>(n, c) w. writeColumn w n c order) (as_columns a) w' =
      w' @ concat (map (enc_column order) (as_columns a))" for w'
    by (intro fold_append) auto
  then show ?thesis by (simp add: writeAttributeSet_def enc_attrs_def w_append)
qed

definition restoreColumn :: "nat list \<Rightarrow> nat list \<Rightarrow> bytes \<times> column \<Rightarrow> attribute_set \<Rightarrow> attribute_set" where
  "restoreColumn src order nc a =
     (let a1 = attr_create (col_type_of (snd nc)) (fst nc) a
      in case attr_find (col_type_of (snd nc)) (fst nc) a1 of
           None \<Rightarrow> a1
         | Some c0 \<Rightarrow> a1\<lparr>as_columns := omap_put (fst nc) (fill order (map (columnValue (snd nc)) src) c0) (as_columns a1)\<rparr>)"

lemma attr_find_create: "attr_inv a \<Longrightarrow> \<exists>c. attr_find ty n (attr_create ty n a) = Some c \<and> col_length c = as_size a"
proof (cases "omap_find (as_columns a) n")
  case None
  then show "attr_inv a \<Longrightarrow> ?thesis" by (simp add: attr_find_def attr_create_def attr_inv_def)
next
  case (Some c)
  then show "attr_inv a \<Longrightarrow> ?thesis"
    by (cases "col_type_of c = ty") (simp_all add: attr_find_def attr_create_def attr_inv_def)
qed

lemma restoreColumn_inv: "attr_inv a \<Longrightarrow> attr_inv (restoreColumn src order nc a) \<and> as_size (restoreColumn src order nc a) = as_size a"
proof -
  assume a: "attr_inv a"
  let ?ty = "col_type_of (snd nc)" and ?a1 = "attr_create (col_type_of (snd nc)) (fst nc) a"
  obtain c where c: "attr_find ?ty (fst nc) ?a1 = Some c" "col_length c = as_size a"
    using attr_find_create [OF a] by blast
  have "attr_inv ?a1" using a by (rule attr_inv_create)
  then show ?thesis using c by (auto simp: restoreColumn_def Let_def attr_inv_def split: if_splits)
qed

definition columns_valid :: "attribute_set \<Rightarrow> bool" where
  "columns_valid a \<longleftrightarrow> fits_u32 (as_columns a) \<and> (\<forall>(n, c) \<in> set (as_columns a). fits_u32 n)"

lemma value_bytes_pos: "0 < columnValueBytes ty"
  by (cases ty) simp_all

lemma readColumn_enc:
  assumes a: "attr_inv a" and n: "length src = length order" "fits_u32 src"
    and r: "reads_from r (enc_u32 (of_nat (length src)) @ enc_rows c src @ rest)"
  shows "\<exists>r'. readColumn (col_type_of c) name order a r = (True, restoreColumn src order (name, c) a, r') \<and> reads_from r' rest"
proof -
  obtain r1 where r1: "r_u32 r = (of_nat (length src), r1)" "reads_from r1 (enc_rows c src @ rest)"
    using rd_u32 [OF r] by blast
  have g: "length src \<le> r_remaining r1 div columnValueBytes (col_type_of c)"
    by (rule count_guard [OF _ value_bytes_pos r1(2) [unfolded enc_rows_def]]) simp
  obtain c0 where c0: "attr_find (col_type_of c) name (attr_create (col_type_of c) name a) = Some c0"
    using attr_find_create [OF a] by blast
  obtain r2 where r2: "readRows (col_type_of c) order c0 r1 = (fill order (map (columnValue c) src) c0, r2)" "reads_from r2 rest"
    using readRows_enc [OF n(1) r1(2)] by blast
  have u: "unat (of_nat (length src) :: u32) = length src" using n(2) by simp
  have "readColumn (col_type_of c) name order a r = (True, restoreColumn src order (name, c) a, r2)"
    unfolding readColumn_def r1(1) Let_def split u
    using g n(1) r2(1) c0 reads_from_ok [OF r1(2)] reads_from_ok [OF r2(2)]
    by (simp add: restoreColumn_def Let_def)
  then show ?thesis using r2(2) by blast
qed

lemma readColumns_enc:
  assumes n: "length src = length order" "fits_u32 src"
  shows "attr_inv a \<Longrightarrow> \<forall>(n, c) \<in> set cs. fits_u32 n \<Longrightarrow> reads_from r (concat (map (enc_column src) cs) @ rest) \<Longrightarrow>
    \<exists>r'. readColumns (length cs) order a r = (True, fold (restoreColumn src order) cs a, r') \<and> reads_from r' rest"
proof (induction cs arbitrary: a r)
  case Nil
  then show ?case using reads_from_ok [of r rest] by auto
next
  case (Cons e cs)
  obtain name c where e: "e = (name, c)" by (cases e)
  have f: "fits_u32 name" using Cons.prems(2) by (auto simp: e)
  have "reads_from r (enc_str name @ enc_u8 (columnTag (col_type_of c)) @ enc_u32 (of_nat (length src)) @ enc_rows c src @
      concat (map (enc_column src) cs) @ rest)"
    using Cons.prems(3) by (simp add: e enc_column_def [of src "(name, c)"])
  then obtain r1 where r1: "r_str r = (name, r1)" "reads_from r1 (enc_u8 (columnTag (col_type_of c)) @
      enc_u32 (of_nat (length src)) @ enc_rows c src @ concat (map (enc_column src) cs) @ rest)"
    using str.rd_enc_pair [OF f] by blast
  obtain r2 where r2: "r_u8 r1 = (columnTag (col_type_of c), r2)"
      "reads_from r2 (enc_u32 (of_nat (length src)) @ enc_rows c src @ concat (map (enc_column src) cs) @ rest)"
    using rd_u8 [OF r1(2)] by blast
  obtain r3 where r3: "readColumn (col_type_of c) name order a r2 = (True, restoreColumn src order (name, c) a, r3)"
      "reads_from r3 (concat (map (enc_column src) cs) @ rest)"
    using readColumn_enc [OF Cons.prems(1) n r2(2)] by blast
  have "attr_inv (restoreColumn src order (name, c) a)" using restoreColumn_inv [OF Cons.prems(1)] by blast
  from Cons.IH [OF this _ r3(2)] Cons.prems(2) show ?case
    using r1(1) r2(1) r3(1) reads_from_ok [OF r2(2)] by (simp add: e readColumnOfTag_def)
qed

definition restoreAttrs :: "nat list \<Rightarrow> nat list \<Rightarrow> attribute_set \<Rightarrow> attribute_set \<Rightarrow> attribute_set" where
  "restoreAttrs src order a0 a = fold (restoreColumn src order) (as_columns a0) a"

lemma readAttributeSet_enc:
  assumes "attr_inv a" "columns_valid a0" "length src = length order" "fits_u32 src"
    and r: "reads_from r (enc_attrs a0 src @ rest)"
  shows "\<exists>r'. readAttributeSet order a r = (True, restoreAttrs src order a0 a, r') \<and> reads_from r' rest"
proof -
  have "reads_from r (enc_u32 (of_nat (length (as_columns a0))) @ concat (map (enc_column src) (as_columns a0)) @ rest)"
    using r by (simp add: enc_attrs_def attr_columnCount_def)
  then obtain r1 where r1: "r_u32 r = (of_nat (length (as_columns a0)), r1)"
      "reads_from r1 (concat (map (enc_column src) (as_columns a0)) @ rest)"
    using rd_u32 by blast
  have g: "length (as_columns a0) \<le> r_remaining r1 div 9"
    by (rule count_guard [OF _ _ r1(2)]) (simp_all add: enc_column_def)
  have v: "fits_u32 (as_columns a0)" "\<forall>(n, c) \<in> set (as_columns a0). fits_u32 n"
    using assms(2) by (simp_all add: columns_valid_def)
  show ?thesis
    using readColumns_enc [OF assms(3,4,1) v(2) r1(2)] g v(1) r1(1) reads_from_ok [OF r1(2)]
    by (simp add: readAttributeSet_def restoreAttrs_def)
qed

lemma restoreAttrs_inv:
  "attr_inv a \<Longrightarrow> attr_inv (restoreAttrs src order a0 a) \<and> as_size (restoreAttrs src order a0 a) = as_size a"
proof -
  have "attr_inv a \<Longrightarrow> attr_inv (fold (restoreColumn src order) cs a) \<and>
      as_size (fold (restoreColumn src order) cs a) = as_size a" for cs
    by (induction cs arbitrary: a) (use restoreColumn_inv in auto)
  then show "attr_inv a \<Longrightarrow> ?thesis" by (simp add: restoreAttrs_def)
qed

text \<open>Reading into a set without columns rebuilds every column, row by row.\<close>

lemma restoreColumns_find:
  "attr_inv a \<Longrightarrow> distinct (map fst cs) \<Longrightarrow> \<forall>n \<in> fst ` set cs. omap_find (as_columns a) n = None \<Longrightarrow>
    omap_find (as_columns (fold (restoreColumn src order) cs a)) n =
      (case map_of cs n of None \<Rightarrow> omap_find (as_columns a) n
       | Some c \<Rightarrow> Some (fill order (map (columnValue c) src) (fresh_column (col_type_of c) (as_size a))))"
proof (induction cs arbitrary: a)
  case (Cons e cs)
  obtain name c where e: "e = (name, c)" by (cases e)
  define a' where "a' = restoreColumn src order e a"
  have inv: "attr_inv a'" "as_size a' = as_size a" using restoreColumn_inv [OF Cons.prems(1)] by (simp_all add: a'_def)
  have "omap_find (as_columns a) name = None" using Cons.prems(3) by (simp add: e)
  moreover have "omap_inv (as_columns a)" using Cons.prems(1) by (simp add: attr_inv_def)
  ultimately have a': "omap_find (as_columns a') = (omap_find (as_columns a))
      (name \<mapsto> fill order (map (columnValue c) src) (fresh_column (col_type_of c) (as_size a)))"
    by (simp add: a'_def restoreColumn_def e attr_create_def attr_find_def Let_def)
  have "\<forall>n \<in> fst ` set cs. omap_find (as_columns a') n = None"
    using Cons.prems(2,3) by (auto simp: a' e rev_image_eqI)
  from Cons.IH [OF inv(1) _ this] Cons.prems(2)
  have ih: "omap_find (as_columns (fold (restoreColumn src order) cs a')) n =
      (case map_of cs n of None \<Rightarrow> omap_find (as_columns a') n
       | Some c \<Rightarrow> Some (fill order (map (columnValue c) src) (fresh_column (col_type_of c) (as_size a))))"
    unfolding inv(2) by (simp add: e)
  have "map_of cs name = None" using Cons.prems(2) by (simp add: e map_of_eq_None_iff)
  moreover have "fold (restoreColumn src order) (e # cs) a = fold (restoreColumn src order) cs a'" by (simp add: a'_def)
  ultimately show ?case using ih by (auto simp: e a' split: option.splits)
qed simp

definition rows_restored :: "nat list \<Rightarrow> nat list \<Rightarrow> attribute_set \<Rightarrow> attribute_set \<Rightarrow> bool" where
  "rows_restored src order a0 a \<longleftrightarrow> dom (omap_find (as_columns a)) = dom (omap_find (as_columns a0)) \<and>
     (\<forall>n c. omap_find (as_columns a0) n = Some c \<longrightarrow> (\<exists>c'. omap_find (as_columns a) n = Some c' \<and>
        col_type_of c' = col_type_of c \<and> (\<forall>k < length order. col_get c' (order ! k) = columnValue c (src ! k))))"

lemma restoreAttrs_rows:
  assumes "attr_inv a" "as_columns a = []" "attr_inv a0" "length src = length order" "distinct order"
    "\<forall>i \<in> set order. i < as_size a"
  shows "rows_restored src order a0 (restoreAttrs src order a0 a)"
proof -
  have d: "distinct (map fst (as_columns a0))" using assms(3) by (simp add: attr_inv_def omap_inv_distinct)
  have f: "omap_find (as_columns (restoreAttrs src order a0 a)) n = map_option
      (\<lambda>c. fill order (map (columnValue c) src) (fresh_column (col_type_of c) (as_size a))) (omap_find (as_columns a0) n)" for n
    using restoreColumns_find [OF assms(1) d, of src order n]
    by (simp add: restoreAttrs_def assms(2) omap_find_def split: option.splits)
  have "col_get (fill order (map (columnValue c) src) (fresh_column (col_type_of c) (as_size a))) (order ! k) = columnValue c (src ! k)"
    if "k < length order" for c k
    using fill_get [of order "map (columnValue c) src" "fresh_column (col_type_of c) (as_size a)" k] assms(4-6) that by simp
  then show ?thesis unfolding rows_restored_def by (auto simp: f dom_def)
qed

end
