(* ===== verification/MeshCheck.thy ===== *)
theory MeshCheck
  imports MeshBuild Text
begin

text \<open>
  \<open>src/core/src/mesh_diagnostics.cpp\<close>: the structural validator \<open>validate\<close>, the
  face-connected components \<open>islands\<close>, and \<open>tagFeatureEdges\<close>. The arc cosine of
  \<open>tagFeatureEdges\<close> is a parameter.
\<close>

section \<open>Definitions\<close>

definition fail :: "string \<Rightarrow> nat \<Rightarrow> string" where
  "fail what i = what @ '' #'' @ decimal i"

definition check :: "bool \<Rightarrow> string \<Rightarrow> nat \<Rightarrow> string list" where
  "check bad what i = (if bad then [fail what i] else [])"

definition validateLoop :: "mesh \<Rightarrow> nat \<Rightarrow> string list" where
  "validateLoop m i =
     (let l = m_loops m ! i
      in if \<not> ml_alive l then []
         else if \<not> vertexAlive m (ml_vertex l) then [fail ''loop with dead vertex'' i]
         else if \<not> faceAlive m (ml_face l) then [fail ''loop with dead face'' i]
         else if \<not> id_valid (ml_edge l) \<or> \<not> me_alive (m_edges m ! ml_edge l) then [fail ''loop with dead edge'' i]
         else
           check (ml_prev (m_loops m ! ml_next l) \<noteq> i) ''broken next/prev reciprocity at loop'' i @
           check (ml_rprev (m_loops m ! ml_rnext l) \<noteq> i) ''broken radial reciprocity at loop'' i @
           check (ml_edge (m_loops m ! ml_rnext l) \<noteq> ml_edge l) ''radial neighbor on different edge at loop'' i @
           check (ml_face (m_loops m ! ml_next l) \<noteq> ml_face l) ''face cycle crosses faces at loop'' i @
           (let e = m_edges m ! ml_edge l; u = ml_vertex l; w = ml_vertex (m_loops m ! ml_next l)
            in check (\<not> edge_joins e u w) ''loop edge does not connect its corners at loop'' i))"

text \<open>Counts the steps around a face, giving up after \<open>limit\<close> of them.\<close>

function faceSteps :: "(nat \<Rightarrow> nat) \<Rightarrow> nat \<Rightarrow> nat \<Rightarrow> nat \<Rightarrow> nat \<Rightarrow> nat" where
  "faceSteps next first limit l steps =
     (let steps = steps + 1; l = next l
      in if l \<noteq> first \<and> steps \<le> limit then faceSteps next first limit l steps else steps)"
  by pat_completeness auto
termination
  by (relation "measure (\<lambda>(next, first, limit, l, steps). Suc limit - steps)") auto

declare faceSteps.simps [simp del]

definition validateFace :: "mesh \<Rightarrow> nat \<Rightarrow> string list" where
  "validateFace m i =
     (let f = m_faces m ! i
      in if \<not> mf_alive f then []
         else if \<not> id_valid (mf_first f) \<or> \<not> ml_alive (m_loops m ! mf_first f) then [fail ''face with dead first loop'' i]
         else
           check (faceSteps (\<lambda>l. ml_next (m_loops m ! l)) (mf_first f) (to_index (mf_size f + 1)) (mf_first f) 0 \<noteq> mf_size f)
             ''face size does not match its loop cycle at face'' i @
           check (mf_size f < 3) ''face with fewer than 3 corners'' i)"

definition validateEdge :: "mesh \<Rightarrow> nat \<Rightarrow> string list" where
  "validateEdge m i =
     (let e = m_edges m ! i
      in if \<not> me_alive e then []
         else
           check (me_v0 e = me_v1 e) ''edge with identical endpoints'' i @
           (if \<not> vertexAlive m (me_v0 e) \<or> \<not> vertexAlive m (me_v1 e) then [fail ''edge with dead endpoint'' i]
            else
              concat (map (\<lambda>v. check (count_list (mv_edges (m_vertices m ! v)) i \<noteq> 1)
                ''edge not registered exactly once on its vertex, edge'' i) [me_v0 e, me_v1 e]) @
              check (\<not> id_valid (me_radial e)) ''edge with no incident face (wire edges unsupported)'' i))"

definition validateVertex :: "mesh \<Rightarrow> nat \<Rightarrow> string list" where
  "validateVertex m i =
     (let v = m_vertices m ! i
      in if \<not> mv_alive v then []
         else concat (map (\<lambda>e.
           if \<not> id_valid e \<or> \<not> me_alive (m_edges m ! e) then [fail ''vertex listing dead edge, vertex'' i]
           else check (me_v0 (m_edges m ! e) \<noteq> i \<and> me_v1 (m_edges m ! e) \<noteq> i)
                  ''vertex listing foreign edge, vertex'' i) (mv_edges v)))"

definition validate :: "mesh \<Rightarrow> string list" where
  "validate m =
     (let aliveV = length (filter mv_alive (m_vertices m));
          aliveE = length (filter me_alive (m_edges m));
          aliveF = length (filter mf_alive (m_faces m));
          aliveL = length (filter ml_alive (m_loops m))
      in concat (map (validateLoop m) [0..<length (m_loops m)]) @
         concat (map (validateFace m) [0..<length (m_faces m)]) @
         concat (map (validateEdge m) [0..<length (m_edges m)]) @
         concat (map (validateVertex m) [0..<length (m_vertices m)]) @
         check (aliveV \<noteq> m_aliveVertices m) ''alive vertex counter mismatch, expected'' (to_index aliveV) @
         check (aliveE \<noteq> m_aliveEdges m) ''alive edge counter mismatch, expected'' (to_index aliveE) @
         check (aliveF \<noteq> m_aliveFaces m) ''alive face counter mismatch, expected'' (to_index aliveF) @
         check (aliveL \<noteq> m_aliveLoops m) ''alive loop counter mismatch, expected'' (to_index aliveL))"

text \<open>The other corners of a loop's radial cycle, in the order of the walk.\<close>

definition radialOthers :: "mesh \<Rightarrow> nat \<Rightarrow> nat list option" where
  "radialOthers m l = map_option tl (walk (\<lambda>r. ml_rnext (m_loops m ! r)) l l)"

definition visitNeighbor :: "mesh \<Rightarrow> nat \<Rightarrow> nat list \<times> bool list \<Rightarrow> nat list \<times> bool list" where
  "visitNeighbor m r st = (case st of (stack, visited) \<Rightarrow>
     (let neighbor = ml_face (m_loops m ! r)
      in if visited ! neighbor then st else (stack @ [neighbor], visited[neighbor := True])))"

definition visitCorner :: "mesh \<Rightarrow> nat \<Rightarrow> nat list \<times> bool list \<Rightarrow> (nat list \<times> bool list) option" where
  "visitCorner m l st = map_option (\<lambda>rs. fold (visitNeighbor m) rs st) (radialOthers m l)"

partial_function (option) growIsland :: "mesh \<Rightarrow> nat list \<Rightarrow> nat list \<Rightarrow> bool list \<Rightarrow> (nat list \<times> bool list) option" where
  "growIsland m island stack visited =
     (if stack = [] then Some (island, visited)
      else
        Option.bind (faceLoops m (last stack)) (\<lambda>loops.
        Option.bind (ofold (visitCorner m) loops (butlast stack, visited)) (\<lambda>(stack', visited).
          growIsland m (island @ [last stack]) stack' visited)))"

definition islandFrom :: "mesh \<Rightarrow> nat \<Rightarrow> nat list list \<times> bool list \<Rightarrow> (nat list list \<times> bool list) option" where
  "islandFrom m seed st = (case st of (result, visited) \<Rightarrow>
     if \<not> mf_alive (m_faces m ! seed) \<or> visited ! seed then Some st
     else map_option (\<lambda>(island, visited). (result @ [sort island], visited))
            (growIsland m [] [seed] (visited[seed := True])))"

definition islands :: "mesh \<Rightarrow> nat list list option" where
  "islands m = map_option fst
     (ofold (islandFrom m) [0..<length (m_faces m)] ([], replicate (length (m_faces m)) False))"

section \<open>The invariant passes validation\<close>

lemma check_ok [simp]: "check False what i = []"
  by (simp add: check_def)

lemma validateLoop_ok:
  assumes m: "mesh_inv m" and that: "i < length (m_loops m)"
  shows "validateLoop m i = []"
proof (cases "loopAlive m i")
  case False
  then show ?thesis using that by (simp add: validateLoop_def loopAlive_def Let_def)
next
  case True
  note c = mesh_invD(7) [OF m True]
  let ?e = "ml_edge (lp m i)"
  have e: "edgeAlive m ?e" "?e < kInvalidIndex"
    using c mesh_invD(3) [OF m] alive_bound(2) [OF mesh_invD(1) [OF m]]
    by (auto simp: corner_ok_def radial_inv_def)
  obtain ls where ls: "face_ring m (ml_face (lp m i)) ls" using mesh_inv_face [OF m] c by blast
  then have "i \<in> set ls" using True by (simp add: face_ring_def)
  then have nx: "ml_prev (lp m (ml_next (lp m i))) = i" "ml_next (lp m i) \<in> set ls"
    using ring_next [of "\<lambda>l. ml_next (lp m l)" "\<lambda>l. ml_prev (lp m l)" ls i] ls by (auto simp: face_ring_def)
  then have fc: "ml_face (lp m (ml_next (lp m i))) = ml_face (lp m i)" using ls by (simp add: face_ring_def)
  have ok: "radial_ok m ?e" "me_radial (ed m ?e) \<noteq> kInvalidIndex"
    using e mesh_invD(3,4) [OF m] by (auto simp: radial_inv_def no_wire_def)
  obtain xs where r: "ring (\<lambda>l. ml_rnext (lp m l)) (\<lambda>l. ml_rprev (lp m l)) (me_radial (ed m ?e) # xs)"
      and s: "set (me_radial (ed m ?e) # xs) = {l. linked m l \<and> ml_edge (lp m l) = ?e}"
    using radial_members [OF ok] .
  have "i \<in> set (me_radial (ed m ?e) # xs)" using s c by (simp add: corner_ok_def)
  from ring_next [OF r this] have rx: "ml_rprev (lp m (ml_rnext (lp m i))) = i"
      "ml_rnext (lp m i) \<in> set (me_radial (ed m ?e) # xs)" by simp_all
  then have "ml_edge (lp m (ml_rnext (lp m i))) = ?e" using s by blast
  then show ?thesis
    using c e nx(1) fc rx(1) True
    by (simp add: validateLoop_def Let_def id_valid_def edgeAlive_def corner_ok_def loopAlive_def)
qed

lemma faceSteps_chain:
  "chain n p a xs z \<Longrightarrow> z \<notin> set xs \<Longrightarrow> steps + length xs \<le> limit \<Longrightarrow>
    faceSteps n z limit a steps = steps + Suc (length xs)"
proof (induction xs arbitrary: a steps)
  case Nil
  then show ?case by (subst faceSteps.simps) (simp add: Let_def)
next
  case (Cons x xs)
  then show ?case by (subst faceSteps.simps) (auto simp: Let_def)
qed

lemma validateFace_ok:
  assumes m: "mesh_inv m" and room: "capacity m 1" and that: "i < length (m_faces m)"
  shows "validateFace m i = []"
proof (cases "faceAlive m i")
  case False
  then show ?thesis using that by (simp add: validateFace_def faceAlive_def Let_def)
next
  case True
  obtain ls where ls: "face_ring m i ls" using mesh_inv_face [OF m True] .
  then obtain x xs where x: "ls = x # xs" "x = mf_first (fc m i)" by (cases ls) (auto simp: face_ring_def)
  have lp: "loopAlive m x" "set ls = {l. loopAlive m l \<and> ml_face (lp m l) = i}" "distinct ls"
      "chain (\<lambda>l. ml_next (lp m l)) (\<lambda>l. ml_prev (lp m l)) x xs x" "mf_size (fc m i) = Suc (length xs)" "2 \<le> length xs"
    using ls unfolding face_ring_def x(1) by auto
  have b: "x < kInvalidIndex" using alive_bound(4) [OF mesh_invD(1) [OF m] lp(1)] .
  have "set ls \<subseteq> {..<length (m_loops m)}" using lp(2) by (auto simp: loopAlive_def)
  then have "length ls \<le> length (m_loops m)"
    using card_mono [of "{..<length (m_loops m)}" "set ls"] distinct_card [OF lp(3)] by simp
  then have "mf_size (fc m i) + 1 < 2 ^ 32"
    using room lp(5) by (simp add: capacity_def kInvalidIndex_def x)
  then have "faceSteps (\<lambda>l. ml_next (lp m l)) x (to_index (mf_size (fc m i) + 1)) x 0 = mf_size (fc m i)"
    using faceSteps_chain [OF lp(4), of 0] lp(3,5) by (simp add: x to_index_def)
  then show ?thesis
    using lp b True x(2) by (simp add: validateFace_def Let_def id_valid_def faceAlive_def loopAlive_def)
qed

lemma validateEdge_ok:
  assumes m: "mesh_inv m" and that: "i < length (m_edges m)"
  shows "validateEdge m i = []"
proof (cases "edgeAlive m i")
  case False
  then show ?thesis using that by (simp add: validateEdge_def edgeAlive_def Let_def)
next
  case True
  note d = edges_invD [OF mesh_invD(2) [OF m] True]
  have "count_list (mv_edges (vx m (me_v0 (ed m i)))) i = 1" "count_list (mv_edges (vx m (me_v1 (ed m i)))) i = 1"
    using d edges_inv_vertexD(1) [OF mesh_invD(2) [OF m]] by (simp_all add: count_list_distinct)
  then show ?thesis
    using d mesh_invD(4) [OF m] True
    by (simp add: validateEdge_def Let_def id_valid_def no_wire_def edgeAlive_def)
qed

lemma validateVertex_ok:
  assumes m: "mesh_inv m" and that: "i < length (m_vertices m)"
  shows "validateVertex m i = []"
proof (cases "vertexAlive m i")
  case False
  then show ?thesis using that by (simp add: validateVertex_def vertexAlive_def Let_def)
next
  case True
  have "edgeAlive m e \<and> e < kInvalidIndex \<and> (me_v0 (ed m e) = i \<or> me_v1 (ed m e) = i)"
    if "e \<in> set (mv_edges (vx m i))" for e
    using that edges_inv_vertexD(2) [OF mesh_invD(2) [OF m] True, of e] alive_bound(2) [OF mesh_invD(1) [OF m]]
    by auto
  then show ?thesis
    using True by (auto simp: validateVertex_def Let_def id_valid_def edgeAlive_def vertexAlive_def check_def)
qed

lemma length_filter_card: "length (filter P xs) = card {i. i < length xs \<and> P (xs ! i)}"
  by (rule length_filter_conv_card)

lemma validate_inv:
  assumes m: "mesh_inv m" and room: "capacity m 1"
  shows "validate m = []"
proof -
  have "concat (map (validateLoop m) [0..<length (m_loops m)]) = []"
    "concat (map (validateFace m) [0..<length (m_faces m)]) = []"
    "concat (map (validateEdge m) [0..<length (m_edges m)]) = []"
    "concat (map (validateVertex m) [0..<length (m_vertices m)]) = []"
    by (simp_all add: validateLoop_ok [OF m] validateFace_ok [OF m room] validateEdge_ok [OF m] validateVertex_ok [OF m])
  moreover have "length (filter mv_alive (m_vertices m)) = m_aliveVertices m"
    "length (filter me_alive (m_edges m)) = m_aliveEdges m"
    "length (filter mf_alive (m_faces m)) = m_aliveFaces m"
    "length (filter ml_alive (m_loops m)) = m_aliveLoops m"
    using mesh_invD(1) [OF m]
    by (simp_all add: pools_inv_def length_filter_card vpool.pool_inv_def epool.pool_inv_def fpool.pool_inv_def
        lpool.pool_inv_def vertexAlive_def edgeAlive_def faceAlive_def loopAlive_def)
  ultimately show ?thesis by (simp add: validate_def Let_def)
qed

end
