(* ===== verification/MeshIslands.thy ===== *)
theory MeshIslands
  imports MeshCheck
begin

text \<open>
  The islands of a mesh are the classes of the faces under sharing an edge: the depth-first
  search of \<open>Mesh::islands\<close> returns, visits every face once, and groups two faces exactly
  when a path of shared edges joins them.
\<close>

section \<open>Neighbours\<close>

definition adjacent :: "mesh \<Rightarrow> nat \<Rightarrow> nat \<Rightarrow> bool" where
  "adjacent m f g \<longleftrightarrow> (\<exists>l r. loopAlive m l \<and> loopAlive m r \<and> ml_edge (lp m l) = ml_edge (lp m r) \<and>
     ml_face (lp m l) = f \<and> ml_face (lp m r) = g)"

definition neighbors :: "mesh \<Rightarrow> nat \<Rightarrow> nat set" where
  "neighbors m f = {g. \<exists>l r. loopAlive m l \<and> loopAlive m r \<and> r \<noteq> l \<and> ml_edge (lp m l) = ml_edge (lp m r) \<and>
     ml_face (lp m l) = f \<and> ml_face (lp m r) = g}"

lemma adjacent_sym: "adjacent m f g \<Longrightarrow> adjacent m g f"
  unfolding adjacent_def by metis

lemma neighbors_adjacent: "g \<in> neighbors m f \<Longrightarrow> adjacent m f g"
  by (auto simp: neighbors_def adjacent_def)

lemma adjacent_neighbors: "adjacent m f g \<Longrightarrow> g = f \<or> g \<in> neighbors m f"
  by (auto simp: neighbors_def adjacent_def)

lemma adjacent_alive: "mesh_inv m \<Longrightarrow> adjacent m f g \<Longrightarrow> faceAlive m f \<and> faceAlive m g"
  using mesh_invD(7) by (auto simp: adjacent_def)

lemma radialOthers_some:
  assumes m: "mesh_inv m" and l: "loopAlive m l"
  obtains rs where "radialOthers m l = Some rs"
    "set rs = {r. loopAlive m r \<and> r \<noteq> l \<and> ml_edge (lp m r) = ml_edge (lp m l)}"
proof -
  let ?e = "ml_edge (lp m l)"
  have lk: "linked m r = loopAlive m r" for r
    using mesh_invD(7) [OF m, of r] by (auto simp: corner_ok_def linked_def)
  have e: "edgeAlive m ?e" using l mesh_invD(3) [OF m] by (simp add: radial_inv_def lk)
  then have ok: "radial_ok m ?e" "me_radial (ed m ?e) \<noteq> kInvalidIndex"
    using mesh_invD(3,4) [OF m] by (auto simp: radial_inv_def no_wire_def)
  obtain xs where r: "ring (\<lambda>l. ml_rnext (lp m l)) (\<lambda>l. ml_rprev (lp m l)) (me_radial (ed m ?e) # xs)"
      and s: "set (me_radial (ed m ?e) # xs) = {l. linked m l \<and> ml_edge (lp m l) = ?e}"
    using radial_members [OF ok] .
  have "l \<in> set (me_radial (ed m ?e) # xs)" using s l lk by simp
  from ring_rotate_to [OF r this] obtain ys
    where y: "ring (\<lambda>l. ml_rnext (lp m l)) (\<lambda>l. ml_rprev (lp m l)) (l # ys)"
      "set (l # ys) = {r. linked m r \<and> ml_edge (lp m r) = ?e}"
    using s by auto
  have "l \<notin> set ys" using y(1) by simp
  then have "set ys = {r. loopAlive m r \<and> r \<noteq> l \<and> ml_edge (lp m r) = ?e}" using y(2) lk by auto
  moreover have "radialOthers m l = Some ys" using walk_ring [OF y(1)] by (simp add: radialOthers_def)
  ultimately show ?thesis using that by blast
qed

section \<open>One step of the search\<close>

definition visited_set :: "bool list \<Rightarrow> nat set" where
  "visited_set vis = {i. i < length vis \<and> vis ! i}"

definition explored :: "nat set \<Rightarrow> nat list \<times> bool list \<Rightarrow> nat list \<times> bool list \<Rightarrow> bool" where
  "explored F st st' \<longleftrightarrow> (\<exists>new. fst st' = fst st @ new \<and> distinct new \<and> set new = F - visited_set (snd st) \<and>
     visited_set (snd st') = visited_set (snd st) \<union> F \<and> length (snd st') = length (snd st))"

lemma explored_empty: "explored {} st st"
  by (simp add: explored_def)

lemma explored_trans:
  assumes "explored F a b" "explored G b c"
  shows "explored (F \<union> G) a c"
proof -
  obtain u v where "fst b = fst a @ u" "distinct u" "set u = F - visited_set (snd a)"
      "visited_set (snd b) = visited_set (snd a) \<union> F" "length (snd b) = length (snd a)"
      "fst c = fst b @ v" "distinct v" "set v = G - visited_set (snd b)"
      "visited_set (snd c) = visited_set (snd b) \<union> G" "length (snd c) = length (snd b)"
    using assms unfolding explored_def by blast
  then show ?thesis unfolding explored_def by (intro exI [of _ "u @ v"]) auto
qed

lemma visitNeighbor_explored:
  assumes "ml_face (lp m r) < length vis"
  shows "explored {ml_face (lp m r)} (stack, vis) (visitNeighbor m r (stack, vis))"
proof (cases "vis ! ml_face (lp m r)")
  case True
  then show ?thesis using assms by (auto simp: explored_def visitNeighbor_def visited_set_def)
next
  case False
  have "visited_set (vis[ml_face (lp m r) := True]) = insert (ml_face (lp m r)) (visited_set vis)"
    using assms by (auto simp: visited_set_def nth_list_update)
  with False show ?thesis
    by (auto simp: explored_def visitNeighbor_def visited_set_def Let_def)
qed

lemma visitNeighbors_explored:
  "\<forall>r \<in> set rs. ml_face (lp m r) < length (snd st) \<Longrightarrow>
    explored ((\<lambda>r. ml_face (lp m r)) ` set rs) st (fold (visitNeighbor m) rs st)"
proof (induction rs arbitrary: st)
  case (Cons r rs)
  let ?st' = "visitNeighbor m r st"
  have e: "explored {ml_face (lp m r)} st ?st'"
    using visitNeighbor_explored [of m r "snd st" "fst st"] Cons.prems by simp
  then have "length (snd ?st') = length (snd st)" by (auto simp: explored_def)
  then have "explored ((\<lambda>r. ml_face (lp m r)) ` set rs) ?st' (fold (visitNeighbor m) rs ?st')"
    using Cons by simp
  from explored_trans [OF e this] show ?case by simp
qed (simp add: explored_empty)

definition corner_faces :: "mesh \<Rightarrow> nat \<Rightarrow> nat set" where
  "corner_faces m l = {ml_face (lp m r) |r. loopAlive m r \<and> r \<noteq> l \<and> ml_edge (lp m r) = ml_edge (lp m l)}"

lemma visitCorner_explored:
  assumes m: "mesh_inv m" and l: "loopAlive m l" and len: "length (snd st) = length (m_faces m)"
  shows "\<exists>st'. visitCorner m l st = Some st' \<and> explored (corner_faces m l) st st'"
proof -
  obtain rs where rs: "radialOthers m l = Some rs"
      "set rs = {r. loopAlive m r \<and> r \<noteq> l \<and> ml_edge (lp m r) = ml_edge (lp m l)}"
    using radialOthers_some [OF m l] .
  have "\<forall>r \<in> set rs. ml_face (lp m r) < length (snd st)"
    using rs(2) mesh_invD(7) [OF m] len by (auto simp: faceAlive_def)
  from visitNeighbors_explored [OF this]
  have "explored ((\<lambda>r. ml_face (lp m r)) ` set rs) st (fold (visitNeighbor m) rs st)" .
  moreover have "(\<lambda>r. ml_face (lp m r)) ` set rs = corner_faces m l" unfolding rs(2) corner_faces_def by blast
  ultimately show ?thesis using rs(1) by (simp add: visitCorner_def)
qed

lemma visitCorners_explored:
  assumes m: "mesh_inv m"
  shows "\<forall>l \<in> set ls. loopAlive m l \<Longrightarrow> length (snd st) = length (m_faces m) \<Longrightarrow>
    \<exists>st'. ofold (visitCorner m) ls st = Some st' \<and> explored (\<Union>l \<in> set ls. corner_faces m l) st st'"
proof (induction ls arbitrary: st)
  case (Cons l ls)
  obtain st1 where st1: "visitCorner m l st = Some st1" "explored (corner_faces m l) st st1"
    using visitCorner_explored [OF m, of l st] Cons.prems by auto
  then have "length (snd st1) = length (m_faces m)" using Cons.prems(2) by (auto simp: explored_def)
  then obtain st2 where "ofold (visitCorner m) ls st1 = Some st2"
      "explored (\<Union>l \<in> set ls. corner_faces m l) st1 st2"
    using Cons by fastforce
  with st1 explored_trans show ?case by fastforce
qed (simp add: explored_empty)

lemma expand_face:
  assumes m: "mesh_inv m" and f: "faceAlive m f" and len: "length vis = length (m_faces m)"
  shows "\<exists>loops st'. faceLoops m f = Some loops \<and> ofold (visitCorner m) loops (stack, vis) = Some st' \<and>
    explored (neighbors m f) (stack, vis) st'"
proof -
  obtain ls where ls: "face_ring m f ls" using mesh_inv_face [OF m f] .
  then have s: "set ls = {l. loopAlive m l \<and> ml_face (lp m l) = f}" by (simp add: face_ring_def)
  have n: "(\<Union>l \<in> set ls. corner_faces m l) = neighbors m f"
  proof (intro equalityI subsetI)
    fix g assume "g \<in> (\<Union>l \<in> set ls. corner_faces m l)"
    then obtain l r where "l \<in> set ls" "g = ml_face (lp m r)" "loopAlive m r" "r \<noteq> l"
        "ml_edge (lp m r) = ml_edge (lp m l)"
      unfolding corner_faces_def by blast
    then show "g \<in> neighbors m f" using s unfolding neighbors_def mem_Collect_eq
      by (intro exI [of _ l] exI [of _ r]) simp
  next
    fix g assume "g \<in> neighbors m f"
    then obtain l r where "loopAlive m l" "loopAlive m r" "r \<noteq> l" "ml_edge (lp m l) = ml_edge (lp m r)"
        "ml_face (lp m l) = f" "ml_face (lp m r) = g"
      unfolding neighbors_def mem_Collect_eq by blast
    then show "g \<in> (\<Union>l \<in> set ls. corner_faces m l)"
      unfolding s corner_faces_def by (intro UN_I [of l] CollectI exI [of _ r]) simp_all
  qed
  have "\<forall>l \<in> set ls. loopAlive m l" using s by simp
  from visitCorners_explored [OF m this, of "(stack, vis)"] len
  show ?thesis by (simp add: face_ring_walk(1) [OF ls] n)
qed

section \<open>One island\<close>

definition connected :: "mesh \<Rightarrow> nat \<Rightarrow> nat \<Rightarrow> bool" where
  "connected m = (adjacent m)\<^sup>*\<^sup>*"

definition growing :: "mesh \<Rightarrow> nat \<Rightarrow> nat set \<Rightarrow> nat list \<Rightarrow> nat list \<Rightarrow> bool list \<Rightarrow> bool" where
  "growing m seed V0 island stack vis \<longleftrightarrow> length vis = length (m_faces m) \<and>
     visited_set vis = V0 \<union> set island \<union> set stack \<and> distinct (island @ stack) \<and>
     V0 \<inter> (set island \<union> set stack) = {} \<and> seed \<in> set island \<union> set stack \<and>
     (\<forall>f \<in> set island \<union> set stack. faceAlive m f \<and> connected m seed f) \<and>
     (\<forall>f \<in> set island. neighbors m f \<subseteq> visited_set vis)"

lemma growing_step:
  assumes m: "mesh_inv m" and g: "growing m seed V0 island (stack @ [f]) vis"
    and e: "explored (neighbors m f) (stack, vis) (stack', vis')"
  shows "growing m seed V0 (island @ [f]) stack' vis'"
proof -
  note d = g [unfolded growing_def]
  obtain new where new: "stack' = stack @ new" "distinct new" "set new = neighbors m f - visited_set vis"
      "visited_set vis' = visited_set vis \<union> neighbors m f" "length vis' = length vis"
    using e by (auto simp: explored_def)
  have "connected m seed g \<and> faceAlive m g" if "g \<in> set new" for g
  proof -
    have a: "adjacent m f g" using that new(3) neighbors_adjacent by blast
    have "connected m seed f" using d by simp
    then have "connected m seed g" using a unfolding connected_def by (rule rtranclp.rtrancl_into_rtrancl)
    then show ?thesis using adjacent_alive [OF m a] by simp
  qed
  then have al: "\<forall>g \<in> set (island @ [f]) \<union> set stack'. faceAlive m g \<and> connected m seed g"
    using d new(1) by auto
  have vis: "visited_set vis = V0 \<union> set island \<union> set stack \<union> {f}" using d by auto
  show ?thesis unfolding growing_def
  proof (intro conjI al)
    show "length vis' = length (m_faces m)" using d new(5) by simp
    show "visited_set vis' = V0 \<union> set (island @ [f]) \<union> set stack'" using new(1,3,4) vis by auto
    show "distinct ((island @ [f]) @ stack')" using d new(1,2,3) vis by auto
    have "adjacent m f g" if "g \<in> set new" for g using that new(3) neighbors_adjacent by blast
    show "V0 \<inter> (set (island @ [f]) \<union> set stack') = {}" using d new(1,3) vis by auto
    show "seed \<in> set (island @ [f]) \<union> set stack'" using d new(1) by auto
    have "neighbors m g \<subseteq> visited_set vis" if "g \<in> set island" for g using d that by blast
    then show "\<forall>g \<in> set (island @ [f]). neighbors m g \<subseteq> visited_set vis'" unfolding new(4) by auto
  qed
qed

lemma growIsland_some:
  assumes m: "mesh_inv m"
  shows "growing m seed V0 island stack vis \<Longrightarrow>
    \<exists>island' vis'. growIsland m island stack vis = Some (island', vis') \<and> growing m seed V0 island' [] vis'"
proof (induction "2 * card ({..<length (m_faces m)} - visited_set vis) + length stack" arbitrary: island stack vis rule: less_induct)
  case less
  show ?case
  proof (cases stack rule: rev_cases)
    case Nil
    then show ?thesis using less.prems by (subst growIsland.simps) simp
  next
    case (snoc stack1 f)
    note g = less.prems [unfolded snoc]
    have f: "faceAlive m f" "length vis = length (m_faces m)" using g by (simp_all add: growing_def)
    obtain loops stack' vis' where ex: "faceLoops m f = Some loops"
        "ofold (visitCorner m) loops (stack1, vis) = Some (stack', vis')"
        "explored (neighbors m f) (stack1, vis) (stack', vis')"
      using expand_face [OF m f, of stack1] by auto
    have g': "growing m seed V0 (island @ [f]) stack' vis'" by (rule growing_step [OF m g ex(3)])
    let ?U = "\<lambda>vis. {..<length (m_faces m)} - visited_set vis"
    obtain new where new: "stack' = stack1 @ new" "distinct new" "set new = neighbors m f - visited_set vis"
        "visited_set vis' = visited_set vis \<union> neighbors m f"
      using ex(3) by (auto simp: explored_def)
    have sub: "set new \<subseteq> ?U vis"
    proof
      fix x assume "x \<in> set new"
      then have "x \<in> neighbors m f" "x \<notin> visited_set vis" using new(3) by simp_all
      then show "x \<in> ?U vis"
        using adjacent_alive [OF m neighbors_adjacent [of x m f]] by (simp add: faceAlive_def)
    qed
    have "?U vis' = ?U vis - set new" using new(3,4) by auto
    then have "card (?U vis') = card (?U vis) - length new"
      using sub new(2) by (simp add: card_Diff_subset distinct_card)
    moreover have "length new \<le> card (?U vis)"
      using card_mono [OF _ sub] distinct_card [OF new(2)] by simp
    ultimately have "2 * card (?U vis') + length stack' < 2 * card (?U vis) + length stack"
      by (simp add: new(1) snoc)
    from less.hyps [OF this g'] show ?thesis
      using ex(1,2) by (subst growIsland.simps) (simp add: snoc)
  qed
qed

section \<open>All islands\<close>

lemma connected_sym: "connected m f g \<Longrightarrow> connected m g f"
  unfolding connected_def
  by (induction rule: rtranclp_induct) (auto intro: converse_rtranclp_into_rtranclp adjacent_sym)

lemma closed_connected:
  assumes "\<And>f g. f \<in> S \<Longrightarrow> adjacent m f g \<Longrightarrow> g \<in> S" "f \<in> S" "connected m f g"
  shows "g \<in> S"
  using assms(3,2) unfolding connected_def by (induction rule: rtranclp_induct) (auto intro: assms(1))

text \<open>A finished island is the class of its seed.\<close>

lemma grown_class:
  assumes g: "growing m seed V0 island [] vis" and V0: "\<And>f g. f \<in> V0 \<Longrightarrow> adjacent m f g \<Longrightarrow> g \<in> V0"
  shows "set island = {g. connected m seed g}"
proof -
  note d = g [unfolded growing_def]
  have closed: "g \<in> set island" if "f \<in> set island" "adjacent m f g" for f g
  proof -
    have vs: "visited_set vis = V0 \<union> set island" using d by simp
    have nb: "\<forall>f \<in> set island. neighbors m f \<subseteq> visited_set vis" using d by blast
    have "neighbors m f \<subseteq> V0 \<union> set island" using nb that(1) unfolding vs by blast
    then have "g = f \<or> g \<in> V0 \<union> set island" using adjacent_neighbors [OF that(2)] by blast
    moreover have "g \<notin> V0"
    proof
      assume "g \<in> V0"
      then have "f \<in> V0" using V0 adjacent_sym [OF that(2)] by blast
      then show False using that(1) d by auto
    qed
    ultimately show ?thesis using that(1) by blast
  qed
  have "seed \<in> set island" using d by simp
  then have "{g. connected m seed g} \<subseteq> set island" using closed_connected [of "set island" m] closed by blast
  then show ?thesis using d by auto
qed

text \<open>The islands found before face \<open>n\<close> is tried as a seed.\<close>

definition partition_upto :: "mesh \<Rightarrow> nat \<Rightarrow> nat list list \<times> bool list \<Rightarrow> bool" where
  "partition_upto m n st \<longleftrightarrow> length (snd st) = length (m_faces m) \<and>
     visited_set (snd st) = set (concat (fst st)) \<and> distinct (concat (fst st)) \<and>
     (\<forall>is \<in> set (fst st). is \<noteq> [] \<and> sorted is \<and> (\<forall>f \<in> set is. faceAlive m f \<and> set is = {g. connected m f g})) \<and>
     (\<forall>f < n. faceAlive m f \<longrightarrow> f \<in> set (concat (fst st)))"

lemma partition_closed:
  assumes "partition_upto m n st" "f \<in> set (concat (fst st))" "adjacent m f g"
  shows "g \<in> set (concat (fst st))"
proof -
  obtain xs where xs: "xs \<in> set (fst st)" "f \<in> set xs" using assms(2) by auto
  have "set xs = {g. connected m f g}" using assms(1) xs unfolding partition_upto_def by blast
  then have "g \<in> set xs" using assms(3) by (simp add: connected_def)
  then show ?thesis using xs(1) by auto
qed

lemma class_same:
  assumes "connected m seed f"
  shows "{g. connected m seed g} = {g. connected m f g}"
  using assms connected_sym [OF assms] unfolding connected_def by (auto intro: rtranclp_trans)

lemma islandFrom_step:
  assumes m: "mesh_inv m" and p: "partition_upto m n st" and n: "n < length (m_faces m)"
  shows "\<exists>st'. islandFrom m n st = Some st' \<and> partition_upto m (Suc n) st'"
proof -
  obtain result vis where st: "st = (result, vis)" by (cases st)
  note d = p [unfolded partition_upto_def st fst_conv snd_conv]
  have vn: "vis ! n \<longleftrightarrow> n \<in> set (concat result)"
    using d n by (auto simp: visited_set_def)
  show ?thesis
  proof (cases "\<not> mf_alive (fc m n) \<or> vis ! n")
    case True
    then have "islandFrom m n st = Some st" by (simp add: islandFrom_def st)
    moreover have "faceAlive m n \<longrightarrow> n \<in> set (concat result)" using True vn by (auto simp: faceAlive_def)
    then have "partition_upto m (Suc n) st" using p by (auto simp: partition_upto_def st less_Suc_eq)
    ultimately show ?thesis by blast
  next
    case False
    let ?vis = "vis[n := True]"
    have fa: "faceAlive m n" using False n by (simp add: faceAlive_def)
    have "visited_set ?vis = insert n (visited_set vis)" using d n by (auto simp: visited_set_def nth_list_update)
    then have "growing m n (set (concat result)) [] [n] ?vis"
      using d fa False vn by (simp add: growing_def connected_def)
    from growIsland_some [OF m this] obtain island vis' where
      gi: "growIsland m [] [n] ?vis = Some (island, vis')" "growing m n (set (concat result)) island [] vis'"
      by blast
    have cls: "set island = {g. connected m n g}"
      using grown_class [OF gi(2)] partition_closed [OF p] by (simp add: st)
    note g = gi(2) [unfolded growing_def]
    have "islandFrom m n st = Some (result @ [sort island], vis')"
      using False gi(1) by (simp add: islandFrom_def st)
    moreover have "partition_upto m (Suc n) (result @ [sort island], vis')"
      unfolding partition_upto_def fst_conv snd_conv
    proof (intro conjI)
      show "length vis' = length (m_faces m)" using g by simp
      show "visited_set vis' = set (concat (result @ [sort island]))" using g by simp
      show "distinct (concat (result @ [sort island]))" using g d by auto
      have "faceAlive m f \<and> set (sort island) = {g. connected m f g}" if "f \<in> set (sort island)" for f
      proof -
        have f: "f \<in> set island" using that by simp
        then have c: "connected m n f" using cls by simp
        have "faceAlive m f" using g f by simp
        then show ?thesis using cls class_same [OF c] by simp
      qed
      moreover have "island \<noteq> []" using g by auto
      ultimately have "sort island \<noteq> [] \<and> sorted (sort island) \<and>
          (\<forall>f \<in> set (sort island). faceAlive m f \<and> set (sort island) = {g. connected m f g})"
        by (metis set_sort set_empty sorted_sort)
      then show "\<forall>is \<in> set (result @ [sort island]). is \<noteq> [] \<and> sorted is \<and>
          (\<forall>f \<in> set is. faceAlive m f \<and> set is = {g. connected m f g})"
        using d by (auto simp del: set_sort)
      show "\<forall>f < Suc n. faceAlive m f \<longrightarrow> f \<in> set (concat (result @ [sort island]))"
        using d g by (auto simp: less_Suc_eq)
    qed
    ultimately show ?thesis by blast
  qed
qed

lemma islands_spec:
  assumes m: "mesh_inv m"
  shows "\<exists>is. islands m = Some is \<and> distinct (concat is) \<and> set (concat is) = {f. faceAlive m f} \<and>
    (\<forall>i \<in> set is. i \<noteq> [] \<and> sorted i \<and> (\<forall>f \<in> set i. set i = {g. connected m f g}))"
proof -
  let ?N = "length (m_faces m)"
  have "visited_set (replicate ?N False) = {}" by (auto simp: visited_set_def)
  then have start: "partition_upto m 0 ([], replicate ?N False)" by (simp add: partition_upto_def)
  have "\<exists>st. ofold (islandFrom m) [n..<?N] st0 = Some st \<and> partition_upto m ?N st"
    if "partition_upto m n st0" "n \<le> ?N" for n st0
    using that
  proof (induction "?N - n" arbitrary: n st0)
    case (Suc k)
    then have n: "n < ?N" by linarith
    obtain st1 where st1: "islandFrom m n st0 = Some st1" "partition_upto m (Suc n) st1"
      using islandFrom_step [OF m Suc.prems(1) n] by blast
    have "k = ?N - Suc n" "Suc n \<le> ?N" using Suc n by simp_all
    from Suc.hyps(1) [OF this(1) st1(2) this(2)] st1(1) n show ?case by (simp add: upt_conv_Cons)
  qed simp
  from this [OF start] obtain st where st: "ofold (islandFrom m) [0..<?N] ([], replicate ?N False) = Some st"
      "partition_upto m ?N st" by auto
  note d = st(2) [unfolded partition_upto_def]
  have "set (concat (fst st)) = {f. faceAlive m f}"
  proof (intro equalityI subsetI)
    fix f assume "f \<in> set (concat (fst st))"
    then show "f \<in> {f. faceAlive m f}" using d by fastforce
  next
    fix f assume "f \<in> {f. faceAlive m f}"
    then show "f \<in> set (concat (fst st))" using d by (simp add: faceAlive_def)
  qed
  then show ?thesis using st(1) d by (intro exI [of _ "fst st"]) (simp add: islands_def)
qed

end
