(* ===== verification/MeshOpsInv.thy ===== *)
theory MeshOpsInv
  imports MeshOps
begin

text \<open>
  The operators of \<open>mesh_ops.cpp\<close> that are composed of \<open>addFace\<close> and \<open>removeFace\<close>
  (\<open>mergeVertices\<close>, \<open>collapseEdge\<close>, \<open>flipEdge\<close>, \<open>fillHoles\<close>) return on every mesh that
  satisfies the structural invariant, and keep it.
\<close>

section \<open>Changes that do not touch the structure\<close>

definition decorated :: "mesh \<Rightarrow> mesh \<Rightarrow> bool" where
  "decorated m m' \<longleftrightarrow>
     map mv_alive (m_vertices m') = map mv_alive (m_vertices m) \<and> map mv_edges (m_vertices m') = map mv_edges (m_vertices m) \<and>
     map me_alive (m_edges m') = map me_alive (m_edges m) \<and> map me_v0 (m_edges m') = map me_v0 (m_edges m) \<and>
     map me_v1 (m_edges m') = map me_v1 (m_edges m) \<and> map me_radial (m_edges m') = map me_radial (m_edges m) \<and>
     m_loops m' = m_loops m \<and> m_faces m' = m_faces m \<and>
     (m_freeVertices m', m_freeEdges m', m_freeLoops m', m_freeFaces m') =
       (m_freeVertices m, m_freeEdges m, m_freeLoops m, m_freeFaces m) \<and>
     (m_aliveVertices m', m_aliveEdges m', m_aliveFaces m', m_aliveLoops m') =
       (m_aliveVertices m, m_aliveEdges m, m_aliveFaces m, m_aliveLoops m) \<and>
     (attrs_inv m \<longrightarrow> attrs_inv m')"

lemma decorated_refl [simp]: "decorated m m"
  by (simp add: decorated_def)

lemma decorated_trans: "decorated a b \<Longrightarrow> decorated b c \<Longrightarrow> decorated a c"
  by (simp add: decorated_def)

lemma decorated_fold: "(\<And>x m. decorated m (f x m)) \<Longrightarrow> decorated m (fold f xs m)"
  by (induction xs arbitrary: m) (auto intro: decorated_trans)

lemma decorated_alive:
  assumes "decorated m m'"
  shows "vertexAlive m' = vertexAlive m" "edgeAlive m' = edgeAlive m" "faceAlive m' = faceAlive m"
    "loopAlive m' = loopAlive m" "linked m' = linked m"
  using assms
  by (auto simp: decorated_def map_eq_nth fun_eq_iff vertexAlive_def edgeAlive_def faceAlive_def loopAlive_def linked_def)

lemma decorated_fields:
  assumes "decorated m m'"
  shows "vertexAlive m v \<Longrightarrow> mv_edges (vx m' v) = mv_edges (vx m v)"
    "edgeAlive m e \<Longrightarrow> me_v0 (ed m' e) = me_v0 (ed m e) \<and> me_v1 (ed m' e) = me_v1 (ed m e) \<and>
      me_radial (ed m' e) = me_radial (ed m e)"
    "lp m' l = lp m l" "fc m' f = fc m f" "m_loops m' = m_loops m" "m_faces m' = m_faces m"
    "length (m_vertices m') = length (m_vertices m)" "length (m_edges m') = length (m_edges m)"
  using assms by (auto simp: decorated_def map_eq_nth vertexAlive_def edgeAlive_def)

lemma decorated_capacity: "decorated m m' \<Longrightarrow> capacity m' k = capacity m k"
  using decorated_fields(5-8) [of m m'] by (simp add: capacity_def)

lemma decorated_faceVertices: "decorated m m' \<Longrightarrow> faceVertices m' f = faceVertices m f"
  "decorated m m' \<Longrightarrow> faceLoops m' f = faceLoops m f"
  using decorated_fields(3,4) [of m m'] by (simp_all add: faceVertices_def faceLoops_def)

lemma decorated_pools:
  assumes d: "decorated m m'" and p: "pools_inv m"
  shows "pools_inv m'"
proof -
  have "vpool.pool_inv m' = vpool.pool_inv m" "epool.pool_inv m' = epool.pool_inv m"
    "fpool.pool_inv m' = fpool.pool_inv m" "lpool.pool_inv m' = lpool.pool_inv m"
    using d by (intro vpool.pool_inv_cong epool.pool_inv_cong fpool.pool_inv_cong lpool.pool_inv_cong;
        auto simp: decorated_def map_eq_nth)+
  moreover have "attrs_inv m'" using d p by (simp add: decorated_def pools_inv_def)
  ultimately show ?thesis using p decorated_capacity [OF d] by (simp add: pools_inv_def)
qed

lemma decorated_inv:
  assumes d: "decorated m m'" and m: "mesh_inv m"
  shows "mesh_inv m'"
proof (rule mesh_invI)
  note al = decorated_alive [OF d] and fl = decorated_fields [OF d]
  show "pools_inv m'" by (rule decorated_pools [OF d mesh_invD(1) [OF m]])
  show "edges_inv m'" using mesh_invD(2) [OF m] by (rule edges_inv_cong) (simp_all add: al fl)
  show "radial_inv m'" using mesh_invD(3) [OF m] by (rule radial_inv_cong) (simp_all add: al fl)
  show "no_wire m'" using mesh_invD(4) [OF m] by (simp add: no_wire_def al fl)
  show "\<exists>ls. face_ring m' f ls" if "faceAlive m' f" for f
    using mesh_invD(8) [OF m, of f] that by (simp add: face_ring_def al fl)
  show "faceAlive m' (ml_face (lp m' l)) \<and> vertexAlive m' (ml_vertex (lp m' l)) \<and> corner_ok m' l"
    if "loopAlive m' l" for l
  proof -
    have l: "loopAlive m l" using that by (simp add: al)
    note c = mesh_invD(7) [OF m l]
    have "edgeAlive m (ml_edge (lp m l))" using c mesh_invD(3) [OF m] by (simp add: corner_ok_def radial_inv_def)
    then show ?thesis using c by (simp add: corner_ok_def al fl edge_joins_def)
  qed
qed

lemma applyRow_decorated [simp]:
  "decorated m (applyVertexRow i r m)" "decorated m (applyEdgeRow i r m)"
  "decorated m (applyFaceRow i r m)" "decorated m (applyCornerRow i r m)"
  by (auto simp: decorated_def applyVertexRow_def applyEdgeRow_def applyFaceRow_def applyCornerRow_def
      attrs_inv_def attr_applyRow_any)

lemma setFeatureEdge_decorated [simp]: "decorated m (setFeatureEdge e f m)"
proof -
  have "map me_alive (m_edges (setFeatureEdge e f m)) = map me_alive (m_edges m)"
    "map me_v0 (m_edges (setFeatureEdge e f m)) = map me_v0 (m_edges m)"
    "map me_v1 (m_edges (setFeatureEdge e f m)) = map me_v1 (m_edges m)"
    "map me_radial (m_edges (setFeatureEdge e f m)) = map me_radial (m_edges m)"
    by (simp_all add: setFeatureEdge_def map_update_same)
  moreover have "length (m_edges (setFeatureEdge e f m)) = length (m_edges m)"
    "m_vertices (setFeatureEdge e f m) = m_vertices m" "m_loops (setFeatureEdge e f m) = m_loops m"
    "m_faces (setFeatureEdge e f m) = m_faces m"
    by (simp_all add: setFeatureEdge_def)
  moreover have "books (setFeatureEdge e f m) = books m" by (simp add: setFeatureEdge_def)
  ultimately show ?thesis
    by (simp add: decorated_def books_def attrs_inv_def)
qed

lemma setPosition_decorated [simp]: "decorated m (setPosition v p m)"
proof -
  have "books (setPosition v p m) = books m" by (simp add: setPosition_def)
  then show ?thesis
    by (simp add: decorated_def setPosition_def books_def attrs_inv_def map_update_same)
qed

lemma interpolate_decorated [simp]:
  "decorated m (m\<lparr>m_vertexAttrs := attr_interpolate d i j t (m_vertexAttrs m)\<rparr>)"
  by (simp add: decorated_def attrs_inv_def attr_inv_interpolate)

section \<open>Removing and rebuilding faces\<close>

definition faces_of :: "mesh \<Rightarrow> nat \<Rightarrow> nat list \<Rightarrow> bool" where
  "faces_of m f vs \<longleftrightarrow> faceAlive m f \<and> faceVertices m f = Some vs"

lemma edges_same_capacity: "edges_same m m' \<Longrightarrow> capacity m' k = capacity m k"
  by (simp add: edges_same_def capacity_def)

lemma faceVertices_some:
  assumes m: "mesh_inv m" and f: "faceAlive m f"
  obtains vs where "faceVertices m f = Some vs" "distinct vs" "3 \<le> length vs" "length vs = mf_size (fc m f)"
    "set vs = {ml_vertex (lp m l) |l. loopAlive m l \<and> ml_face (lp m l) = f}" "\<forall>v \<in> set vs. vertexAlive m v"
proof -
  obtain ls where ls: "face_ring m f ls" using mesh_inv_face [OF m f] .
  note d = ls [unfolded face_ring_def]
  let ?vs = "map (\<lambda>l. ml_vertex (lp m l)) ls"
  have s: "set ls = {l. loopAlive m l \<and> ml_face (lp m l) = f}" using d by simp
  have "set ?vs = {ml_vertex (lp m l) |l. loopAlive m l \<and> ml_face (lp m l) = f}" unfolding set_map s by blast
  moreover have "\<forall>v \<in> set ?vs. vertexAlive m v" using s mesh_invD(7) [OF m] by simp
  ultimately show ?thesis using that face_ring_walk(2) [OF ls] d by simp
qed

lemma faceVertices_ex:
  assumes m: "mesh_inv m" and f: "faceAlive m f"
  shows "\<exists>vs. faceVertices m f = Some vs"
proof -
  obtain vs where "faceVertices m f = Some vs" by (rule faceVertices_some [OF m f])
  then show ?thesis ..
qed

lemma removeFaces_spec:
  "mesh_inv m \<Longrightarrow> \<exists>m'. ofold removeFace fs m = Some m' \<and> mesh_inv m' \<and> edges_same m m' \<and>
    (\<forall>j. faceAlive m' j \<longleftrightarrow> j \<notin> set fs \<and> faceAlive m j) \<and>
    (\<forall>j. faceAlive m' j \<longrightarrow> faceVertices m' j = faceVertices m j)"
proof (induction fs arbitrary: m)
  case Nil
  then show ?case by (simp add: edges_same_def)
next
  case (Cons f fs)
  have "\<exists>m1. removeFace f m = Some m1 \<and> mesh_inv m1 \<and> edges_same m m1 \<and>
      (\<forall>j. faceAlive m1 j \<longleftrightarrow> j \<noteq> f \<and> faceAlive m j) \<and> (\<forall>j. faceAlive m1 j \<longrightarrow> faceVertices m1 j = faceVertices m j)"
  proof (cases "faceAlive m f")
    case True
    then obtain m1 where m1: "removeFace f m = Some m1" "face_removed m f m1"
      using removeFace_alive [OF Cons.prems] by blast
    then show ?thesis
      using face_removed_others [OF Cons.prems m1(2)] by (auto simp: face_removed_def)
  next
    case False
    then have "removeFace f m = Some m" by (simp add: removeFace_def)
    then show ?thesis using False Cons.prems by (auto simp: edges_same_def)
  qed
  then obtain m1 where m1: "removeFace f m = Some m1" "mesh_inv m1" "edges_same m m1"
      "\<forall>j. faceAlive m1 j \<longleftrightarrow> j \<noteq> f \<and> faceAlive m j" "\<forall>j. faceAlive m1 j \<longrightarrow> faceVertices m1 j = faceVertices m j"
    by blast
  obtain m2 where "ofold removeFace fs m1 = Some m2" "mesh_inv m2" "edges_same m1 m2"
      "\<forall>j. faceAlive m2 j \<longleftrightarrow> j \<notin> set fs \<and> faceAlive m1 j" "\<forall>j. faceAlive m2 j \<longrightarrow> faceVertices m2 j = faceVertices m1 j"
    using Cons.IH [OF m1(2)] by blast
  with m1 edges_same_trans [OF m1(3)] show ?case by auto
qed

lemma dedupeCyclic_props: "set (dedupeCyclic vs) \<subseteq> set vs \<and> length (dedupeCyclic vs) \<le> length vs"
proof (induction vs rule: dedupeCyclic.induct)
  case (1 vs)
  show ?case
  proof (cases "length vs > 1 \<and> find (\<lambda>i. vs ! i = vs ! ((i + 1) mod length vs)) [0..<length vs] \<noteq> None")
    case True
    then obtain i where i: "find (\<lambda>i. vs ! i = vs ! ((i + 1) mod length vs)) [0..<length vs] = Some i" by blast
    have "set (take i vs @ drop (Suc i) vs) \<subseteq> set vs" "length (take i vs @ drop (Suc i) vs) \<le> length vs"
      using set_take_subset [of i vs] set_drop_subset [of "Suc i" vs] by auto
    moreover have "dedupeCyclic vs = dedupeCyclic (take i vs @ drop (Suc i) vs)"
      using True i by (subst dedupeCyclic.simps) simp
    ultimately show ?thesis using 1 [OF _ i] True by fastforce
  next
    case False
    then show ?thesis by (subst (1 2) dedupeCyclic.simps) auto
  qed
qed

text \<open>A rebuilt mesh keeps what it had and gains at most faces over the given corners.\<close>

definition rebuilt :: "mesh \<Rightarrow> nat set \<Rightarrow> mesh \<Rightarrow> bool" where
  "rebuilt m V m' \<longleftrightarrow> mesh_inv m' \<and> (\<forall>v. vertexAlive m' v = vertexAlive m v) \<and>
     (\<forall>j. faceAlive m j \<longrightarrow> faceAlive m' j \<and> faceVertices m' j = faceVertices m j) \<and>
     (\<forall>j vs. faceAlive m' j \<longrightarrow> \<not> faceAlive m j \<longrightarrow> faceVertices m' j = Some vs \<longrightarrow> set vs \<subseteq> V)"

lemma rebuilt_refl: "mesh_inv m \<Longrightarrow> rebuilt m V m"
  by (simp add: rebuilt_def)

lemma rebuilt_trans:
  assumes "rebuilt a U b" "rebuilt b V c"
  shows "rebuilt a (U \<union> V) c"
proof -
  have "set vs \<subseteq> U \<union> V" if "faceAlive c j" "\<not> faceAlive a j" "faceVertices c j = Some vs" for j vs
    using assms that unfolding rebuilt_def by (cases "faceAlive b j") (metis le_supI1, metis le_supI2)
  then show ?thesis using assms by (simp add: rebuilt_def)
qed

lemma decorated_rebuilt:
  assumes "rebuilt m V m1" "decorated m1 m2"
  shows "rebuilt m V m2"
  using assms decorated_inv [OF assms(2)] decorated_alive [OF assms(2)] decorated_faceVertices(1) [OF assms(2)]
  by (simp add: rebuilt_def)

lemma addFace_rebuilt:
  assumes m: "mesh_inv m" and c: "capacity m (Suc (2 * length vs) + k)" and res: "addFace vs m = (f, m')"
  shows "rebuilt m (set vs) m'" "capacity m' k"
proof -
  have c1: "capacity m (Suc (2 * length vs))" by (rule capacity_mono [OF c]) simp
  show "rebuilt m (set vs) m'"
  proof (rule addFace_cases [OF m c1 res])
    assume "m' = m"
    then show ?thesis using m by (simp add: rebuilt_def)
  next
    assume a: "face_added m vs f m'"
    then show ?thesis using face_added_others [OF m a] by (auto simp: rebuilt_def face_added_def ends_same_def)
  qed
  show "capacity m' k" using addFace_capacity [OF c] res by simp
qed

lemma rebuildFace_spec:
  assumes m: "mesh_inv m" and c: "capacity m (Suc (2 * length (fm_verts memo)) + k)"
  shows "\<exists>m'. rebuildFace memo m = Some m' \<and> rebuilt m (set (fm_verts memo)) m' \<and> capacity m' k"
proof -
  let ?vs = "dedupeCyclic (fm_verts memo)"
  have sub: "set ?vs \<subseteq> set (fm_verts memo)" "length ?vs \<le> length (fm_verts memo)"
    using dedupeCyclic_props by blast+
  have ck: "capacity m k" by (rule capacity_mono [OF c]) simp
  have c': "capacity m (Suc (2 * length ?vs) + k)" by (rule capacity_mono [OF c]) (use sub(2) in simp)
  obtain nf m1 where a: "addFace ?vs m = (nf, m1)" by (cases "addFace ?vs m")
  note ar = addFace_rebuilt [OF m c' a]
  have r1: "rebuilt m (set (fm_verts memo)) m1" using ar(1) sub(1) unfolding rebuilt_def by blast
  show ?thesis
  proof (cases "length ?vs < 3 \<or> nested_repeat ?vs \<or> nf = kInvalidIndex")
    case True
    have "rebuildFace memo m = Some m \<or> rebuildFace memo m = Some m1"
      using True a by (auto simp: rebuildFace_def id_valid_def Let_def)
    then show ?thesis using r1 ar(2) ck m rebuilt_refl by auto
  next
    case False
    have c1: "capacity m (Suc (2 * length ?vs))" by (rule capacity_mono [OF c']) simp
    have fa: "face_added m ?vs nf m1"
      by (rule addFace_cases [OF m c1 a]) (use False in auto)
    then have "mesh_inv m1" "faceAlive m1 nf" by (simp_all add: face_added_def)
    then obtain ls where ls: "face_ring m1 nf ls" using mesh_inv_face by blast
    let ?m2 = "applyFaceRow nf (fm_attrs memo) m1"
    have "decorated x (restoreCorner memo l x)" for l x
      by (simp add: restoreCorner_def Let_def split: option.split)
    then have "decorated ?m2 (fold (restoreCorner memo) ls ?m2)" by (rule decorated_fold)
    with applyRow_decorated(3) have d: "decorated m1 (fold (restoreCorner memo) ls ?m2)"
      by (rule decorated_trans)
    have "faceLoops ?m2 nf = Some ls"
      using face_ring_walk(1) [OF ls] decorated_faceVertices(2) [OF applyRow_decorated(3)] by simp
    then have "rebuildFace memo m = Some (fold (restoreCorner memo) ls ?m2)"
      using False a by (simp add: rebuildFace_def id_valid_def Let_def)
    then show ?thesis using decorated_rebuilt [OF r1 d] decorated_capacity [OF d] ar(2) by simp
  qed
qed

lemma rebuildFaces_spec:
  "mesh_inv m \<Longrightarrow> capacity m (sum_list (map (\<lambda>x. Suc (2 * length (fm_verts x))) memos)) \<Longrightarrow>
    \<exists>m'. ofold rebuildFace memos m = Some m' \<and> rebuilt m (\<Union>x \<in> set memos. set (fm_verts x)) m'"
proof (induction memos arbitrary: m)
  case Nil
  then show ?case by (simp add: rebuilt_refl)
next
  case (Cons x memos)
  obtain m1 where m1: "rebuildFace x m = Some m1" "rebuilt m (set (fm_verts x)) m1"
      "capacity m1 (sum_list (map (\<lambda>x. Suc (2 * length (fm_verts x))) memos))"
    using rebuildFace_spec [OF Cons.prems(1), of x] Cons.prems(2) by auto
  then have "mesh_inv m1" by (simp add: rebuilt_def)
  from Cons.IH [OF this m1(3)] m1 rebuilt_trans [OF m1(2)] show ?case by auto
qed

section \<open>mergeVertices\<close>

lemma vertex_isolated:
  assumes m: "mesh_inv m" and v: "vertexAlive m v" and no: "\<And>l. loopAlive m l \<Longrightarrow> ml_vertex (lp m l) \<noteq> v"
  shows "mv_edges (vx m v) = []"
proof (rule ccontr)
  assume "mv_edges (vx m v) \<noteq> []"
  then obtain e where e: "e \<in> set (mv_edges (vx m v))" by (cases "mv_edges (vx m v)") auto
  then have ea: "edgeAlive m e" "v = me_v0 (ed m e) \<or> v = me_v1 (ed m e)"
    using edges_inv_vertexD(2) [OF mesh_invD(2) [OF m] v] by blast+
  obtain ls where ls: "set ls = {l. loopAlive m l \<and> ml_edge (lp m l) = e}" "ls \<noteq> []"
    using edgeLoops_some [OF m ea(1)] by metis
  then obtain l where l: "loopAlive m l" "ml_edge (lp m l) = e"
    by (metis (mono_tags, lifting) list.set_sel(1) mem_Collect_eq)
  have "ml_vertex (lp m l) = v \<or> ml_vertex (lp m (ml_next (lp m l))) = v"
    using mesh_invD(7) [OF m l(1)] ea(2) l(2) by (auto simp: corner_ok_def edge_joins_def)
  then show False using no l(1) loop_next_alive [OF m l(1)] by blast
qed

text \<open>The faces \<open>vertexFaces\<close> lists are those with a corner at the vertex.\<close>

lemma corner_edge:
  assumes m: "mesh_inv m" and l: "loopAlive m l"
  shows "edgeAlive m (ml_edge (lp m l))" "ml_edge (lp m l) \<in> set (mv_edges (vx m (ml_vertex (lp m l))))"
proof -
  note c = mesh_invD(7) [OF m l]
  show e: "edgeAlive m (ml_edge (lp m l))" using c mesh_invD(3) [OF m] by (simp add: corner_ok_def radial_inv_def)
  show "ml_edge (lp m l) \<in> set (mv_edges (vx m (ml_vertex (lp m l))))"
    using c unfolding corner_ok_def by (blast intro: edge_in_lists(1) [OF mesh_invD(2) [OF m] e])
qed

lemma vertexFaces_corners:
  assumes m: "mesh_inv m" and v: "vertexAlive m v"
  obtains fs where "vertexFaces m v = Some fs" "sorted fs" "distinct fs"
    "set fs = {f. faceAlive m f \<and> (\<exists>vs. faceVertices m f = Some vs \<and> v \<in> set vs)}"
proof -
  obtain fs where fs: "vertexFaces m v = Some fs" "sorted fs" "distinct fs"
      "set fs = {ml_face (lp m l) |l. loopAlive m l \<and> ml_edge (lp m l) \<in> set (mv_edges (vx m v))}"
    using vertexFaces_some [OF m v] by blast
  have "set fs = {f. faceAlive m f \<and> (\<exists>vs. faceVertices m f = Some vs \<and> v \<in> set vs)}"
  proof (intro equalityI subsetI)
    fix f assume "f \<in> set fs"
    then obtain l where l: "loopAlive m l" "ml_edge (lp m l) \<in> set (mv_edges (vx m v))" "f = ml_face (lp m l)"
      unfolding fs(4) by blast
    have f: "faceAlive m f" using mesh_invD(7) [OF m l(1)] l(3) by simp
    obtain vs where vs: "faceVertices m f = Some vs"
        "set vs = {ml_vertex (lp m l) |l. loopAlive m l \<and> ml_face (lp m l) = f}"
      by (rule faceVertices_some [OF m f])
    have "v = me_v0 (ed m (ml_edge (lp m l))) \<or> v = me_v1 (ed m (ml_edge (lp m l)))"
      using edges_inv_vertexD(2) [OF mesh_invD(2) [OF m] v l(2)] by blast
    then have "v = ml_vertex (lp m l) \<or> v = ml_vertex (lp m (ml_next (lp m l)))"
      using mesh_invD(7) [OF m l(1)] by (auto simp: corner_ok_def edge_joins_def)
    then have "v \<in> set vs" unfolding vs(2) using l(1,3) loop_next_alive [OF m l(1)] by blast
    then show "f \<in> {f. faceAlive m f \<and> (\<exists>vs. faceVertices m f = Some vs \<and> v \<in> set vs)}" using f vs(1) by blast
  next
    fix f assume "f \<in> {f. faceAlive m f \<and> (\<exists>vs. faceVertices m f = Some vs \<and> v \<in> set vs)}"
    then obtain vs where f: "faceAlive m f" "faceVertices m f = Some vs" "v \<in> set vs" by blast
    obtain ws where ws: "faceVertices m f = Some ws"
        "set ws = {ml_vertex (lp m l) |l. loopAlive m l \<and> ml_face (lp m l) = f}"
      by (rule faceVertices_some [OF m f(1)])
    then obtain l where "loopAlive m l" "ml_face (lp m l) = f" "ml_vertex (lp m l) = v"
      using f(2,3) by auto
    then show "f \<in> set fs" unfolding fs(4) using corner_edge(2) [OF m] by blast
  qed
  then show ?thesis using that fs by blast
qed

lemma restoreEdge_decorated: "decorated m (restoreEdge keep memo m)"
  by (simp add: restoreEdge_def Let_def decorated_trans [OF setFeatureEdge_decorated applyRow_decorated(2)])

definition merge_room :: "mesh \<Rightarrow> nat \<Rightarrow> bool" where
  "merge_room m v \<longleftrightarrow> (\<forall>fs. vertexFaces m v = Some fs \<longrightarrow>
     capacity m (sum_list (map (\<lambda>f. Suc (2 * mf_size (fc m f))) fs)))"

text \<open>The faces away from the merged vertex keep their corners; it dies, the others live on.\<close>

definition merged :: "mesh \<Rightarrow> nat \<Rightarrow> mesh \<Rightarrow> bool" where
  "merged m remove m' \<longleftrightarrow> mesh_inv m' \<and> (\<forall>v. vertexAlive m' v \<longleftrightarrow> v \<noteq> remove \<and> vertexAlive m v) \<and>
     (\<forall>f vs. faces_of m f vs \<longrightarrow> remove \<notin> set vs \<longrightarrow> faces_of m' f vs)"

lemma mergeVertices_memos:
  assumes m: "mesh_inv m" and fs: "\<forall>f \<in> set fs. faceAlive m f" and kr: "keep \<noteq> remove"
  shows "\<exists>memos. omap_list (faceMemo m keep remove) fs = Some memos \<and>
    map (\<lambda>x. length (fm_verts x)) memos = map (\<lambda>f. mf_size (fc m f)) fs \<and>
    (\<forall>x \<in> set memos. remove \<notin> set (fm_verts x))"
  using fs
proof (induction fs)
  case (Cons f fs)
  then obtain ls where ls: "face_ring m f ls" using mesh_inv_face [OF m] by auto
  let ?x = "\<lparr>fm_verts = map (\<lambda>l. (let v = ml_vertex (lp m l) in if v = remove then keep else v)) ls,
      fm_corners = map (\<lambda>l. attr_extractRow (m_cornerAttrs m) l) ls,
      fm_attrs = attr_extractRow (m_faceAttrs m) f\<rparr>"
  have "faceMemo m keep remove f = Some ?x" by (simp add: faceMemo_def face_ring_walk(1) [OF ls])
  moreover have "length (fm_verts ?x) = mf_size (fc m f)" using ls by (simp add: face_ring_def)
  moreover have "remove \<notin> set (fm_verts ?x)" using kr by (auto simp: Let_def)
  ultimately show ?case using Cons by auto
qed simp

lemma rebuilt_isolated:
  assumes m: "mesh_inv m" and r: "rebuilt m V m'" and v: "vertexAlive m v" "v \<notin> V"
    and no: "\<And>f vs. faces_of m f vs \<Longrightarrow> v \<notin> set vs"
  shows "mv_edges (vx m' v) = []"
proof (rule vertex_isolated)
  show m': "mesh_inv m'" "vertexAlive m' v" using r v by (simp_all add: rebuilt_def)
  fix l assume l: "loopAlive m' l"
  let ?f = "ml_face (lp m' l)"
  have f: "faceAlive m' ?f" using mesh_invD(7) [OF m'(1) l] by simp
  obtain vs where vs: "faceVertices m' ?f = Some vs"
      "set vs = {ml_vertex (lp m' k) |k. loopAlive m' k \<and> ml_face (lp m' k) = ?f}"
    by (rule faceVertices_some [OF m'(1) f])
  have "v \<notin> set vs"
  proof (cases "faceAlive m ?f")
    case True
    then have "faces_of m ?f vs" using r vs(1) by (simp add: rebuilt_def faces_of_def)
    then show ?thesis using no by blast
  next
    case False
    then show ?thesis using r f vs(1) v(2) unfolding rebuilt_def by blast
  qed
  then show "ml_vertex (lp m' l) \<noteq> v" unfolding vs(2) using l by blast
qed

lemma mergeVertices_spec:
  assumes m: "mesh_inv m" and kr: "vertexAlive m keep" "vertexAlive m remove" "keep \<noteq> remove"
    and room: "merge_room m remove"
  shows "\<exists>m'. mergeVertices keep remove m = Some (True, m') \<and> merged m remove m'"
proof -
  obtain fs where fs: "vertexFaces m remove = Some fs"
      "set fs = {f. faceAlive m f \<and> (\<exists>vs. faceVertices m f = Some vs \<and> remove \<in> set vs)}"
    by (rule vertexFaces_corners [OF m kr(2)])
  then have al: "\<forall>f \<in> set fs. faceAlive m f" by simp
  obtain memos where memos: "omap_list (faceMemo m keep remove) fs = Some memos"
      "map (\<lambda>x. length (fm_verts x)) memos = map (\<lambda>f. mf_size (fc m f)) fs"
      "\<forall>x \<in> set memos. remove \<notin> set (fm_verts x)"
    using mergeVertices_memos [OF m al kr(3)] by blast
  obtain m1 where m1: "ofold removeFace fs m = Some m1" "mesh_inv m1" "edges_same m m1"
      "\<forall>j. faceAlive m1 j \<longleftrightarrow> j \<notin> set fs \<and> faceAlive m j"
      "\<forall>j. faceAlive m1 j \<longrightarrow> faceVertices m1 j = faceVertices m j"
    using removeFaces_spec [OF m] by blast
  have "map (\<lambda>x. Suc (2 * length (fm_verts x))) memos = map (\<lambda>f. Suc (2 * mf_size (fc m f))) fs"
    using arg_cong [OF memos(2), of "map (\<lambda>n. Suc (2 * n))"] by (simp add: comp_def)
  then have "capacity m1 (sum_list (map (\<lambda>x. Suc (2 * length (fm_verts x))) memos))"
    using room fs(1) edges_same_capacity [OF m1(3)] by (simp add: merge_room_def)
  then obtain m2 where m2: "ofold rebuildFace memos m1 = Some m2" "rebuilt m1 (\<Union>x \<in> set memos. set (fm_verts x)) m2"
    using rebuildFaces_spec [OF m1(2)] by blast
  let ?m3 = "fold (restoreEdge keep) (edgeMemos m remove) m2"
  have d: "decorated m2 ?m3" by (rule decorated_fold) (rule restoreEdge_decorated)
  have r3: "rebuilt m1 (\<Union>x \<in> set memos. set (fm_verts x)) ?m3" by (rule decorated_rebuilt [OF m2(2) d])
  have va: "vertexAlive m1 v = vertexAlive m v" for v using m1(3) by (simp add: edges_same_def)
  have "mv_edges (vx ?m3 remove) = []"
  proof (rule rebuilt_isolated [OF m1(2) r3])
    show "vertexAlive m1 remove" using kr(2) va by simp
    show "remove \<notin> (\<Union>x \<in> set memos. set (fm_verts x))" using memos(3) by blast
    show "remove \<notin> set vs" if "faces_of m1 f vs" for f vs
      using that m1(4,5) fs(2) unfolding faces_of_def by auto
  qed
  moreover have r: "vertexAlive ?m3 v = vertexAlive m v" "mesh_inv ?m3" for v
    using r3 va by (simp_all add: rebuilt_def)
  ultimately have iso: "removeIsolatedVertex remove ?m3 = (True, freeVertex remove ?m3)"
    and res: "mergeVertices keep remove m = Some (True, freeVertex remove ?m3)"
    using kr fs(1) memos(1) m1(1) m2(1) by (simp_all add: mergeVertices_def removeIsolatedVertex_def Let_def)
  note sp = removeIsolatedVertex_spec [OF r(2) iso]
  have "faces_of (freeVertex remove ?m3) f vs" if f: "faces_of m f vs" "remove \<notin> set vs" for f vs
  proof -
    have "f \<notin> set fs" using f fs(2) by (auto simp: faces_of_def)
    then have "faceAlive m1 f" "faceVertices m1 f = Some vs" using f m1(4,5) by (auto simp: faces_of_def)
    then have "faceAlive ?m3 f" "faceVertices ?m3 f = Some vs" using r3 by (simp_all add: rebuilt_def)
    then show ?thesis by (simp add: faces_of_def faceAlive_def faceVertices_def faceLoops_def)
  qed
  then show ?thesis using res sp(1,3) r(1) by (simp add: merged_def) blast
qed

section \<open>collapseEdge\<close>

lemma linkConditionHolds_some:
  assumes m: "mesh_inv m" and e: "edgeAlive m e"
  shows "\<exists>ok. linkConditionHolds m e a b = Some ok"
proof -
  obtain fs where fs: "edgeFaces m e = Some fs"
    "set fs = {f. faceAlive m f \<and> (\<exists>l. loopAlive m l \<and> ml_edge (lp m l) = e \<and> ml_face (lp m l) = f)}"
    by (rule edgeFaces_some [OF m e])
  have "\<exists>vs. faceVertices m f = Some vs" if "f \<in> set fs" for f
  proof -
    have "faceAlive m f" using that fs(2) by simp
    then show ?thesis by (rule faceVertices_ex [OF m])
  qed
  then obtain vss where "omap_list (faceVertices m) fs = Some vss"
    using omap_list_total [of fs "faceVertices m"] by auto
  then show ?thesis by (simp add: linkConditionHolds_def fs(1) Let_def)
qed

lemma merged_decorated: "merged m v m1 \<Longrightarrow> decorated m1 m2 \<Longrightarrow> merged m v m2"
  using decorated_inv decorated_alive decorated_faceVertices(1) by (simp add: merged_def faces_of_def)

lemma collapseEdge_spec:
  assumes m: "mesh_inv m" and e: "edgeAlive m e" and room: "merge_room m (me_v1 (ed m e))"
  shows "\<exists>ok m'. collapseEdge e mid m = Some (ok, m') \<and> linkConditionHolds m e (me_v0 (ed m e)) (me_v1 (ed m e)) = Some ok \<and>
    (if ok then merged m (me_v1 (ed m e)) m' \<and>
       (mid \<longrightarrow> position m' (me_v0 (ed m e)) = lerp3 (position m (me_v0 (ed m e))) (position m (me_v1 (ed m e))) f32_half)
     else m' = m)"
proof -
  let ?a = "me_v0 (ed m e)" and ?b = "me_v1 (ed m e)"
  obtain ok where ok: "linkConditionHolds m e ?a ?b = Some ok" using linkConditionHolds_some [OF m e] by blast
  show ?thesis
  proof (cases ok)
    case False
    then show ?thesis using ok e by (intro exI [of _ False] exI [of _ m]) (simp add: collapseEdge_def Let_def)
  next
    case True
    have ab: "vertexAlive m ?a" "vertexAlive m ?b" "?a \<noteq> ?b" using edges_invD [OF mesh_invD(2) [OF m] e] by auto
    obtain m1 where m1: "mergeVertices ?a ?b m = Some (True, m1)" "merged m ?b m1"
      using mergeVertices_spec [OF m ab room] by blast
    then have a: "vertexAlive m1 ?a" using ab by (simp add: merged_def)
    let ?p = "lerp3 (position m ?a) (position m ?b) f32_half"
    let ?m2 = "setPosition ?a ?p m1"
    let ?m3 = "?m2\<lparr>m_vertexAttrs := attr_interpolate ?a ?a ?a 0 (m_vertexAttrs ?m2)\<rparr>"
    have "decorated m1 ?m3" by (rule decorated_trans [OF setPosition_decorated interpolate_decorated])
    then have "merged m ?b ?m3" by (rule merged_decorated [OF m1(2)])
    moreover have "position ?m3 ?a = ?p" using a by (simp add: position_def setPosition_def vertexAlive_def)
    moreover have "collapseEdge e mid m = Some (True, if mid then ?m3 else m1)"
      using True ok e m1(1) a by (simp add: collapseEdge_def Let_def)
    ultimately show ?thesis using True ok m1(2) by (intro exI [of _ True]) auto
  qed
qed

section \<open>flipEdge\<close>

lemma restoreFeature_decorated: "decorated m (restoreFeature x m)"
  by (simp add: restoreFeature_def Let_def split: prod.split)

definition firstOther :: "nat \<Rightarrow> nat \<Rightarrow> nat list \<Rightarrow> nat" where
  "firstOther a b vs = (case find (\<lambda>v. v \<noteq> a \<and> v \<noteq> b) vs of Some v \<Rightarrow> v | None \<Rightarrow> kInvalidIndex)"

lemma firstOther_props: "firstOther a b vs \<noteq> kInvalidIndex \<Longrightarrow>
    firstOther a b vs \<in> set vs \<and> firstOther a b vs \<noteq> a \<and> firstOther a b vs \<noteq> b"
  by (cases "find (\<lambda>v. v \<noteq> a \<and> v \<noteq> b) vs") (auto simp: firstOther_def dest: find_Some_mem)

lemma oppositeVertex_some:
  assumes m: "mesh_inv m" and f: "faceAlive m f"
  shows "\<exists>c. oppositeVertex m a b f = Some c \<and> (c \<noteq> kInvalidIndex \<longrightarrow> vertexAlive m c \<and> c \<noteq> a \<and> c \<noteq> b)"
proof -
  obtain vs where vs: "faceVertices m f = Some vs" "\<forall>v \<in> set vs. vertexAlive m v"
    by (rule faceVertices_some [OF m f])
  have "oppositeVertex m a b f = Some (firstOther a b vs)"
    by (simp add: oppositeVertex_def vs(1) firstOther_def)
  then show ?thesis using firstOther_props [of a b vs] vs(2) by (intro exI [of _ "firstOther a b vs"]) simp
qed

text \<open>The two faces of the flipped edge are replaced by two over the other diagonal.\<close>

definition flipped :: "mesh \<Rightarrow> nat \<Rightarrow> nat \<Rightarrow> nat \<Rightarrow> mesh \<Rightarrow> bool" where
  "flipped m e f0 f1 m' \<longleftrightarrow> (\<exists>u w c d n0 n1. {u, w} = {me_v0 (ed m e), me_v1 (ed m e)} \<and> distinct [u, w, c, d] \<and>
     mesh_inv m' \<and> faces_of m' n0 [u, d, c] \<and> faces_of m' n1 [d, w, c] \<and> n0 \<noteq> n1 \<and>
     (\<forall>v. vertexAlive m' v = vertexAlive m v) \<and>
     (\<forall>j vs. j \<noteq> n0 \<longrightarrow> j \<noteq> n1 \<longrightarrow> (faces_of m' j vs \<longleftrightarrow> faces_of m j vs \<and> j \<noteq> f0 \<and> j \<noteq> f1)))"

lemma flip_rebuild:
  assumes m: "mesh_inv m" and c: "capacity m 14" and d: "distinct [u, w, c, d]"
    and al: "\<forall>v \<in> {u, w, c, d}. vertexAlive m v"
    and a0: "addFace [u, d, c] m = (n0, m1)" and a1: "addFace [d, w, c] m1 = (n1, m2)"
  shows "mesh_inv m2 \<and> faces_of m2 n0 [u, d, c] \<and> faces_of m2 n1 [d, w, c] \<and> n0 \<noteq> n1 \<and>
    (\<forall>v. vertexAlive m2 v = vertexAlive m v) \<and>
    (\<forall>j vs. j \<noteq> n0 \<longrightarrow> j \<noteq> n1 \<longrightarrow> (faces_of m2 j vs \<longleftrightarrow> faces_of m j vs))"
proof -
  have c0: "capacity m (Suc (2 * length [u, d, c]) + 7)" using c by simp
  have c1: "capacity m1 7" using addFace_capacity [OF c0] a0 by simp
  have f0: "face_added m [u, d, c] n0 m1"
    by (rule addFace_success [OF m _ _ _ _ a0]) (use c al d capacity_mono [OF c, of 7] in auto)
  note d0 = f0 [unfolded face_added_def]
  have m1: "mesh_inv m1" using d0 by simp
  have f1: "face_added m1 [d, w, c] n1 m2"
    by (rule addFace_success [OF m1 _ _ _ _ a1]) (use c1 al d d0 in \<open>auto simp: ends_same_def\<close>)
  note d1 = f1 [unfolded face_added_def]
  have old: "faceVertices m2 j = faceVertices m1 j" if "faceAlive m1 j" for j
    using face_added_others [OF m1 f1 that] .
  have "faces_of m2 n0 [u, d, c]" "faces_of m2 n1 [d, w, c]" "n0 \<noteq> n1"
    using d0 d1 old [of n0] by (auto simp: faces_of_def)
  moreover have "faces_of m2 j vs \<longleftrightarrow> faces_of m j vs" if "j \<noteq> n0" "j \<noteq> n1" for j vs
    using that d0 d1 old [of j] face_added_others [OF m f0, of j] by (auto simp: faces_of_def)
  ultimately show ?thesis using d0 d1 by (simp add: ends_same_def)
qed

lemma flipEdge_spec:
  assumes m: "mesh_inv m" and e: "edgeAlive m e" and c: "capacity m 14"
  shows "\<exists>ok m' fs. flipEdge e m = Some (ok, m') \<and> edgeFaces m e = Some fs \<and>
    (if ok then length fs = 2 \<and> flipped m e (fs ! 0) (fs ! 1) m' else m' = m)"
proof -
  obtain fs where fs: "edgeFaces m e = Some fs"
    "set fs = {f. faceAlive m f \<and> (\<exists>l. loopAlive m l \<and> ml_edge (lp m l) = e \<and> ml_face (lp m l) = f)}"
    "edgeFaceCount m e = Some (length fs)"
    by (rule edgeFaces_some [OF m e])
  let ?a = "me_v0 (ed m e)" and ?b = "me_v1 (ed m e)" and ?f0 = "fs ! 0" and ?f1 = "fs ! 1"
  have triv: ?thesis if "flipEdge e m = Some (False, m)" using that fs(1) by auto
  show ?thesis
  proof (cases "length fs = 2 \<and> mf_size (fc m ?f0) = 3 \<and> mf_size (fc m ?f1) = 3")
    case False
    then show ?thesis by (intro triv) (auto simp: flipEdge_def fs e Let_def)
  next
    case True
    then have fa: "faceAlive m ?f0" "faceAlive m ?f1" using fs(2) nth_mem [of 0 fs] nth_mem [of 1 fs] by auto
    obtain c where oc: "oppositeVertex m ?a ?b ?f0 = Some c" "c \<noteq> kInvalidIndex \<longrightarrow> vertexAlive m c \<and> c \<noteq> ?a \<and> c \<noteq> ?b"
      using oppositeVertex_some [OF m fa(1)] by blast
    obtain d where od: "oppositeVertex m ?a ?b ?f1 = Some d" "d \<noteq> kInvalidIndex \<longrightarrow> vertexAlive m d \<and> d \<noteq> ?a \<and> d \<noteq> ?b"
      using oppositeVertex_some [OF m fa(2)] by blast
    show ?thesis
    proof (cases "c = kInvalidIndex \<or> d = kInvalidIndex \<or> c = d \<or> edgeBetween m c d \<noteq> kInvalidIndex")
      case bad: True
      then show ?thesis using True by (intro triv) (auto simp: flipEdge_def fs(1,3) e oc(1) od(1) [unfolded One_nat_def] Let_def id_valid_def)
    next
      case ok: False
      obtain ls where ls: "face_ring m ?f0 ls" using mesh_inv_face [OF m fa(1)] .
      define u where "u = (if (case find (\<lambda>l. ml_edge (lp m l) = e) ls of Some l \<Rightarrow> ml_vertex (lp m l) = ?a | None \<Rightarrow> False) then ?a else ?b)"
      define w where "w = (if (case find (\<lambda>l. ml_edge (lp m l) = e) ls of Some l \<Rightarrow> ml_vertex (lp m l) = ?a | None \<Rightarrow> False) then ?b else ?a)"
      have uw: "{u, w} = {?a, ?b}" by (auto simp: u_def w_def)
      have ab: "?a \<noteq> ?b" "vertexAlive m ?a" "vertexAlive m ?b" using edges_invD [OF mesh_invD(2) [OF m] e] by auto
      have dist: "distinct [u, w, c, d]" "\<forall>v \<in> {u, w, c, d}. vertexAlive m v"
        using ok oc(2) od(2) ab by (auto simp: u_def w_def)
      obtain m1 where m1: "ofold removeFace [?f0, ?f1] m = Some m1" "mesh_inv m1" "edges_same m m1"
          "\<forall>j. faceAlive m1 j \<longleftrightarrow> j \<notin> set [?f0, ?f1] \<and> faceAlive m j"
          "\<forall>j. faceAlive m1 j \<longrightarrow> faceVertices m1 j = faceVertices m j"
        using removeFaces_spec [OF m] by blast
      then obtain mx where mx: "removeFace ?f0 m = Some mx" "removeFace ?f1 mx = Some m1"
        by (auto simp: bind_eq_Some_conv)
      obtain n0 m2 where a0: "addFace [u, d, c] m1 = (n0, m2)" by (cases "addFace [u, d, c] m1")
      obtain n1 m3 where a1: "addFace [d, w, c] m2 = (n1, m3)" by (cases "addFace [d, w, c] m2")
      have va: "vertexAlive m1 v = vertexAlive m v" for v using m1(3) by (simp add: edges_same_def)
      note fr = flip_rebuild [OF m1(2) _ dist(1) _ a0 a1, unfolded va edges_same_capacity [OF m1(3)], OF assms(3) dist(2)]
      let ?fin = "fold restoreFeature (featureMemos m [(u, c), (c, w), (w, d), (d, u)])
          (applyFaceRow n1 (attr_extractRow (m_faceAttrs m) ?f1) (applyFaceRow n0 (attr_extractRow (m_faceAttrs m) ?f0) m3))"
      have "flipEdge e m = Some (True, ?fin)"
        using True ok mx [unfolded One_nat_def] a0 a1
        by (simp add: flipEdge_def fs(1,3) e oc(1) od(1) [unfolded One_nat_def] Let_def id_valid_def face_ring_walk(1) [OF ls] u_def [symmetric] w_def [symmetric])
      moreover have de: "decorated m3 ?fin"
        by (rule decorated_trans [OF applyRow_decorated(3) decorated_trans [OF applyRow_decorated(3)
              decorated_fold [OF restoreFeature_decorated]]])
      have fo: "faces_of ?fin = faces_of m3"
        using decorated_alive(3) [OF de] decorated_faceVertices(1) [OF de] by (simp add: fun_eq_iff faces_of_def)
      have f1: "faces_of m1 j vs \<longleftrightarrow> faces_of m j vs \<and> j \<noteq> ?f0 \<and> j \<noteq> ?f1" for j vs
        using spec [OF m1(4), of j] spec [OF m1(5), of j] unfolding faces_of_def by auto
      have fin: "mesh_inv ?fin" using decorated_inv [OF de] fr by blast
      have "flipped m e ?f0 ?f1 ?fin"
        unfolding flipped_def fo decorated_alive(1) [OF de] f1 [symmetric]
        by (rule exI [of _ u], rule exI [of _ w], rule exI [of _ c], rule exI [of _ d], rule exI [of _ n0], rule exI [of _ n1],
          intro conjI uw dist(1) fin; use fr in blast)
      ultimately show ?thesis using fs(1) True by auto
    qed
  qed
qed

end
