(* ===== verification/MeshHoles.thy ===== *)
theory MeshHoles
  imports MeshOpsInv
begin

text \<open>
  \<open>fillHoles\<close> returns, keeps the invariant and every existing face, counts exactly the faces
  it adds, and adds none wider than its limit, whatever the iteration order of its hash map.
\<close>

section \<open>The directed hole edges\<close>

definition succ_ok :: "mesh \<Rightarrow> (nat \<times> nat) list \<times> nat set \<Rightarrow> bool" where
  "succ_ok m st \<longleftrightarrow> distinct (map fst (fst st)) \<and>
     (\<forall>(b, a) \<in> set (fst st). vertexAlive m b \<and> vertexAlive m a \<and> (\<exists>e. edgeAlive m e \<and> edge_joins (ed m e) a b))"

lemma holeCorner_ok:
  assumes m: "mesh_inv m" and l: "loopAlive m l" and st: "succ_ok m st"
  shows "\<exists>st'. holeCorner m l st = Some st' \<and> succ_ok m st'"
proof -
  have ea: "edgeAlive m (ml_edge (lp m l))" by (rule corner_edge(1) [OF m l])
  obtain ls where "edgeLoops m (ml_edge (lp m l)) = Some ls" by (rule edgeLoops_some [OF m ea])
  then have fs: "edgeFaceCount m (ml_edge (lp m l)) = Some (length ls)" by (simp add: edgeFaceCount_def)
  let ?a = "ml_vertex (lp m l)" and ?b = "ml_vertex (lp m (ml_next (lp m l)))"
  have ab: "vertexAlive m ?a" "vertexAlive m ?b" "edge_joins (ed m (ml_edge (lp m l))) ?a ?b"
    using mesh_invD(7) [OF m l] mesh_invD(7) [OF m conjunct1 [OF loop_next_alive [OF m l]]]
    by (simp_all add: corner_ok_def)
  obtain s am where s: "st = (s, am)" by (cases st)
  have "succ_ok m (emplaceSucc ?b ?a st)"
  proof (cases "map_of s ?b")
    case None
    then have "?b \<notin> fst ` set s" by (simp add: map_of_eq_None_iff)
    then show ?thesis using st None ab ea by (auto simp: succ_ok_def emplaceSucc_def s)
  next
    case (Some x)
    then show ?thesis using st by (simp add: succ_ok_def emplaceSucc_def s)
  qed
  then show ?thesis using st by (auto simp: holeCorner_def fs)
qed

lemma holeCorners_ok:
  assumes m: "mesh_inv m"
  shows "\<forall>l \<in> set ls. loopAlive m l \<Longrightarrow> succ_ok m st \<Longrightarrow>
    \<exists>st'. ofold (holeCorner m) ls st = Some st' \<and> succ_ok m st'"
proof (induction ls arbitrary: st)
  case (Cons l ls)
  obtain st1 where "holeCorner m l st = Some st1" "succ_ok m st1"
    using holeCorner_ok [OF m _ Cons.prems(2), of l] Cons.prems(1) by auto
  then show ?case using Cons.IH Cons.prems(1) by simp
qed simp

lemma holeEdges_ok:
  assumes m: "mesh_inv m"
  shows "\<exists>st. holeEdges m = Some st \<and> succ_ok m st"
proof -
  let ?f = "\<lambda>fi st. if \<not> mf_alive (fc m fi) then Some st
     else Option.bind (faceLoops m fi) (\<lambda>loops. ofold (holeCorner m) loops st)"
  have step: "\<exists>st'. ?f fi st = Some st' \<and> succ_ok m st'" if "succ_ok m st" "fi < length (m_faces m)" for fi st
  proof (cases "mf_alive (fc m fi)")
    case True
    then have "faceAlive m fi" using that(2) by (simp add: faceAlive_def)
    then obtain ls where ls: "face_ring m fi ls" by (rule mesh_inv_face [OF m])
    then have "\<forall>l \<in> set ls. loopAlive m l" by (simp add: face_ring_def)
    from holeCorners_ok [OF m this that(1)] True face_ring_walk(1) [OF ls] show ?thesis by simp
  qed (use that in simp)
  have "\<exists>st'. ofold ?f fis st = Some st' \<and> succ_ok m st'" if "succ_ok m st" "\<forall>i \<in> set fis. i < length (m_faces m)" for fis st
    using that
  proof (induction fis arbitrary: st)
    case (Cons fi fis)
    obtain st1 where "?f fi st = Some st1" "succ_ok m st1" using step [OF Cons.prems(1), of fi] Cons.prems(2) by auto
    then show ?case using Cons.IH Cons.prems(2) by simp
  qed simp
  moreover have "succ_ok m ([], {})" by (simp add: succ_ok_def)
  ultimately show ?thesis unfolding holeEdges_def by simp
qed

lemma succ_ok_length: "succ_ok m st \<Longrightarrow> length (fst st) \<le> length (m_vertices m)"
proof -
  assume s: "succ_ok m st"
  have "set (map fst (fst st)) \<subseteq> {..<length (m_vertices m)}"
    using s by (auto simp: succ_ok_def vertexAlive_def)
  then have "card (set (map fst (fst st))) \<le> length (m_vertices m)"
    using card_mono [of "{..<length (m_vertices m)}"] by simp
  then show ?thesis using s distinct_card [of "map fst (fst st)"] by (simp add: succ_ok_def)
qed

section \<open>Filling\<close>

definition filling :: "mesh \<Rightarrow> nat \<Rightarrow> nat \<Rightarrow> nat \<times> nat set \<times> mesh \<Rightarrow> bool" where
  "filling m maxEdges room st \<longleftrightarrow> (case st of (filled, visited, m') \<Rightarrow>
     mesh_inv m' \<and> capacity m' room \<and> (\<forall>v. vertexAlive m' v = vertexAlive m v) \<and>
     (\<forall>j. faceAlive m j \<longrightarrow> faceAlive m' j \<and> faceVertices m' j = faceVertices m j) \<and>
     (\<forall>j vs. faceAlive m' j \<longrightarrow> \<not> faceAlive m j \<longrightarrow> faceVertices m' j = Some vs \<longrightarrow> 3 \<le> length vs \<and> length vs \<le> maxEdges) \<and>
     m_aliveFaces m' = m_aliveFaces m + filled)"

lemma face_added_count:
  assumes m: "mesh_inv m" and a: "face_added m vs f m'"
  shows "m_aliveFaces m' = Suc (m_aliveFaces m)"
proof -
  note d = a [unfolded face_added_def]
  have "{j. faceAlive m' j} = insert f {j. faceAlive m j}" using d by auto
  moreover have "finite {j. faceAlive m j}" using fpool.finite_live [of m] by simp
  moreover have "m_aliveFaces m = card {j. faceAlive m j}" "m_aliveFaces m' = card {j. faceAlive m' j}"
    using mesh_invD(1) [OF m] mesh_invD(1) [of m'] d by (simp_all add: pools_inv_def fpool.pool_inv_def)
  ultimately show ?thesis using d by simp
qed

lemma fillHole_step:
  assumes f: "filling m maxEdges (Suc (2 * maxEdges) + room) st"
  shows "filling m maxEdges room (fillHole succ ambiguous maxEdges start st)"
proof -
  obtain filled visited m1 where st: "st = (filled, visited, m1)" by (cases st)
  note d = f [unfolded filling_def st prod.case]
  have c: "capacity m1 room" by (rule capacity_mono [of m1 "Suc (2 * maxEdges) + room"]) (use d in simp_all)
  have keep: "filling m maxEdges room (filled, vis, m1)" for vis using d c by (simp add: filling_def)
  obtain ok loop vis where w: "holeWalk succ ambiguous maxEdges start start [] visited = (ok, loop, vis)"
    by (cases "holeWalk succ ambiguous maxEdges start start [] visited")
  show ?thesis
  proof (cases "start \<notin> visited \<and> ok \<and> 3 \<le> length loop \<and> length loop \<le> maxEdges")
    case False
    then show ?thesis using keep w by (auto simp: fillHole_def st)
  next
    case True
    obtain nf m2 where a: "addFace loop m1 = (nf, m2)" by (cases "addFace loop m1")
    have m1: "mesh_inv m1" using d by simp
    have c1: "capacity m1 (Suc (2 * length loop) + room)"
      by (rule capacity_mono [of m1 "Suc (2 * maxEdges) + room"]) (use d True in simp_all)
    then have c2: "capacity m1 (Suc (2 * length loop))" by (rule capacity_mono) simp
    have eq: "fillHole succ ambiguous maxEdges start st = (if nf \<noteq> kInvalidIndex then filled + 1 else filled, vis, m2)"
      using True w a by (simp add: fillHole_def st id_valid_def)
    show ?thesis
    proof (rule addFace_cases [OF m1 c2 a])
      assume "nf = kInvalidIndex" "m2 = m1"
      then show ?thesis using eq keep by simp
    next
      assume fa: "face_added m1 loop nf m2"
      note e = fa [unfolded face_added_def]
      have old: "faceVertices m2 j = faceVertices m1 j" if "faceAlive m1 j" for j
        by (rule face_added_others [OF m1 fa that])
      have "capacity m2 room" using addFace_capacity [OF c1] a by simp
      moreover have "3 \<le> length vs \<and> length vs \<le> maxEdges"
        if j: "faceAlive m2 j" "\<not> faceAlive m j" "faceVertices m2 j = Some vs" for j vs
      proof (cases "j = nf")
        case True
        then have "vs = loop" using e j(3) by simp
        then show ?thesis using \<open>start \<notin> visited \<and> ok \<and> 3 \<le> length loop \<and> length loop \<le> maxEdges\<close> by simp
      next
        case False
        then have "faceAlive m1 j" using e j(1) by simp
        then show ?thesis using d j old by simp
      qed
      moreover have "m_aliveFaces m2 = m_aliveFaces m + (filled + 1)" using face_added_count [OF m1 fa] d by simp
      ultimately show ?thesis using eq d e old by (simp add: filling_def ends_same_def)
    qed
  qed
qed

lemma fillHoles_fold:
  "filling m maxEdges (length starts * Suc (2 * maxEdges)) st \<Longrightarrow>
    filling m maxEdges 0 (fold (fillHole succ ambiguous maxEdges) starts st)"
proof (induction starts arbitrary: st)
  case (Cons s starts)
  then have "filling m maxEdges (Suc (2 * maxEdges) + length starts * Suc (2 * maxEdges)) st"
    by (simp add: algebra_simps)
  from Cons.IH [OF fillHole_step [OF this]] show ?case by simp
qed simp

lemma fillHoles_spec:
  assumes m: "mesh_inv m" and ord: "\<And>s. length (order s) \<le> length s"
    and c: "capacity m (length (m_vertices m) * Suc (2 * maxEdges))"
  shows "\<exists>k m'. fillHoles order maxEdges m = Some (k, m') \<and> mesh_inv m' \<and>
    (\<forall>v. vertexAlive m' v = vertexAlive m v) \<and>
    (\<forall>j. faceAlive m j \<longrightarrow> faceAlive m' j \<and> faceVertices m' j = faceVertices m j) \<and>
    (\<forall>j vs. faceAlive m' j \<longrightarrow> \<not> faceAlive m j \<longrightarrow> faceVertices m' j = Some vs \<longrightarrow> 3 \<le> length vs \<and> length vs \<le> maxEdges) \<and>
    m_aliveFaces m' = m_aliveFaces m + k"
proof (cases "maxEdges < 3")
  case True
  then show ?thesis using m by (simp add: fillHoles_def)
next
  case False
  obtain succ ambiguous where s: "holeEdges m = Some (succ, ambiguous)" "succ_ok m (succ, ambiguous)"
    using holeEdges_ok [OF m] by auto
  have "length (order succ) \<le> length (m_vertices m)" using ord [of succ] succ_ok_length [OF s(2)] by simp
  then have "capacity m (length (order succ) * Suc (2 * maxEdges))"
    by (intro capacity_mono [OF c] mult_le_mono1)
  then have "filling m maxEdges (length (order succ) * Suc (2 * maxEdges)) (0, {}, m)"
    using m by (simp add: filling_def)
  from fillHoles_fold [OF this, of succ ambiguous]
  have "filling m maxEdges 0 (fold (fillHole succ ambiguous maxEdges) (order succ) (0, {}, m))" .
  then show ?thesis using False s(1)
    by (cases "fold (fillHole succ ambiguous maxEdges) (order succ) (0, {}, m)") (simp add: fillHoles_def filling_def)
qed

end
