(* ===== verification/MeshFeature.thy ===== *)
theory MeshFeature
  imports MeshCheck MeshOpsInv
begin

text \<open>
  \<open>Mesh::tagFeatureEdges\<close> of \<open>src/core/src/mesh_diagnostics.cpp\<close>. The arc cosine of the C library
  is the parameter \<open>acosf\<close>; the columns \<open>group_id\<close> and \<open>material_id\<close> are read once, before the
  loop, as the pointers are.
\<close>

definition group_id :: bytes where
  "group_id = map of_char ''group_id''"
definition material_id :: bytes where
  "material_id = map of_char ''material_id''"

definition f32_pi :: f32 where "f32_pi = 0x40490FDB"
definition f32_180 :: f32 where "f32_180 = 0x43340000"

definition degreesToRadians :: "f32 \<Rightarrow> f32" where
  "degreesToRadians deg = fmul deg (fdiv f32_pi f32_180)"

text \<open>\<open>ids != nullptr && (*ids)[f] != (*ids)[g]\<close>.\<close>

definition ids_differ :: "column option \<Rightarrow> nat \<Rightarrow> nat \<Rightarrow> bool" where
  "ids_differ ids f g = (case ids of Some (CInt32 v) \<Rightarrow> v ! f \<noteq> v ! g | _ \<Rightarrow> False)"

definition isFeature :: "(f32 \<Rightarrow> f32) \<Rightarrow> f32 \<Rightarrow> column option \<Rightarrow> column option \<Rightarrow> mesh \<Rightarrow> nat list \<Rightarrow> bool option" where
  "isFeature acosf normalAngleThreshold groupIds materialIds m faces =
     (if length faces \<noteq> 2 then Some True
      else Option.bind (faceNormal m (faces ! 0)) (\<lambda>n0.
           Option.bind (faceNormal m (faces ! 1)) (\<lambda>n1.
             (let cosAngle = fclamp (dot3 n0 n1) 0xBF800000 f32_1;
                  normalAngle = acosf cosAngle;
                  groupBoundary = ids_differ groupIds (faces ! 0) (faces ! 1);
                  materialBoundary = ids_differ materialIds (faces ! 0) (faces ! 1)
              in Some (fle normalAngleThreshold normalAngle \<or> groupBoundary \<or> materialBoundary)))))"

definition tagEdge :: "(f32 \<Rightarrow> f32) \<Rightarrow> f32 \<Rightarrow> column option \<Rightarrow> column option \<Rightarrow> nat \<Rightarrow> mesh \<Rightarrow> mesh option" where
  "tagEdge acosf normalAngleThreshold groupIds materialIds i m =
     (if \<not> me_alive (m_edges m ! i) then Some m
      else Option.bind (edgeFaces m i) (\<lambda>faces.
           map_option (\<lambda>feature. setFeatureEdge i feature m)
             (isFeature acosf normalAngleThreshold groupIds materialIds m faces)))"

definition tagFeatureEdges :: "(f32 \<Rightarrow> f32) \<Rightarrow> f32 \<Rightarrow> mesh \<Rightarrow> mesh option" where
  "tagFeatureEdges acosf dihedralAngleDegrees m =
     (let normalAngleThreshold = fsub (degreesToRadians (fsub f32_180 dihedralAngleDegrees)) 0x3A83126F;
          groupIds = attr_find TInt32 group_id (m_faceAttrs m);
          materialIds = attr_find TInt32 material_id (m_faceAttrs m)
      in ofold (tagEdge acosf normalAngleThreshold groupIds materialIds) [0..<length (m_edges m)] m)"

section \<open>What the tags are\<close>

text \<open>The queries the loop makes do not read the tags it writes.\<close>

lemma decorated_edgeFaces:
  assumes d: "decorated m m'" and e: "edgeAlive m e"
  shows "edgeFaces m' e = edgeFaces m e"
  using decorated_fields(2) [OF d e] decorated_fields(5) [OF d]
  by (simp add: edgeFaces_def edgeLoops_def Let_def)

lemma setFeature_faceNormal: "faceNormal (setFeatureEdge e f m) g = faceNormal m g"
  by (simp add: faceNormal_def faceVertices_def faceLoops_def position_def setFeatureEdge_def set_edge_def cong: if_cong)

lemma setFeature_isFeature: "isFeature ac th gi mi (setFeatureEdge e f m) faces = isFeature ac th gi mi m faces"
  by (simp add: isFeature_def setFeature_faceNormal)

lemma setFeature_nth:
  "me_feature (ed (setFeatureEdge e f m) j) = (if j = e \<and> e < length (m_edges m) then f else me_feature (ed m j))"
  by (cases "e < length (m_edges m)") (auto simp: setFeatureEdge_def set_edge_def nth_list_update list_update_beyond)

lemma faceNormal_some: "mesh_inv m \<Longrightarrow> faceAlive m f \<Longrightarrow> \<exists>n. faceNormal m f = Some n"
  using faceVertices_ex [of m f] by (auto simp: faceNormal_def)

definition tagged_upto :: "mesh \<Rightarrow> (nat list \<Rightarrow> bool option) \<Rightarrow> nat \<Rightarrow> mesh \<Rightarrow> bool" where
  "tagged_upto m feat n m' \<longleftrightarrow> decorated m m' \<and> (\<forall>g. faceNormal m' g = faceNormal m g) \<and>
     (\<forall>e. edgeAlive m e \<longrightarrow> (if e < n then Option.bind (edgeFaces m e) feat = Some (me_feature (ed m' e))
        else me_feature (ed m' e) = me_feature (ed m e)))"

lemma tagEdge_step:
  assumes m: "mesh_inv m" and t: "tagged_upto m (isFeature ac th gi mi m) i m'" and i: "i < length (m_edges m)"
  shows "\<exists>m''. tagEdge ac th gi mi i m' = Some m'' \<and> tagged_upto m (isFeature ac th gi mi m) (Suc i) m''"
proof (cases "edgeAlive m i")
  case False
  have d: "decorated m m'" using t by (simp add: tagged_upto_def)
  have "\<not> me_alive (ed m' i)"
    using False i decorated_alive(2) [OF d] decorated_fields(8) [OF d] by (auto simp: edgeAlive_def fun_eq_iff)
  then have "tagEdge ac th gi mi i m' = Some m'" by (simp add: tagEdge_def)
  moreover have "tagged_upto m (isFeature ac th gi mi m) (Suc i) m'"
    using t False by (auto simp: tagged_upto_def less_Suc_eq)
  ultimately show ?thesis by blast
next
  case True
  have d: "decorated m m'" and n: "\<And>g. faceNormal m' g = faceNormal m g" using t by (simp_all add: tagged_upto_def)
  have al: "me_alive (ed m' i)" "i < length (m_edges m')"
    using True i decorated_alive(2) [OF d] decorated_fields(8) [OF d] by (auto simp: edgeAlive_def fun_eq_iff)
  obtain fs where fs: "edgeFaces m i = Some fs"
      "set fs = {f. faceAlive m f \<and> (\<exists>l. loopAlive m l \<and> ml_edge (lp m l) = i \<and> ml_face (lp m l) = f)}"
    by (rule edgeFaces_some [OF m True])
  have fs': "edgeFaces m' i = Some fs" using decorated_edgeFaces [OF d True] fs(1) by simp
  have alive: "f \<in> set fs \<Longrightarrow> faceAlive m f" for f using fs(2) by simp
  have same: "isFeature ac th gi mi m' fs = isFeature ac th gi mi m fs" by (simp add: isFeature_def n)
  have "\<exists>b. isFeature ac th gi mi m fs = Some b"
  proof (cases "length fs = 2")
    case True
    then have "faceAlive m (fs ! 0)" "faceAlive m (fs ! 1)" by (intro alive nth_mem; simp)+
    then obtain n0 n1 where "faceNormal m (fs ! 0) = Some n0" "faceNormal m (fs ! 1) = Some n1"
      using faceNormal_some [OF m] by blast
    then show ?thesis by (simp add: isFeature_def Let_def True)
  qed (auto simp: isFeature_def)
  then obtain b where b: "isFeature ac th gi mi m fs = Some b" by blast
  define m'' where "m'' = setFeatureEdge i b m'"
  have "tagEdge ac th gi mi i m' = Some m''" using al(1) fs' same b by (simp add: tagEdge_def m''_def)
  moreover have "tagged_upto m (isFeature ac th gi mi m) (Suc i) m''"
    unfolding tagged_upto_def
  proof (intro conjI allI impI)
    show "decorated m m''" unfolding m''_def by (rule decorated_trans [OF d setFeatureEdge_decorated])
    show "faceNormal m'' g = faceNormal m g" for g by (simp add: m''_def setFeature_faceNormal n)
    fix e assume e: "edgeAlive m e"
    show "if e < Suc i then Option.bind (edgeFaces m e) (isFeature ac th gi mi m) = Some (me_feature (ed m'' e))
        else me_feature (ed m'' e) = me_feature (ed m e)"
      using t e b fs(1) al(2) by (auto simp: tagged_upto_def m''_def setFeature_nth less_Suc_eq)
  qed
  ultimately show ?thesis by blast
qed

lemma tagEdges_upto:
  assumes m: "mesh_inv m"
  shows "n \<le> length (m_edges m) \<Longrightarrow> \<exists>m'. ofold (tagEdge ac th gi mi) [0..<n] m = Some m' \<and>
    tagged_upto m (isFeature ac th gi mi m) n m'"
proof (induction n)
  case 0
  then show ?case by (simp add: tagged_upto_def)
next
  case (Suc n)
  then obtain m' where m': "ofold (tagEdge ac th gi mi) [0..<n] m = Some m'" "tagged_upto m (isFeature ac th gi mi m) n m'"
    by auto
  obtain m'' where "tagEdge ac th gi mi n m' = Some m''" "tagged_upto m (isFeature ac th gi mi m) (Suc n) m''"
    using tagEdge_step [OF m m'(2)] Suc.prems by auto
  then show ?case using m'(1) by (simp add: ofold_snoc)
qed

lemma tagFeatureEdges_spec:
  assumes m: "mesh_inv m"
  obtains m' where "tagFeatureEdges ac deg m = Some m'" "decorated m m'"
    "\<forall>e. edgeAlive m e \<longrightarrow> Option.bind (edgeFaces m e) (isFeature ac
        (fsub (degreesToRadians (fsub f32_180 deg)) 0x3A83126F) (attr_find TInt32 group_id (m_faceAttrs m))
        (attr_find TInt32 material_id (m_faceAttrs m)) m) = Some (me_feature (ed m' e))"
proof -
  obtain m' where m': "tagFeatureEdges ac deg m = Some m'"
      "tagged_upto m (isFeature ac (fsub (degreesToRadians (fsub f32_180 deg)) 0x3A83126F)
        (attr_find TInt32 group_id (m_faceAttrs m)) (attr_find TInt32 material_id (m_faceAttrs m)) m) (length (m_edges m)) m'"
    using tagEdges_upto [OF m order_refl] unfolding tagFeatureEdges_def Let_def by blast
  show ?thesis
  proof (rule that [OF m'(1)])
    show "decorated m m'" using m'(2) by (simp add: tagged_upto_def)
    have "e < length (m_edges m)" if "edgeAlive m e" for e using that by (simp add: edgeAlive_def)
    with m'(2) show "\<forall>e. edgeAlive m e \<longrightarrow> Option.bind (edgeFaces m e) (isFeature ac
        (fsub (degreesToRadians (fsub f32_180 deg)) 0x3A83126F) (attr_find TInt32 group_id (m_faceAttrs m))
        (attr_find TInt32 material_id (m_faceAttrs m)) m) = Some (me_feature (ed m' e))"
      by (simp add: tagged_upto_def)
  qed
qed

end
