(* ===== verification/MeshSplice.thy ===== *)
theory MeshSplice
  imports MeshOpsInv
begin

text \<open>
  Splicing a corner into a face cycle, the step that \<open>splitEdge\<close> and \<open>splitFace\<close> of
  \<open>mesh_ops.cpp\<close> repeat: the invariant without its no-wire part, the frame of an update that
  only touches face cycles, and the exact effect of one corner of \<open>splitEdge\<close>.
\<close>

section \<open>Rings\<close>

lemma chain_splice:
  assumes "chain n p x ys z" "distinct (x # ys)" "z \<notin> set ys" "y \<notin> insert x (insert z (set ys))"
  shows "chain (n(x := y, y := n x)) (p(n x := y, y := x)) y ys z"
proof (cases ys)
  case Nil
  then show ?thesis using assms by auto
next
  case (Cons w ws)
  have "n x = w" "p w = x" "chain n p w ws z" using assms(1) Cons by auto
  moreover have "chain n p w ws z \<longleftrightarrow> chain (n(x := y, y := n x)) (p(n x := y, y := x)) w ws z"
    using assms Cons by (intro chain_cong) auto
  ultimately show ?thesis using assms Cons by auto
qed

lemma ring_splice:
  assumes "ring n p (xs @ x # ys)" "y \<notin> set (xs @ x # ys)"
  shows "ring (n(x := y, y := n x)) (p(n x := y, y := x)) (xs @ x # y # ys)"
proof (cases xs)
  case Nil
  have "chain (n(x := y, y := n x)) (p(n x := y, y := x)) y ys x"
    using assms Nil by (intro chain_splice) auto
  then show ?thesis using assms Nil by auto
next
  case (Cons h hs)
  have c: "chain n p h hs x" "chain n p x ys h" and d: "distinct (h # hs @ x # ys)"
    using assms Cons by (auto simp: chain_append)
  have nx: "n x \<in> insert h (set ys)" using chain_next [OF c(2)] by simp
  have "chain (n(x := y, y := n x)) (p(n x := y, y := x)) y ys h"
    using c(2) d assms(2) Cons by (intro chain_splice) auto
  moreover have "chain n p h hs x \<longleftrightarrow> chain (n(x := y, y := n x)) (p(n x := y, y := x)) h hs x"
    using d assms(2) Cons nx by (intro chain_cong) auto
  ultimately show ?thesis using c d assms(2) Cons by (auto simp: chain_append)
qed

section \<open>The invariant without its no-wire part\<close>

definition mesh_core :: "mesh \<Rightarrow> bool" where
  "mesh_core m \<longleftrightarrow> pools_inv m \<and> edges_inv m \<and> radial_inv m \<and>
     (\<forall>f. faceAlive m f \<longrightarrow> (\<exists>ls. face_ring m f ls)) \<and>
     (\<forall>l. loopAlive m l \<longrightarrow> faceAlive m (ml_face (lp m l)) \<and> vertexAlive m (ml_vertex (lp m l)) \<and> corner_ok m l)"

lemma core_inv: "mesh_inv m \<longleftrightarrow> mesh_core m \<and> no_wire m"
  using mesh_invI [of m] mesh_invD [of m] unfolding mesh_core_def by blast

lemma mesh_coreD:
  assumes "mesh_core m"
  shows "pools_inv m" "edges_inv m" "radial_inv m"
    "\<And>f. faceAlive m f \<Longrightarrow> \<exists>ls. face_ring m f ls"
    "\<And>l. loopAlive m l \<Longrightarrow> faceAlive m (ml_face (lp m l))"
    "\<And>l. loopAlive m l \<Longrightarrow> vertexAlive m (ml_vertex (lp m l))"
    "\<And>l. loopAlive m l \<Longrightarrow> linked m l"
    "\<And>l. loopAlive m l \<Longrightarrow> edge_joins (ed m (ml_edge (lp m l))) (ml_vertex (lp m l)) (ml_vertex (lp m (ml_next (lp m l))))"
    "\<And>l. loopAlive m l \<Longrightarrow> edgeAlive m (ml_edge (lp m l))"
  using assms unfolding mesh_core_def corner_ok_def radial_inv_def by auto

text \<open>The cycle of a face as seen from one of its corners.\<close>

lemma core_next:
  assumes "mesh_core m" "loopAlive m l"
  shows "loopAlive m (ml_next (lp m l))" "ml_face (lp m (ml_next (lp m l))) = ml_face (lp m l)"
    "ml_prev (lp m (ml_next (lp m l))) = l" "ml_next (lp m l) \<noteq> l"
proof -
  obtain ls where ls: "face_ring m (ml_face (lp m l)) ls" using mesh_coreD(4,5) [OF assms(1)] assms(2) by blast
  note d = ls [unfolded face_ring_def]
  have l: "l \<in> set ls" using d assms(2) by simp
  have r: "ring (\<lambda>l. ml_next (lp m l)) (\<lambda>l. ml_prev (lp m l)) ls" using d by blast
  have "ml_next (lp m l) \<in> set ls \<and> ml_prev (lp m (ml_next (lp m l))) = l" by (rule ring_next [OF r l])
  then show "loopAlive m (ml_next (lp m l))" "ml_face (lp m (ml_next (lp m l))) = ml_face (lp m l)"
    "ml_prev (lp m (ml_next (lp m l))) = l" using d by auto
  obtain ys where ys: "ring (\<lambda>l. ml_next (lp m l)) (\<lambda>l. ml_prev (lp m l)) (l # ys)" "length (l # ys) = length ls"
    using ring_rotate_to [OF r l] by blast
  then obtain y zs where "ys = y # zs" using d by (cases ys) auto
  then show "ml_next (lp m l) \<noteq> l" using ys(1) by auto
qed

section \<open>Updates of face cycles only\<close>

definition face_frame :: "mesh \<Rightarrow> mesh \<Rightarrow> bool" where
  "face_frame m m' \<longleftrightarrow> same_alive m m' \<and> m_vertices m' = m_vertices m \<and> m_edges m' = m_edges m \<and>
     (\<forall>j. ml_edge (lp m' j) = ml_edge (lp m j) \<and> ml_rnext (lp m' j) = ml_rnext (lp m j) \<and>
          ml_rprev (lp m' j) = ml_rprev (lp m j))"

lemma face_frame_refl [simp]: "face_frame m m"
  by (simp add: face_frame_def)

lemma face_frame_trans: "face_frame a b \<Longrightarrow> face_frame b c \<Longrightarrow> face_frame a c"
  by (simp add: face_frame_def same_alive_def)

lemma face_frame_set_loop:
  assumes "\<And>x. ml_alive (h x) = ml_alive x" "\<And>x. ml_edge (h x) = ml_edge x"
    "\<And>x. ml_rnext (h x) = ml_rnext x" "\<And>x. ml_rprev (h x) = ml_rprev x"
  shows "face_frame m (set_loop i h m)"
  using assms by (simp add: face_frame_def nth_update_same)

lemma face_frame_set_face: "(\<And>x. mf_alive (k x) = mf_alive x) \<Longrightarrow> face_frame m (set_face i k m)"
  by (simp add: face_frame_def)

lemma face_frame_keeps:
  assumes f: "face_frame m m'"
  shows "pools_inv m' = pools_inv m" "edges_inv m \<Longrightarrow> edges_inv m'" "radial_inv m \<Longrightarrow> radial_inv m'"
    "linked m' = linked m" "loopAlive m' = loopAlive m" "vertexAlive m' = vertexAlive m"
    "edgeAlive m' = edgeAlive m" "faceAlive m' = faceAlive m" "capacity m' k = capacity m k"
proof -
  have s: "same_alive m m'" using f by (simp add: face_frame_def)
  note al = same_alive_alive [OF s]
  show p: "pools_inv m' = pools_inv m" by (rule same_alive_pools [OF s])
  show "loopAlive m' = loopAlive m" "vertexAlive m' = vertexAlive m" "edgeAlive m' = edgeAlive m" "faceAlive m' = faceAlive m"
    by (auto simp: fun_eq_iff al)
  show lk: "linked m' = linked m" using f by (auto simp: fun_eq_iff linked_def al face_frame_def)
  show "edges_inv m'" if "edges_inv m" using that by (rule edges_inv_cong) (use f in \<open>auto simp: al face_frame_def\<close>)
  show "radial_inv m'" if "radial_inv m" using that by (rule radial_inv_cong) (use f in \<open>auto simp: al lk face_frame_def\<close>)
  show "capacity m' k = capacity m k" using same_alive_length [OF s] by (simp add: capacity_def)
qed

section \<open>One corner of a split edge\<close>

text \<open>A fresh corner is not linked and changes nothing else.\<close>

lemma allocLoop_effect:
  assumes p: "pools_inv m" and r: "radial_inv m" and c: "capacity m (Suc k)" and a: "allocLoop m = (l, m')"
  shows "pools_inv m'" "radial_inv m'" "capacity m' k" "\<not> loopAlive m l" "\<And>j. loopAlive m' j \<longleftrightarrow> j = l \<or> loopAlive m j"
    "\<And>j. loopAlive m j \<Longrightarrow> lp m' j = lp m j" "\<not> linked m' l" "\<And>j. j \<noteq> l \<Longrightarrow> linked m' j = linked m j"
    "m_vertices m' = m_vertices m" "m_edges m' = m_edges m" "m_faces m' = m_faces m" "l < length (m_loops m')"
    "lp m' l = loop0\<lparr>ml_alive := True\<rparr>"
proof -
  have a1: "allocLoops 1 m = ([l], m')" by (simp add: a)
  have c1: "capacity m (1 + k)" using c by simp
  note s = allocLoops_spec [OF p c1 a1]
  show p': "pools_inv m'" "capacity m' k" "\<not> loopAlive m l" "\<And>j. loopAlive m' j \<longleftrightarrow> j = l \<or> loopAlive m j"
    "\<And>j. loopAlive m j \<Longrightarrow> lp m' j = lp m j" "m_vertices m' = m_vertices m" "m_edges m' = m_edges m" "m_faces m' = m_faces m"
    and ll: "lp m' l = loop0\<lparr>ml_alive := True\<rparr>"
    using s by simp_all
  show nl: "\<not> linked m' l" using s by (simp add: linked_def loop0_def)
  show lk: "linked m' j = linked m j" if "j \<noteq> l" for j using p'(4,5) [of j] that by (auto simp: linked_def)
  have nm: "\<not> linked m l" using p'(3) by (simp add: linked_def)
  have eq: "linked m' j = linked m j" for j using lk nl nm by (cases "j = l") auto
  have ea: "edgeAlive m' = edgeAlive m" by (simp add: fun_eq_iff edgeAlive_def p'(7))
  show "radial_inv m'"
    using r
  proof (rule radial_inv_cong)
    show "ml_edge (lp m' j) = ml_edge (lp m j) \<and> ml_rnext (lp m' j) = ml_rnext (lp m j) \<and>
      ml_rprev (lp m' j) = ml_rprev (lp m j)" if "linked m j" for j
      using that p'(5) [of j] by (simp add: linked_def)
  qed (simp_all add: eq ea p'(7))
  have "loopAlive m' l" using p'(4) by simp
  then show "l < length (m_loops m')" by (simp add: loopAlive_def)
qed

lemma radialInsert_keeps:
  assumes "pools_inv m" "edges_inv m"
  shows "pools_inv (radialInsert e l m)" "edges_inv (radialInsert e l m)" "capacity (radialInsert e l m) k = capacity m k"
proof -
  have f: "loop_frame m (radialInsert e l m)" by (rule radialInsert_frame)
  then have s: "same_alive m (radialInsert e l m)" by (simp add: loop_frame_def)
  note al = same_alive_alive [OF s]
  show "pools_inv (radialInsert e l m)" using assms(1) same_alive_pools [OF s] by simp
  show "edges_inv (radialInsert e l m)" using assms(2) by (rule edges_inv_cong) (use f in \<open>auto simp: al loop_frame_def\<close>)
  show "capacity (radialInsert e l m) k = capacity m k" using same_alive_length [OF s] by (simp add: capacity_def)
qed

lemma radialRemove_keeps:
  assumes "pools_inv m" "edges_inv m"
  shows "pools_inv (radialRemove l m)" "edges_inv (radialRemove l m)" "capacity (radialRemove l m) k = capacity m k"
proof -
  have f: "loop_frame m (radialRemove l m)" by (rule radialRemove_frame)
  then have s: "same_alive m (radialRemove l m)" by (simp add: loop_frame_def)
  note al = same_alive_alive [OF s]
  show "pools_inv (radialRemove l m)" using assms(1) same_alive_pools [OF s] by simp
  show "edges_inv (radialRemove l m)" using assms(2) by (rule edges_inv_cong) (use f in \<open>auto simp: al loop_frame_def\<close>)
  show "capacity (radialRemove l m) k = capacity m k" using same_alive_length [OF s] by (simp add: capacity_def)
qed

lemma loop_frame_alive:
  assumes "loop_frame m m'"
  shows "vertexAlive m' = vertexAlive m" "edgeAlive m' = edgeAlive m" "faceAlive m' = faceAlive m" "loopAlive m' = loopAlive m"
  using assms same_alive_alive by (auto simp: loop_frame_def fun_eq_iff)

lemma cornerAttrs_decorated:
  assumes "attr_inv (m_cornerAttrs m) \<Longrightarrow> attr_inv A" "as_size A = as_size (m_cornerAttrs m)"
  shows "decorated m (m\<lparr>m_cornerAttrs := A\<rparr>)"
  using assms by (auto simp: decorated_def attrs_inv_def)

text \<open>
  What \<open>splitCorner\<close> does to the corner \<open>l\<close>: the fresh corner \<open>k\<close> at the new vertex follows it,
  \<open>l\<close> moves to the half edge \<open>x\<close>, \<open>k\<close> gets the other half \<open>y\<close>.
\<close>

definition corner_split :: "mesh \<Rightarrow> nat \<Rightarrow> nat \<Rightarrow> nat \<Rightarrow> nat \<Rightarrow> nat \<Rightarrow> mesh \<Rightarrow> bool" where
  "corner_split m l k v x y m' \<longleftrightarrow>
     pools_inv m' \<and> edges_inv m' \<and> radial_inv m' \<and> m_vertices m' = m_vertices m \<and> edgeAlive m' = edgeAlive m \<and>
     (\<forall>j. me_v0 (ed m' j) = me_v0 (ed m j) \<and> me_v1 (ed m' j) = me_v1 (ed m j) \<and> me_feature (ed m' j) = me_feature (ed m j)) \<and>
     (\<forall>j. linked m' j \<longleftrightarrow> j = k \<or> linked m j) \<and> (\<forall>j. loopAlive m' j \<longleftrightarrow> j = k \<or> loopAlive m j) \<and> \<not> loopAlive m k \<and>
     (\<forall>j. loopAlive m' j \<longrightarrow> ml_edge (lp m' j) = (if j = l then x else if j = k then y else ml_edge (lp m j)) \<and>
        ml_vertex (lp m' j) = (if j = k then v else ml_vertex (lp m j)) \<and>
        ml_face (lp m' j) = (if j = k then ml_face (lp m l) else ml_face (lp m j)) \<and>
        ml_next (lp m' j) = (if j = l then k else if j = k then ml_next (lp m l) else ml_next (lp m j)) \<and>
        ml_prev (lp m' j) = (if j = k then l else if j = ml_next (lp m l) then k else ml_prev (lp m j))) \<and>
     faceAlive m' = faceAlive m \<and>
     (\<forall>f. faceAlive m f \<longrightarrow> mf_first (fc m' f) = mf_first (fc m f) \<and>
        mf_size (fc m' f) = (if f = ml_face (lp m l) then Suc (mf_size (fc m f)) else mf_size (fc m f)))"

lemma splitCorner_effect:
  fixes a :: nat
  assumes m: "mesh_core m" and l: "loopAlive m l" and c: "capacity m (Suc c)"
    and e: "edgeAlive m ea" "edgeAlive m eb"
  defines "x \<equiv> if ml_vertex (lp m l) = a then ea else eb" and "y \<equiv> if ml_vertex (lp m l) = a then eb else ea"
  shows "\<exists>k. corner_split m l k v x y (splitCorner a v ea eb t l m) \<and> capacity (splitCorner a v ea eb t l m) c"
proof -
  note md = mesh_coreD [OF m]
  let ?n = "ml_next (lp m l)" and ?f = "ml_face (lp m l)"
  note nx = core_next [OF m l]
  define m1 where "m1 = radialRemove l m"
  note r1 = radialRemove_spec [OF md(1,3) md(7) [OF l], folded m1_def] and k1 = radialRemove_keeps [OF md(1,2), of l, folded m1_def]
  have f1: "loop_frame m m1" unfolding m1_def by (rule radialRemove_frame)
  note a1 = loop_frame_alive [OF f1]
  obtain k m2 where al: "allocLoop m1 = (k, m2)" by (cases "allocLoop m1")
  have c1: "capacity m1 (Suc c)" using c k1(3) by simp
  note s2 = allocLoop_effect [OF k1(1) r1(1) c1 al]
  have kn: "\<not> loopAlive m k" "k \<noteq> l" "k \<noteq> ?n" using s2(4) l nx(1) a1(4) by auto
  define m3 where "m3 = set_loop k (\<lambda>z. z\<lparr>ml_vertex := v, ml_face := ?f, ml_next := ?n, ml_prev := l\<rparr>) m2"
  define m4 where "m4 = set_loop ?n (\<lambda>z. z\<lparr>ml_prev := k\<rparr>) m3"
  define m5 where "m5 = set_loop l (\<lambda>z. z\<lparr>ml_next := k\<rparr>) m4"
  have f5: "face_frame m2 m5"
    unfolding m5_def m4_def m3_def
    by (rule face_frame_trans [OF face_frame_set_loop face_frame_trans [OF face_frame_set_loop face_frame_set_loop]]) simp_all
  note k5 = face_frame_keeps [OF f5]
  have e2: "edges_inv m2" using k1(2)
    by (rule edges_inv_cong) (simp_all add: s2(9,10) vertexAlive_def edgeAlive_def)
  have i5: "pools_inv m5" "edges_inv m5" "radial_inv m5" "capacity m5 c"
    using k5(1-3,9) s2(1-3) e2 by simp_all
  have lt: "l < length (m_loops m2)" "?n < length (m_loops m2)" "k < length (m_loops m2)"
    using s2(5,12) l nx(1) a1(4) by (auto simp: loopAlive_def)
  have l5: "lp m5 j = (if j = k then (lp m2 k)\<lparr>ml_vertex := v, ml_face := ?f, ml_next := ?n, ml_prev := l\<rparr>
      else if j = l then (if j = ?n then (lp m2 j)\<lparr>ml_prev := k\<rparr> else lp m2 j)\<lparr>ml_next := k\<rparr>
      else if j = ?n then (lp m2 j)\<lparr>ml_prev := k\<rparr> else lp m2 j)" for j
    using lt kn(2,3) by (simp add: m5_def m4_def m3_def nth_list_update)
  have link5: "\<not> linked m5 l" "\<not> linked m5 k" using k5(4) s2(7,8) r1(2) kn(2) by auto
  have ea2: "edgeAlive m2 = edgeAlive m1" by (simp add: fun_eq_iff edgeAlive_def s2(10))
  have ed5: "edgeAlive m5 x" "edgeAlive m5 y" using e k5(7) a1(2) ea2 by (simp_all add: x_def y_def)
  have lo5: "loopAlive m5 l" "loopAlive m5 k" using k5(5) s2(5) l a1(4) by auto
  define m6 where "m6 = radialInsert x l m5"
  note r6 = radialInsert_spec [OF i5(1,3) ed5(1) lo5(1) link5(1), folded m6_def] and k6 = radialInsert_keeps [OF i5(1,2), of x l, folded m6_def]
  have f6: "loop_frame m5 m6" unfolding m6_def by (rule radialInsert_frame)
  note a6 = loop_frame_alive [OF f6]
  define m7 where "m7 = radialInsert y k m6"
  have pre7: "edgeAlive m6 y" "loopAlive m6 k" "\<not> linked m6 k" using ed5 lo5 a6 r6(2) link5(2) kn(2) by auto
  note r7 = radialInsert_spec [OF k6(1) r6(1) pre7, folded m7_def] and k7 = radialInsert_keeps [OF k6(1,2), of y k, folded m7_def]
  have f7: "loop_frame m6 m7" unfolding m7_def by (rule radialInsert_frame)
  note a7 = loop_frame_alive [OF f7]
  have f57: "loop_frame m5 m7" by (rule loop_frame_trans [OF f6 f7])
  define A where "A = attr_interpolate k l ?n (if ml_vertex (lp m l) = a then t else fsub f32_1 t) (m_cornerAttrs m7)"
  define m8 where "m8 = m7\<lparr>m_cornerAttrs := A\<rparr>"
  define m9 where "m9 = set_face ?f (\<lambda>z. z\<lparr>mf_size := to_index (mf_size z + 1)\<rparr>) m8"
  have d8: "decorated m7 m8" unfolding m8_def A_def by (rule cornerAttrs_decorated) (auto simp: attr_size_simps)
  have f9: "face_frame m8 m9" unfolding m9_def by (rule face_frame_set_face) simp
  note k9 = face_frame_keeps [OF f9] and a8 = decorated_alive [OF d8]
  have e8: "edges_inv m8" using k7(2) by (rule edges_inv_cong) (simp_all add: a8 decorated_fields [OF d8])
  have r8: "radial_inv m8" using r7(1) by (rule radial_inv_cong) (simp_all add: a8 decorated_fields [OF d8])
  have i9: "pools_inv m9" "edges_inv m9" "radial_inv m9" "capacity m9 c"
    using k9(1-3,9) decorated_pools [OF d8 k7(1)] e8 r8 decorated_capacity [OF d8] k6(3) k7(3) i5(4) by simp_all
  have res: "splitCorner a v ea eb t l m = m9"
    using al by (simp add: splitCorner_def Let_def m9_def m8_def A_def m7_def m6_def m5_def m4_def m3_def m1_def x_def y_def split_beta)
  have lp9: "lp m9 j = lp m7 j" for j by (simp add: m9_def m8_def)
  have old: "lp m2 j = lp m1 j" "ml_vertex (lp m1 j) = ml_vertex (lp m j)" "ml_face (lp m1 j) = ml_face (lp m j)"
      "ml_next (lp m1 j) = ml_next (lp m j)" "ml_prev (lp m1 j) = ml_prev (lp m j)" "ml_edge (lp m1 j) = ml_edge (lp m j)"
    if "loopAlive m j" for j
    using that s2(6) [of j] a1(4) r1(3) [of j] f1 by (auto simp: loop_frame_def)
  have alive: "loopAlive m9 j \<longleftrightarrow> j = k \<or> loopAlive m j" for j
    using k9(5) a8(4) a7(4) a6(4) k5(5) s2(5) a1(4) by simp
  have fields: "ml_edge (lp m9 j) = (if j = l then x else if j = k then y else ml_edge (lp m j)) \<and>
        ml_vertex (lp m9 j) = (if j = k then v else ml_vertex (lp m j)) \<and>
        ml_face (lp m9 j) = (if j = k then ?f else ml_face (lp m j)) \<and>
        ml_next (lp m9 j) = (if j = l then k else if j = k then ?n else ml_next (lp m j)) \<and>
        ml_prev (lp m9 j) = (if j = k then l else if j = ?n then k else ml_prev (lp m j))" if "loopAlive m9 j" for j
  proof -
    have "ml_edge (lp m7 j) = (if j = k then y else if j = l then x else ml_edge (lp m5 j))" using r6(3) r7(3) by simp
    moreover have "ml_vertex (lp m7 j) = ml_vertex (lp m5 j)" "ml_face (lp m7 j) = ml_face (lp m5 j)"
        "ml_next (lp m7 j) = ml_next (lp m5 j)" "ml_prev (lp m7 j) = ml_prev (lp m5 j)"
      using f57 by (simp_all add: loop_frame_def)
    moreover have "j = k \<or> loopAlive m j" using that alive by simp
    ultimately show ?thesis using kn nx(4) old [of j] unfolding lp9 l5 by (cases "j = k") auto
  qed
  have lk: "linked m9 j \<longleftrightarrow> j = k \<or> linked m j" for j
    using k9(4) a8(5) r7(2) r6(2) k5(4) s2(7,8) r1(2) md(7) [OF l] by (metis (full_types))
  have edges: "me_v0 (ed m9 j) = me_v0 (ed m j) \<and> me_v1 (ed m9 j) = me_v1 (ed m j) \<and> me_feature (ed m9 j) = me_feature (ed m j)" for j
  proof -
    have "ed m9 j = ed m7 j" by (simp add: m9_def m8_def)
    moreover have "m_edges m5 = m_edges m1" using f5 s2(10) by (simp add: face_frame_def)
    ultimately show ?thesis using f57 f1 by (simp add: loop_frame_def)
  qed
  have vs: "m_vertices m9 = m_vertices m" using f57 f1 f5 s2(9) by (simp add: m9_def m8_def loop_frame_def face_frame_def)
  have fs: "m_faces m7 = m_faces m"
    using f57 f1 s2(11) by (simp add: loop_frame_def m5_def m4_def m3_def)
  have small: "to_index (mf_size (fc m ?f) + 1) = Suc (mf_size (fc m ?f))"
  proof -
    obtain ls where ls: "face_ring m ?f ls" using md(4) [OF md(5) [OF l]] by blast
    then have "set ls \<subseteq> {..<length (m_loops m)}" "distinct ls" "mf_size (fc m ?f) = length ls"
      by (auto simp: face_ring_def loopAlive_def dest: ring_distinct)
    then have "mf_size (fc m ?f) \<le> length (m_loops m)" using card_mono [of "{..<length (m_loops m)}" "set ls"] by (simp add: distinct_card)
    then show ?thesis using c by (simp add: capacity_def to_index_def kInvalidIndex_def)
  qed
  have fa: "faceAlive m ?f" by (rule md(5) [OF l])
  have fc9: "fc m9 f = (if f = ?f then (fc m f)\<lparr>mf_size := Suc (mf_size (fc m f))\<rparr> else fc m f)" if "faceAlive m f" for f
  proof -
    have "?f < length (m_faces m7)" using fa fs by (simp add: faceAlive_def)
    then show ?thesis using small by (simp add: m9_def m8_def fs nth_list_update)
  qed
  have "corner_split m l k v x y m9"
    unfolding corner_split_def
    using i9 vs edges lk alive fields kn(1) fc9 k9(7,8) a8(2,3) a7(2,3) a6(2,3) k5(7,8) a1(2,3) s2(10,11)
    by (auto simp: fun_eq_iff edgeAlive_def [of m2] edgeAlive_def [of m1] faceAlive_def [of m2] faceAlive_def [of m1])
  then show ?thesis using i9(4) res by blast
qed

lemma corner_splitD:
  assumes "corner_split m l k v x y m'"
  shows "pools_inv m'" "edges_inv m'" "radial_inv m'" "m_vertices m' = m_vertices m" "edgeAlive m' = edgeAlive m"
    "faceAlive m' = faceAlive m" "vertexAlive m' = vertexAlive m" "\<not> loopAlive m k"
    "edge_joins (ed m' e) p q = edge_joins (ed m e) p q" "me_feature (ed m' e) = me_feature (ed m e)"
    "linked m' j \<longleftrightarrow> j = k \<or> linked m j" "loopAlive m' j \<longleftrightarrow> j = k \<or> loopAlive m j"
    "loopAlive m' j \<Longrightarrow> ml_edge (lp m' j) = (if j = l then x else if j = k then y else ml_edge (lp m j))"
    "loopAlive m' j \<Longrightarrow> ml_vertex (lp m' j) = (if j = k then v else ml_vertex (lp m j))"
    "loopAlive m' j \<Longrightarrow> ml_face (lp m' j) = (if j = k then ml_face (lp m l) else ml_face (lp m j))"
    "loopAlive m' j \<Longrightarrow> ml_next (lp m' j) = (if j = l then k else if j = k then ml_next (lp m l) else ml_next (lp m j))"
    "loopAlive m' j \<Longrightarrow> ml_prev (lp m' j) = (if j = k then l else if j = ml_next (lp m l) then k else ml_prev (lp m j))"
    "faceAlive m f \<Longrightarrow> mf_first (fc m' f) = mf_first (fc m f)"
    "faceAlive m f \<Longrightarrow> mf_size (fc m' f) = (if f = ml_face (lp m l) then Suc (mf_size (fc m f)) else mf_size (fc m f))"
  using assms by (simp_all add: corner_split_def fun_eq_iff vertexAlive_def edge_joins_def)

lemma corner_split_ring:
  assumes m: "mesh_core m" and l: "loopAlive m l" and s: "corner_split m l k v x y m'"
    and r: "face_ring m (ml_face (lp m l)) (xs @ l # ys)" and v: "v \<notin> set (map (\<lambda>j. ml_vertex (lp m j)) (xs @ l # ys))"
  shows "face_ring m' (ml_face (lp m l)) (xs @ l # k # ys)"
    "map (\<lambda>j. ml_vertex (lp m' j)) (xs @ l # k # ys) = map (\<lambda>j. ml_vertex (lp m j)) (xs @ [l]) @ v # map (\<lambda>j. ml_vertex (lp m j)) ys"
proof -
  note d = s [unfolded corner_split_def] and rd = r [unfolded face_ring_def]
  let ?f = "ml_face (lp m l)" and ?n = "\<lambda>l. ml_next (lp m l)" and ?p = "\<lambda>l. ml_prev (lp m l)"
  have mem: "set (xs @ l # ys) = {j. loopAlive m j \<and> ml_face (lp m j) = ?f}" using rd by blast
  have k: "k \<notin> set (xs @ l # ys)" using d mem by auto
  have al: "loopAlive m' j" if "j \<in> set (xs @ l # k # ys)" for j using that mem d by auto
  have "ring (?n(l := k, k := ?n l)) (?p(?n l := k, k := l)) (xs @ l # k # ys)"
    using rd k by (intro ring_splice) auto
  moreover have "ring (?n(l := k, k := ?n l)) (?p(?n l := k, k := l)) (xs @ l # k # ys) \<longleftrightarrow>
      ring (\<lambda>j. ml_next (lp m' j)) (\<lambda>j. ml_prev (lp m' j)) (xs @ l # k # ys)"
  proof (rule ring_cong)
    fix j assume "j \<in> set (xs @ l # k # ys)"
    then have "loopAlive m' j" by (rule al)
    then show "(?n(l := k, k := ?n l)) j = ml_next (lp m' j)" "(?p(?n l := k, k := l)) j = ml_prev (lp m' j)"
      using d k core_next(4) [OF m l] by auto
  qed
  ultimately have ring: "ring (\<lambda>j. ml_next (lp m' j)) (\<lambda>j. ml_prev (lp m' j)) (xs @ l # k # ys)" by blast
  have vx: "ml_vertex (lp m' j) = (if j = k then v else ml_vertex (lp m j))" if "j \<in> set (xs @ l # k # ys)" for j
    using al [OF that] d by blast
  then have "map (\<lambda>j. ml_vertex (lp m' j)) (xs @ l # k # ys) = map (\<lambda>j. if j = k then v else ml_vertex (lp m j)) (xs @ l # k # ys)"
    by (intro map_cong refl) blast
  also have "\<dots> = map (\<lambda>j. ml_vertex (lp m j)) (xs @ [l]) @ v # map (\<lambda>j. ml_vertex (lp m j)) ys" using k by auto
  finally show vs: "map (\<lambda>j. ml_vertex (lp m' j)) (xs @ l # k # ys) =
      map (\<lambda>j. ml_vertex (lp m j)) (xs @ [l]) @ v # map (\<lambda>j. ml_vertex (lp m j)) ys" .
  have "distinct (map (\<lambda>j. ml_vertex (lp m' j)) (xs @ l # k # ys))" unfolding vs using rd v by auto
  moreover have "set (xs @ l # k # ys) = {j. loopAlive m' j \<and> ml_face (lp m' j) = ?f}"
  proof -
    have "loopAlive m' j \<and> ml_face (lp m' j) = ?f \<longleftrightarrow> j = k \<or> loopAlive m j \<and> ml_face (lp m j) = ?f" for j
      using d by (cases "j = k") auto
    then show ?thesis using mem by auto
  qed
  moreover have fa: "faceAlive m ?f" by (rule mesh_coreD(5) [OF m l])
  then have "mf_first (fc m' ?f) = mf_first (fc m ?f)" "mf_size (fc m' ?f) = Suc (mf_size (fc m ?f))" using d by simp_all
  moreover have "hd (xs @ l # k # ys) = hd (xs @ l # ys)" by (cases xs) auto
  ultimately show "face_ring m' ?f (xs @ l # k # ys)" using rd ring unfolding face_ring_def by auto
qed

lemma corner_split_other:
  assumes m: "mesh_core m" and l: "loopAlive m l" and s: "corner_split m l k v x y m'"
    and f: "faceAlive m f" "f \<noteq> ml_face (lp m l)" and r: "face_ring m f ls"
  shows "face_ring m' f ls" "map (\<lambda>j. ml_vertex (lp m' j)) ls = map (\<lambda>j. ml_vertex (lp m j)) ls"
proof -
  note d = corner_splitD [OF s]
  have mem: "set ls = {j. loopAlive m j \<and> ml_face (lp m j) = f}" and ring0: "ring (\<lambda>j. ml_next (lp m j)) (\<lambda>j. ml_prev (lp m j)) ls"
    using r by (simp_all add: face_ring_def)
  have same: "corner_same m m' j" if j: "j \<in> set ls" for j
  proof -
    have a: "loopAlive m j" "ml_face (lp m j) = f" using j mem by auto
    then have "j \<noteq> l" "j \<noteq> ml_next (lp m l)" "j \<noteq> k" using f(2) core_next(2) [OF m l] d(8) by auto
    moreover have "loopAlive m' j" using a(1) d(12) by blast
    ultimately show ?thesis using d(13-17) by (simp add: corner_same_def)
  qed
  have mem': "loopAlive m' j \<and> ml_face (lp m' j) = f \<longleftrightarrow> loopAlive m j \<and> ml_face (lp m j) = f" for j
  proof (cases "j = k")
    case True
    then show ?thesis using d(8,12) d(15) [of k] f(2) by auto
  next
    case False
    then show ?thesis using d(12) [of j] d(15) [of j] by auto
  qed
  have ring: "ring (\<lambda>j. ml_next (lp m' j)) (\<lambda>j. ml_prev (lp m' j)) ls"
    using ring0 by (rule ring_cong [THEN iffD1, rotated 2]) (use same in \<open>simp_all add: corner_same_def\<close>)
  show v: "map (\<lambda>j. ml_vertex (lp m' j)) ls = map (\<lambda>j. ml_vertex (lp m j)) ls"
    using same by (simp add: corner_same_def)
  have sz: "mf_first (fc m' f) = mf_first (fc m f)" "mf_size (fc m' f) = mf_size (fc m f)" using d(18,19) f by simp_all
  show "face_ring m' f ls" unfolding face_ring_def v mem' sz using r [unfolded face_ring_def] ring by blast
qed

lemma corner_split_core:
  assumes m: "mesh_core m" and l: "loopAlive m l" and s: "corner_split m l k v x y m'"
    and v: "vertexAlive m v" "\<And>j. loopAlive m j \<Longrightarrow> ml_face (lp m j) = ml_face (lp m l) \<Longrightarrow> ml_vertex (lp m j) \<noteq> v"
    and x: "edge_joins (ed m x) (ml_vertex (lp m l)) v" and y: "edge_joins (ed m y) v (ml_vertex (lp m (ml_next (lp m l))))"
  shows "mesh_core m'"
  unfolding mesh_core_def
proof (intro conjI allI impI)
  note d = s [unfolded corner_split_def] and md = mesh_coreD [OF m] and nx = core_next [OF m]
  show "pools_inv m'" "edges_inv m'" "radial_inv m'" using d by simp_all
  have va: "vertexAlive m' = vertexAlive m" using d by (simp add: fun_eq_iff vertexAlive_def)
  fix f assume "faceAlive m' f"
  then have f: "faceAlive m f" using d by simp
  then obtain ls where ls: "face_ring m f ls" using md(4) by blast
  show "\<exists>ls. face_ring m' f ls"
  proof (cases "f = ml_face (lp m l)")
    case True
    have mem: "set ls = {j. loopAlive m j \<and> ml_face (lp m j) = f}" using ls by (simp add: face_ring_def)
    then have "l \<in> set ls" using l True by simp
    then obtain xs ys where "ls = xs @ l # ys" using split_list by fast
    moreover have "v \<notin> set (map (\<lambda>j. ml_vertex (lp m j)) ls)" using mem v(2) True by auto
    ultimately show ?thesis using corner_split_ring(1) [OF m l s] ls True by blast
  qed (use corner_split_other(1) [OF m l s f] ls in blast)
next
  note d = s [unfolded corner_split_def] and md = mesh_coreD [OF m] and nx = core_next [OF m]
  have va: "vertexAlive m' = vertexAlive m" using d by (simp add: fun_eq_iff vertexAlive_def)
  have ej: "edge_joins (ed m' e) p q = edge_joins (ed m e) p q" for e p q using d by (simp add: edge_joins_def)
  fix j assume j: "loopAlive m' j"
  then have jm: "j = k \<or> loopAlive m j" using d by simp
  have fld: "ml_face (lp m' j) = (if j = k then ml_face (lp m l) else ml_face (lp m j))"
      "ml_vertex (lp m' j) = (if j = k then v else ml_vertex (lp m j))" using d j by blast+
  show "faceAlive m' (ml_face (lp m' j))" using fld(1) jm md(5) l d by auto
  show "vertexAlive m' (ml_vertex (lp m' j))" using fld(2) jm md(6) v(1) va by auto
  have kl: "k \<noteq> l" "\<not> loopAlive m k" using d l by auto
  have jn: "ml_edge (lp m' j) = (if j = l then x else if j = k then y else ml_edge (lp m j))"
      "ml_next (lp m' j) = (if j = l then k else if j = k then ml_next (lp m l) else ml_next (lp m j))" using d j by blast+
  have vn: "ml_vertex (lp m' i) = ml_vertex (lp m i)" if "loopAlive m i" for i using that d kl(2) by auto
  have vk: "ml_vertex (lp m' k) = v" using d by simp
  have "edge_joins (ed m' (ml_edge (lp m' j))) (ml_vertex (lp m' j)) (ml_vertex (lp m' (ml_next (lp m' j))))"
  proof -
    consider "j = l" | "j = k" | "j \<noteq> l" "j \<noteq> k" "loopAlive m j" using jm by blast
    then show ?thesis
    proof cases
      case 1
      then show ?thesis unfolding ej jn fld using kl x vk vn [OF l] by simp
    next
      case 2
      then show ?thesis unfolding ej jn fld using kl y vn [OF nx(1) [OF l]] by simp
    next
      case 3
      then show ?thesis unfolding ej jn fld using md(8) [OF 3(3)] vn [OF nx(1) [OF 3(3)]] by simp
    qed
  qed
  moreover have "linked m' j" using d jm md(7) by auto
  ultimately show "corner_ok m' j" by (simp add: corner_ok_def)
qed

end
