(* ===== verification/MeshSplit.thy ===== *)
theory MeshSplit
  imports MeshSplice MeshFeature
begin

text \<open>
  \<open>splitEdge\<close> of \<open>mesh_ops.cpp\<close>: it returns on every mesh with the invariant, keeps it, and
  inserts the new vertex into every face cycle between the two ends of the edge.
\<close>

section \<open>Inserting a vertex into a cycle\<close>

definition split_cycle :: "nat \<Rightarrow> nat \<Rightarrow> nat \<Rightarrow> nat list \<Rightarrow> nat list" where
  "split_cycle a b v vs = concat (map (\<lambda>i. if {vs ! i, vs ! ((i + 1) mod length vs)} = {a, b} then [vs ! i, v] else [vs ! i])
     [0..<length vs])"

lemma map_nth_range: "i \<le> j \<Longrightarrow> j \<le> length vs \<Longrightarrow> map ((!) vs) [i..<j] = take (j - i) (drop i vs)"
  by (rule nth_equalityI) auto

lemma concat_single: "(\<And>x. x \<in> set xs \<Longrightarrow> f x = [g x]) \<Longrightarrow> concat (map f xs) = map g xs"
  by (induction xs) auto

lemma split_cycle_none:
  assumes "\<And>i. i < length vs \<Longrightarrow> {vs ! i, vs ! ((i + 1) mod length vs)} \<noteq> {a, b}"
  shows "split_cycle a b v vs = vs"
proof -
  have "split_cycle a b v vs = map ((!) vs) [0..<length vs]"
    unfolding split_cycle_def by (rule concat_single) (use assms in auto)
  then show ?thesis by (simp add: map_nth)
qed

lemma cycle_pair_unique:
  assumes d: "distinct vs" "3 \<le> length vs" and i: "i < length vs" "j < length vs"
    and p: "{vs ! i, vs ! ((i + 1) mod length vs)} = {a, b}" "{vs ! j, vs ! ((j + 1) mod length vs)} = {a, b}"
  shows "i = j"
proof (rule ccontr)
  assume ne: "i \<noteq> j"
  let ?n = "length vs"
  have n: "(i + 1) mod ?n < ?n" "(j + 1) mod ?n < ?n" using d(2) by (auto intro: mod_less_divisor)
  have inj: "vs ! x = vs ! y \<longleftrightarrow> x = y" if "x < ?n" "y < ?n" for x y using d(1) that nth_eq_iff_index_eq by blast
  have "vs ! i = vs ! ((j + 1) mod ?n)" "vs ! j = vs ! ((i + 1) mod ?n)"
    using p ne i inj [of i j] by (auto simp: doubleton_eq_iff)
  then have "i = (j + 1) mod ?n" "j = (i + 1) mod ?n" using inj i n by simp_all
  moreover have "(k + 1) mod ?n = (if k + 1 = ?n then 0 else k + 1)" if "k < ?n" for k using that by auto
  ultimately show False using d(2) i by (auto split: if_split_asm)
qed

lemma split_cycle_at:
  assumes d: "distinct (us @ u # ws)" "3 \<le> length (us @ u # ws)" and p: "{u, hd (ws @ us)} = {a, b}"
  shows "split_cycle a b v (us @ u # ws) = us @ u # v # ws"
proof -
  let ?vs = "us @ u # ws" and ?i = "length us"
  let ?f = "\<lambda>i. if {?vs ! i, ?vs ! ((i + 1) mod length ?vs)} = {a, b} then [?vs ! i, v] else [?vs ! i]"
  have nx: "?vs ! ((?i + 1) mod length ?vs) = hd (ws @ us)"
  proof (cases ws)
    case Nil
    then show ?thesis using d(2) by (cases us) auto
  qed (simp add: nth_append)
  have i: "?i < length ?vs" "{?vs ! ?i, ?vs ! ((?i + 1) mod length ?vs)} = {a, b}" unfolding nx using p by simp_all
  have other: "?f j = [?vs ! j]" if "j < length ?vs" "j \<noteq> ?i" for j
    using cycle_pair_unique [OF d i(1) that(1) i(2)] that(2) by auto
  have "[0..<length ?vs] = [0..<?i] @ ?i # [Suc ?i..<length ?vs]"
    using upt_add_eq_append [of 0 ?i "Suc (length ws)"] upt_conv_Cons [of ?i "length ?vs"] by simp
  then have "split_cycle a b v ?vs = concat (map ?f [0..<?i]) @ ?f ?i @ concat (map ?f [Suc ?i..<length ?vs])"
    unfolding split_cycle_def by simp
  also have "concat (map ?f [0..<?i]) = map ((!) ?vs) [0..<?i]" by (rule concat_single) (intro other; simp)
  also have "\<dots> = us" by (simp add: map_nth_range)
  also have "concat (map ?f [Suc ?i..<length ?vs]) = map ((!) ?vs) [Suc ?i..<length ?vs]" by (rule concat_single) (intro other; auto)
  also have "\<dots> = ws" by (subst map_nth_range) auto
  also have "?f ?i = [u, v]" using i(2) by simp
  finally show ?thesis by simp
qed

section \<open>Corners on an edge\<close>

definition used :: "mesh \<Rightarrow> nat \<Rightarrow> bool" where
  "used m e \<longleftrightarrow> (\<exists>l. loopAlive m l \<and> ml_edge (lp m l) = e)"

lemma core_used:
  assumes m: "mesh_core m" and e: "edgeAlive m e"
  shows "me_radial (ed m e) \<noteq> kInvalidIndex \<longleftrightarrow> used m e"
proof -
  have ok: "radial_ok m e" using mesh_coreD(3) [OF m] e by (simp add: radial_inv_def)
  have lk: "linked m l \<longleftrightarrow> loopAlive m l" for l using mesh_coreD(7) [OF m] by (auto simp: linked_def)
  show ?thesis
  proof (cases "me_radial (ed m e) = kInvalidIndex")
    case True
    then show ?thesis using ok by (auto simp: radial_ok_def Let_def used_def lk)
  next
    case False
    then obtain xs where "set (me_radial (ed m e) # xs) = {l. linked m l \<and> ml_edge (lp m l) = e}" using radial_members [OF ok] by blast
    then show ?thesis using False lk by (auto simp: used_def)
  qed
qed

lemma core_no_wire: "mesh_core m \<Longrightarrow> no_wire m \<longleftrightarrow> (\<forall>e. edgeAlive m e \<longrightarrow> used m e)"
  using core_used by (auto simp: no_wire_def)

text \<open>The cycle of a face, cut at one of its corners.\<close>

lemma face_ring_cut:
  assumes m: "mesh_core m" and l: "loopAlive m l"
  obtains xs ys where "face_ring m (ml_face (lp m l)) (xs @ l # ys)" "hd (ys @ xs) = ml_next (lp m l)"
proof -
  obtain ls where ls: "face_ring m (ml_face (lp m l)) ls" using mesh_coreD(4,5) [OF m] l by blast
  then have "l \<in> set ls" using l by (simp add: face_ring_def)
  then obtain xs ys where xy: "ls = xs @ l # ys" using split_list by fast
  have "ring (\<lambda>l. ml_next (lp m l)) (\<lambda>l. ml_prev (lp m l)) (l # ys @ xs)"
    using ls xy by (intro ring_rotate) (simp add: face_ring_def)
  moreover have "ys @ xs \<noteq> []" using ls xy by (auto simp: face_ring_def)
  ultimately have "hd (ys @ xs) = ml_next (lp m l)" by (cases "ys @ xs") auto
  then show thesis using that ls xy by blast
qed

lemma one_corner:
  assumes m: "mesh_core m" and l: "loopAlive m k" "loopAlive m l" and e: "ml_edge (lp m k) = ml_edge (lp m l)"
    and f: "ml_face (lp m k) = ml_face (lp m l)"
  shows "k = l"
proof -
  obtain ls where ls: "face_ring m (ml_face (lp m l)) ls" using mesh_coreD(4,5) [OF m] l by blast
  note d = ls [unfolded face_ring_def]
  let ?vs = "map (\<lambda>j. ml_vertex (lp m j)) ls"
  have mem: "k \<in> set ls" "l \<in> set ls" using d l f by auto
  obtain i j where ij: "i < length ls" "ls ! i = k" "j < length ls" "ls ! j = l" using mem by (auto simp: in_set_conv_nth)
  have nx: "ml_next (lp m (ls ! q)) = ls ! ((q + 1) mod length ls)" if "q < length ls" for q
  proof -
    obtain a ys where as: "ls = a # ys" using d by (cases ls) auto
    then have "chain (\<lambda>l. ml_next (lp m l)) (\<lambda>l. ml_prev (lp m l)) a ys a" using d by auto
    then have "ml_next (lp m ((a # ys) ! q)) = (ys @ [a]) ! q" using that as by (simp add: chain_index)
    then show ?thesis using that as by (cases "q = length ys") (auto simp: nth_append)
  qed
  have pair: "{?vs ! q, ?vs ! ((q + 1) mod length ?vs)} = {me_v0 (ed m (ml_edge (lp m l))), me_v1 (ed m (ml_edge (lp m l)))}"
    if q: "q < length ls" "ml_edge (lp m (ls ! q)) = ml_edge (lp m l)" for q
  proof -
    have "loopAlive m (ls ! q)" using d nth_mem [OF q(1)] by auto
    from mesh_coreD(8) [OF m this] q show ?thesis
      using nx [OF q(1)] d by (auto simp: edge_joins_def)
  qed
  have "i = j"
  proof (rule cycle_pair_unique [of ?vs])
    show "distinct ?vs" "3 \<le> length ?vs" "i < length ?vs" "j < length ?vs" using d ij by simp_all
    show "{?vs ! i, ?vs ! ((i + 1) mod length ?vs)} = {me_v0 (ed m (ml_edge (lp m l))), me_v1 (ed m (ml_edge (lp m l)))}"
      "{?vs ! j, ?vs ! ((j + 1) mod length ?vs)} = {me_v0 (ed m (ml_edge (lp m l))), me_v1 (ed m (ml_edge (lp m l)))}"
      using ij e by (intro pair; simp)+
  qed
  then show ?thesis using ij by simp
qed

section \<open>The loop over the corners of the edge\<close>

text \<open>\<open>splitting m e a b v x y done m'\<close>: from \<open>m\<close>, with the corners \<open>done\<close> of \<open>e\<close> (joining \<open>a\<close> and \<open>b\<close>) split
  at the vertex \<open>v\<close> onto the halves \<open>x\<close> and \<open>y\<close>.\<close>

definition splitting :: "mesh \<Rightarrow> nat \<Rightarrow> nat \<Rightarrow> nat \<Rightarrow> nat \<Rightarrow> nat \<Rightarrow> nat \<Rightarrow> nat list \<Rightarrow> mesh \<Rightarrow> bool" where
  "splitting m e a b v x y ds m' \<longleftrightarrow> mesh_core m' \<and> m_vertices m' = m_vertices m \<and> edgeAlive m' = edgeAlive m \<and>
     (\<forall>j. me_v0 (ed m' j) = me_v0 (ed m j) \<and> me_v1 (ed m' j) = me_v1 (ed m j) \<and> me_feature (ed m' j) = me_feature (ed m j)) \<and>
     faceAlive m' = faceAlive m \<and>
     (\<forall>l. loopAlive m l \<longrightarrow> loopAlive m' l \<and> ml_face (lp m' l) = ml_face (lp m l) \<and> ml_vertex (lp m' l) = ml_vertex (lp m l) \<and>
        (l \<notin> set ds \<longrightarrow> ml_edge (lp m' l) = ml_edge (lp m l))) \<and>
     (\<forall>l. loopAlive m' l \<longrightarrow> ml_edge (lp m' l) = e \<longrightarrow> loopAlive m l \<and> l \<notin> set ds) \<and>
     (\<forall>l. loopAlive m' l \<longrightarrow> ml_vertex (lp m' l) = v \<longrightarrow> ml_face (lp m' l) \<in> (\<lambda>d. ml_face (lp m d)) ` set ds) \<and>
     (\<forall>f. faceAlive m f \<longrightarrow> faceVertices m' f = (if f \<in> (\<lambda>d. ml_face (lp m d)) ` set ds
        then map_option (split_cycle a b v) (faceVertices m f) else faceVertices m f)) \<and>
     (ds \<noteq> [] \<longrightarrow> used m' x \<and> used m' y) \<and> (\<forall>j. used m j \<longrightarrow> j \<noteq> e \<longrightarrow> used m' j)"

lemma splittingD:
  assumes "splitting m e a b v x y ds m'"
  shows "mesh_core m'" "m_vertices m' = m_vertices m" "edgeAlive m' = edgeAlive m"
    "me_v0 (ed m' j) = me_v0 (ed m j)" "me_v1 (ed m' j) = me_v1 (ed m j)" "me_feature (ed m' j) = me_feature (ed m j)"
    "faceAlive m' = faceAlive m" "loopAlive m l \<Longrightarrow> loopAlive m' l" "loopAlive m l \<Longrightarrow> ml_face (lp m' l) = ml_face (lp m l)"
    "loopAlive m l \<Longrightarrow> ml_vertex (lp m' l) = ml_vertex (lp m l)"
    "loopAlive m l \<Longrightarrow> l \<notin> set ds \<Longrightarrow> ml_edge (lp m' l) = ml_edge (lp m l)"
    "loopAlive m' l \<Longrightarrow> ml_edge (lp m' l) = e \<Longrightarrow> loopAlive m l \<and> l \<notin> set ds"
    "loopAlive m' l \<Longrightarrow> ml_vertex (lp m' l) = v \<Longrightarrow> ml_face (lp m' l) \<in> (\<lambda>d. ml_face (lp m d)) ` set ds"
    "faceAlive m f \<Longrightarrow> faceVertices m' f = (if f \<in> (\<lambda>d. ml_face (lp m d)) ` set ds
        then map_option (split_cycle a b v) (faceVertices m f) else faceVertices m f)"
    "ds \<noteq> [] \<Longrightarrow> used m' x \<and> used m' y" "used m j \<Longrightarrow> j \<noteq> e \<Longrightarrow> used m' j"
    "edge_joins (ed m' j) p q = edge_joins (ed m j) p q" "vertexAlive m' = vertexAlive m"
  using assms by (simp_all add: splitting_def edge_joins_def fun_eq_iff vertexAlive_def)

lemma edge_joins_ends: "edge_joins e a b \<Longrightarrow> edge_joins e p q \<Longrightarrow> p = a \<and> q = b \<or> p = b \<and> q = a"
  by (auto simp: edge_joins_def)

lemma splitting_start:
  assumes "mesh_core m" "\<And>l. loopAlive m l \<Longrightarrow> ml_vertex (lp m l) \<noteq> v"
  shows "splitting m e a b v x y [] m"
  using assms by (auto simp: splitting_def)

lemma splitting_step:
  assumes s: "splitting m e a b v ea eb ds m'" and m: "mesh_core m"
    and l: "loopAlive m l" "ml_edge (lp m l) = e" "l \<notin> set ds" and ds: "\<forall>d \<in> set ds. loopAlive m d \<and> ml_edge (lp m d) = e"
    and j: "edge_joins (ed m e) a b" "edge_joins (ed m ea) a v" "edge_joins (ed m eb) v b" "a \<noteq> b"
    and al: "edgeAlive m ea" "edgeAlive m eb" "vertexAlive m v" "e \<noteq> ea" "e \<noteq> eb" and c: "capacity m' (Suc c)"
  shows "splitting m e a b v ea eb (ds @ [l]) (splitCorner a v ea eb t l m')" "capacity (splitCorner a v ea eb t l m') c"
proof -
  note d = splittingD [OF s]
  let ?m2 = "splitCorner a v ea eb t l m'" and ?f = "ml_face (lp m l)"
  have l': "loopAlive m' l" "ml_edge (lp m' l) = e" "ml_face (lp m' l) = ?f" using d(8,9,11) l by auto
  have al': "edgeAlive m' ea" "edgeAlive m' eb" using al d(3) by simp_all
  define x where "x = (if ml_vertex (lp m' l) = a then ea else eb)"
  define y where "y = (if ml_vertex (lp m' l) = a then eb else ea)"
  obtain k where k: "corner_split m' l k v x y ?m2" "capacity ?m2 c"
    using splitCorner_effect [OF d(1) l'(1) c al', where a = a and v = v and t = t] unfolding x_def y_def by blast
  show "capacity ?m2 c" by (rule k(2))
  note s2 = corner_splitD [OF k(1)]
  have ends: "edge_joins (ed m' e) (ml_vertex (lp m' l)) (ml_vertex (lp m' (ml_next (lp m' l))))"
    using mesh_coreD(8) [OF d(1) l'(1)] l'(2) by simp
  have nf: "?f \<notin> (\<lambda>d. ml_face (lp m d)) ` set ds"
  proof
    assume "?f \<in> (\<lambda>d. ml_face (lp m d)) ` set ds"
    then obtain q where "q \<in> set ds" "ml_face (lp m q) = ?f" by auto
    then have "q = l" using one_corner [OF m, of q l] l ds by auto
    then show False using \<open>q \<in> set ds\<close> l(3) by simp
  qed
  have nv: "ml_vertex (lp m' i) \<noteq> v" if "loopAlive m' i" "ml_face (lp m' i) = ml_face (lp m' l)" for i
    using d(13) [OF that(1)] nf that(2) l'(3) by auto
  have jm: "edge_joins (ed m' e) a b" "edge_joins (ed m' ea) a v" "edge_joins (ed m' eb) v b" using j d(17) by simp_all
  have pq: "ml_vertex (lp m' l) = a \<and> ml_vertex (lp m' (ml_next (lp m' l))) = b \<or>
      ml_vertex (lp m' l) = b \<and> ml_vertex (lp m' (ml_next (lp m' l))) = a" by (rule edge_joins_ends [OF jm(1) ends])
  have xy: "edge_joins (ed m' x) (ml_vertex (lp m' l)) v" "edge_joins (ed m' y) v (ml_vertex (lp m' (ml_next (lp m' l))))"
    using pq jm(2,3) j(4) unfolding x_def y_def by (auto simp: edge_joins_commute)
  have core: "mesh_core ?m2"
  proof (rule corner_split_core [OF d(1) l'(1) k(1)])
    show "vertexAlive m' v" using al(3) d(18) by simp
  qed (rule nv xy; assumption)+
  have xe: "x \<noteq> e" "y \<noteq> e" "{x, y} = {ea, eb}" using al by (auto simp: x_def y_def)
  have fv: "faceVertices ?m2 f = (if f = ?f then map_option (split_cycle a b v) (faceVertices m' f) else faceVertices m' f)"
    if f: "faceAlive m f" for f
  proof (cases "f = ?f")
    case True
    obtain us ws where r: "face_ring m' ?f (us @ l # ws)" "hd (ws @ us) = ml_next (lp m' l)"
      using face_ring_cut [OF d(1) l'(1)] l'(3) by metis
    let ?V = "\<lambda>i. ml_vertex (lp m' i)"
    have "?V i \<noteq> v" if "i \<in> set (us @ l # ws)" for i using that r(1) nv l'(3) by (auto simp: face_ring_def)
    then have "v \<notin> set (map ?V (us @ l # ws))" by auto
    note rg = corner_split_ring [OF d(1) l'(1) k(1), unfolded l'(3), OF r(1) this]
    have ne: "ws @ us \<noteq> []" using r(1) by (auto simp: face_ring_def)
    have "split_cycle a b v (map ?V us @ ?V l # map ?V ws) = map ?V us @ ?V l # v # map ?V ws"
    proof (rule split_cycle_at)
      show "distinct (map ?V us @ ?V l # map ?V ws)" "3 \<le> length (map ?V us @ ?V l # map ?V ws)" using r(1) by (auto simp: face_ring_def)
      have "hd (map ?V ws @ map ?V us) = ?V (ml_next (lp m' l))" using ne r(2) by (metis hd_map map_append)
      then show "{?V l, hd (map ?V ws @ map ?V us)} = {a, b}" using ends jm(1) by (auto simp: edge_joins_def)
    qed
    then show ?thesis using True face_ring_walk(2) [OF rg(1)] face_ring_walk(2) [OF r(1)] rg(2) by simp
  next
    case False
    have "faceAlive m' f" using f d(7) by simp
    then obtain ls where ls: "face_ring m' f ls" using mesh_coreD(4) [OF d(1)] by blast
    have "f \<noteq> ml_face (lp m' l)" using False l'(3) by simp
    note o = corner_split_other [OF d(1) l'(1) k(1) \<open>faceAlive m' f\<close> this ls]
    show ?thesis using False face_ring_walk(2) [OF o(1)] face_ring_walk(2) [OF ls] o(2) by simp
  qed
  have kk: "\<not> loopAlive m k" "k \<noteq> l" using s2(8) d(8) l'(1) by auto
  show "splitting m e a b v ea eb (ds @ [l]) ?m2"
    unfolding splitting_def
  proof (intro conjI allI impI core)
    show "m_vertices ?m2 = m_vertices m" "edgeAlive ?m2 = edgeAlive m" "faceAlive ?m2 = faceAlive m" using s2(4-6) d(2,3,7) by simp_all
    show "me_v0 (ed ?m2 i) = me_v0 (ed m i)" "me_v1 (ed ?m2 i) = me_v1 (ed m i)" "me_feature (ed ?m2 i) = me_feature (ed m i)" for i
      using k(1) d(4-6) by (simp_all add: corner_split_def)
  next
    fix i assume i: "loopAlive m i"
    then have i': "loopAlive m' i" "loopAlive ?m2 i" "i \<noteq> k" using d(8) s2(12) kk by auto
    show "loopAlive ?m2 i" by (rule i'(2))
    show "ml_face (lp ?m2 i) = ml_face (lp m i)" "ml_vertex (lp ?m2 i) = ml_vertex (lp m i)"
      using s2(14,15) [OF i'(2)] i'(3) d(9,10) [OF i] by simp_all
    show "ml_edge (lp ?m2 i) = ml_edge (lp m i)" if "i \<notin> set (ds @ [l])"
      using s2(13) [OF i'(2)] i'(3) d(11) [OF i] that by simp
  next
    fix i assume i: "loopAlive ?m2 i" "ml_edge (lp ?m2 i) = e"
    then have "i \<noteq> l" "i \<noteq> k" "ml_edge (lp m' i) = e" "loopAlive m' i" using s2(12,13) xe(1,2) by (auto split: if_split_asm)
    then show "loopAlive m i" "i \<notin> set (ds @ [l])" using d(12) by auto
  next
    fix i assume i: "loopAlive ?m2 i" "ml_vertex (lp ?m2 i) = v"
    show "ml_face (lp ?m2 i) \<in> (\<lambda>d. ml_face (lp m d)) ` set (ds @ [l])"
      using i s2(12,14,15) [of i] d(13) [of i] l'(3) by (cases "i = k") auto
  next
    fix f assume f: "faceAlive m f"
    show "faceVertices ?m2 f = (if f \<in> (\<lambda>d. ml_face (lp m d)) ` set (ds @ [l])
        then map_option (split_cycle a b v) (faceVertices m f) else faceVertices m f)"
      unfolding fv [OF f] using d(14) [OF f] nf by auto
  next
    have kl: "loopAlive ?m2 k" "loopAlive ?m2 l" using s2(12) l'(1) by auto
    then have "used ?m2 x" "used ?m2 y" using s2(13) [OF kl(1)] s2(13) [OF kl(2)] kk(2) by (auto simp: used_def)
    then show "used ?m2 ea" "used ?m2 eb" using xe(3) by (auto simp: doubleton_eq_iff)
  next
    fix i assume i: "used m i" "i \<noteq> e"
    then obtain q where q: "loopAlive m' q" "ml_edge (lp m' q) = i" using d(16) by (auto simp: used_def)
    then have "q \<noteq> l" "q \<noteq> k" "loopAlive ?m2 q" using l'(2) i(2) s2(8,12) by auto
    then show "used ?m2 i" using s2(13) [of q] q(2) by (auto simp: used_def)
  qed
qed

section \<open>New edges\<close>

lemma core_cong:
  assumes m: "mesh_core m" and p: "pools_inv m'" "edges_inv m'" "radial_inv m'"
    and eq: "m_loops m' = m_loops m" "m_faces m' = m_faces m" "\<And>v. vertexAlive m v \<Longrightarrow> vertexAlive m' v"
    and ej: "\<And>e a b. used m e \<Longrightarrow> edge_joins (ed m e) a b \<Longrightarrow> edge_joins (ed m' e) a b"
  shows "mesh_core m'"
proof -
  note d = mesh_coreD [OF m]
  have al: "faceAlive m' = faceAlive m" "loopAlive m' = loopAlive m" "linked m' = linked m"
    by (simp_all add: fun_eq_iff faceAlive_def loopAlive_def linked_def eq)
  have fr: "face_ring m' f = face_ring m f" for f by (simp add: fun_eq_iff face_ring_def eq al)
  have "corner_ok m' l" if "loopAlive m l" for l
    using ej [OF _ d(8) [OF that]] d(7) [OF that] that by (auto simp: corner_ok_def al eq used_def)
  then show ?thesis unfolding mesh_core_def al eq fr using p d(4-6) eq(3) by simp
qed

lemma core_decorated: "mesh_core m \<Longrightarrow> decorated m m' \<Longrightarrow> mesh_core m'"
proof (rule core_cong)
  assume m: "mesh_core m" and d: "decorated m m'"
  note al = decorated_alive [OF d] and fl = decorated_fields [OF d] and md = mesh_coreD [OF m]
  show "pools_inv m'" by (rule decorated_pools [OF d md(1)])
  show "edges_inv m'" using md(2) by (rule edges_inv_cong) (simp_all add: al fl)
  show "radial_inv m'" using md(3) by (rule radial_inv_cong) (simp_all add: al fl)
  show "m_loops m' = m_loops m" "m_faces m' = m_faces m" by (simp_all add: fl)
  show "vertexAlive m' v" if "vertexAlive m v" for v using that by (simp add: al)
  show "edge_joins (ed m' e) a b" if "used m e" "edge_joins (ed m e) a b" for e a b
    using that md(9) fl(2) [of e] by (auto simp: used_def edge_joins_def)
qed

lemma newEdge_core:
  assumes m: "mesh_core m" and c: "capacity m (Suc k)" and ab: "a \<noteq> b" "vertexAlive m a" "vertexAlive m b"
    and none: "\<And>j. edgeAlive m j \<Longrightarrow> \<not> edge_joins (ed m j) a b" and res: "findOrCreateEdge a b m = (e, m')"
  shows "mesh_core m'" "capacity m' k" "\<not> edgeAlive m e" "\<And>j. edgeAlive m' j \<longleftrightarrow> j = e \<or> edgeAlive m j"
    "\<And>j. edgeAlive m j \<Longrightarrow> ed m' j = ed m j" "edge_joins (ed m' e) a b" "m_loops m' = m_loops m" "m_faces m' = m_faces m"
    "\<And>v. vertexAlive m' v = vertexAlive m v" "\<And>v. position m' v = position m v"
proof -
  note d = mesh_coreD [OF m]
  note f = findOrCreateEdge_spec [OF d(1,2) c ab res]
  show e: "\<not> edgeAlive m e" using f(2,3) none by metis
  show al: "edgeAlive m' j \<longleftrightarrow> j = e \<or> edgeAlive m j" for j using f(2,3,4) by blast
  show old: "ed m' j = ed m j" if "edgeAlive m j" for j using f(3) [OF that] by simp
  show "edge_joins (ed m' e) a b" "capacity m' k" "m_loops m' = m_loops m" "m_faces m' = m_faces m"
    "vertexAlive m' v = vertexAlive m v" "position m' v = position m v" for v
    using f by (simp_all add: position_def)
  have lk: "linked m' = linked m" using f(6) by (simp add: fun_eq_iff linked_def loopAlive_def)
  have r: "radial_inv m'"
    using d(3) by (rule radial_inv_cong) (use f(5,6) e al old in \<open>auto simp: lk\<close>)
  show "mesh_core m'"
  proof (rule core_cong [OF m _ _ r])
    show "edge_joins (ed m' j) p q" if "used m j" "edge_joins (ed m j) p q" for j p q
      using that d(9) old by (auto simp: used_def)
  qed (use f in auto)
qed

section \<open>The result of splitEdge\<close>

text \<open>The pairs of vertices joined by a feature edge.\<close>

definition creased :: "mesh \<Rightarrow> nat \<Rightarrow> nat \<Rightarrow> bool" where
  "creased m p q \<longleftrightarrow> (\<exists>e. edgeAlive m e \<and> edge_joins (ed m e) p q \<and> me_feature (ed m e))"

definition edge_split :: "mesh \<Rightarrow> nat \<Rightarrow> f32 \<Rightarrow> nat \<Rightarrow> mesh \<Rightarrow> bool" where
  "edge_split m e t v m' \<longleftrightarrow> (let a = me_v0 (ed m e); b = me_v1 (ed m e) in
     mesh_inv m' \<and> \<not> vertexAlive m v \<and> (\<forall>u. vertexAlive m' u \<longleftrightarrow> u = v \<or> vertexAlive m u) \<and>
     position m' v = lerp3 (position m a) (position m b) t \<and> (\<forall>u. vertexAlive m u \<longrightarrow> position m' u = position m u) \<and>
     (\<forall>f. faceAlive m' f = faceAlive m f) \<and>
     (\<forall>f. faceAlive m f \<longrightarrow> faceVertices m' f = map_option (split_cycle a b v) (faceVertices m f)) \<and>
     (\<forall>p q. creased m' p q \<longleftrightarrow> (if {p, q} = {a, v} \<or> {p, q} = {v, b} then me_feature (ed m e)
        else {p, q} \<noteq> {a, b} \<and> creased m p q)))"

text \<open>A consecutive pair of a face cycle is the pair of ends of the edge of its corner.\<close>

lemma cycle_pair_edge:
  assumes m: "mesh_core m" and r: "face_ring m f ls" and i: "i < length ls"
    and e: "edgeAlive m e" "{ml_vertex (lp m (ls ! i)), ml_vertex (lp m (ls ! ((i + 1) mod length ls)))} = {me_v0 (ed m e), me_v1 (ed m e)}"
  shows "ml_edge (lp m (ls ! i)) = e"
proof -
  note d = r [unfolded face_ring_def]
  have al: "loopAlive m (ls ! i)" using d nth_mem [OF i] by auto
  obtain a ys where as: "ls = a # ys" using d by (cases ls) auto
  then have "chain (\<lambda>l. ml_next (lp m l)) (\<lambda>l. ml_prev (lp m l)) a ys a" using d by auto
  then have "ml_next (lp m ((a # ys) ! i)) = (ys @ [a]) ! i" using i as by (simp add: chain_index)
  then have nx: "ml_next (lp m (ls ! i)) = ls ! ((i + 1) mod length ls)"
    using i as by (cases "i = length ys") (auto simp: nth_append)
  have "edge_joins (ed m e) (ml_vertex (lp m (ls ! i))) (ml_vertex (lp m (ls ! ((i + 1) mod length ls))))"
    using e(2) by (auto simp: edge_joins_def doubleton_eq_iff)
  moreover have "edge_joins (ed m (ml_edge (lp m (ls ! i)))) (ml_vertex (lp m (ls ! i))) (ml_vertex (lp m (ls ! ((i + 1) mod length ls))))"
    using mesh_coreD(8) [OF m al] nx by simp
  ultimately show ?thesis using edge_unique [OF mesh_coreD(2) [OF m]] mesh_coreD(9) [OF m al] e(1) by blast
qed

lemma splitting_fold:
  assumes "splitting m e a b v ea eb ds m'" "mesh_core m" "distinct (ds @ ls)" "\<forall>l \<in> set (ds @ ls). loopAlive m l \<and> ml_edge (lp m l) = e"
    and "edge_joins (ed m e) a b" "edge_joins (ed m ea) a v" "edge_joins (ed m eb) v b" "a \<noteq> b"
    and "edgeAlive m ea" "edgeAlive m eb" "vertexAlive m v" "e \<noteq> ea" "e \<noteq> eb" "capacity m' (length ls)"
  shows "splitting m e a b v ea eb (ds @ ls) (fold (splitCorner a v ea eb t) ls m')"
  using assms(1,3,4,14)
proof (induction ls arbitrary: ds m')
  case (Cons l ls)
  have l: "loopAlive m l" "ml_edge (lp m l) = e" "l \<notin> set ds" "\<forall>d \<in> set ds. loopAlive m d \<and> ml_edge (lp m d) = e"
    "capacity m' (Suc (length ls))"
    using Cons.prems by auto
  note st = splitting_step [OF Cons.prems(1) assms(2) l(1-4) assms(5-13) l(5), where t = t]
  have "splitting m e a b v ea eb ((ds @ [l]) @ ls) (fold (splitCorner a v ea eb t) ls (splitCorner a v ea eb t l m'))"
    by (rule Cons.IH [OF st(1)]) (use Cons.prems st(2) in auto)
  then show ?case by simp
qed simp


lemma destroyed_core:
  assumes m: "mesh_core m" and e: "edgeAlive m e" "\<not> used m e" and u: "\<forall>j. edgeAlive m j \<longrightarrow> j \<noteq> e \<longrightarrow> used m j"
  defines "m' \<equiv> destroyEdgeIfUnused e m"
  shows "mesh_inv m'" "\<And>j. edgeAlive m' j \<longleftrightarrow> j \<noteq> e \<and> edgeAlive m j" "\<And>j. edgeAlive m' j \<Longrightarrow> ed m' j = ed m j"
    "m_loops m' = m_loops m" "m_faces m' = m_faces m" "\<And>v. vertexAlive m' v = vertexAlive m v" "\<And>v. position m' v = position m v"
proof -
  note d = mesh_coreD [OF m]
  have "e < length (m_edges m)" using e(1) by (simp add: edgeAlive_def)
  note sp = destroyEdgeIfUnused_spec [OF d(1,2) this, folded m'_def]
  note x = sp(3) [unfolded edge_destroyed_def]
  have r: "me_radial (ed m e) = kInvalidIndex" using core_used [OF m e(1)] e(2) by simp
  show al: "edgeAlive m' j \<longleftrightarrow> j \<noteq> e \<and> edgeAlive m j" for j using x r by auto
  show old: "ed m' j = ed m j" if "edgeAlive m' j" for j using x that by blast
  show eq: "m_loops m' = m_loops m" "m_faces m' = m_faces m" "vertexAlive m' v = vertexAlive m v" "position m' v = position m v" for v
    using x by (simp_all add: position_def)
  have us: "used m' = used m" by (simp add: fun_eq_iff used_def loopAlive_def eq)
  have core: "mesh_core m'"
  proof (rule core_cong [OF m sp(1,2) edge_destroyed_radial [OF sp(3) d(3)] eq(1,2)])
    show "edge_joins (ed m' j) a b" if "used m j" "edge_joins (ed m j) a b" for j a b
    proof -
      have "edgeAlive m' j" using that(1) e(2) d(9) al by (auto simp: used_def)
      then show ?thesis using old that(2) by simp
    qed
  qed (use eq in simp)
  then show "mesh_inv m'" unfolding core_inv core_no_wire [OF core] us using al u by blast
qed

text \<open>The mesh before the loop: the new vertex, the two halves with the flag of the edge.\<close>

definition halved :: "mesh \<Rightarrow> nat \<Rightarrow> nat \<Rightarrow> nat \<Rightarrow> nat \<Rightarrow> mesh \<Rightarrow> bool" where
  "halved m e v ea eb m' \<longleftrightarrow> mesh_core m' \<and> edgeAlive m' ea \<and> edgeAlive m' eb \<and> \<not> edgeAlive m ea \<and> \<not> edgeAlive m eb \<and>
     edge_joins (ed m' ea) (me_v0 (ed m e)) v \<and> edge_joins (ed m' eb) v (me_v1 (ed m e)) \<and>
     me_feature (ed m' ea) = me_feature (ed m e) \<and> me_feature (ed m' eb) = me_feature (ed m e) \<and>
     (\<forall>j. edgeAlive m' j \<longleftrightarrow> j = ea \<or> j = eb \<or> edgeAlive m j) \<and>
     (\<forall>j. edgeAlive m j \<longrightarrow> me_v0 (ed m' j) = me_v0 (ed m j) \<and> me_v1 (ed m' j) = me_v1 (ed m j) \<and>
        me_feature (ed m' j) = me_feature (ed m j)) \<and>
     (\<forall>u. vertexAlive m' u \<longleftrightarrow> u = v \<or> vertexAlive m u) \<and> \<not> vertexAlive m v \<and>
     m_loops m' = m_loops m \<and> m_faces m' = m_faces m"

lemma setFeature_m_vertices [simp]: "m_vertices (setFeatureEdge e f m) = m_vertices m" "m_vertices (applyEdgeRow e r m) = m_vertices m"
  "m_edges (applyEdgeRow e r m) = m_edges m"
  by (simp_all add: setFeatureEdge_def applyEdgeRow_def)

lemma halves_spec:
  fixes r :: attr_row
  assumes m: "mesh_inv m" and e: "edgeAlive m e" and c: "capacity m (3 + k)"
    and av: "addVertex p m = (v, m1)" and ea: "findOrCreateEdge (me_v0 (ed m e)) v (m1\<lparr>m_vertexAttrs := A\<rparr>) = (ea, m3)"
    and eb: "findOrCreateEdge v (me_v1 (ed m e)) m3 = (eb, m4)" and d: "decorated m1 (m1\<lparr>m_vertexAttrs := A\<rparr>)"
  defines "m5 \<equiv> fold (\<lambda>half n. applyEdgeRow half r (setFeatureEdge half (me_feature (ed m e)) n)) [ea, eb] m4"
  shows "halved m e v ea eb m5" "capacity m5 k" "position m5 v = p" "\<And>u. vertexAlive m u \<Longrightarrow> position m5 u = position m u"
proof -
  let ?a = "me_v0 (ed m e)" and ?b = "me_v1 (ed m e)" and ?m2 = "m1\<lparr>m_vertexAttrs := A\<rparr>"
  have "capacity m (Suc (Suc (Suc k)))" using c by (simp add: numeral_3_eq_3)
  note s1 = addVertex_spec [OF m this av]
  have i1: "mesh_core m1" "edges_inv m1" using s1(1) by (auto simp: core_inv dest: mesh_coreD)
  have i2: "mesh_core ?m2" "capacity ?m2 (Suc (Suc k))" using core_decorated [OF i1(1) d] decorated_capacity [OF d] s1(2) by simp_all
  have v2: "vertexAlive ?m2 u \<longleftrightarrow> u = v \<or> vertexAlive m u" "position ?m2 u = position m1 u" for u
    using s1(5) by (simp_all add: vertexAlive_def position_def)
  have e2: "edgeAlive ?m2 j = edgeAlive m j" "ed ?m2 j = ed m j" for j using s1(9) by (simp_all add: edgeAlive_def)
  have e1: "edgeAlive m1 j = edgeAlive m j" "ed m1 j = ed m j" for j using s1(9) by (simp_all add: edgeAlive_def)
  have ends: "?a \<noteq> ?b" "vertexAlive m ?a" "vertexAlive m ?b" using edges_invD [OF mesh_invD(2) [OF m] e] by auto
  have nv: "?a \<noteq> v" "v \<noteq> ?b" using ends s1(3) by auto
  have no: "me_v0 (ed m j) \<noteq> v" "me_v1 (ed m j) \<noteq> v" if "edgeAlive m j" for j
    using edges_invD [OF mesh_invD(2) [OF m] that] s1(3) by auto
  have n2: "\<not> edge_joins (ed ?m2 j) ?a v" if "edgeAlive ?m2 j" for j using no [of j] that unfolding e2 by (auto simp: edge_joins_def)
  note s3 = newEdge_core [OF i2 nv(1) _ _ n2 ea]
  have al3: "vertexAlive ?m2 ?a" "vertexAlive ?m2 v" using v2(1) ends by simp_all
  note s3 = s3 [OF al3]
  have n3: "\<not> edge_joins (ed m3 j) v ?b" if "edgeAlive m3 j" for j
  proof (cases "j = ea")
    case True
    then show ?thesis using edge_joins_ends [OF s3(6), of v ?b] ends(1) nv by auto
  next
    case False
    then have "edgeAlive m j" "ed m3 j = ed m j" using that s3(4,5) e2 by auto
    then show ?thesis using no [of j] by (auto simp: edge_joins_def)
  qed
  have al4: "vertexAlive m3 v" "vertexAlive m3 ?b" using s3(9) v2(1) ends by simp_all
  note s4 = newEdge_core [OF s3(1,2) nv(2) al4 n3 eb]
  have "decorated n (applyEdgeRow h r (setFeatureEdge h g n))" for n h g
    using setFeatureEdge_decorated [of n h g] by (rule decorated_trans) simp
  then have d5: "decorated m4 m5" unfolding m5_def by (intro decorated_fold)
  note a5 = decorated_alive [OF d5] and f5 = decorated_fields [OF d5]
  have ab: "edgeAlive m4 ea" "edgeAlive m4 eb" "ea < length (m_edges m4)" "eb < length (m_edges m4)" using s3(4) s4(4) by (auto simp: edgeAlive_def)
  have ft: "me_feature (ed m5 j) = (if j = ea \<or> j = eb then me_feature (ed m e) else me_feature (ed m4 j))" for j
    using ab(3,4) by (simp add: m5_def setFeatureEdge_def nth_list_update)
  have old: "ed m4 j = ed m j" "edgeAlive m4 j" "j \<noteq> ea" "j \<noteq> eb" if "edgeAlive m j" for j
    using s4(3-5) s3(3-5) e2 that by auto
  have e4: "ed m4 ea = ed m3 ea" using s4(5) s3(4) by simp
  have j4: "edge_joins (ed m4 ea) ?a v" "edge_joins (ed m4 eb) v ?b" using s3(6) s4(6) e4 by simp_all
  have j5: "edge_joins (ed m5 j) x y = edge_joins (ed m4 j) x y" if "edgeAlive m4 j" for j x y using f5(2) [OF that] by (simp add: edge_joins_def)
  show "halved m e v ea eb m5"
    unfolding halved_def
  proof (intro conjI allI impI)
    show "mesh_core m5" by (rule core_decorated [OF s4(1) d5])
    show "edgeAlive m5 ea" "edgeAlive m5 eb" "\<not> edgeAlive m ea" "\<not> edgeAlive m eb" using a5 ab s3(3) s4(3,4) s3(4) e2 by auto
    show "edge_joins (ed m5 ea) ?a v" "edge_joins (ed m5 eb) v ?b" using j5 [OF ab(1)] j5 [OF ab(2)] j4 by simp_all
    show "me_feature (ed m5 ea) = me_feature (ed m e)" "me_feature (ed m5 eb) = me_feature (ed m e)" using ft by simp_all
    show "edgeAlive m5 j \<longleftrightarrow> j = ea \<or> j = eb \<or> edgeAlive m j" for j using a5(2) s4(4) s3(4) e2(1) by auto
    show "vertexAlive m5 u \<longleftrightarrow> u = v \<or> vertexAlive m u" for u using a5(1) s4(9) s3(9) v2(1) by simp
    show "m_loops m5 = m_loops m" "m_faces m5 = m_faces m" using f5(5,6) s4(7,8) s3(7,8) s1(10,11) by simp_all
    show "\<not> vertexAlive m v" by (rule s1(3))
    show "me_v0 (ed m5 j) = me_v0 (ed m j)" "me_v1 (ed m5 j) = me_v1 (ed m j)" "me_feature (ed m5 j) = me_feature (ed m j)"
      if "edgeAlive m j" for j using f5(2) [OF old(2) [OF that]] ft old [OF that] by simp_all
  qed
  show "capacity m5 k" using decorated_capacity [OF d5] s4(2) by simp
  have p5: "position m5 u = position m1 u" for u
  proof -
    have "position m5 u = position m4 u" by (simp add: position_def m5_def)
    then show ?thesis using s4(10) s3(10) v2(2) by simp
  qed
  show "position m5 v = p" using p5 s1(6) by (simp add: position_def)
  show "position m5 u = position m u" if "vertexAlive m u" for u using p5 s1(8) [OF that] by (simp add: position_def)
qed


lemma faceVertices_same: "m_loops m' = m_loops m \<Longrightarrow> m_faces m' = m_faces m \<Longrightarrow> faceVertices m' f = faceVertices m f"
  by (simp add: faceVertices_def faceLoops_def)

text \<open>A face without a corner on the edge has no consecutive pair to split.\<close>

lemma off_edge_cycle:
  assumes m: "mesh_core m" and e: "edgeAlive m e" and f: "faceAlive m f"
    and no: "\<And>l. loopAlive m l \<Longrightarrow> ml_face (lp m l) = f \<Longrightarrow> ml_edge (lp m l) \<noteq> e"
  shows "map_option (split_cycle (me_v0 (ed m e)) (me_v1 (ed m e)) v) (faceVertices m f) = faceVertices m f"
proof -
  obtain ls where ls: "face_ring m f ls" using mesh_coreD(4) [OF m f] by blast
  let ?vs = "map (\<lambda>l. ml_vertex (lp m l)) ls"
  have "split_cycle (me_v0 (ed m e)) (me_v1 (ed m e)) v ?vs = ?vs"
  proof (rule split_cycle_none)
    fix i assume i: "i < length ?vs"
    then have "(i + 1) mod length ls < length ls" by (intro mod_less_divisor) auto
    then have n: "?vs ! ((i + 1) mod length ?vs) = ml_vertex (lp m (ls ! ((i + 1) mod length ls)))" by simp
    have "loopAlive m (ls ! i) \<and> ml_face (lp m (ls ! i)) = f" using ls i nth_mem [of i ls] by (auto simp: face_ring_def)
    then have "ml_edge (lp m (ls ! i)) \<noteq> e" using no by blast
    then show "{?vs ! i, ?vs ! ((i + 1) mod length ?vs)} \<noteq> {me_v0 (ed m e), me_v1 (ed m e)}"
      using cycle_pair_edge [OF m ls _ e] i unfolding n by auto
  qed
  then show ?thesis using face_ring_walk(2) [OF ls] by simp
qed

lemma except_one:
  "(\<And>j. A j \<Longrightarrow> S = E j \<Longrightarrow> S = E e \<Longrightarrow> j = e) \<Longrightarrow>
    (\<exists>j. j \<noteq> e \<and> A j \<and> S = E j \<and> F j) \<longleftrightarrow> S \<noteq> E e \<and> (\<exists>j. A j \<and> S = E j \<and> F j)"
  by metis

lemma halved_creased:
  assumes h: "halved m e v ea eb m5" and m: "mesh_inv m" and e: "edgeAlive m e"
    and al: "\<And>j. edgeAlive m' j \<longleftrightarrow> j \<noteq> e \<and> edgeAlive m5 j"
    and f: "\<And>j. edgeAlive m' j \<Longrightarrow> me_v0 (ed m' j) = me_v0 (ed m5 j) \<and> me_v1 (ed m' j) = me_v1 (ed m5 j) \<and> me_feature (ed m' j) = me_feature (ed m5 j)"
  shows "creased m' p q \<longleftrightarrow> (if {p, q} = {me_v0 (ed m e), v} \<or> {p, q} = {v, me_v1 (ed m e)} then me_feature (ed m e)
        else {p, q} \<noteq> {me_v0 (ed m e), me_v1 (ed m e)} \<and> creased m p q)"
proof -
  let ?a = "me_v0 (ed m e)" and ?b = "me_v1 (ed m e)"
  note hd = h [unfolded halved_def]
  have join: "edge_joins x p q \<longleftrightarrow> {p, q} = {me_v0 x, me_v1 x}" for x by (auto simp: edge_joins_def doubleton_eq_iff)
  have nv: "v \<noteq> me_v0 (ed m j)" "v \<noteq> me_v1 (ed m j)" if "edgeAlive m j" for j
    using edges_invD [OF mesh_invD(2) [OF m] that] hd by auto
  have halves: "{me_v0 (ed m5 ea), me_v1 (ed m5 ea)} = {?a, v}" "{me_v0 (ed m5 eb), me_v1 (ed m5 eb)} = {v, ?b}"
    using hd by (auto simp: edge_joins_def)
  have old: "edgeAlive m' j \<longleftrightarrow> j = ea \<or> j = eb \<or> j \<noteq> e \<and> edgeAlive m j" for j using al hd e by auto
  have cr: "creased m' p q \<longleftrightarrow> (\<exists>j. edgeAlive m' j \<and> {p, q} = {me_v0 (ed m5 j), me_v1 (ed m5 j)} \<and> me_feature (ed m5 j))"
    unfolding creased_def join by (intro iff_exI conj_cong refl) (simp_all add: f)
  also have "\<dots> \<longleftrightarrow> ({p, q} = {?a, v} \<or> {p, q} = {v, ?b}) \<and> me_feature (ed m e) \<or>
      (\<exists>j. j \<noteq> e \<and> edgeAlive m j \<and> {p, q} = {me_v0 (ed m j), me_v1 (ed m j)} \<and> me_feature (ed m j))"
  proof -
    let ?P = "\<lambda>j. {p, q} = {me_v0 (ed m5 j), me_v1 (ed m5 j)} \<and> me_feature (ed m5 j)"
    have "?P ea \<longleftrightarrow> {p, q} = {?a, v} \<and> me_feature (ed m e)" "?P eb \<longleftrightarrow> {p, q} = {v, ?b} \<and> me_feature (ed m e)"
      using hd unfolding halves by simp_all
    moreover have "(\<exists>j. j \<noteq> e \<and> edgeAlive m j \<and> ?P j) \<longleftrightarrow>
        (\<exists>j. j \<noteq> e \<and> edgeAlive m j \<and> {p, q} = {me_v0 (ed m j), me_v1 (ed m j)} \<and> me_feature (ed m j))"
      using hd by (intro iff_exI conj_cong refl) simp_all
    moreover have "(\<exists>j. edgeAlive m' j \<and> ?P j) \<longleftrightarrow> ?P ea \<or> ?P eb \<or> (\<exists>j. j \<noteq> e \<and> edgeAlive m j \<and> ?P j)"
      unfolding old by (simp only: conj_disj_distribR ex_disj_distrib simp_thms conj_assoc)
    ultimately show ?thesis by argo
  qed
  also have "(\<exists>j. j \<noteq> e \<and> edgeAlive m j \<and> {p, q} = {me_v0 (ed m j), me_v1 (ed m j)} \<and> me_feature (ed m j)) \<longleftrightarrow>
      {p, q} \<noteq> {?a, ?b} \<and> creased m p q"
  proof -
    have "j = e" if "edgeAlive m j" "{p, q} = {me_v0 (ed m j), me_v1 (ed m j)}" "{p, q} = {?a, ?b}" for j
      by (rule edge_unique [OF mesh_invD(2) [OF m] that(1) e, of p q]) (use that(2,3) in \<open>simp_all add: join\<close>)
    then show ?thesis unfolding creased_def join by (rule except_one [where E = "\<lambda>j. {me_v0 (ed m j), me_v1 (ed m j)}"])
  qed
  also have "(({p, q} = {?a, v} \<or> {p, q} = {v, ?b}) \<and> me_feature (ed m e) \<or> {p, q} \<noteq> {?a, ?b} \<and> creased m p q) \<longleftrightarrow>
      (if {p, q} = {?a, v} \<or> {p, q} = {v, ?b} then me_feature (ed m e) else {p, q} \<noteq> {?a, ?b} \<and> creased m p q)"
  proof -
    have "\<not> creased m p q" if "{p, q} = {?a, v} \<or> {p, q} = {v, ?b}"
    proof -
      have "v \<in> {p, q}" using that by blast
      then show ?thesis unfolding creased_def join using nv by blast
    qed
    moreover have "{?a, v} \<noteq> {?a, ?b}" "{v, ?b} \<noteq> {?a, ?b}" using nv [OF e] by (auto simp: doubleton_eq_iff)
    ultimately show ?thesis by presburger
  qed
  finally show ?thesis .
qed

lemma splitEdge_spec:
  assumes m: "mesh_inv m" and e: "edgeAlive m e" and c: "capacity m (3 + card {l. loopAlive m l \<and> ml_edge (lp m l) = e})"
  shows "\<exists>v m'. splitEdge e t m = Some (v, m') \<and> edge_split m e t v m'"
proof -
  let ?a = "me_v0 (ed m e)" and ?b = "me_v1 (ed m e)"
  obtain v m1 where av: "addVertex (lerp3 (position m ?a) (position m ?b) t) m = (v, m1)" by (cases "addVertex (lerp3 (position m ?a) (position m ?b) t) m")
  let ?A = "attr_interpolate v ?a ?b t (m_vertexAttrs m1)"
  define m2 where "m2 = m1\<lparr>m_vertexAttrs := ?A\<rparr>"
  obtain ea m3 where ea: "findOrCreateEdge ?a v m2 = (ea, m3)" by (cases "findOrCreateEdge ?a v m2")
  obtain eb m4 where eb: "findOrCreateEdge v ?b m3 = (eb, m4)" by (cases "findOrCreateEdge v ?b m3")
  define m5 where "m5 = fold (\<lambda>half n. applyEdgeRow half (attr_extractRow (m_edgeAttrs m) e) (setFeatureEdge half (me_feature (ed m e)) n)) [ea, eb] m4"
  obtain ls where ls: "edgeLoops m e = Some ls" "set ls = {l. loopAlive m l \<and> ml_edge (lp m l) = e}" "distinct ls" "ls \<noteq> []"
    using edgeLoops_some [OF m e] by blast
  have c': "capacity m (3 + length ls)" using c ls(2,3) distinct_card by metis
  note h = halves_spec [OF m e c' av ea [unfolded m2_def] eb interpolate_decorated, where r = "attr_extractRow (m_edgeAttrs m) e", folded m5_def]
  note hd = h(1) [unfolded halved_def]
  have "Suc (2 + length ls) = 3 + length ls" by simp
  then have "capacity m (Suc (2 + length ls))" using c' by (simp add: numeral_3_eq_3)
  note s1 = addVertex_spec [OF m this av]
  have "edgeLoops m2 e = edgeLoops m e" using s1(9,10) by (simp add: m2_def edgeLoops_def Let_def)
  then have res: "splitEdge e t m = Some (v, destroyEdgeIfUnused e (fold (splitCorner ?a v ea eb t) ls m5))"
    using e av ea eb ls(1) by (simp add: splitEdge_def m2_def m5_def Let_def)
  define m6 where "m6 = fold (splitCorner ?a v ea eb t) ls m5"
  have l5: "loopAlive m5 = loopAlive m" "\<And>l. lp m5 l = lp m l" "faceAlive m5 = faceAlive m" "\<And>f. faceVertices m5 f = faceVertices m f"
    using hd by (auto simp: fun_eq_iff loopAlive_def faceAlive_def intro: faceVertices_same)
  have ends: "?a \<noteq> ?b" using edges_invD [OF mesh_invD(2) [OF m] e] by auto
  have e5: "edgeAlive m5 e" "me_v0 (ed m5 e) = ?a" "me_v1 (ed m5 e) = ?b" using hd e by auto
  have start: "splitting m5 e ?a ?b v ea eb [] m5"
  proof (rule splitting_start)
    show "ml_vertex (lp m5 l) \<noteq> v" if "loopAlive m5 l" for l
    proof -
      have "mesh_core m" using m core_inv by blast
      then have "vertexAlive m (ml_vertex (lp m l))" using mesh_coreD(6) that l5(1) by simp
      then show ?thesis using hd l5(2) by auto
    qed
  qed (use hd in blast)
  have "splitting m5 e ?a ?b v ea eb ([] @ ls) (fold (splitCorner ?a v ea eb t) ls m5)"
  proof (rule splitting_fold [OF start])
    show "edge_joins (ed m5 e) ?a ?b" using e5 by (simp add: edge_joins_def)
    show "\<forall>l \<in> set ([] @ ls). loopAlive m5 l \<and> ml_edge (lp m5 l) = e" using ls(2) l5 by auto
  qed (use hd h(2) ls(3) ends e in auto)
  then have s: "splitting m5 e ?a ?b v ea eb ls m6" by (simp add: m6_def)
  note sd = splittingD [OF s]
  have e6: "edgeAlive m6 e" "\<not> used m6 e"
  proof -
    show "edgeAlive m6 e" using sd(3) e5(1) by simp
    show "\<not> used m6 e"
    proof
      assume "used m6 e"
      then obtain l where l: "loopAlive m6 l" "ml_edge (lp m6 l) = e" by (auto simp: used_def)
      then have "loopAlive m5 l" "l \<notin> set ls" using sd(12) by auto
      moreover from this have "ml_edge (lp m5 l) = e" using sd(11) l(2) by simp
      ultimately show False using ls(2) l5 by simp
    qed
  qed
  have us: "\<forall>j. edgeAlive m6 j \<longrightarrow> j \<noteq> e \<longrightarrow> used m6 j"
  proof (intro allI impI)
    fix j assume j: "edgeAlive m6 j" "j \<noteq> e"
    show "used m6 j"
    proof (cases "j = ea \<or> j = eb")
      case False
      then have "edgeAlive m j" using j sd(3) hd by auto
      then have "used m j" using core_no_wire core_inv m by blast
      then have "used m5 j" by (simp add: used_def l5)
      then show ?thesis using sd(16) j(2) by blast
    qed (use sd(15) [OF ls(4)] in blast)
  qed
  define m7 where "m7 = destroyEdgeIfUnused e m6"
  note dd = destroyed_core [OF sd(1) e6 us, folded m7_def]
  have eq: "splitEdge e t m = Some (v, m7)" using res by (simp add: m7_def m6_def)
  have "edge_split m e t v m7"
    unfolding edge_split_def Let_def
  proof (intro conjI allI impI)
    show "mesh_inv m7" by (rule dd(1))
    show "\<not> vertexAlive m v" using hd by blast
    show "vertexAlive m7 u \<longleftrightarrow> u = v \<or> vertexAlive m u" for u using dd(6) sd(18) hd by simp
    have "position m7 u = position m5 u" for u using dd(7) sd(2) by (simp add: position_def)
    then show "position m7 v = lerp3 (position m ?a) (position m ?b) t" "vertexAlive m u \<Longrightarrow> position m7 u = position m u" for u
      using h(3,4) by simp_all
    show "faceAlive m7 f = faceAlive m f" for f using dd(5) sd(7) l5 by (simp add: faceAlive_def fun_eq_iff)
  next
    fix f assume f: "faceAlive m f"
    have f5: "faceAlive m5 f" using f l5 by simp
    have "faceVertices m7 f = faceVertices m6 f" by (rule faceVertices_same [OF dd(4,5)])
    also have "\<dots> = map_option (split_cycle ?a ?b v) (faceVertices m f)"
    proof (cases "f \<in> (\<lambda>d. ml_face (lp m5 d)) ` set ls")
      case True
      then show ?thesis using sd(14) [OF f5] l5 by simp
    next
      case False
      have "ml_edge (lp m5 l) \<noteq> e" if "loopAlive m5 l" "ml_face (lp m5 l) = f" for l using that False ls(2) l5 by auto
      then show ?thesis using sd(14) [OF f5] l5(4) False off_edge_cycle [OF _ e5(1) f5, of v, unfolded e5(2,3)] hd by simp
    qed
    finally show "faceVertices m7 f = map_option (split_cycle ?a ?b v) (faceVertices m f)" .
  next
    fix p q
    show "creased m7 p q \<longleftrightarrow> (if {p, q} = {?a, v} \<or> {p, q} = {v, ?b} then me_feature (ed m e)
        else {p, q} \<noteq> {?a, ?b} \<and> creased m p q)"
    proof (rule halved_creased [OF h(1) m e])
      show "edgeAlive m7 j \<longleftrightarrow> j \<noteq> e \<and> edgeAlive m5 j" for j using dd(2) sd(3) by simp
      show "me_v0 (ed m7 j) = me_v0 (ed m5 j) \<and> me_v1 (ed m7 j) = me_v1 (ed m5 j) \<and> me_feature (ed m7 j) = me_feature (ed m5 j)"
        if "edgeAlive m7 j" for j using dd(3) [OF that] sd(4-6) by simp
    qed
  qed
  then show ?thesis using eq by blast
qed

end
