(* ===== verification/MeshSteps.thy ===== *)
theory MeshSteps
  imports MeshIslands MeshHoles MeshFeature MeshSplit
begin

text \<open>
  The mesh of two triangles over four vertices, with the facts the properties' witnesses need
  of it, and the relation of one client call to the mesh: every mesh that is reachable by calls
  satisfies the invariant.
\<close>

section \<open>A small mesh\<close>

lemma addVertex_capacity: "capacity m (Suc k) \<Longrightarrow> capacity (snd (addVertex p m)) k"
proof -
  assume c: "capacity m (Suc k)"
  have "capacity (snd (allocVertex m)) k" by (rule alloc_capacity(1) [OF c])
  moreover have "capacity (set_vertex v h m') k = capacity m' k" for v h m' by (simp add: capacity_def)
  ultimately show ?thesis by (simp add: addVertex_def split_beta)
qed

lemma addVertices_capacity: "capacity m (length ps + k) \<Longrightarrow> capacity (snd (addVertices ps m)) k"
proof (induction ps arbitrary: m)
  case (Cons p ps)
  then have "capacity (snd (addVertex p m)) (length ps + k)" by (intro addVertex_capacity) simp
  from Cons.IH [OF this] show ?case by (simp add: split_beta)
qed simp

lemma fromIndexed_capacity:
  assumes "build_room ps fs + k \<le> kInvalidIndex"
  shows "capacity (fromIndexed ps fs) k"
proof -
  have step: "capacity (fold (add_checked ids) gs m) k"
    if "capacity m (sum_list (map (\<lambda>f. Suc (2 * length f)) gs) + k)" for ids gs m
    using that
  proof (induction gs arbitrary: m)
    case (Cons g gs)
    have c: "capacity m (Suc (2 * length (map (\<lambda>i. ids ! i) g)) + (sum_list (map (\<lambda>f. Suc (2 * length f)) gs) + k))"
      using Cons.prems by (simp add: algebra_simps)
    then have "capacity m (sum_list (map (\<lambda>f. Suc (2 * length f)) gs) + k)" by (rule capacity_mono) simp
    then have "capacity (add_checked ids g m) (sum_list (map (\<lambda>f. Suc (2 * length f)) gs) + k)"
      using addFace_capacity [OF c] by (simp add: add_checked_def)
    from Cons.IH [OF this] show ?case by simp
  qed simp
  have "capacity mesh_empty (length ps + (sum_list (map (\<lambda>f. Suc (2 * length f)) fs) + k))"
    using assms by (simp add: capacity_def mesh_empty_def build_room_def add.assoc)
  from step [OF addVertices_capacity [OF this]] show ?thesis by (simp add: fromIndexed_eq split_beta)
qed

definition corner_at :: "f32 \<Rightarrow> f32 \<Rightarrow> vec3" where
  "corner_at x y = \<lparr>v3x = x, v3y = y, v3z = 0\<rparr>"

definition square :: mesh where
  "square = fromIndexed [corner_at 0 0, corner_at f32_1 0, corner_at f32_1 f32_1, corner_at 0 f32_1]
     [[0, 1, 2], [0, 2, 3]]"

lemma square_packed:
  "packed square [corner_at 0 0, corner_at f32_1 0, corner_at f32_1 f32_1, corner_at 0 f32_1] [[0, 1, 2], [0, 2, 3]]"
  using fromIndexed_packed [of "[corner_at 0 0, corner_at f32_1 0, corner_at f32_1 f32_1, corner_at 0 f32_1]" "[[0, 1, 2], [0, 2, 3]]"]
  by (simp add: square_def build_room_def kInvalidIndex_def face_valid_def)

lemma square_facts:
  "mesh_inv square" "k \<le> 1000 \<Longrightarrow> capacity square k"
  "vertexAlive square v \<longleftrightarrow> v < 4" "faceAlive square f \<longleftrightarrow> f < 2" "length (m_vertices square) = 4"
  "faceVertices square 0 = Some [0, 1, 2]" "faceVertices square 1 = Some [0, 2, 3]"
proof -
  note p = square_packed [unfolded packed_def]
  show "mesh_inv square" "vertexAlive square v \<longleftrightarrow> v < 4" "faceAlive square f \<longleftrightarrow> f < 2"
    "length (m_vertices square) = 4" using p by (simp_all add: numeral_eq_Suc)
  have "\<forall>f < 2. faceVertices square f = Some ([[0, 1, 2], [0, 2, 3]] ! f)" using p by simp
  from spec [OF this, of 0] spec [OF this, of 1]
  show "faceVertices square 0 = Some [0, 1, 2]" "faceVertices square 1 = Some [0, 2, 3]" by simp_all
  show "k \<le> 1000 \<Longrightarrow> capacity square k"
    unfolding square_def by (rule fromIndexed_capacity) (simp add: build_room_def kInvalidIndex_def)
qed

lemma square_diagonal:
  "edgeAlive square (edgeBetween square 0 2)"
  "{me_v0 (ed square (edgeBetween square 0 2)), me_v1 (ed square (edgeBetween square 0 2))} = {0, 2}"
proof -
  have m: "mesh_inv square" by (rule square_facts)
  have f: "faceAlive square 0" by (simp add: square_facts)
  obtain ls where ls: "face_ring square 0 ls" by (rule mesh_inv_face [OF m f])
  have vs: "map (\<lambda>l. ml_vertex (lp square l)) ls = [0, 1, 2]"
    using face_ring_walk(2) [OF ls] square_facts(6) by simp
  then obtain x y z where x: "ls = [x, y, z]" "ml_vertex (lp square x) = 0" "ml_vertex (lp square z) = 2"
    by (auto simp: map_eq_Cons_conv)
  have z: "loopAlive square z" "ml_next (lp square z) = x" using ls by (auto simp: face_ring_def x(1))
  have "edge_joins (ed square (ml_edge (lp square z))) 0 2"
    using mesh_invD(7) [OF m z(1)] x(2,3) z(2) by (simp add: corner_ok_def edge_joins_commute)
  moreover note corner_edge(1) [OF m z(1)]
  ultimately have e: "edgeBetween square 0 2 = ml_edge (lp square z)" "edgeAlive square (ml_edge (lp square z))"
    using edgeBetween_spec(1) [OF m] by blast+
  then show "edgeAlive square (edgeBetween square 0 2)" by simp
  show "{me_v0 (ed square (edgeBetween square 0 2)), me_v1 (ed square (edgeBetween square 0 2))} = {0, 2}"
    using \<open>edge_joins (ed square (ml_edge (lp square z))) 0 2\<close> e(1) by (auto simp: edge_joins_def)
qed

lemma square_room: "v < 4 \<Longrightarrow> merge_room square v"
  unfolding merge_room_def
proof (intro allI impI)
  fix fs assume v: "v < 4" and fs: "vertexFaces square v = Some fs"
  have m: "mesh_inv square" "vertexAlive square v" using v by (simp_all add: square_facts)
  obtain gs where gs: "vertexFaces square v = Some gs" "sorted gs" "distinct gs"
      "set gs = {f. faceAlive square f \<and> (\<exists>vs. faceVertices square f = Some vs \<and> v \<in> set vs)}"
    by (rule vertexFaces_corners [OF m])
  have "gs = fs" using gs(1) fs by simp
  then have d: "distinct fs" "set fs \<subseteq> {f. faceAlive square f}" using gs(3,4) by auto
  have "{f. faceAlive square f} = {0, 1}" by (auto simp: square_facts)
  with d(2) have d2: "set fs \<subseteq> {0, 1}" by simp
  have "mf_size (fc square f) = 3" if "f \<in> set fs" for f
  proof -
    have f: "f = 0 \<or> f = 1" using that d2 by auto
    then have "faceAlive square f" by (auto simp: square_facts)
    then obtain ls where ls: "face_ring square f ls" by (rule mesh_inv_face [OF m(1)])
    have "length ls = 3" using face_ring_walk(2) [OF ls] f square_facts(6,7) by (auto dest: arg_cong [where f = length])
    then show ?thesis using ls by (simp add: face_ring_def)
  qed
  then have "map (\<lambda>f. Suc (2 * mf_size (fc square f))) fs = replicate (length fs) 7"
    by (simp add: map_replicate_const [symmetric] cong: map_cong)
  then have "sum_list (map (\<lambda>f. Suc (2 * mf_size (fc square f))) fs) = length fs * 7"
    by (simp add: sum_list_replicate)
  moreover have "length fs \<le> 2" using card_mono [OF _ d2] distinct_card [OF d(1)] by simp
  ultimately have "sum_list (map (\<lambda>f. Suc (2 * mf_size (fc square f))) fs) \<le> 1000" by linarith
  then show "capacity square (sum_list (map (\<lambda>f. Suc (2 * mf_size (fc square f))) fs))"
    by (rule square_facts(2))
qed


text \<open>The two corners on the diagonal at most.\<close>

lemma square_edge_room: "edgeAlive square e \<Longrightarrow> capacity square (3 + card {l. loopAlive square l \<and> ml_edge (lp square l) = e})"
proof -
  have "{l. loopAlive square l \<and> ml_edge (lp square l) = e} \<subseteq> {..<length (m_loops square)}" by (auto simp: loopAlive_def)
  then have "card {l. loopAlive square l \<and> ml_edge (lp square l) = e} \<le> length (m_loops square)"
    using card_mono [of "{..<length (m_loops square)}"] by simp
  moreover have "capacity square (kInvalidIndex - 18)"
    unfolding square_def by (rule fromIndexed_capacity) (simp add: build_room_def kInvalidIndex_def)
  then have "length (m_loops square) \<le> 18" by (simp add: capacity_def kInvalidIndex_def)
  ultimately show ?thesis using square_facts(2) by simp
qed

section \<open>Sequences of operations\<close>

text \<open>
  One call of a mutating operation by a client. The premises on \<open>capacity\<close> say that the
  element arrays stay below \<open>kInvalidIndex\<close>, which the source does not check.
\<close>

inductive mesh_step :: "mesh \<Rightarrow> mesh \<Rightarrow> bool" where
  step_addVertex: "capacity m 1 \<Longrightarrow> mesh_step m (snd (addVertex p m))"
| step_addFace: "capacity m (Suc (2 * length vs)) \<Longrightarrow> mesh_step m (snd (addFace vs m))"
| step_removeFace: "removeFace f m = Some m' \<Longrightarrow> mesh_step m m'"
| step_removeIsolatedVertex: "mesh_step m (snd (removeIsolatedVertex v m))"
| step_setPosition: "mesh_step m (setPosition v p m)"
| step_setFeatureEdge: "mesh_step m (setFeatureEdge e b m)"
| step_vertexRow: "mesh_step m (applyVertexRow i r m)"
| step_edgeRow: "mesh_step m (applyEdgeRow i r m)"
| step_faceRow: "mesh_step m (applyFaceRow i r m)"
| step_cornerRow: "mesh_step m (applyCornerRow i r m)"
| step_mergeVertices: "merge_room m b \<Longrightarrow> mergeVertices a b m = Some (ok, m') \<Longrightarrow> mesh_step m m'"
| step_collapseEdge: "merge_room m (me_v1 (ed m e)) \<Longrightarrow> collapseEdge e mid m = Some (ok, m') \<Longrightarrow> mesh_step m m'"
| step_flipEdge: "capacity m 14 \<Longrightarrow> flipEdge e m = Some (ok, m') \<Longrightarrow> mesh_step m m'"
| step_splitEdge: "capacity m (3 + card {l. loopAlive m l \<and> ml_edge (lp m l) = e}) \<Longrightarrow>
    splitEdge e t m = Some (v, m') \<Longrightarrow> mesh_step m m'"
| step_fillHoles: "capacity m (length (m_vertices m) * Suc (2 * k)) \<Longrightarrow> (\<And>s. length (order s) \<le> length s) \<Longrightarrow>
    fillHoles order k m = Some (n, m') \<Longrightarrow> mesh_step m m'"
| step_tagFeatureEdges: "tagFeatureEdges acosf deg m = Some m' \<Longrightarrow> mesh_step m m'"

inductive mesh_reachable :: "mesh \<Rightarrow> bool" where
  reach_empty: "mesh_reachable mesh_empty"
| reach_step: "mesh_reachable m \<Longrightarrow> mesh_step m m' \<Longrightarrow> mesh_reachable m'"

inductive_cases mesh_step_cases: "mesh_step m m'"

lemma removeFace_same: "\<not> faceAlive m f \<Longrightarrow> removeFace f m = Some m"
  by (simp add: removeFace_def)

lemma mergeVertices_same:
  "\<not> (vertexAlive m a \<and> vertexAlive m b \<and> a \<noteq> b) \<Longrightarrow> mergeVertices a b m = Some (False, m)"
  by (auto simp: mergeVertices_def)

lemma collapseEdge_same: "\<not> edgeAlive m e \<Longrightarrow> collapseEdge e mid m = Some (False, m)"
  by (simp add: collapseEdge_def)

lemma flipEdge_same: "\<not> edgeAlive m e \<Longrightarrow> flipEdge e m = Some (False, m)"
  by (simp add: flipEdge_def)

lemma merge_inv:
  assumes "mesh_inv m" "merge_room m b" "mergeVertices a b m = Some (ok, m')"
  shows "mesh_inv m'"
proof (cases "vertexAlive m a \<and> vertexAlive m b \<and> a \<noteq> b")
  case True
  then show ?thesis using mergeVertices_spec [of m a b] assms by (auto simp: merged_def)
qed (use assms mergeVertices_same in auto)

lemma collapse_inv:
  assumes m: "mesh_inv m" and room: "merge_room m (me_v1 (ed m e))" and res: "collapseEdge e mid m = Some (ok, m')"
  shows "mesh_inv m'"
proof (cases "edgeAlive m e")
  case True
  from collapseEdge_spec [OF m True room, of mid] res show ?thesis
    by (auto simp: merged_def m split: if_splits)
qed (use res m collapseEdge_same in auto)

lemma split_inv:
  assumes m: "mesh_inv m" and c: "capacity m (3 + card {l. loopAlive m l \<and> ml_edge (lp m l) = e})"
    and res: "splitEdge e t m = Some (v, m')"
  shows "mesh_inv m'"
proof (cases "edgeAlive m e")
  case True
  obtain v1 m1 where "splitEdge e t m = Some (v1, m1)" "edge_split m e t v1 m1" using splitEdge_spec [OF m True c] by blast
  then show ?thesis using res by (simp add: edge_split_def Let_def)
qed (use res m in \<open>simp add: splitEdge_def\<close>)

lemma flipped_inv: "flipped m e f g m' \<Longrightarrow> mesh_inv m'"
  unfolding flipped_def by blast

lemma flip_inv:
  assumes m: "mesh_inv m" and c: "capacity m 14" and res: "flipEdge e m = Some (ok, m')"
  shows "mesh_inv m'"
proof (cases "edgeAlive m e")
  case True
  from flipEdge_spec [OF m True c] res show ?thesis by (auto simp: m flipped_inv split: if_splits)
qed (use res m flipEdge_same in auto)

lemma mesh_step_inv: "mesh_step m m' \<Longrightarrow> mesh_inv m \<Longrightarrow> mesh_inv m'"
proof (induction rule: mesh_step.induct)
  case (step_addVertex m p)
  then have "capacity m (Suc 0)" by simp
  from addVertex_spec(1) [OF step_addVertex(2) this] show ?case by (metis prod.collapse)
next
  case (step_removeFace f m m')
  obtain m1 where "removeFace f m = Some m1" "mesh_inv m1" by (rule removeFace_inv [OF step_removeFace(2), of f])
  with step_removeFace(1) show ?case by simp
next
  case (step_removeIsolatedVertex m v)
  then show ?case using removeIsolatedVertex_spec(1) by (metis prod.collapse)
next
  case (step_fillHoles m k order n m')
  from fillHoles_spec [OF step_fillHoles(4,2,1)] step_fillHoles(3) show ?case by auto
next
  case (step_tagFeatureEdges acosf deg m m')
  obtain m1 where "tagFeatureEdges acosf deg m = Some m1" "decorated m m1"
    by (rule tagFeatureEdges_spec [OF step_tagFeatureEdges(2)])
  with step_tagFeatureEdges(1) decorated_inv [OF _ step_tagFeatureEdges(2)] show ?case by simp
qed (auto intro: addFace_inv merge_inv collapse_inv flip_inv split_inv decorated_inv [OF setPosition_decorated]
    decorated_inv [OF setFeatureEdge_decorated] applyRow_decorated [THEN decorated_inv])

lemma mesh_reachable_inv: "mesh_reachable m \<Longrightarrow> mesh_inv m"
  by (induction rule: mesh_reachable.induct) (auto intro: mesh_inv_empty mesh_step_inv)

lemma reach_corner: "mesh_reachable (snd (addVertex p mesh_empty))"
proof (rule reach_step [OF reach_empty])
  have "capacity mesh_empty 1" by (simp add: capacity_def mesh_empty_def kInvalidIndex_def)
  then show "mesh_step mesh_empty (snd (addVertex p mesh_empty))" by (rule step_addVertex)
qed

end
