(* ===== verification/MeshMerge.thy ===== *)
theory MeshMerge
  imports MeshSteps
begin

text \<open>
  What a rebuild does to feature flags: adding a face never creates a feature edge, so a
  feature edge that loses all its faces to \<open>mergeVertices\<close> comes back without its flag.
\<close>

section \<open>Operations that create no feature edge\<close>

definition no_new_crease :: "mesh \<Rightarrow> mesh \<Rightarrow> bool" where
  "no_new_crease m m' \<longleftrightarrow> (\<forall>j. edgeAlive m' j \<longrightarrow> me_feature (ed m' j) \<longrightarrow> edgeAlive m j \<and> me_feature (ed m j) \<and>
     me_v0 (ed m' j) = me_v0 (ed m j) \<and> me_v1 (ed m' j) = me_v1 (ed m j))"

lemma crease_edges: "m_edges m' = m_edges m \<Longrightarrow> no_new_crease m m'"
  by (simp add: no_new_crease_def edgeAlive_def)

lemma crease_trans: "no_new_crease a b \<Longrightarrow> no_new_crease b c \<Longrightarrow> no_new_crease a c"
  by (auto simp: no_new_crease_def)

lemma crease_fold: "(\<And>x m. no_new_crease m (f x m)) \<Longrightarrow> no_new_crease m (fold f xs m)"
  by (induction xs arbitrary: m) (auto intro: crease_edges crease_trans)

lemma crease_creased: "no_new_crease m m' \<Longrightarrow> creased m' p q \<Longrightarrow> creased m p q"
  by (auto simp: no_new_crease_def creased_def edge_joins_def)

lemma findOrCreateEdge_crease: "no_new_crease m (snd (findOrCreateEdge a b m))"
proof (cases "find (\<lambda>e. edge_joins (m_edges m ! e) a b) (mv_edges (m_vertices m ! a))")
  case None
  obtain e m1 where al: "allocEdge m = (e, m1)" by (cases "allocEdge m")
  have a: "edgeAlive m j \<and> ed m1 j = ed m j" if "edgeAlive m1 j" "j \<noteq> e" for j
    using al that by (auto simp: allocEdge_def Let_def edgeAlive_def nth_append edge0_def split: if_splits)
  have n: "\<not> me_feature (ed m1 e)" if "edgeAlive m1 e"
    using al that by (auto simp: allocEdge_def Let_def edgeAlive_def nth_append edge0_def split: if_splits)
  define m2 where "m2 = snd (findOrCreateEdge a b m)"
  have m2: "m_edges m2 = ((m_edges m1)[e := (ed m1 e)\<lparr>me_v0 := a\<rparr>])[e := ((m_edges m1)[e := (ed m1 e)\<lparr>me_v0 := a\<rparr>] ! e)\<lparr>me_v1 := b\<rparr>]"
    using None al by (simp add: m2_def findOrCreateEdge_def Let_def)
  have len: "length (m_edges m2) = length (m_edges m1)" by (simp add: m2)
  have other: "ed m2 j = ed m1 j" if "j \<noteq> e" for j using that by (simp add: m2)
  have at: "me_alive (ed m2 e) = me_alive (ed m1 e) \<and> me_feature (ed m2 e) = me_feature (ed m1 e)" if "e < length (m_edges m1)"
    using that by (simp add: m2)
  have "no_new_crease m m2"
    unfolding no_new_crease_def
  proof (intro allI impI)
    fix j assume j: "edgeAlive m2 j" "me_feature (ed m2 j)"
    have "j \<noteq> e"
    proof
      assume "j = e"
      then have "edgeAlive m1 e" "me_feature (ed m1 e)" using j len at by (auto simp: edgeAlive_def)
      then show False using n by blast
    qed
    moreover from this have "edgeAlive m1 j" using j(1) len other by (simp add: edgeAlive_def)
    ultimately show "edgeAlive m j \<and> me_feature (ed m j) \<and> me_v0 (ed m2 j) = me_v0 (ed m j) \<and> me_v1 (ed m2 j) = me_v1 (ed m j)"
      using a [of j] j(2) other [of j] by simp
  qed
  then show ?thesis by (simp add: m2_def)
qed (simp add: findOrCreateEdge_def crease_edges)

lemma radialInsert_crease: "no_new_crease m (radialInsert e l m)"
proof -
  have f: "loop_frame m (radialInsert e l m)" by (rule radialInsert_frame)
  then show ?thesis using loop_frame_alive(2) [OF f] by (simp add: no_new_crease_def loop_frame_def)
qed

lemma linkCorner_crease: "no_new_crease m (linkCorner vs f loops i m)"
proof -
  define m1 where "m1 = set_loop (loops ! i) (\<lambda>x. x\<lparr>ml_vertex := vs ! i, ml_face := f, ml_next := loops ! ((i + 1) mod length vs),
                       ml_prev := loops ! ((i + length vs - 1) mod length vs)\<rparr>) m"
  obtain e m2 where fe: "findOrCreateEdge (vs ! i) (vs ! ((i + 1) mod length vs)) m1 = (e, m2)"
    by (cases "findOrCreateEdge (vs ! i) (vs ! ((i + 1) mod length vs)) m1")
  have "no_new_crease m m1" by (rule crease_edges) (simp add: m1_def)
  moreover have "no_new_crease m1 m2" using findOrCreateEdge_crease [of m1] fe by (metis snd_conv)
  moreover have "linkCorner vs f loops i m = radialInsert e (loops ! i) m2"
    using fe by (simp add: linkCorner_def m1_def Let_def)
  ultimately show ?thesis using radialInsert_crease crease_trans by metis
qed

lemma allocLoops_edges: "m_edges (snd (allocLoops n m)) = m_edges m"
  by (induction n arbitrary: m) (simp_all add: split_beta Let_def)

lemma addFace_crease: "no_new_crease m (snd (addFace vs m))"
proof -
  obtain f m1 where f: "allocFace m = (f, m1)" by (cases "allocFace m")
  obtain ls m2 where l: "allocLoops (length vs) m1 = (ls, m2)" by (cases "allocLoops (length vs) m1")
  have "m_edges m1 = m_edges m" using f by (metis alloc_frame snd_conv)
  moreover have "m_edges m2 = m_edges m1" using l allocLoops_edges by (metis snd_conv)
  ultimately have 1: "no_new_crease m m2" by (simp add: crease_edges)
  let ?m3 = "fold (linkCorner vs f ls) [0..<length vs] m2"
  have 2: "no_new_crease m2 ?m3" by (rule crease_fold) (rule linkCorner_crease)
  have "no_new_crease m (set_face f (\<lambda>x. x\<lparr>mf_first := ls ! 0, mf_size := to_index (length vs)\<rparr>) ?m3)"
    by (rule crease_trans [OF crease_trans [OF 1 2]]) (rule crease_edges, simp)
  then show ?thesis using f l by (simp add: addFace_def Let_def crease_edges)
qed

lemma restoreCorner_edges: "m_edges (restoreCorner x l m) = m_edges m"
  by (simp add: restoreCorner_def applyCornerRow_def Let_def split: option.split)

lemma rebuildFace_crease: "rebuildFace x m = Some m' \<Longrightarrow> no_new_crease m m'"
proof -
  assume r: "rebuildFace x m = Some m'"
  define vs where "vs = dedupeCyclic (fm_verts x)"
  show ?thesis
  proof (cases "length vs < 3 \<or> nested_repeat vs")
    case False
    obtain nf m1 where a: "addFace vs m = (nf, m1)" by (cases "addFace vs m")
    have 1: "no_new_crease m m1" using addFace_crease [of m vs] a by simp
    have 2: "m_edges (fold (restoreCorner x) ls n) = m_edges n" for ls n
      by (induction ls arbitrary: n) (simp_all add: restoreCorner_edges)
    have "m' = m1 \<or> (\<exists>ls. m' = fold (restoreCorner x) ls (applyFaceRow nf (fm_attrs x) m1))"
      using r a False by (auto simp: rebuildFace_def Let_def vs_def [symmetric] split: if_splits)
    then have "no_new_crease m1 m'" by (auto intro: crease_edges simp: 2 applyFaceRow_def)
    then show ?thesis using 1 crease_trans by blast
  qed (use r in \<open>simp add: rebuildFace_def vs_def Let_def crease_edges\<close>)
qed

lemma rebuildFaces_crease: "ofold rebuildFace xs m = Some m' \<Longrightarrow> no_new_crease m m'"
  by (induction xs arbitrary: m) (auto simp: crease_edges bind_Some_iff intro: crease_trans rebuildFace_crease)

lemma restoreEdge_creased:
  assumes "p \<noteq> keep" "q \<noteq> keep" "creased (restoreEdge keep x m) p q"
  shows "creased m p q"
proof (cases "em_other x = keep \<or> \<not> id_valid (edgeBetween m keep (em_other x))")
  case False
  define e where "e = edgeBetween m keep (em_other x)"
  have "\<exists>i. find (\<lambda>e. edge_joins (m_edges m ! e) keep (em_other x)) (mv_edges (m_vertices m ! keep)) = Some i \<and> e = i"
    using False unfolding e_def by (auto simp: edgeBetween_def id_valid_def split: if_splits option.splits)
  then have j: "edge_joins (ed m e) keep (em_other x)" using find_Some_mem by metis
  define m1 where "m1 = restoreEdge keep x m"
  have d: "decorated m m1" unfolding m1_def by (rule restoreEdge_decorated)
  note al = decorated_alive [OF d] and fl = decorated_fields [OF d]
  have same: "me_feature (ed m1 i) = me_feature (ed m i)" if "i \<noteq> e" for i
    using that False unfolding m1_def restoreEdge_def e_def
    by (simp add: Let_def setFeature_nth)
  obtain i where i: "edgeAlive m1 i" "edge_joins (ed m1 i) p q" "me_feature (ed m1 i)" using assms(3) by (auto simp: creased_def m1_def)
  have i': "edgeAlive m i" "edge_joins (ed m i) p q" using i(1,2) al fl(2) [of i] by (simp_all add: edge_joins_def)
  have "i \<noteq> e" using edge_joins_ends [OF j, of p q] i'(2) assms(1,2) by auto
  then show ?thesis using same i(3) i' by (auto simp: creased_def)
next
  case True
  then have "restoreEdge keep x m = m" by (auto simp: restoreEdge_def Let_def)
  then show ?thesis using assms(3) by simp
qed

lemma restoreEdges_creased:
  "p \<noteq> keep \<Longrightarrow> q \<noteq> keep \<Longrightarrow> creased (fold (restoreEdge keep) xs m) p q \<Longrightarrow> creased m p q"
  by (induction xs arbitrary: m) (auto dest: restoreEdge_creased)

section \<open>The edges a vertex link loses\<close>

text \<open>All faces at the edge contain the merged vertex: their removal takes the edge away.\<close>

lemma link_edge_removed:
  assumes m: "mesh_inv m" and e: "edgeAlive m e" "edge_joins (ed m e) p q"
    and sur: "\<And>l f vs. loopAlive m l \<Longrightarrow> ml_edge (lp m l) = e \<Longrightarrow> faceVertices m (ml_face (lp m l)) = Some vs \<Longrightarrow> remove \<in> set vs"
    and m1: "mesh_inv m1" "\<And>j. faceAlive m1 j \<Longrightarrow> faceAlive m j \<and> faceVertices m1 j = faceVertices m j"
    and gone: "\<And>j vs. faceAlive m1 j \<Longrightarrow> faceVertices m1 j = Some vs \<Longrightarrow> remove \<notin> set vs"
  shows "\<not> creased m1 p q"
proof
  assume "creased m1 p q"
  then obtain j where j: "edgeAlive m1 j" "edge_joins (ed m1 j) p q" by (auto simp: creased_def)
  have c1: "mesh_core m1" "no_wire m1" and c: "mesh_core m" using m m1(1) core_inv by auto
  obtain l where l: "loopAlive m1 l" "ml_edge (lp m1 l) = j" using core_no_wire [OF c1(1)] c1(2) j(1) by (auto simp: used_def)
  let ?f = "ml_face (lp m1 l)"
  have f: "faceAlive m1 ?f" "faceAlive m ?f" "faceVertices m1 ?f = faceVertices m ?f" using mesh_coreD(5) [OF c1(1) l(1)] m1(2) by auto
  obtain xs ys where r1: "face_ring m1 ?f (xs @ l # ys)" "hd (ys @ xs) = ml_next (lp m1 l)" by (rule face_ring_cut [OF c1(1) l(1)])
  obtain ls where r: "face_ring m ?f ls" using mesh_coreD(4) [OF c f(2)] by blast
  let ?V1 = "map (\<lambda>l. ml_vertex (lp m1 l)) (xs @ l # ys)" and ?V = "map (\<lambda>l. ml_vertex (lp m l)) ls"
  have V: "?V = ?V1" using face_ring_walk(2) [OF r] face_ring_walk(2) [OF r1(1)] f(3) by simp
  let ?i = "length xs"
  have len: "length ls = Suc (length xs + length ys)" using arg_cong [OF V, of length] by simp
  have nx: "?V1 ! ((?i + 1) mod length ls) = ml_vertex (lp m1 (ml_next (lp m1 l)))"
  proof (cases ys)
    case Nil
    then have "xs \<noteq> []" using r1(1) by (auto simp: face_ring_def)
    then show ?thesis using r1(2) len Nil by (cases xs) auto
  next
    case (Cons y zs)
    then show ?thesis using r1(2) len by (simp add: nth_append)
  qed
  have at: "?V ! ?i = ml_vertex (lp m1 l)" unfolding V by (simp add: nth_append)
  have pq: "{me_v0 x, me_v1 x} = {p, q}" if "edge_joins x p q" for x using that by (auto simp: edge_joins_def)
  have "{ml_vertex (lp m1 l), ml_vertex (lp m1 (ml_next (lp m1 l)))} = {p, q}"
    using mesh_coreD(8) [OF c1(1) l(1)] j(2) l(2) by (auto simp: edge_joins_def)
  moreover have i: "?i < length ls" "(?i + 1) mod length ls < length ls" using len by (simp_all add: mod_less_divisor)
  ultimately have "{ml_vertex (lp m (ls ! ?i)), ml_vertex (lp m (ls ! ((?i + 1) mod length ls)))} = {me_v0 (ed m e), me_v1 (ed m e)}"
    using at nx pq [OF e(2)] V by (metis nth_map)
  then have "ml_edge (lp m (ls ! ?i)) = e" by (rule cycle_pair_edge [OF c r i(1) e(1)])
  moreover have "loopAlive m (ls ! ?i)" "ml_face (lp m (ls ! ?i)) = ?f" using r nth_mem [OF i(1)] by (auto simp: face_ring_def)
  ultimately have "remove \<in> set ?V" using sur [of "ls ! ?i" ?V] face_ring_walk(2) [OF r] by simp
  then show False using gone [OF f(1), of ?V] f(3) face_ring_walk(2) [OF r] by simp
qed

lemma merge_drops_crease:
  assumes m: "mesh_inv m" and kr: "vertexAlive m keep" "vertexAlive m remove" "keep \<noteq> remove" and room: "merge_room m remove"
    and e: "edgeAlive m e" "edge_joins (ed m e) p q" "p \<noteq> keep" "q \<noteq> keep"
    and sur: "\<And>l vs. loopAlive m l \<Longrightarrow> ml_edge (lp m l) = e \<Longrightarrow> faceVertices m (ml_face (lp m l)) = Some vs \<Longrightarrow> remove \<in> set vs"
  shows "\<exists>m'. mergeVertices keep remove m = Some (True, m') \<and> \<not> creased m' p q"
proof -
  obtain m' where res: "mergeVertices keep remove m = Some (True, m')" using mergeVertices_spec [OF m kr room] by blast
  obtain fs where fs: "vertexFaces m remove = Some fs"
      "set fs = {f. faceAlive m f \<and> (\<exists>vs. faceVertices m f = Some vs \<and> remove \<in> set vs)}"
    by (rule vertexFaces_corners [OF m kr(2)])
  obtain m1 where m1: "ofold removeFace fs m = Some m1" "mesh_inv m1"
      "\<forall>j. faceAlive m1 j \<longleftrightarrow> j \<notin> set fs \<and> faceAlive m j" "\<forall>j. faceAlive m1 j \<longrightarrow> faceVertices m1 j = faceVertices m j"
    using removeFaces_spec [OF m] by blast
  have n1: "\<not> creased m1 p q"
  proof (rule link_edge_removed [OF m e(1,2) sur m1(2)])
    show "remove \<notin> set vs" if "faceAlive m1 j" "faceVertices m1 j = Some vs" for j vs using that m1(3,4) fs(2) by auto
  qed (use m1(3,4) in auto)
  obtain memos m2 where r: "ofold rebuildFace memos m1 = Some m2"
      "m' = (let m3 = fold (restoreEdge keep) (edgeMemos m remove) m2 in if vertexAlive m3 remove \<and> mv_edges (vx m3 remove) = [] then freeVertex remove m3 else m3)"
    using res kr fs(1) m1(1) by (auto simp: mergeVertices_def Let_def bind_Some_iff split del: if_split)
  have m2: "ofold rebuildFace memos m1 = Some m2" "m_edges m' = m_edges (fold (restoreEdge keep) (edgeMemos m remove) m2)"
    using r by (simp_all add: Let_def)
  have "\<not> creased m2 p q" using n1 crease_creased [OF rebuildFaces_crease [OF m2(1)]] by blast
  then have "\<not> creased (fold (restoreEdge keep) (edgeMemos m remove) m2) p q" using restoreEdges_creased e(3,4) by blast
  then show ?thesis using res m2(2) by (simp add: creased_def edgeAlive_def)
qed


section \<open>The faces a merge rebuilds\<close>

text \<open>A cycle that stays a face after its merged corner is renamed and doubled corners are dropped.\<close>

definition face_like :: "nat list \<Rightarrow> bool" where
  "face_like vs \<longleftrightarrow> 3 \<le> length vs \<and> distinct vs"

definition renamed :: "nat \<Rightarrow> nat \<Rightarrow> nat list \<Rightarrow> nat list" where
  "renamed keep remove vs = dedupeCyclic (map (\<lambda>v. if v = remove then keep else v) vs)"

text \<open>\<open>gains m gs wss m'\<close>: exactly the new faces \<open>gs\<close> with the cycles \<open>wss\<close>; the old faces are kept.\<close>

definition gains :: "mesh \<Rightarrow> nat list \<Rightarrow> nat list list \<Rightarrow> mesh \<Rightarrow> bool" where
  "gains m gs wss m' \<longleftrightarrow> mesh_inv m' \<and> (\<forall>v. vertexAlive m' v = vertexAlive m v) \<and>
     (\<forall>j. faceAlive m' j \<longleftrightarrow> j \<in> set gs \<or> faceAlive m j) \<and> (\<forall>g \<in> set gs. \<not> faceAlive m g) \<and> distinct gs \<and>
     (\<forall>j. faceAlive m j \<longrightarrow> faceVertices m' j = faceVertices m j) \<and> map (faceVertices m') gs = map Some wss"

lemma gains_none: "mesh_inv m \<Longrightarrow> gains m [] [] m"
  by (simp add: gains_def)

lemma gains_append:
  assumes "gains a gs us b" "gains b hs vs c"
  shows "gains a (gs @ hs) (us @ vs) c"
proof -
  have "map (faceVertices c) gs = map (faceVertices b) gs"
    by (rule map_cong [OF refl]) (use assms in \<open>simp add: gains_def\<close>)
  also have "\<dots> = map Some us" using assms(1) by (simp add: gains_def)
  finally have old: "map (faceVertices c) gs = map Some us" .
  note a = assms(1) [unfolded gains_def] and b = assms(2) [unfolded gains_def]
  show ?thesis
    unfolding gains_def
  proof (intro conjI)
    show "map (faceVertices c) (gs @ hs) = map Some (us @ vs)" using old b by simp
    show "distinct (gs @ hs)" using a b by auto
  qed (use a b in auto)
qed

lemma gains_decorated: "gains m gs wss m1 \<Longrightarrow> decorated m1 m2 \<Longrightarrow> gains m gs wss m2"
  using decorated_inv [of m1 m2] decorated_alive [of m1 m2] decorated_faceVertices(1) [of m1 m2]
  by (simp add: gains_def cong: map_cong)

lemma rebuildFace_gains:
  assumes m: "mesh_inv m" and c: "capacity m (Suc (2 * length (fm_verts x)) + k)" and al: "\<forall>v \<in> set (fm_verts x). vertexAlive m v"
  defines "ws \<equiv> dedupeCyclic (fm_verts x)"
  shows "\<exists>gs m'. rebuildFace x m = Some m' \<and> gains m gs (if face_like ws then [ws] else []) m' \<and> capacity m' k"
proof -
  obtain m' where r: "rebuildFace x m = Some m'" "capacity m' k" using rebuildFace_spec [OF m c] by blast
  show ?thesis
  proof (cases "face_like ws")
    case False
    then have "rebuildFace x m = Some m" by (auto simp: rebuildFace_def ws_def face_like_def nested_repeat_iff Let_def)
    then show ?thesis using False r gains_none [OF m] by auto
  next
    case True
    have sub: "set ws \<subseteq> set (fm_verts x)" "length ws \<le> length (fm_verts x)" using dedupeCyclic_props by (simp_all add: ws_def)
    have c1: "capacity m (Suc (2 * length ws))" by (rule capacity_mono [OF c]) (use sub(2) in simp)
    obtain nf m1 where a: "addFace ws m = (nf, m1)" by (cases "addFace ws m")
    have wal: "\<forall>v \<in> set ws. vertexAlive m v" using al sub(1) by blast
    have "face_added m ws nf m1" using addFace_success [OF m c1 _ wal _ a] True by (simp add: face_like_def)
    note fa = this [unfolded face_added_def] and others = face_added_others [OF m this]
    obtain ls where ls: "face_ring m1 nf ls" using mesh_inv_face fa by blast
    let ?m2 = "applyFaceRow nf (fm_attrs x) m1"
    have "decorated n (restoreCorner x l n)" for l n by (simp add: restoreCorner_def Let_def split: option.split)
    then have "decorated ?m2 (fold (restoreCorner x) ls ?m2)" by (rule decorated_fold)
    with applyRow_decorated(3) have d: "decorated m1 (fold (restoreCorner x) ls ?m2)" by (rule decorated_trans)
    have "faceLoops ?m2 nf = Some ls"
      using face_ring_walk(1) [OF ls] decorated_faceVertices(2) [OF applyRow_decorated(3)] by simp
    then have e: "rebuildFace x m = Some (fold (restoreCorner x) ls ?m2)"
      using True a fa by (simp add: rebuildFace_def id_valid_def ws_def face_like_def nested_repeat_iff Let_def)
    have "gains m [nf] [ws] m1" using fa others by (auto simp: gains_def ends_same_def)
    from gains_decorated [OF this d] e r True show ?thesis by auto
  qed
qed

lemma rebuildFaces_gains:
  "mesh_inv m \<Longrightarrow> capacity m (sum_list (map (\<lambda>x. Suc (2 * length (fm_verts x))) memos)) \<Longrightarrow>
    \<forall>x \<in> set memos. \<forall>v \<in> set (fm_verts x). vertexAlive m v \<Longrightarrow>
    \<exists>gs m'. ofold rebuildFace memos m = Some m' \<and> gains m gs (filter face_like (map (\<lambda>x. dedupeCyclic (fm_verts x)) memos)) m'"
proof (induction memos arbitrary: m)
  case Nil
  then show ?case using gains_none by auto
next
  case (Cons x memos)
  have c: "capacity m (Suc (2 * length (fm_verts x)) + sum_list (map (\<lambda>x. Suc (2 * length (fm_verts x))) memos))"
    using Cons.prems(2) by simp
  have al: "\<forall>v \<in> set (fm_verts x). vertexAlive m v" using Cons.prems(3) by simp
  obtain gs m1 where g: "rebuildFace x m = Some m1" "gains m gs (if face_like (dedupeCyclic (fm_verts x)) then [dedupeCyclic (fm_verts x)] else []) m1"
      "capacity m1 (sum_list (map (\<lambda>x. Suc (2 * length (fm_verts x))) memos))"
    using rebuildFace_gains [OF Cons.prems(1) c al] by blast
  have i1: "mesh_inv m1" "\<forall>x \<in> set memos. \<forall>v \<in> set (fm_verts x). vertexAlive m1 v"
    using g(2) Cons.prems(3) by (simp_all add: gains_def)
  obtain hs m2 where h: "ofold rebuildFace memos m1 = Some m2"
      "gains m1 hs (filter face_like (map (\<lambda>x. dedupeCyclic (fm_verts x)) memos)) m2"
    using Cons.IH [OF i1(1) g(3) i1(2)] by blast
  from gains_append [OF g(2) h(2)] g(1) h(1) show ?case by (cases "face_like (dedupeCyclic (fm_verts x))") auto
qed

text \<open>The memo of a face holds its cycle with the merged vertex renamed.\<close>

lemma faceMemo_verts:
  assumes m: "mesh_inv m" and f: "faceAlive m f" and x: "faceMemo m keep remove f = Some x"
  shows "fm_verts x = map (\<lambda>v. if v = remove then keep else v) (the (faceVertices m f))"
proof -
  obtain ls where ls: "face_ring m f ls" using mesh_inv_face [OF m f] .
  then show ?thesis using x face_ring_walk [OF ls] by (auto simp: faceMemo_def Let_def)
qed

lemma faceMemos_verts:
  "mesh_inv m \<Longrightarrow> \<forall>f \<in> set fs. faceAlive m f \<Longrightarrow> omap_list (faceMemo m keep remove) fs = Some memos \<Longrightarrow>
    map fm_verts memos = map (\<lambda>f. map (\<lambda>v. if v = remove then keep else v) (the (faceVertices m f))) fs"
  by (induction fs arbitrary: memos) (auto simp: bind_Some_iff faceMemo_verts)

definition merge_result :: "mesh \<Rightarrow> nat \<Rightarrow> nat \<Rightarrow> nat list \<Rightarrow> nat list \<Rightarrow> mesh \<Rightarrow> bool" where
  "merge_result m keep remove fs gs m' \<longleftrightarrow> mesh_inv m' \<and>
     (\<forall>v. vertexAlive m' v \<longleftrightarrow> v \<noteq> remove \<and> vertexAlive m v) \<and>
     (\<forall>j. faceAlive m' j \<longleftrightarrow> j \<in> set gs \<or> faceAlive m j \<and> j \<notin> set fs) \<and>
     (\<forall>j. faceAlive m j \<and> j \<notin> set fs \<longrightarrow> j \<notin> set gs \<and> faceVertices m' j = faceVertices m j) \<and> distinct gs \<and>
     map (faceVertices m') gs = map Some (filter face_like (map (\<lambda>f. renamed keep remove (the (faceVertices m f))) fs))"

lemma merge_rebuilds:
  assumes m: "mesh_inv m" and kr: "vertexAlive m keep" "vertexAlive m remove" "keep \<noteq> remove" and room: "merge_room m remove"
  shows "\<exists>fs gs m'. mergeVertices keep remove m = Some (True, m') \<and> vertexFaces m remove = Some fs \<and>
    merge_result m keep remove fs gs m'"
proof -
  obtain m' where res: "mergeVertices keep remove m = Some (True, m')" "merged m remove m'" using mergeVertices_spec [OF m kr room] by blast
  obtain fs where fs: "vertexFaces m remove = Some fs"
      "set fs = {f. faceAlive m f \<and> (\<exists>vs. faceVertices m f = Some vs \<and> remove \<in> set vs)}"
    by (rule vertexFaces_corners [OF m kr(2)])
  then have al: "\<forall>f \<in> set fs. faceAlive m f" by simp
  obtain memos where memos: "omap_list (faceMemo m keep remove) fs = Some memos"
      "map (\<lambda>x. length (fm_verts x)) memos = map (\<lambda>f. mf_size (fc m f)) fs"
    using mergeVertices_memos [OF m al kr(3)] by blast
  obtain m1 where m1: "ofold removeFace fs m = Some m1" "mesh_inv m1" "edges_same m m1"
      "\<forall>j. faceAlive m1 j \<longleftrightarrow> j \<notin> set fs \<and> faceAlive m j" "\<forall>j. faceAlive m1 j \<longrightarrow> faceVertices m1 j = faceVertices m j"
    using removeFaces_spec [OF m] by blast
  have "map (\<lambda>x. Suc (2 * length (fm_verts x))) memos = map (\<lambda>f. Suc (2 * mf_size (fc m f))) fs"
    using arg_cong [OF memos(2), of "map (\<lambda>n. Suc (2 * n))"] by (simp add: comp_def)
  then have c: "capacity m1 (sum_list (map (\<lambda>x. Suc (2 * length (fm_verts x))) memos))"
    using room fs(1) edges_same_capacity [OF m1(3)] by (simp add: merge_room_def)
  have va: "vertexAlive m1 v = vertexAlive m v" for v using m1(3) by (simp add: edges_same_def)
  have mv: "map fm_verts memos = map (\<lambda>f. map (\<lambda>v. if v = remove then keep else v) (the (faceVertices m f))) fs"
    by (rule faceMemos_verts [OF m al memos(1)])
  have "vertexAlive m1 v" if x: "x \<in> set memos" "v \<in> set (fm_verts x)" for x v
  proof -
    have "fm_verts x \<in> set (map fm_verts memos)" using x(1) by simp
    then obtain f where f: "f \<in> set fs" "fm_verts x = map (\<lambda>v. if v = remove then keep else v) (the (faceVertices m f))"
      unfolding mv by auto
    have "faceAlive m f" using al f(1) by blast
    then obtain vs where vs: "faceVertices m f = Some vs" "set vs = {ml_vertex (lp m k) |k. loopAlive m k \<and> ml_face (lp m k) = f}"
      by (rule faceVertices_some [OF m])
    have "mesh_core m" using m core_inv by blast
    then have "\<forall>u \<in> set vs. vertexAlive m u" unfolding vs(2) using mesh_coreD(6) by auto
    then show ?thesis using x(2) f(2) vs(1) kr(1) va by (auto split: if_splits)
  qed
  then have mal: "\<forall>x \<in> set memos. \<forall>v \<in> set (fm_verts x). vertexAlive m1 v" by blast
  obtain gs m2 where m2: "ofold rebuildFace memos m1 = Some m2"
      "gains m1 gs (filter face_like (map (\<lambda>x. dedupeCyclic (fm_verts x)) memos)) m2"
    using rebuildFaces_gains [OF m1(2) c mal] by blast
  let ?m3 = "fold (restoreEdge keep) (edgeMemos m remove) m2"
  have "decorated m2 ?m3" by (rule decorated_fold) (rule restoreEdge_decorated)
  from gains_decorated [OF m2(2) this] have g3: "gains m1 gs (filter face_like (map (\<lambda>x. dedupeCyclic (fm_verts x)) memos)) ?m3" .
  have eq: "map (\<lambda>x. dedupeCyclic (fm_verts x)) memos = map (\<lambda>f. renamed keep remove (the (faceVertices m f))) fs"
    using arg_cong [OF mv, of "map dedupeCyclic"] by (simp add: comp_def renamed_def)
  have m': "m' = (if vertexAlive ?m3 remove \<and> mv_edges (vx ?m3 remove) = [] then freeVertex remove ?m3 else ?m3)"
    using res(1) kr fs(1) memos(1) m1(1) m2(1) by (simp add: mergeVertices_def Let_def)
  then have same: "faceAlive m' = faceAlive ?m3" "faceVertices m' = faceVertices ?m3"
    by (simp_all add: fun_eq_iff faceAlive_def faceVertices_def faceLoops_def)
  note g = g3 [unfolded eq gains_def]
  have "merge_result m keep remove fs gs m'"
    unfolding merge_result_def same
  proof (intro conjI allI impI)
    show "mesh_inv m'" "vertexAlive m' v \<longleftrightarrow> v \<noteq> remove \<and> vertexAlive m v" for v using res(2) by (simp_all add: merged_def)
    show "faceAlive ?m3 j \<longleftrightarrow> j \<in> set gs \<or> faceAlive m j \<and> j \<notin> set fs" for j using g m1(4) by blast
    show "distinct gs" "map (faceVertices ?m3) gs = map Some (filter face_like (map (\<lambda>f. renamed keep remove (the (faceVertices m f))) fs))"
      using g by simp_all
  next
    fix j assume "faceAlive m j \<and> j \<notin> set fs"
    then have "faceAlive m1 j" using m1(4) by blast
    then show "j \<notin> set gs" "faceVertices ?m3 j = faceVertices m j" using g m1(5) by auto
  qed
  then show ?thesis using res(1) fs(1) by blast
qed


text \<open>The merge of a corner of the small mesh.\<close>

lemma square_fan: "vertexFaces square 2 = Some fs \<Longrightarrow> fs = [0, 1]"
proof -
  assume fs: "vertexFaces square 2 = Some fs"
  have a: "vertexAlive square 2" by (simp add: square_facts)
  obtain gs where gs: "vertexFaces square 2 = Some gs" "sorted gs" "distinct gs"
      "set gs = {f. faceAlive square f \<and> (\<exists>vs. faceVertices square f = Some vs \<and> 2 \<in> set vs)}"
    by (rule vertexFaces_corners [OF square_facts(1) a])
  have q: "\<exists>vs. faceVertices square f = Some vs \<and> 2 \<in> set vs" if "f = 0 \<or> f = 1" for f
    using that
  proof
    assume "f = 0"
    then show ?thesis using square_facts(6) by simp
  next
    assume "f = 1"
    then show ?thesis using square_facts(7) by simp
  qed
  have "faceAlive square f \<longleftrightarrow> f = 0 \<or> f = 1" for f unfolding square_facts(4) by auto
  then have "f \<in> set gs \<longleftrightarrow> f = 0 \<or> f = 1" for f unfolding gs(4) mem_Collect_eq using q by blast
  then have "set gs = {0, 1}" by (intro set_eqI) simp
  then have "set gs = set [0, 1::nat]" by simp
  then have "gs = [0, 1]" by (rule sorted_distinct_set_unique [OF gs(2,3), rotated 2]) simp_all
  then show "fs = [0, 1]" using fs gs(1) by simp
qed

lemma square_renamed:
  "filter face_like (map (\<lambda>f. renamed 3 2 (the (faceVertices square f))) [0, 1]) = [[0, 1, 3]]"
proof -
  have d: "dedupeCyclic [0, 1, 3] = [0, 1, 3]" "dedupeCyclic [0, 3, 3] = [0, 3]"
    by (subst dedupeCyclic.simps, simp add: upt_conv_Cons dedupeCyclic.simps [of "[0, 3]"])+
  have "the (faceVertices square 0) = [0, 1, 2]" "the (faceVertices square 1) = [0, 2, 3]" unfolding square_facts(6,7) by simp_all
  then have "renamed 3 2 (the (faceVertices square 0)) = [0, 1, 3]" "renamed 3 2 (the (faceVertices square 1)) = [0, 3]"
    unfolding renamed_def using d by simp_all
  then show ?thesis by (simp add: face_like_def)
qed


text \<open>The same mesh with a feature on the boundary edge from 0 to 1.\<close>

definition creased_square :: mesh where
  "creased_square = setFeatureEdge (edgeBetween square 0 1) True square"

lemma square_side: "edgeAlive square (edgeBetween square 0 1)" "edge_joins (ed square (edgeBetween square 0 1)) 0 1"
proof -
  have m: "mesh_inv square" by (rule square_facts)
  have f: "faceAlive square 0" by (simp add: square_facts)
  obtain ls where ls: "face_ring square 0 ls" by (rule mesh_inv_face [OF m f])
  have vs: "map (\<lambda>l. ml_vertex (lp square l)) ls = [0, 1, 2]"
    using face_ring_walk(2) [OF ls] square_facts(6) by simp
  then obtain x y z where x: "ls = [x, y, z]" "ml_vertex (lp square x) = 0" "ml_vertex (lp square y) = 1"
    by (auto simp: map_eq_Cons_conv)
  have z: "loopAlive square x" "ml_next (lp square x) = y" using ls by (auto simp: face_ring_def x(1))
  have j: "edge_joins (ed square (ml_edge (lp square x))) 0 1"
    using mesh_invD(7) [OF m z(1)] x(2,3) z(2) by (simp add: corner_ok_def)
  moreover note corner_edge(1) [OF m z(1)]
  ultimately have e: "edgeBetween square 0 1 = ml_edge (lp square x)" "edgeAlive square (ml_edge (lp square x))"
    using edgeBetween_spec(1) [OF m] by blast+
  then show "edgeAlive square (edgeBetween square 0 1)" "edge_joins (ed square (edgeBetween square 0 1)) 0 1" using j by simp_all
qed

lemma decorated_vertexFaces:
  assumes d: "decorated m m'" and m: "mesh_inv m" and v: "vertexAlive m v"
  shows "vertexFaces m' v = vertexFaces m v"
proof -
  have "vertexFacesLoop m' acc es = vertexFacesLoop m acc es" if "\<forall>e \<in> set es. edgeAlive m e" for es acc
    using that by (induction es arbitrary: acc) (simp_all add: decorated_edgeFaces [OF d])
  moreover have "\<forall>e \<in> set (mv_edges (vx m v)). edgeAlive m e" using edges_inv_vertexD(2) [OF mesh_invD(2) [OF m] v] by blast
  ultimately show ?thesis using decorated_fields(1) [OF d v] by (simp add: vertexFaces_def)
qed

lemma creased_square_facts:
  "mesh_inv creased_square" "decorated square creased_square" "creased creased_square 0 1" "merge_room creased_square 2"
  "edgeAlive creased_square (edgeBetween square 0 1)" "edge_joins (ed creased_square (edgeBetween square 0 1)) 0 1"
  "vertexFaces creased_square 2 = vertexFaces square 2"
proof -
  let ?e = "edgeBetween square 0 1"
  show d: "decorated square creased_square" by (simp add: creased_square_def)
  show "mesh_inv creased_square" by (rule decorated_inv [OF d square_facts(1)])
  show e: "edgeAlive creased_square ?e" using square_side(1) decorated_alive(2) [OF d] by simp
  show j: "edge_joins (ed creased_square ?e) 0 1"
    using square_side(2) decorated_fields(2) [OF d square_side(1)] by (simp add: edge_joins_def)
  have "me_feature (ed creased_square ?e)" using square_side(1) by (simp add: creased_square_def setFeature_nth edgeAlive_def)
  with e j show "creased creased_square 0 1" by (auto simp: creased_def)
  show vf: "vertexFaces creased_square 2 = vertexFaces square 2"
    by (rule decorated_vertexFaces [OF d square_facts(1)]) (simp add: square_facts)
  have "merge_room square 2" by (rule square_room) simp
  then show "merge_room creased_square 2" using decorated_capacity [OF d] decorated_fields(4) [OF d] by (simp add: merge_room_def vf)
qed

end
