(* ===== verification/MeshProps.thy ===== *)
theory MeshProps
  imports MeshMerge
begin

text \<open>
  The properties of the mesh kernel: construction, removal, the indexed round trip, queries,
  the validator, islands, and the operators that rewrite faces. Witnesses apply them to the
  mesh of two triangles over four vertices.
\<close>

section \<open>Properties\<close>





text \<open>
  C3. \<open>removeFace\<close> returns; it removes exactly the named face with its corners, leaves no edge
  without a face and no dangling link, and keeps the vertices of every other face.
\<close>

theorem removeFace_exact:
  assumes "mesh_inv m"
  shows "\<exists>m'. removeFace f m = Some m' \<and> mesh_inv m' \<and> (\<forall>j. faceAlive m' j \<longleftrightarrow> j \<noteq> f \<and> faceAlive m j) \<and>
    (\<forall>j. faceAlive m' j \<longrightarrow> faceVertices m' j = faceVertices m j) \<and>
    (\<forall>v. vertexAlive m' v = vertexAlive m v \<and> position m' v = position m v)"
proof -
  obtain m' where r: "ofold removeFace [f] m = Some m'" "mesh_inv m'" "edges_same m m'"
      "\<forall>j. faceAlive m' j \<longleftrightarrow> j \<notin> set [f] \<and> faceAlive m j"
      "\<forall>j. faceAlive m' j \<longrightarrow> faceVertices m' j = faceVertices m j"
    using removeFaces_spec [OF assms, of "[f]"] by blast
  then have "removeFace f m = Some m'" by (auto simp: bind_Some_iff)
  moreover have "\<forall>v. vertexAlive m' v = vertexAlive m v \<and> position m' v = position m v"
    using r(3) by (simp add: edges_same_def position_def)
  ultimately show ?thesis using r(2,4,5) by auto
qed

theorem removeFace_exact_witness:
  "\<exists>m'. removeFace 0 square = Some m' \<and> mesh_inv m' \<and> \<not> faceAlive m' 0 \<and> faceVertices m' 1 = Some [0, 2, 3]"
proof -
  obtain m' where m': "removeFace 0 square = Some m'" "mesh_inv m'"
      "\<And>j. faceAlive m' j \<longleftrightarrow> j \<noteq> 0 \<and> faceAlive square j"
      "\<And>j. faceAlive m' j \<Longrightarrow> faceVertices m' j = faceVertices square j"
    using removeFace_exact [OF square_facts(1), of 0] by blast
  have "faceAlive m' 1" by (simp add: m'(3) square_facts)
  from m'(4) [OF this] square_facts(7) m'(1,2) m'(3) [of 0] show ?thesis by auto
qed

text \<open>
  C10. \<open>toIndexed\<close> undoes \<open>fromIndexed\<close>: from positions and faces that each name at least three
  distinct valid positions, the positions and the faces come back unchanged and in order.
\<close>

theorem indexed_roundtrip:
  assumes "build_room ps fs \<le> kInvalidIndex" "\<forall>f \<in> set fs. face_valid (length ps) f"
  shows "toIndexed (fromIndexed ps fs) = Some (ps, fs)"
proof -
  have "filter (face_valid (length ps)) fs = fs" using assms(2) by (simp add: filter_id_conv)
  with fromIndexed_packed [OF assms(1)] have "packed (fromIndexed ps fs) ps fs" by simp
  then show ?thesis by (rule packed_toIndexed) (use assms(2) in \<open>auto simp: face_valid_def\<close>)
qed

theorem indexed_roundtrip_witness:
  "toIndexed (fromIndexed [corner_at 0 0, corner_at f32_1 0, corner_at 0 f32_1] [[2, 0, 1]]) =
    Some ([corner_at 0 0, corner_at f32_1 0, corner_at 0 f32_1], [[2, 0, 1]])"
  by (rule indexed_roundtrip) (simp_all add: build_room_def face_valid_def kInvalidIndex_def)

text \<open>
  The two repeated-vertex tests \<open>hasRepeatedVertex\<close> switches between (nested loops up to
  sixteen vertices, sort and adjacent comparison above) both decide whether the list is
  free of duplicates.
\<close>

theorem repeated_vertex_test: "hasRepeatedVertex vs = (\<not> distinct vs)"
  by (rule hasRepeatedVertex_iff)

text \<open>
  C9. \<open>islands\<close> returns and splits the live faces into the classes of the relation ``connected
  through shared edges'', each class once and sorted, no face left out or listed twice.
\<close>

theorem islands_partition:
  assumes "mesh_inv m"
  shows "\<exists>is. islands m = Some is \<and> distinct (concat is) \<and> set (concat is) = {f. faceAlive m f} \<and>
    (\<forall>i \<in> set is. i \<noteq> [] \<and> sorted i \<and> (\<forall>f \<in> set i. set i = {g. connected m f g}))"
  by (rule islands_spec [OF assms])

theorem islands_partition_witness:
  "\<exists>is. islands square = Some is \<and> distinct (concat is) \<and> set (concat is) = {0, 1}"
proof -
  have "{f. faceAlive square f} = {0, 1}" by (auto simp: square_facts)
  with islands_partition [OF square_facts(1)] show ?thesis by auto
qed

text \<open>
  C16. \<open>edgeBetween\<close> gives the one live edge that joins the two vertices, and the invalid id
  exactly when no live edge joins them.
\<close>

theorem edgeBetween_exact:
  assumes "mesh_inv m" "edgeAlive m e"
  shows "edgeBetween m a b = e \<longleftrightarrow> edge_joins (ed m e) a b"
proof
  show "edge_joins (ed m e) a b \<Longrightarrow> edgeBetween m a b = e" using edgeBetween_spec(1) [OF assms(1)] assms(2) by blast
  assume eq: "edgeBetween m a b = e"
  have "e \<noteq> kInvalidIndex" using alive_bound(2) [OF mesh_invD(1) [OF assms(1)] assms(2)] by simp
  then obtain e' where "edgeAlive m e'" "edge_joins (ed m e') a b"
    using edgeBetween_spec(2) [OF assms(1), of a b] eq by blast
  then show "edge_joins (ed m e) a b" using edgeBetween_spec(1) [OF assms(1), of e' a b] eq by simp
qed

theorem edgeBetween_exact_witness:
  "edge_joins (ed square (edgeBetween square 0 2)) 0 2"
  using edgeBetween_exact [OF square_facts(1) square_diagonal(1), of 0 2] by simp

text \<open>
  C15. The walk around every cycle ends: on a mesh with the invariant \<open>vertexFaces\<close> returns, and
  returns the ids of the faces with a corner at the vertex, ascending and without repetition.
\<close>

theorem vertexFaces_exact:
  assumes "mesh_inv m" "vertexAlive m v"
  shows "\<exists>fs. vertexFaces m v = Some fs \<and> sorted fs \<and> distinct fs \<and>
    set fs = {f. faceAlive m f \<and> (\<exists>vs. faceVertices m f = Some vs \<and> v \<in> set vs)}"
proof -
  obtain fs where "vertexFaces m v = Some fs" "sorted fs" "distinct fs"
      "set fs = {f. faceAlive m f \<and> (\<exists>vs. faceVertices m f = Some vs \<and> v \<in> set vs)}"
    by (rule vertexFaces_corners [OF assms])
  then show ?thesis by (intro exI [of _ fs] conjI)
qed

theorem vertexFaces_exact_witness: "vertexFaces square 1 = Some [0]"
proof -
  obtain fs where fs: "vertexFaces square 1 = Some fs" "sorted fs" "distinct fs"
      "set fs = {f. faceAlive square f \<and> (\<exists>vs. faceVertices square f = Some vs \<and> 1 \<in> set vs)}"
    using vertexFaces_exact [OF square_facts(1), of 1] by (auto simp: square_facts(3))
  have "f \<in> set fs \<longleftrightarrow> f = 0" for f
    unfolding fs(4) using square_facts(4) [of f] square_facts(6,7)
    by (cases "f = 0"; cases "f = 1") auto
  then have "set fs = {0}" by auto
  with fs(2,3) have "fs = [0]" by (intro sorted_distinct_set_unique) auto
  with fs(1) show ?thesis by simp
qed

text \<open>
  C7. Merging a live vertex into another returns true and does exactly what its comments say: it keeps the
  invariant and removes exactly the merged vertex; every face that does not touch it stays as it
  was; of the faces around it (in the order \<open>vertexFaces\<close> reports them) exactly those come back whose
  cycle, with the merged vertex renamed and consecutive doubles dropped, still has three corners and none twice,
  each as one new face with that cycle.
\<close>

theorem mergeVertices_exact:
  assumes "mesh_inv m" "vertexAlive m keep" "vertexAlive m remove" "keep \<noteq> remove" "merge_room m remove"
  shows "\<exists>fs gs m'. mergeVertices keep remove m = Some (True, m') \<and> mesh_inv m' \<and>
    (\<forall>v. vertexAlive m' v \<longleftrightarrow> v \<noteq> remove \<and> vertexAlive m v) \<and>
    vertexFaces m remove = Some fs \<and>
    (\<forall>f. faceAlive m' f \<longleftrightarrow> f \<in> set gs \<or> faceAlive m f \<and> f \<notin> set fs) \<and>
    (\<forall>f. faceAlive m f \<and> f \<notin> set fs \<longrightarrow> f \<notin> set gs \<and> faceVertices m' f = faceVertices m f) \<and> distinct gs \<and>
    map (faceVertices m') gs = map Some (filter face_like (map (\<lambda>f. renamed keep remove (the (faceVertices m f))) fs))"
  using merge_rebuilds [OF assms] unfolding merge_result_def by blast

theorem mergeVertices_exact_witness:
  "\<exists>g m'. mergeVertices 3 2 square = Some (True, m') \<and> mesh_inv m' \<and> \<not> vertexAlive m' 2 \<and>
    (\<forall>f. faceAlive m' f \<longleftrightarrow> f = g) \<and> faceVertices m' g = Some [0, 1, 3]"
proof -
  obtain fs gs m' where m': "mergeVertices 3 2 square = Some (True, m')" "mesh_inv m'"
      "\<forall>v. vertexAlive m' v \<longleftrightarrow> v \<noteq> 2 \<and> vertexAlive square v" "vertexFaces square 2 = Some fs"
      "\<forall>f. faceAlive m' f \<longleftrightarrow> f \<in> set gs \<or> faceAlive square f \<and> f \<notin> set fs"
      "map (faceVertices m') gs = map Some (filter face_like (map (\<lambda>f. renamed 3 2 (the (faceVertices square f))) fs))"
    using mergeVertices_exact [OF square_facts(1) _ _ _ square_room, of 3 2] by (auto simp: square_facts(3))
  note fs = square_fan [OF m'(4)]
  have "map (faceVertices m') gs = [Some [0, 1, 3]]" using m'(6) unfolding fs square_renamed by simp
  then obtain g where "gs = [g]" "faceVertices m' g = Some [0, 1, 3]" by (auto simp: map_eq_Cons_conv)
  then show ?thesis using m'(1-3,5) fs by (auto simp: square_facts(4))
qed





text \<open>
  C11. \<open>fillHoles\<close> returns; the faces it adds have between three and \<open>maxBoundaryEdges\<close> corners, it
  reports how many it added, and it changes no vertex and no existing face.
\<close>

theorem fillHoles_bounded:
  assumes "mesh_inv m" "\<And>s. length (order s) \<le> length s"
    "capacity m (length (m_vertices m) * Suc (2 * maxEdges))"
  shows "\<exists>k m'. fillHoles order maxEdges m = Some (k, m') \<and> mesh_inv m' \<and>
    (\<forall>v. vertexAlive m' v = vertexAlive m v) \<and>
    (\<forall>j. faceAlive m j \<longrightarrow> faceAlive m' j \<and> faceVertices m' j = faceVertices m j) \<and>
    (\<forall>j vs. faceAlive m' j \<longrightarrow> \<not> faceAlive m j \<longrightarrow> faceVertices m' j = Some vs \<longrightarrow> 3 \<le> length vs \<and> length vs \<le> maxEdges) \<and>
    m_aliveFaces m' = m_aliveFaces m + k"
  using fillHoles_spec [OF assms] .

theorem fillHoles_bounded_witness:
  "\<exists>k m'. fillHoles (map fst) 8 square = Some (k, m') \<and> mesh_inv m' \<and> m_aliveFaces m' = m_aliveFaces square + k"
proof -
  have "capacity square (length (m_vertices square) * Suc (2 * 8))" by (rule square_facts(2)) (simp add: square_facts)
  from fillHoles_bounded [OF square_facts(1) _ this, of "map fst"] show ?thesis by auto
qed

text \<open>
  A recycled vertex slot is indistinguishable from a new one: after removing an isolated
  vertex, \<open>addVertex\<close> hands out the same id again, with no edges and with every attribute
  of its row back at the default value.
\<close>

theorem recycled_vertex:
  assumes m: "mesh_inv m" and r: "removeIsolatedVertex v m = (True, m1)" and a: "addVertex p m1 = (w, m2)"
  shows "w = v \<and> position m2 v = p \<and> mv_edges (vx m2 v) = [] \<and>
    attr_extractRow (m_vertexAttrs m2) v = attr_extractRow (attr_reset v (m_vertexAttrs m)) v"
proof -
  have v: "vertexAlive m v" and m1: "m1 = freeVertex v m"
    using r by (auto simp: removeIsolatedVertex_def split: if_splits)
  have f: "m_freeVertices m1 = m_freeVertices m @ [v]" "m_vertexAttrs m1 = m_vertexAttrs m"
    "length (m_vertices m1) = length (m_vertices m)"
    by (simp_all add: m1 freeVertex_def set_vertex_def)
  with a v show ?thesis
    by (auto simp: addVertex_def allocVertex_def Let_def set_vertex_def position_def vertex0_def vertexAlive_def)
qed

theorem recycled_vertex_witness:
  "\<exists>m m1 m2. removeIsolatedVertex 0 m = (True, m1) \<and> addVertex vec3_zero m1 = (0, m2) \<and> position m2 0 = vec3_zero"
proof -
  define m where "m = snd (addVertex vec3_zero mesh_empty)"
  have m: "mesh_inv m" unfolding m_def by (rule mesh_reachable_inv [OF reach_corner])
  have "removeIsolatedVertex 0 m = (True, freeVertex 0 m)"
    by (simp add: m_def removeIsolatedVertex_def addVertex_def allocVertex_def mesh_empty_def vertexAlive_def
        set_vertex_def vertex0_def to_index_def)
  moreover obtain w m2 where a: "addVertex vec3_zero (freeVertex 0 m) = (w, m2)" by fastforce
  ultimately show ?thesis using recycled_vertex [OF m _ a, of 0] by blast
qed

text \<open>
  Detaching the row of an element with \<open>extractRow\<close> and applying it to another with \<open>applyRow\<close>
  is the same as \<open>copy\<close>, on every column type.
\<close>

theorem row_copy:
  assumes "attr_inv a"
  shows "attr_applyRow dst (attr_extractRow a src) a = attr_copy dst src a"
  by (rule applyRow_extractRow [OF assms])

theorem row_copy_witness:
  "attr_applyRow 0 (attr_extractRow attrs_empty 1) attrs_empty = attr_copy 0 1 attrs_empty"
  by (rule row_copy) simp




text \<open>
  C6. \<open>splitEdge\<close> on a live edge returns, keeps the invariant, and does exactly what its comment promises:
  one new vertex at the interpolated position, every face keeps its cycle with the new vertex
  inserted between the two ends of the edge wherever they are consecutive (so each
  triangle on the edge becomes a quad and every other face is unchanged), the old vertices keep their
  positions, the two halves inherit the feature flag, the split edge is gone and every other pair of vertices
  is a feature exactly if it was one.
\<close>

theorem splitEdge_exact:
  assumes m: "mesh_inv m" and e: "edgeAlive m e" and c: "capacity m (3 + card {l. loopAlive m l \<and> ml_edge (lp m l) = e})"
  defines "a \<equiv> me_v0 (ed m e)" and "b \<equiv> me_v1 (ed m e)"
  shows "\<exists>v m'. splitEdge e t m = Some (v, m') \<and> mesh_inv m' \<and> \<not> vertexAlive m v \<and>
    (\<forall>u. vertexAlive m' u \<longleftrightarrow> u = v \<or> vertexAlive m u) \<and>
    position m' v = lerp3 (position m a) (position m b) t \<and> (\<forall>u. vertexAlive m u \<longrightarrow> position m' u = position m u) \<and>
    (\<forall>f. faceAlive m' f = faceAlive m f) \<and>
    (\<forall>f. faceAlive m f \<longrightarrow> faceVertices m' f = map_option (split_cycle a b v) (faceVertices m f)) \<and>
    (\<forall>p q. creased m' p q \<longleftrightarrow> (if {p, q} = {a, v} \<or> {p, q} = {v, b} then me_feature (ed m e)
        else {p, q} \<noteq> {a, b} \<and> creased m p q))"
  unfolding a_def b_def by (rule splitEdge_spec [OF m e c, unfolded edge_split_def Let_def])

theorem splitEdge_exact_witness:
  "\<exists>v m'. splitEdge (edgeBetween square 0 2) f32_half square = Some (v, m') \<and> mesh_inv m' \<and> \<not> v < 4 \<and>
    faceVertices m' 0 = Some [0, 1, 2, v] \<and> faceVertices m' 1 = Some [0, v, 2, 3]"
proof -
  let ?e = "edgeBetween square 0 2"
  note d = square_diagonal and e = splitEdge_exact [OF square_facts(1) square_diagonal(1) square_edge_room [OF square_diagonal(1)], of f32_half]
  have "me_v0 (ed square ?e) = 0 \<and> me_v1 (ed square ?e) = 2 \<or> me_v0 (ed square ?e) = 2 \<and> me_v1 (ed square ?e) = 0"
    using d(2) by (auto simp: doubleton_eq_iff)
  moreover have "split_cycle 0 2 v [0, 1, 2] = [0, 1, 2, v]" "split_cycle 0 2 v [0, 2, 3] = [0, v, 2, 3]"
    "split_cycle 2 0 v [0, 1, 2] = [0, 1, 2, v]" "split_cycle 2 0 v [0, 2, 3] = [0, v, 2, 3]" for v
    by (simp_all add: split_cycle_def upt_conv_Cons doubleton_eq_iff)
  ultimately have sc: "split_cycle (me_v0 (ed square ?e)) (me_v1 (ed square ?e)) v [0, 1, 2] = [0, 1, 2, v]"
      "split_cycle (me_v0 (ed square ?e)) (me_v1 (ed square ?e)) v [0, 2, 3] = [0, v, 2, 3]" for v
    by (elim disjE conjE; simp)+
  obtain v m' where r: "splitEdge ?e f32_half square = Some (v, m')" "mesh_inv m'" "\<not> vertexAlive square v"
      "\<forall>f. faceAlive square f \<longrightarrow> faceVertices m' f = map_option (split_cycle (me_v0 (ed square ?e)) (me_v1 (ed square ?e)) v) (faceVertices square f)"
    using e by blast
  have "faceVertices m' 0 = Some [0, 1, 2, v]" "faceVertices m' 1 = Some [0, v, 2, 3]"
  proof -
    have f: "faceAlive square 0" "faceAlive square 1" unfolding square_facts(4) by simp_all
    show "faceVertices m' 0 = Some [0, 1, 2, v]" unfolding r(4) [rule_format, OF f(1)] square_facts(6) option.map(2) sc ..
    show "faceVertices m' 1 = Some [0, v, 2, 3]" unfolding r(4) [rule_format, OF f(2)] square_facts(7) option.map(2) sc ..
  qed
  then show ?thesis using r(1-3) square_facts(3) by blast
qed


text \<open>
  C8. What \<open>mergeVertices\<close> (and with it \<open>collapseEdge\<close>) does not keep: a feature edge none of whose ends is the kept
  vertex, but all of whose faces touch the merged one, is destroyed with these faces
  and, where a rebuilt face has the pair again, recreated without its flag. The comment above the edge memos says that
  feature flags survive the rebuild; the memos only cover the edges at the merged vertex itself.
\<close>

theorem merge_loses_feature:
  assumes "mesh_inv m" "vertexAlive m keep" "vertexAlive m remove" "keep \<noteq> remove" "merge_room m remove"
    and "edgeAlive m e" "edge_joins (ed m e) p q" "p \<noteq> keep" "q \<noteq> keep"
    and "\<And>l vs. loopAlive m l \<Longrightarrow> ml_edge (lp m l) = e \<Longrightarrow> faceVertices m (ml_face (lp m l)) = Some vs \<Longrightarrow> remove \<in> set vs"
  shows "\<exists>m'. mergeVertices keep remove m = Some (True, m') \<and> \<not> creased m' p q"
  by (rule merge_drops_crease [OF assms])
theorem merge_loses_feature_witness:
  "creased creased_square 0 1 \<and> (\<exists>g m'. mergeVertices 3 2 creased_square = Some (True, m') \<and>
    faceAlive m' g \<and> faceVertices m' g = Some [0, 1, 3] \<and> \<not> creased m' 0 1)"
proof -
  note c = creased_square_facts
  have al: "vertexAlive creased_square 3" "vertexAlive creased_square 2"
    using decorated_alive(1) [OF c(2)] square_facts(3) by simp_all
  have fv: "faceVertices creased_square f = faceVertices square f" for f by (rule decorated_faceVertices(1) [OF c(2)])
  have all2: "2 \<in> set vs" if "loopAlive creased_square l" "faceVertices creased_square (ml_face (lp creased_square l)) = Some vs" for l vs
  proof -
    let ?f = "ml_face (lp creased_square l)"
    have "faceAlive creased_square ?f" using mesh_coreD(5) c(1) that(1) core_inv by blast
    then have "?f < 2" unfolding decorated_alive(3) [OF c(2)] square_facts(4) .
    then have "?f = 0 \<or> ?f = 1" by linarith
    then show ?thesis
    proof
      assume "?f = 0"
      then have "vs = [0, 1, 2]" using that(2) fv square_facts(6) by simp
      then show ?thesis by simp
    next
      assume "?f = 1"
      then have "vs = [0, 2, 3]" using that(2) fv square_facts(7) by simp
      then show ?thesis by simp
    qed
  qed
  have "\<exists>m'. mergeVertices 3 2 creased_square = Some (True, m') \<and> \<not> creased m' 0 1"
    by (rule merge_loses_feature [OF c(1) al _ c(4-6)]) (use all2 in simp_all)
  then obtain m' where m': "mergeVertices 3 2 creased_square = Some (True, m')" "\<not> creased m' 0 1" by blast
  obtain fs gs where r: "vertexFaces creased_square 2 = Some fs" "merge_result creased_square 3 2 fs gs m'"
    using merge_rebuilds [OF c(1) al _ c(4)] m'(1) by auto
  have fs: "fs = [0, 1]" using square_fan r(1) c(7) by simp
  have "map (faceVertices m') gs = [Some [0, 1, 3]]" using r(2) unfolding merge_result_def fv fs square_renamed by simp
  then obtain g where "gs = [g]" "faceVertices m' g = Some [0, 1, 3]" by (auto simp: map_eq_Cons_conv)
  moreover from this have "faceAlive m' g" using r(2) by (simp add: merge_result_def)
  ultimately show ?thesis using m' c(3) by blast
qed

end
