(* ===== verification/DocMesh.thy ===== *)
theory DocMesh
  imports DocAttrs MeshProps
begin

text \<open>
  A mesh and the mesh rebuilt from its indexed form. Saving writes vertices, faces and corners in
  the order of their ids with the dead ones left out; \<open>rank\<close> is the resulting renumbering of
  vertices. The rebuilt mesh has the dense ids, no attribute columns and no feature tags.
\<close>

section \<open>What construction leaves plain\<close>

definition plain :: "mesh \<Rightarrow> bool" where
  "plain m \<longleftrightarrow> as_columns (m_vertexAttrs m) = [] \<and> as_columns (m_edgeAttrs m) = [] \<and>
     as_columns (m_faceAttrs m) = [] \<and> as_columns (m_cornerAttrs m) = [] \<and>
     (\<forall>e \<in> set (m_edges m). \<not> me_feature e)"

lemma plain_empty: "plain mesh_empty"
  by (simp add: plain_def mesh_empty_def attrs_empty_def)

lemma columns_nil [simp]:
  "as_columns a = [] \<Longrightarrow> as_columns (attr_resize n a) = []" "as_columns a = [] \<Longrightarrow> as_columns (attr_reset i a) = []"
  by (simp_all add: attr_resize_def attr_reset_def omap_visit_def)

lemma plain_alloc:
  "plain m \<Longrightarrow> plain (snd (allocVertex m))" "plain m \<Longrightarrow> plain (snd (allocEdge m))"
  "plain m \<Longrightarrow> plain (snd (allocFace m))" "plain m \<Longrightarrow> plain (snd (allocLoop m))"
  by (auto simp: plain_def allocVertex_def allocEdge_def allocFace_def allocLoop_def Let_def edge0_def
      split: if_splits dest!: set_update_subset_insert [THEN subsetD])

lemma plain_set:
  "plain (set_vertex v h m) = plain m" "plain (set_loop v h' m) = plain m" "plain (set_face v h'' m) = plain m"
  by (simp_all add: plain_def set_vertex_def set_loop_def set_face_def)

lemma plain_set_edge:
  assumes "\<And>x. me_feature (h x) = me_feature x"
  shows "plain m \<Longrightarrow> plain (set_edge e h m)"
proof (cases "e < length (m_edges m)")
  case True
  then show "plain m \<Longrightarrow> ?thesis"
    using assms by (auto simp: plain_def set_edge_def dest!: set_update_subset_insert [THEN subsetD])
next
  case False
  then show "plain m \<Longrightarrow> ?thesis" by (simp add: set_edge_def list_update_beyond)
qed

lemma plain_findOrCreateEdge: "plain m \<Longrightarrow> plain (snd (findOrCreateEdge a b m))"
  using plain_alloc(2) [of m]
  by (auto simp: findOrCreateEdge_def Let_def plain_set plain_set_edge split: option.splits prod.splits)

lemma plain_radialInsert: "plain m \<Longrightarrow> plain (radialInsert e l m)"
  by (simp add: radialInsert_def Let_def plain_set plain_set_edge)

lemma plain_linkCorner: "plain m \<Longrightarrow> plain (linkCorner vs f loops i m)"
  unfolding linkCorner_def Let_def
  by (auto simp: plain_set split: prod.splits intro!: plain_radialInsert)
    (metis plain_findOrCreateEdge plain_set(2) snd_conv)

lemma plain_allocLoops: "plain m \<Longrightarrow> plain (snd (allocLoops n m))"
proof (induction n arbitrary: m)
  case (Suc n)
  obtain l m1 where a: "allocLoop m = (l, m1)" by fastforce
  then have "plain m1" using plain_alloc(4) [OF Suc.prems] by simp
  from Suc.IH [OF this] show ?case by (simp add: a split_beta)
qed simp

lemma plain_addFace:
  assumes "plain m"
  shows "plain (snd (addFace vs m))"
proof -
  obtain f m1 where a: "allocFace m = (f, m1)" by fastforce
  obtain ls m2 where b: "allocLoops (length vs) m1 = (ls, m2)" by fastforce
  have "plain m1" using plain_alloc(3) [OF assms] by (simp add: a)
  then have m2: "plain m2" using plain_allocLoops [of m1 "length vs"] by (simp add: b)
  have "plain (fold (linkCorner vs f ls) is m2)" for "is"
    using m2 by (induction "is" arbitrary: m2) (simp_all add: plain_linkCorner)
  then show ?thesis using assms by (auto simp: addFace_def Let_def a b plain_set)
qed

lemma plain_addVertices: "plain m \<Longrightarrow> plain (snd (addVertices ps m))"
proof (induction ps arbitrary: m)
  case (Cons p ps)
  obtain v m1 where a: "allocVertex m = (v, m1)" by fastforce
  then have "plain m1" using plain_alloc(1) [OF Cons.prems] by simp
  then have "plain (snd (addVertex p m))" by (simp add: addVertex_def a plain_set)
  from Cons.IH [OF this] show ?case by (simp add: split_beta)
qed simp

lemma plain_fromIndexed: "plain (fromIndexed ps fs)"
proof -
  have "plain m \<Longrightarrow> plain (fold (add_checked ids) gs m)" for ids gs m
    by (induction gs arbitrary: m) (auto simp: add_checked_def plain_addFace)
  then show ?thesis
    using plain_addVertices [OF plain_empty] by (simp add: fromIndexed_eq split_beta)
qed

end
