(* ===== verification/DocCompact.thy ===== *)
theory DocCompact
  imports DocMesh
begin

text \<open>
  \<open>toIndexed\<close> of any mesh with the invariant, and the mesh that \<open>fromIndexed\<close> rebuilds from it.
\<close>

section \<open>The renumbering\<close>

definition rank :: "mesh \<Rightarrow> nat \<Rightarrow> nat" where
  "rank m v = length (filter (vertexAlive m) [0..<v])"

definition mesh_small :: "mesh \<Rightarrow> bool" where
  "mesh_small m \<longleftrightarrow> length (m_vertices m) + length (m_faces m) + 2 * length (m_loops m) \<le> kInvalidIndex"

definition compactPositions :: "mesh \<Rightarrow> vec3 list" where
  "compactPositions m = map (position m) (aliveIds m)"

definition compactFaces :: "mesh \<Rightarrow> nat list list" where
  "compactFaces m = map (\<lambda>f. map (rank m) (the (faceVertices m f))) (aliveFaces m)"

lemma rank_nth:
  assumes "vertexAlive m v"
  shows "rank m v < length (aliveIds m) \<and> aliveIds m ! rank m v = v"
proof -
  have v: "v < length (m_vertices m)" using assms by (simp add: vertexAlive_def)
  have "[0..<length (m_vertices m)] = [0..<v] @ v # [Suc v..<length (m_vertices m)]"
    using v upt_add_eq_append [of 0 v "length (m_vertices m) - v"] by (simp add: upt_conv_Cons)
  then have "aliveIds m = filter (vertexAlive m) [0..<v] @ v # filter (vertexAlive m) [Suc v..<length (m_vertices m)]"
    using assms by (simp add: aliveIds_def)
  then show ?thesis by (simp add: rank_def nth_append)
qed

lemma rank_inj: "vertexAlive m u \<Longrightarrow> vertexAlive m v \<Longrightarrow> rank m u = rank m v \<Longrightarrow> u = v"
  using rank_nth by metis

lemma rank_surj:
  assumes "k < length (aliveIds m)"
  shows "vertexAlive m (aliveIds m ! k) \<and> rank m (aliveIds m ! k) = k"
proof -
  have a: "vertexAlive m (aliveIds m ! k)" using nth_mem [OF assms] by (simp add: aliveIds_def)
  have "distinct (aliveIds m)" by (simp add: aliveIds_def)
  then show ?thesis using a rank_nth [OF a] assms nth_eq_iff_index_eq by blast
qed

lemma aliveIds_length: "length (aliveIds m) \<le> length (m_vertices m)"
  unfolding aliveIds_def by (metis length_filter_le length_upt diff_zero)

lemma compactVertices_eq:
  "compactVertices vs ps =
    (map (\<lambda>i. if mv_alive (vs ! i) then to_index (length ps + length (filter (\<lambda>j. mv_alive (vs ! j)) [0..<i]))
              else kInvalidIndex) [0..<length vs],
     ps @ map (\<lambda>i. mv_position (vs ! i)) (filter (\<lambda>i. mv_alive (vs ! i)) [0..<length vs]))"
proof (induction vs arbitrary: ps)
  case (Cons v vs)
  have f: "filter (\<lambda>j. mv_alive ((v # vs) ! j)) [0..<Suc n] =
      (if mv_alive v then [0] else []) @ map Suc (filter (\<lambda>j. mv_alive (vs ! j)) [0..<n])" for n
    by (simp only: upt_conv_Cons [OF zero_less_Suc] map_Suc_upt [symmetric]) (simp add: filter_map o_def)
  show ?case
    by (simp only: length_Cons f) (simp add: Cons.IH upt_conv_Cons [OF zero_less_Suc] map_Suc_upt [symmetric] f o_def
        del: upt_Suc cong: map_cong)
qed simp


section \<open>Corners\<close>

lemma ring_nth:
  assumes "ring n p xs" "k < length xs"
  shows "n (xs ! k) = xs ! ((k + 1) mod length xs)"
proof (cases xs)
  case (Cons a ys)
  have c: "chain n p a ys a" using assms(1) by (simp add: Cons)
  have "n ((a # ys) ! k) = (ys @ [a]) ! k" using c assms(2) by (simp add: chain_index Cons)
  moreover have "(ys @ [a]) ! k = (a # ys) ! ((k + 1) mod length (a # ys))"
    using assms(2) by (cases "k = length ys") (simp_all add: Cons nth_append)
  ultimately show ?thesis by (simp add: Cons)
qed (use assms in simp)

definition faceCorners :: "mesh \<Rightarrow> nat list" where
  "faceCorners m = concat (map (\<lambda>f. the (faceLoops m f)) (aliveFaces m))"

lemma aliveFaces_iff [simp]: "f \<in> set (aliveFaces m) \<longleftrightarrow> faceAlive m f"
  by (auto simp: aliveFaces_def faceAlive_def)

lemma faceLoops_alive:
  assumes "mesh_inv m" "faceAlive m f"
  shows "\<exists>ls. faceLoops m f = Some ls \<and> face_ring m f ls"
  using mesh_inv_face [OF assms] face_ring_walk(1) by metis

lemma face_corners:
  assumes "mesh_inv m" "faceAlive m f"
  shows "set (the (faceLoops m f)) = {l. loopAlive m l \<and> ml_face (lp m l) = f}" "distinct (the (faceLoops m f))"
proof -
  obtain ls where ls: "faceLoops m f = Some ls" "face_ring m f ls" using faceLoops_alive [OF assms] by blast
  then show "set (the (faceLoops m f)) = {l. loopAlive m l \<and> ml_face (lp m l) = f}" by (simp add: face_ring_def)
  show "distinct (the (faceLoops m f))" using ls ring_distinct by (simp add: face_ring_def) blast
qed

lemma compactOrder_eq:
  assumes m: "mesh_inv m"
  shows "compactOrder m = Some \<lparr>eo_vertices = aliveIds m, eo_faces = aliveFaces m, eo_corners = faceCorners m\<rparr>"
proof -
  have "omap_list (faceLoops m) (aliveFaces m) = Some (map (\<lambda>f. the (faceLoops m f)) (aliveFaces m))"
    by (rule omap_list_Some) (use faceLoops_alive [OF m] in force)
  then show ?thesis by (simp add: compactOrder_def faceCorners_def)
qed

lemma faceCorners_spec:
  assumes m: "mesh_inv m"
  shows "distinct (faceCorners m)" "set (faceCorners m) = {l. loopAlive m l}"
    "length (faceCorners m) \<le> length (m_loops m)"
proof -
  have set: "set (the (faceLoops m f)) = {l. loopAlive m l \<and> ml_face (lp m l) = f}"
    and d: "distinct (the (faceLoops m f))" if "faceAlive m f" for f
    using face_corners [OF m that] by simp_all
  have "distinct (concat (map (\<lambda>f. the (faceLoops m f)) fs))" if "distinct fs" "\<forall>f \<in> set fs. faceAlive m f" for fs
    using that
  proof (induction fs)
    case (Cons f fs)
    have "l \<notin> set (the (faceLoops m g))" if "g \<in> set fs" "l \<in> set (the (faceLoops m f))" for g l
      using that Cons.prems by (auto simp: set)
    then show ?case using Cons d by fastforce
  qed simp
  then show dist: "distinct (faceCorners m)" by (simp add: faceCorners_def aliveFaces_def)
  have "l \<in> set (faceCorners m) \<longleftrightarrow> loopAlive m l" for l
  proof -
    have "l \<in> set (faceCorners m) \<longleftrightarrow> (\<exists>f. faceAlive m f \<and> l \<in> set (the (faceLoops m f)))"
      by (simp add: faceCorners_def Bex_def)
    also have "\<dots> \<longleftrightarrow> (\<exists>f. faceAlive m f \<and> loopAlive m l \<and> ml_face (lp m l) = f)"
      using set by (metis (mono_tags, lifting) mem_Collect_eq)
    also have "\<dots> \<longleftrightarrow> loopAlive m l" using mesh_invD(7) [OF m] by blast
    finally show ?thesis .
  qed
  then show alive: "set (faceCorners m) = {l. loopAlive m l}" by blast
  then have "set (faceCorners m) \<subseteq> {..<length (m_loops m)}" by (auto simp: loopAlive_def)
  from card_mono [OF _ this] show "length (faceCorners m) \<le> length (m_loops m)"
    by (simp add: distinct_card [OF dist])
qed

lemma faceVertices_length:
  assumes "mesh_inv m" "faceAlive m f"
  shows "length (the (faceVertices m f)) = length (the (faceLoops m f))"
  using faceLoops_alive [OF assms] face_ring_walk by fastforce

lemma faceCorners_length:
  assumes m: "mesh_inv m"
  shows "length (faceCorners m) = sum_list (map length (compactFaces m))"
proof -
  have "map (\<lambda>f. length (the (faceLoops m f))) (aliveFaces m) = map length (compactFaces m)"
    by (simp add: compactFaces_def faceVertices_length [OF m] cong: map_cong)
  then show ?thesis by (simp add: faceCorners_def length_concat o_def)
qed

section \<open>The indexed form\<close>

lemma toIndexed_eq:
  assumes m: "mesh_inv m"
  shows "toIndexed m = Some (compactPositions m, compactFaces m)"
proof -
  let ?n = "length (m_vertices m)"
  have small: "?n < 2 ^ 32" using mesh_invD(1) [OF m] by (auto simp: pools_inv_def capacity_def kInvalidIndex_def)
  define remap where "remap = map (\<lambda>i. if mv_alive (vx m i)
      then to_index (length (filter (\<lambda>j. mv_alive (vx m j)) [0..<i])) else kInvalidIndex) [0..<?n]"
  have va: "i < ?n \<Longrightarrow> mv_alive (vx m i) = vertexAlive m i" for i by (simp add: vertexAlive_def)
  have fil: "i \<le> ?n \<Longrightarrow> filter (\<lambda>j. mv_alive (vx m j)) [0..<i] = filter (vertexAlive m) [0..<i]" for i
    by (rule filter_cong) (auto simp: va)
  have rk: "remap ! v = rank m v" if "vertexAlive m v" for v
  proof -
    have "v < ?n" using that by (simp add: vertexAlive_def)
    moreover have "rank m v < 2 ^ 32" using rank_nth [OF that] aliveIds_length [of m] small by linarith
    ultimately show ?thesis using that by (simp add: remap_def va fil rank_def to_index_def)
  qed
  have "compactVertices (m_vertices m) [] = (remap, compactPositions m)"
    by (simp add: compactVertices_eq remap_def compactPositions_def aliveIds_def fil position_def)
  moreover have "indexedFaces m remap fs = Some (map (\<lambda>f. map (rank m) (the (faceVertices m f))) (filter (faceAlive m) fs))"
    if "\<forall>f \<in> set fs. f < length (m_faces m)" for fs
    using that
  proof (induction fs)
    case (Cons f fs)
    show ?case
    proof (cases "faceAlive m f")
      case True
      obtain vs where vs: "faceVertices m f = Some vs" "\<forall>v \<in> set vs. vertexAlive m v"
        by (rule faceVertices_some [OF m True])
      then have "map (\<lambda>v. remap ! v) vs = map (rank m) vs" using rk by simp
      then show ?thesis using Cons True vs(1) by (simp add: faceAlive_def)
    next
      case False
      then show ?thesis using Cons by (simp add: faceAlive_def)
    qed
  qed simp
  ultimately show ?thesis by (simp add: toIndexed_def compactFaces_def aliveFaces_def)
qed

lemma compactFaces_valid:
  assumes m: "mesh_inv m"
  shows "\<forall>f \<in> set (compactFaces m). face_valid (length (compactPositions m)) f"
proof
  fix f assume "f \<in> set (compactFaces m)"
  then obtain g where g: "faceAlive m g" "f = map (rank m) (the (faceVertices m g))" by (auto simp: compactFaces_def)
  obtain vs where vs: "faceVertices m g = Some vs" "distinct vs" "3 \<le> length vs" "\<forall>v \<in> set vs. vertexAlive m v"
    by (rule faceVertices_some [OF m g(1)])
  have "inj_on (rank m) (set vs)" using vs(4) rank_inj [of m] by (meson inj_onI)
  then show "face_valid (length (compactPositions m)) f"
    using vs rank_nth by (auto simp: g(2) face_valid_def compactPositions_def distinct_map)
qed

lemma compact_room:
  assumes m: "mesh_inv m" "mesh_small m"
  shows "build_room (compactPositions m) (compactFaces m) \<le> kInvalidIndex"
proof -
  have "sum_list (map (\<lambda>f. Suc (2 * length f)) fs) = length fs + 2 * sum_list (map length fs)" for fs :: "nat list list"
    by (induction fs) simp_all
  moreover have "length (compactPositions m) \<le> length (m_vertices m)" using aliveIds_length by (simp add: compactPositions_def)
  moreover have "length (compactFaces m) \<le> length (m_faces m)"
    unfolding compactFaces_def aliveFaces_def by (metis diff_zero length_filter_le length_map length_upt)
  ultimately show ?thesis
    using faceCorners_length [OF m(1)] faceCorners_spec(3) [OF m(1)] m(2)
    by (simp add: build_room_def mesh_small_def)
qed

definition compacted :: "mesh \<Rightarrow> mesh" where
  "compacted m = fromIndexed (compactPositions m) (compactFaces m)"

lemma compacted_packed:
  assumes m: "mesh_inv m" "mesh_small m"
  shows "packed (compacted m) (compactPositions m) (compactFaces m)"
proof -
  have "filter (face_valid (length (compactPositions m))) (compactFaces m) = compactFaces m"
    using compactFaces_valid [OF m(1)] by (simp add: filter_id_conv)
  then show ?thesis using fromIndexed_packed [OF compact_room [OF m]] by (simp add: compacted_def)
qed

lemma compacted_facts:
  assumes m: "mesh_inv m" "mesh_small m"
  shows "mesh_inv (compacted m)" "plain (compacted m)"
    "toIndexed (compacted m) = Some (compactPositions m, compactFaces m)"
    "aliveIds (compacted m) = [0..<length (compactPositions m)]" "aliveFaces (compacted m) = [0..<length (compactFaces m)]"
    "length (faceCorners (compacted m)) = length (faceCorners m)"
    "compactFaces (compacted m) = compactFaces m"
proof -
  note p = compacted_packed [OF m]
  show inv: "mesh_inv (compacted m)" using p by (simp add: packed_def)
  show "plain (compacted m)" by (simp add: compacted_def plain_fromIndexed)
  show t: "toIndexed (compacted m) = Some (compactPositions m, compactFaces m)"
    by (rule packed_toIndexed [OF p]) (use compactFaces_valid [OF m(1)] in \<open>auto simp: face_valid_def\<close>)
  show "aliveIds (compacted m) = [0..<length (compactPositions m)]" "aliveFaces (compacted m) = [0..<length (compactFaces m)]"
    using p by (simp_all add: packed_def aliveIds_def aliveFaces_def)
  show c: "compactFaces (compacted m) = compactFaces m" using t toIndexed_eq [OF inv] by simp
  show "length (faceCorners (compacted m)) = length (faceCorners m)"
    using faceCorners_length [OF inv] faceCorners_length [OF m(1)] c by simp
qed

end
