(* ===== verification/DocEdges.thy ===== *)
theory DocEdges
  imports DocCompact
begin

text \<open>
  Edges of a mesh and of the mesh rebuilt from its indexed form: an edge is a pair of consecutive
  corners of a face, so the renumbering of vertices carries every edge to exactly one edge.
\<close>

section \<open>Edges are consecutive corners\<close>

definition consec :: "nat list \<Rightarrow> nat \<Rightarrow> nat \<Rightarrow> bool" where
  "consec vs a b \<longleftrightarrow> (\<exists>k < length vs. {vs ! k, vs ! ((k + 1) mod length vs)} = {a, b})"

lemma suc_mod_less [simp]: "k < n \<Longrightarrow> Suc k mod n < n" for k n :: nat
  by (cases n) simp_all

lemma consec_map: "consec vs a b \<Longrightarrow> consec (map h vs) (h a) (h b)"
proof -
  assume "consec vs a b"
  then obtain k where k: "k < length vs" "{vs ! k, vs ! ((k + 1) mod length vs)} = {a, b}" by (auto simp: consec_def)
  have "(k + 1) mod length vs < length vs" using k(1) by simp
  then have "{map h vs ! k, map h vs ! ((k + 1) mod length vs)} = h ` {vs ! k, vs ! ((k + 1) mod length vs)}"
    using k(1) by simp
  also have "\<dots> = {h a, h b}" unfolding k(2) by simp
  finally have "{map h vs ! k, map h vs ! ((k + 1) mod length (map h vs))} = {h a, h b}" by simp
  then show ?thesis unfolding consec_def using k(1) by (intro exI [of _ k]) simp
qed

lemma consec_mem: "consec vs a b \<Longrightarrow> a \<in> set vs \<and> b \<in> set vs"
proof -
  assume "consec vs a b"
  then obtain k where k: "k < length vs" "{vs ! k, vs ! ((k + 1) mod length vs)} = {a, b}" by (auto simp: consec_def)
  have "(k + 1) mod length vs < length vs" using k(1) by simp
  then have "{vs ! k, vs ! ((k + 1) mod length vs)} \<subseteq> set vs" using k(1) by simp
  then show ?thesis unfolding k(2) by simp
qed

lemma edge_joins_pair: "edge_joins x a b \<longleftrightarrow> {me_v0 x, me_v1 x} = {a, b}"
  by (auto simp: edge_joins_def doubleton_eq_iff)

lemma corner_consec:
  assumes m: "mesh_inv m" and l: "loopAlive m l"
  shows "consec (the (faceVertices m (ml_face (lp m l)))) (ml_vertex (lp m l)) (ml_vertex (lp m (ml_next (lp m l))))"
proof -
  have f: "faceAlive m (ml_face (lp m l))" using mesh_invD(7) [OF m l] by blast
  obtain ls where ls: "face_ring m (ml_face (lp m l)) ls" using mesh_inv_face [OF m f] by blast
  then have r: "ring (\<lambda>l. ml_next (lp m l)) (\<lambda>l. ml_prev (lp m l)) ls" and "l \<in> set ls"
    using l by (simp_all add: face_ring_def)
  then obtain k where k: "k < length ls" "ls ! k = l" by (auto simp: in_set_conv_nth)
  have "ml_next (lp m l) = ls ! ((k + 1) mod length ls)" using ring_nth [OF r k(1)] k(2) by simp
  moreover have "(k + 1) mod length ls < length ls" using k(1) by simp
  ultimately show ?thesis
    unfolding face_ring_walk(2) [OF ls] using k by (auto simp: consec_def intro!: exI [of _ k])
qed

lemma consec_edge:
  assumes m: "mesh_inv m" and f: "faceAlive m f" and c: "consec (the (faceVertices m f)) a b"
  shows "\<exists>e. edgeAlive m e \<and> edge_joins (ed m e) a b"
proof -
  obtain ls where ls: "face_ring m f ls" using mesh_inv_face [OF m f] by blast
  then have r: "ring (\<lambda>l. ml_next (lp m l)) (\<lambda>l. ml_prev (lp m l)) ls" by (simp add: face_ring_def)
  obtain k where k: "k < length ls" "{map (\<lambda>l. ml_vertex (lp m l)) ls ! k,
      map (\<lambda>l. ml_vertex (lp m l)) ls ! ((k + 1) mod length ls)} = {a, b}"
    using c by (auto simp: consec_def face_ring_walk(2) [OF ls])
  have "(k + 1) mod length ls < length ls" using k(1) by simp
  then have v: "{ml_vertex (lp m (ls ! k)), ml_vertex (lp m (ml_next (lp m (ls ! k))))} = {a, b}"
    using k ring_nth [OF r k(1)] by simp
  have "ls ! k \<in> {l. loopAlive m l \<and> ml_face (lp m l) = f}" using ls nth_mem [OF k(1)] by (simp add: face_ring_def)
  then have l: "loopAlive m (ls ! k)" by simp
  then have ok: "linked m (ls ! k)" "edge_joins (ed m (ml_edge (lp m (ls ! k)))) (ml_vertex (lp m (ls ! k)))
      (ml_vertex (lp m (ml_next (lp m (ls ! k)))))"
    using mesh_invD(7) [OF m l] by (simp_all add: corner_ok_def)
  have "edgeAlive m (ml_edge (lp m (ls ! k)))" using ok(1) mesh_invD(3) [OF m] by (simp add: radial_inv_def)
  then show ?thesis using ok(2) v by (auto simp: edge_joins_pair)
qed

lemma edge_consec:
  assumes m: "mesh_inv m" and e: "edgeAlive m e"
  shows "\<exists>f. faceAlive m f \<and> consec (the (faceVertices m f)) (me_v0 (ed m e)) (me_v1 (ed m e))"
proof -
  obtain ls where "set ls = {l. loopAlive m l \<and> ml_edge (lp m l) = e}" "ls \<noteq> []" using edgeLoops_some [OF m e] .
  then obtain l where l: "loopAlive m l" "ml_edge (lp m l) = e" by (cases ls) auto
  have "edge_joins (ed m e) (ml_vertex (lp m l)) (ml_vertex (lp m (ml_next (lp m l))))"
    using mesh_invD(7) [OF m l(1)] l(2) by (simp add: corner_ok_def)
  then have v: "{me_v0 (ed m e), me_v1 (ed m e)} = {ml_vertex (lp m l), ml_vertex (lp m (ml_next (lp m l)))}"
    by (simp add: edge_joins_pair)
  have "consec (the (faceVertices m (ml_face (lp m l)))) (me_v0 (ed m e)) (me_v1 (ed m e))"
    using corner_consec [OF m l(1)] unfolding consec_def v .
  then show ?thesis using mesh_invD(7) [OF m l(1)] by blast
qed

section \<open>The edge of the rebuilt mesh\<close>

definition edge_image :: "mesh \<Rightarrow> nat \<Rightarrow> nat" where
  "edge_image m e = edgeBetween (compacted m) (rank m (me_v0 (ed m e))) (rank m (me_v1 (ed m e)))"

lemma edge_image_alive:
  assumes m: "mesh_inv m" "mesh_small m" and e: "edgeAlive m e"
  shows "edgeAlive (compacted m) (edge_image m e)"
    "edge_joins (ed (compacted m) (edge_image m e)) (rank m (me_v0 (ed m e))) (rank m (me_v1 (ed m e)))"
proof -
  note p = compacted_packed [OF m, unfolded packed_def]
  obtain f where f: "faceAlive m f" "consec (the (faceVertices m f)) (me_v0 (ed m e)) (me_v1 (ed m e))"
    using edge_consec [OF m(1) e] by blast
  have "map (rank m) (the (faceVertices m f)) \<in> set (compactFaces m)" using f(1) by (simp add: compactFaces_def)
  then obtain g where g: "g < length (compactFaces m)" "compactFaces m ! g = map (rank m) (the (faceVertices m f))"
    by (metis in_set_conv_nth)
  have "faceAlive (compacted m) g" "the (faceVertices (compacted m) g) = map (rank m) (the (faceVertices m f))"
    using p g by simp_all
  with consec_edge [OF conjunct1 [OF p]] consec_map [OF f(2), of "rank m"]
  obtain e' where e': "edgeAlive (compacted m) e' \<and>
      edge_joins (ed (compacted m) e') (rank m (me_v0 (ed m e))) (rank m (me_v1 (ed m e)))" by metis
  have "edge_image m e = e'" using edgeBetween_spec(1) [OF conjunct1 [OF p] e'] by (simp add: edge_image_def)
  then show "edgeAlive (compacted m) (edge_image m e)"
    "edge_joins (ed (compacted m) (edge_image m e)) (rank m (me_v0 (ed m e))) (rank m (me_v1 (ed m e)))"
    using e' by simp_all
qed

lemma edge_image_inj:
  assumes m: "mesh_inv m" "mesh_small m" and e: "edgeAlive m e" "edgeAlive m e'" "edge_image m e = edge_image m e'"
  shows "e = e'"
proof -
  have j: "edge_joins (ed (compacted m) (edge_image m e)) (rank m (me_v0 (ed m e))) (rank m (me_v1 (ed m e)))"
    "edge_joins (ed (compacted m) (edge_image m e)) (rank m (me_v0 (ed m e'))) (rank m (me_v1 (ed m e')))"
    using edge_image_alive(2) [OF m e(1)] edge_image_alive(2) [OF m e(2)] unfolding e(3) by simp_all
  have a: "vertexAlive m (me_v0 (ed m e))" "vertexAlive m (me_v1 (ed m e))"
    "vertexAlive m (me_v0 (ed m e'))" "vertexAlive m (me_v1 (ed m e'))"
    using edges_invD [OF mesh_invD(2) [OF m(1)] e(1)] edges_invD [OF mesh_invD(2) [OF m(1)] e(2)] by simp_all
  have "{rank m (me_v0 (ed m e)), rank m (me_v1 (ed m e))} = {rank m (me_v0 (ed m e')), rank m (me_v1 (ed m e'))}"
    using j by (simp add: edge_joins_pair)
  then have "{me_v0 (ed m e), me_v1 (ed m e)} = {me_v0 (ed m e'), me_v1 (ed m e')}"
    using rank_inj [OF a(1) a(3)] rank_inj [OF a(1) a(4)] rank_inj [OF a(2) a(3)] rank_inj [OF a(2) a(4)]
    by (auto simp: doubleton_eq_iff)
  then have "edge_joins (ed m e') (me_v0 (ed m e)) (me_v1 (ed m e))" by (simp add: edge_joins_pair)
  then show ?thesis using edges_inv_uniqueD [OF mesh_invD(2) [OF m(1)] e(1,2)] by blast
qed

lemma edge_image_surj:
  assumes m: "mesh_inv m" "mesh_small m" and e': "edgeAlive (compacted m) e'"
  shows "\<exists>e. edgeAlive m e \<and> edge_image m e = e'"
proof -
  note p = compacted_packed [OF m, unfolded packed_def]
  obtain g where g: "faceAlive (compacted m) g"
      "consec (the (faceVertices (compacted m) g)) (me_v0 (ed (compacted m) e')) (me_v1 (ed (compacted m) e'))"
    using edge_consec [OF conjunct1 [OF p] e'] by blast
  then have "g < length (compactFaces m)" using p by simp
  then obtain f where f: "faceAlive m f" "the (faceVertices (compacted m) g) = map (rank m) (the (faceVertices m f))"
    using p by (auto simp: compactFaces_def) (metis aliveFaces_iff nth_mem)
  obtain k where k: "k < length (the (faceVertices m f))"
      "{rank m (the (faceVertices m f) ! k), rank m (the (faceVertices m f) ! ((k + 1) mod length (the (faceVertices m f))))} =
        {me_v0 (ed (compacted m) e'), me_v1 (ed (compacted m) e')}"
    using g(2) by (auto simp: f(2) consec_def)
  let ?a = "the (faceVertices m f) ! k" and ?b = "the (faceVertices m f) ! ((k + 1) mod length (the (faceVertices m f)))"
  have "consec (the (faceVertices m f)) ?a ?b" using k(1) by (auto simp: consec_def)
  then obtain e where e: "edgeAlive m e" "edge_joins (ed m e) ?a ?b" using consec_edge [OF m(1) f(1)] by blast
  have "{me_v0 (ed m e), me_v1 (ed m e)} = {?a, ?b}" using e(2) by (simp add: edge_joins_pair)
  then have "rank m ` {me_v0 (ed m e), me_v1 (ed m e)} = {me_v0 (ed (compacted m) e'), me_v1 (ed (compacted m) e')}"
    using k(2) by simp
  then have "edge_joins (ed (compacted m) e') (rank m (me_v0 (ed m e))) (rank m (me_v1 (ed m e)))"
    by (simp add: edge_joins_pair)
  then have "edge_image m e = e'" using edgeBetween_spec(1) [OF conjunct1 [OF p]] e' by (simp add: edge_image_def)
  then show ?thesis using e(1) by blast
qed

end
