(* ===== verification/DocLoad.thy ===== *)
theory DocLoad
  imports DocEdges
begin

text \<open>
  Reading back the extra sections of a saved mesh (attribute columns and feature edges) onto the
  mesh rebuilt from its indexed form.
\<close>

section \<open>Edge records\<close>

definition enc_edge :: "mesh \<Rightarrow> nat \<Rightarrow> bytes" where
  "enc_edge m e = enc_index (rank m (me_v0 (ed m e))) @ enc_index (rank m (me_v1 (ed m e))) @
     enc_u8 (if me_feature (ed m e) then 1 else 0)"

definition restore_features :: "mesh \<Rightarrow> nat list \<Rightarrow> mesh \<Rightarrow> mesh" where
  "restore_features m es c = fold (\<lambda>e. setFeatureEdge (edge_image m e) (me_feature (ed m e))) es c"

lemma enc_edge_length [simp]: "length (enc_edge m e) = 9"
  by (simp add: enc_edge_def)

lemma setFeature_edgeBetween: "edgeBetween (setFeatureEdge e f m) a b = edgeBetween m a b"
proof -
  have "edge_joins (ed (setFeatureEdge e f m) x) a b = edge_joins (ed m x) a b" for x
    by (cases "x = e \<and> e < length (m_edges m)")
      (auto simp: setFeatureEdge_def set_edge_def edge_joins_def nth_list_update list_update_beyond)
  moreover have "m_vertices (setFeatureEdge e f m) = m_vertices m" "vertexAlive (setFeatureEdge e f m) = vertexAlive m"
    by (simp_all add: setFeatureEdge_def set_edge_def vertexAlive_def fun_eq_iff)
  ultimately show ?thesis by (simp add: edgeBetween_def)
qed

lemma restore_features_edgeBetween: "edgeBetween (restore_features m es c) a b = edgeBetween c a b"
  unfolding restore_features_def by (induction es arbitrary: c) (simp_all add: setFeature_edgeBetween)

lemma restore_features_decorated: "decorated c (restore_features m es c)"
  unfolding restore_features_def by (rule decorated_fold) (rule setFeatureEdge_decorated)

lemma rank_index:
  assumes "mesh_inv m" "vertexAlive m v"
  shows "index_valid (rank m v)"
proof -
  have "length (m_vertices m) < 2 ^ 32"
    using mesh_invD(1) [OF assms(1)] by (auto simp: pools_inv_def capacity_def kInvalidIndex_def)
  then show ?thesis using rank_nth [OF assms(2)] aliveIds_length [of m] by (auto simp: index_valid_def)
qed

lemma readEdgeLoop_enc:
  assumes m: "mesh_inv m" "mesh_small m"
  shows "\<forall>e \<in> set es. edgeAlive m e \<Longrightarrow> edgeBetween c = edgeBetween (compacted m) \<Longrightarrow>
    reads_from r (concat (map (enc_edge m) es) @ rest) \<Longrightarrow>
    \<exists>r'. readEdgeLoop (length es) ids c r = (Some (ids @ map (edge_image m) es), restore_features m es c, r') \<and> reads_from r' rest"
proof (induction es arbitrary: ids c r)
  case Nil
  then show ?case by (simp add: restore_features_def)
next
  case (Cons e es)
  have e: "edgeAlive m e" using Cons.prems(1) by simp
  let ?a = "rank m (me_v0 (ed m e))" and ?b = "rank m (me_v1 (ed m e))" and ?f = "if me_feature (ed m e) then 1 else 0 :: u8"
  have v: "vertexAlive m (me_v0 (ed m e))" "vertexAlive m (me_v1 (ed m e))"
    using edges_invD [OF mesh_invD(2) [OF m(1)] e] by simp_all
  have "reads_from r (enc_index ?a @ enc_index ?b @ enc_u8 ?f @ concat (map (enc_edge m) es) @ rest)"
    using Cons.prems(3) by (simp add: enc_edge_def [of m e])
  then obtain r1 where r1: "readIndex r = (?a, r1)" "reads_from r1 (enc_index ?b @ enc_u8 ?f @ concat (map (enc_edge m) es) @ rest)"
    using index_codec.rd_enc_pair [OF rank_index [OF m(1) v(1)]] by blast
  obtain r2 where r2: "readIndex r1 = (?b, r2)" "reads_from r2 (enc_u8 ?f @ concat (map (enc_edge m) es) @ rest)"
    using index_codec.rd_enc_pair [OF rank_index [OF m(1) v(2)] r1(2)] by blast
  obtain r3 where r3: "r_u8 r2 = (?f, r3)" "reads_from r3 (concat (map (enc_edge m) es) @ rest)"
    using rd_u8 [OF r2(2)] by blast
  have eq: "edgeBetween c ?a ?b = edge_image m e" using Cons.prems(2) by (simp add: edge_image_def)
  have "edge_image m e < kInvalidIndex"
    using alive_bound(2) [OF mesh_invD(1) [OF compacted_facts(1) [OF m]] edge_image_alive(1) [OF m e]] .
  then have valid: "id_valid (edgeBetween c ?a ?b)" by (simp add: eq id_valid_def)
  have step: "readEdgeLoop (length (e # es)) ids c r =
      readEdgeLoop (length es) (ids @ [edge_image m e]) (setFeatureEdge (edge_image m e) (me_feature (ed m e)) c) r3"
    using valid reads_from_ok [OF r3(2)] by (simp add: r1(1) r2(1) r3(1) eq Let_def byte_flag)
  have "edgeBetween (setFeatureEdge (edge_image m e) (me_feature (ed m e)) c) = edgeBetween (compacted m)"
    using Cons.prems(2) by (simp add: fun_eq_iff setFeature_edgeBetween)
  from Cons.IH [OF _ this r3(2), of "ids @ [edge_image m e]"] Cons.prems(1) show ?case
    unfolding step by (simp add: restore_features_def)
qed

lemma readEdgeRecords_enc:
  assumes m: "mesh_inv m" "mesh_small m" and es: "\<forall>e \<in> set es. edgeAlive m e" "fits_u32 es"
    and c: "edgeBetween c = edgeBetween (compacted m)"
    and r: "reads_from r (enc_u32 (of_nat (length es)) @ concat (map (enc_edge m) es) @ rest)"
  shows "\<exists>r'. readEdgeRecords c r = (Some (map (edge_image m) es), restore_features m es c, r') \<and> reads_from r' rest"
proof -
  obtain r1 where r1: "r_u32 r = (of_nat (length es), r1)" "reads_from r1 (concat (map (enc_edge m) es) @ rest)"
    using rd_u32 [OF r] by blast
  have g: "length es \<le> r_remaining r1 div 9" by (rule count_guard [OF _ _ r1(2)]) simp_all
  show ?thesis
    using readEdgeLoop_enc [OF m es(1) c r1(2), of "[]"] g es(2) r1(1) reads_from_ok [OF r1(2)]
    by (auto simp: readEdgeRecords_def)
qed

section \<open>What the extra section of a mesh holds\<close>

lemma compactVertex_nth:
  assumes m: "mesh_inv m" and v: "vertexAlive m v"
  shows "of_nat (compactVertex m (aliveIds m) ! v) = (of_nat (rank m v) :: u32)"
proof -
  have d: "distinct (aliveIds m)" by (simp add: aliveIds_def)
  have b: "\<forall>i \<in> set (aliveIds m). i < length (m_vertices m)" by (auto simp: aliveIds_def vertexAlive_def)
  have gen: "fold (\<lambda>k cv. cv[aliveIds m ! k := to_index k]) [0..<n] cv ! (aliveIds m ! j) = to_index j"
    if "n \<le> length (aliveIds m)" "j < n" "length cv = length (m_vertices m)" for n j cv
    using that
  proof (induction n)
    case (Suc n)
    have len: "length (fold (\<lambda>k cv. cv[aliveIds m ! k := to_index k]) ks cv) = length cv" for ks
      by (induction ks arbitrary: cv) simp_all
    have n: "aliveIds m ! n < length cv" using b Suc.prems by simp
    show ?case
    proof (cases "j = n")
      case False
      then have "aliveIds m ! n \<noteq> aliveIds m ! j" using Suc.prems d by (simp add: nth_eq_iff_index_eq)
      then show ?thesis using Suc False by simp
    qed (use n len in simp)
  qed simp
  note rk = rank_nth [OF v]
  have "compactVertex m (aliveIds m) ! v = to_index (rank m v)"
    using gen [of "length (aliveIds m)" "rank m v" "replicate (length (m_vertices m)) kInvalidIndex"] rk
    by (simp add: compactVertex_def)
  moreover have "rank m v < 2 ^ 32" using rank_index [OF m v] by (simp add: index_valid_def)
  ultimately show ?thesis by (simp add: to_index_def)
qed

lemma persistedEdges_alive: "e \<in> set (persistedEdges m) \<Longrightarrow> edgeAlive m e"
  by (auto simp: persistedEdges_def Let_def)

lemma serializeMeshExtras_eq:
  assumes m: "mesh_inv m"
  shows "serializeMeshExtras m = Some (enc_attrs (m_vertexAttrs m) (aliveIds m) @ enc_attrs (m_faceAttrs m) (aliveFaces m) @
    enc_attrs (m_cornerAttrs m) (faceCorners m) @ enc_u32 (of_nat (length (persistedEdges m))) @
    concat (map (enc_edge m) (persistedEdges m)) @ enc_attrs (m_edgeAttrs m) (persistedEdges m))"
proof -
  have "writeEdgeRecord m (compactVertex m (aliveIds m)) e w = w @ enc_edge m e" if "e \<in> set (persistedEdges m)" for e w
  proof -
    have v: "vertexAlive m (me_v0 (ed m e))" "vertexAlive m (me_v1 (ed m e))"
      using edges_invD [OF mesh_invD(2) [OF m] persistedEdges_alive [OF that]] by simp_all
    show ?thesis
      by (simp add: writeEdgeRecord_def enc_edge_def enc_index_def w_append compactVertex_nth [OF m v(1)] compactVertex_nth [OF m v(2)])
  qed
  then have "fold (writeEdgeRecord m (compactVertex m (aliveIds m))) (persistedEdges m) w =
      w @ concat (map (enc_edge m) (persistedEdges m))" for w by (rule fold_append)
  then show ?thesis
    by (simp add: serializeMeshExtras_def compactOrder_eq [OF m] writeAttributeSet_append w_append Let_def)
qed

section \<open>Reading it back\<close>

definition restored :: "mesh \<Rightarrow> mesh" where
  "restored m = (let c = compacted m in
     (restore_features m (persistedEdges m)
       (c\<lparr>m_vertexAttrs := restoreAttrs (aliveIds m) (aliveIds c) (m_vertexAttrs m) (m_vertexAttrs c),
          m_faceAttrs := restoreAttrs (aliveFaces m) (aliveFaces c) (m_faceAttrs m) (m_faceAttrs c),
          m_cornerAttrs := restoreAttrs (faceCorners m) (faceCorners c) (m_cornerAttrs m) (m_cornerAttrs c)\<rparr>))
       \<lparr>m_edgeAttrs := restoreAttrs (persistedEdges m) (map (edge_image m) (persistedEdges m)) (m_edgeAttrs m) (m_edgeAttrs c)\<rparr>)"

definition attrs_valid :: "mesh \<Rightarrow> bool" where
  "attrs_valid m \<longleftrightarrow> columns_valid (m_vertexAttrs m) \<and> columns_valid (m_edgeAttrs m) \<and>
     columns_valid (m_faceAttrs m) \<and> columns_valid (m_cornerAttrs m)"

lemma order_fits:
  assumes m: "mesh_inv m"
  shows "fits_u32 (aliveIds m)" "fits_u32 (aliveFaces m)" "fits_u32 (faceCorners m)" "fits_u32 (persistedEdges m)"
proof -
  have "length (m_vertices m) \<le> kInvalidIndex" "length (m_faces m) \<le> kInvalidIndex"
    "length (m_loops m) \<le> kInvalidIndex" "length (m_edges m) \<le> kInvalidIndex"
    using mesh_invD(1) [OF m] by (simp_all add: pools_inv_def capacity_def)
  moreover have "length (aliveFaces m) \<le> length (m_faces m)" "length (persistedEdges m) \<le> length (m_edges m)"
    unfolding aliveFaces_def persistedEdges_def Let_def by (metis diff_zero length_filter_le length_upt)+
  ultimately show "fits_u32 (aliveIds m)" "fits_u32 (aliveFaces m)" "fits_u32 (faceCorners m)" "fits_u32 (persistedEdges m)"
    using aliveIds_length [of m] faceCorners_spec(3) [OF m] by (simp_all add: kInvalidIndex_def fits_u32_def)
qed

lemma restore_features_fields:
  "m_vertexAttrs (restore_features m es c) = m_vertexAttrs c" "m_edgeAttrs (restore_features m es c) = m_edgeAttrs c"
  "m_faceAttrs (restore_features m es c) = m_faceAttrs c" "m_cornerAttrs (restore_features m es c) = m_cornerAttrs c"
  "m_vertices (restore_features m es c) = m_vertices c"
  unfolding restore_features_def
  by (induction es arbitrary: c) (simp_all add: setFeatureEdge_def set_edge_def)

lemma inv_attrs:
  assumes "mesh_inv m"
  shows "attr_inv (m_vertexAttrs m)" "attr_inv (m_edgeAttrs m)" "attr_inv (m_faceAttrs m)" "attr_inv (m_cornerAttrs m)"
    "as_size (m_vertexAttrs m) = length (m_vertices m)" "as_size (m_edgeAttrs m) = length (m_edges m)"
    "as_size (m_faceAttrs m) = length (m_faces m)" "as_size (m_cornerAttrs m) = length (m_loops m)"
  using mesh_invD(1) [OF assms] by (simp_all add: pools_inv_def attrs_inv_def)

lemma compacted_lengths:
  assumes m: "mesh_inv m" "mesh_small m"
  shows "length (aliveIds (compacted m)) = length (aliveIds m)" "length (aliveFaces (compacted m)) = length (aliveFaces m)"
  using compacted_facts(4,5) [OF m] by (simp_all add: compactPositions_def compactFaces_def)

lemma readMeshExtras_enc:
  assumes m: "mesh_inv m" "mesh_small m" "attrs_valid m" and x: "serializeMeshExtras m = Some bs"
    and r: "reads_from r (bs @ rest)"
  shows "readMeshExtras (compacted m) r = Some (True, restored m)"
proof -
  let ?c = "compacted m"
  note c = compacted_facts(1) [OF m(1,2)] and len = compacted_lengths [OF m(1,2)] compacted_facts(6) [OF m(1,2)]
  note av = m(3) [unfolded attrs_valid_def] and ia = inv_attrs [OF c] and fits = order_fits [OF m(1)]
  let ?e = "enc_u32 (of_nat (length (persistedEdges m))) @ concat (map (enc_edge m) (persistedEdges m)) @
      enc_attrs (m_edgeAttrs m) (persistedEdges m) @ rest"
  have "reads_from r (enc_attrs (m_vertexAttrs m) (aliveIds m) @ enc_attrs (m_faceAttrs m) (aliveFaces m) @
      enc_attrs (m_cornerAttrs m) (faceCorners m) @ ?e)"
    using r x serializeMeshExtras_eq [OF m(1)] by auto
  from readAttributeSet_enc [OF ia(1) _ _ fits(1) this] av len obtain r1
    where r1: "readAttributeSet (aliveIds ?c) (m_vertexAttrs ?c) r =
        (True, restoreAttrs (aliveIds m) (aliveIds ?c) (m_vertexAttrs m) (m_vertexAttrs ?c), r1)"
      "reads_from r1 (enc_attrs (m_faceAttrs m) (aliveFaces m) @ enc_attrs (m_cornerAttrs m) (faceCorners m) @ ?e)" by metis
  from readAttributeSet_enc [OF ia(3) _ _ fits(2) r1(2)] av len obtain r2
    where r2: "readAttributeSet (aliveFaces ?c) (m_faceAttrs ?c) r1 =
        (True, restoreAttrs (aliveFaces m) (aliveFaces ?c) (m_faceAttrs m) (m_faceAttrs ?c), r2)"
      "reads_from r2 (enc_attrs (m_cornerAttrs m) (faceCorners m) @ ?e)" by metis
  from readAttributeSet_enc [OF ia(4) _ _ fits(3) r2(2)] av len obtain r3
    where r3: "readAttributeSet (faceCorners ?c) (m_cornerAttrs ?c) r2 =
        (True, restoreAttrs (faceCorners m) (faceCorners ?c) (m_cornerAttrs m) (m_cornerAttrs ?c), r3)"
      "reads_from r3 ?e" by metis
  define c1 where "c1 = ?c\<lparr>m_vertexAttrs := restoreAttrs (aliveIds m) (aliveIds ?c) (m_vertexAttrs m) (m_vertexAttrs ?c),
      m_faceAttrs := restoreAttrs (aliveFaces m) (aliveFaces ?c) (m_faceAttrs m) (m_faceAttrs ?c),
      m_cornerAttrs := restoreAttrs (faceCorners m) (faceCorners ?c) (m_cornerAttrs m) (m_cornerAttrs ?c)\<rparr>"
  have eb: "edgeBetween c1 = edgeBetween ?c" by (simp add: fun_eq_iff c1_def edgeBetween_def vertexAlive_def)
  have alive: "\<forall>e \<in> set (persistedEdges m). edgeAlive m e" using persistedEdges_alive by blast
  from readEdgeRecords_enc [OF m(1,2) alive fits(4) eb r3(2)] obtain r4
    where r4: "readEdgeRecords c1 r3 = (Some (map (edge_image m) (persistedEdges m)), restore_features m (persistedEdges m) c1, r4)"
      "reads_from r4 (enc_attrs (m_edgeAttrs m) (persistedEdges m) @ rest)" by blast
  have ce: "m_edgeAttrs (restore_features m (persistedEdges m) c1) = m_edgeAttrs ?c"
    by (simp add: restore_features_fields c1_def)
  from readAttributeSet_enc [OF ia(2) _ _ fits(4) r4(2), of "map (edge_image m) (persistedEdges m)"] av obtain r5
    where r5: "readAttributeSet (map (edge_image m) (persistedEdges m)) (m_edgeAttrs ?c) r4 =
        (True, restoreAttrs (persistedEdges m) (map (edge_image m) (persistedEdges m)) (m_edgeAttrs m) (m_edgeAttrs ?c), r5)"
    by auto
  have co: "compactOrder ?c = Some \<lparr>eo_vertices = aliveIds ?c, eo_faces = aliveFaces ?c, eo_corners = faceCorners ?c\<rparr>"
    by (rule compactOrder_eq [OF c])
  have "restored m = (restore_features m (persistedEdges m) c1)
      \<lparr>m_edgeAttrs := restoreAttrs (persistedEdges m) (map (edge_image m) (persistedEdges m)) (m_edgeAttrs m) (m_edgeAttrs ?c)\<rparr>"
    by (simp add: restored_def Let_def c1_def)
  then show ?thesis
    using r4(1) by (simp add: readMeshExtras_def co r1(1) r2(1) r3(1) c1_def [symmetric] Let_def ce r5)
qed

section \<open>What is restored\<close>

text \<open>
  \<open>mesh_copy m m'\<close>: the second mesh has the same indexed form, every attribute row of the first
  at the corresponding element, and the same feature edges.
\<close>

definition mesh_copy :: "mesh \<Rightarrow> mesh \<Rightarrow> bool" where
  "mesh_copy m m' \<longleftrightarrow> mesh_inv m' \<and> toIndexed m' = toIndexed m \<and>
     rows_restored (aliveIds m) (aliveIds m') (m_vertexAttrs m) (m_vertexAttrs m') \<and>
     rows_restored (aliveFaces m) (aliveFaces m') (m_faceAttrs m) (m_faceAttrs m') \<and>
     rows_restored (faceCorners m) (faceCorners m') (m_cornerAttrs m) (m_cornerAttrs m') \<and>
     rows_restored (persistedEdges m) (map (edge_image m) (persistedEdges m)) (m_edgeAttrs m) (m_edgeAttrs m') \<and>
     (\<forall>e. edgeAlive m e \<longrightarrow> edgeAlive m' (edge_image m e) \<and> me_feature (ed m' (edge_image m e)) = me_feature (ed m e) \<and>
        edge_joins (ed m' (edge_image m e)) (rank m (me_v0 (ed m e))) (rank m (me_v1 (ed m e)))) \<and>
     (\<forall>e'. edgeAlive m' e' \<longrightarrow> (\<exists>e. edgeAlive m e \<and> edge_image m e = e'))"

lemma rows_restored_empty: "as_columns a = [] \<Longrightarrow> as_columns a0 = [] \<Longrightarrow> rows_restored src order a0 a"
  by (simp add: rows_restored_def omap_find_def)

lemma restore_features_flag:
  assumes m: "mesh_inv m" "mesh_small m" and c: "length (m_edges c) = length (m_edges (compacted m))"
    and e: "edgeAlive m e" and es: "\<forall>x \<in> set es. edgeAlive m x"
  shows "me_feature (ed (restore_features m es c) (edge_image m e)) =
    (if e \<in> set es then me_feature (ed m e) else me_feature (ed c (edge_image m e)))"
  using es c
proof (induction es arbitrary: c rule: rev_induct)
  case Nil
  then show ?case by (simp add: restore_features_def)
next
  case (snoc x es)
  let ?c = "restore_features m es c"
  have len: "length (m_edges ?c) = length (m_edges c)"
    using restore_features_decorated [of c m es] decorated_fields(8) by blast
  have x: "edgeAlive m x" using snoc.prems(1) by simp
  have "edge_image m x < length (m_edges ?c)"
    using edge_image_alive(1) [OF m x] snoc.prems(2) len by (simp add: edgeAlive_def)
  moreover have "edge_image m e = edge_image m x \<longleftrightarrow> e = x" using edge_image_inj [OF m e x] by blast
  moreover have "restore_features m (es @ [x]) c = setFeatureEdge (edge_image m x) (me_feature (ed m x)) ?c"
    by (simp add: restore_features_def)
  ultimately show ?case using snoc.IH [of c] snoc.prems by (auto simp: setFeature_nth)
qed


lemma rows_at:
  assumes c: "mesh_inv c" and a: "attr_inv a0" "as_columns a = []" "attr_inv a"
    and o: "length src = length order" "distinct order" "\<forall>i \<in> set order. i < as_size a"
  shows "rows_restored src order a0 (restoreAttrs src order a0 a)"
  by (rule restoreAttrs_rows) (use a o in simp_all)

lemma restored_decorated:
  assumes m: "mesh_inv m" "mesh_small m"
  shows "decorated (compacted m) (restored m)"
proof -
  note ia = inv_attrs [OF compacted_facts(1) [OF m]]
  let ?c = "compacted m"
  define c1 where "c1 = ?c\<lparr>m_vertexAttrs := restoreAttrs (aliveIds m) (aliveIds ?c) (m_vertexAttrs m) (m_vertexAttrs ?c),
      m_faceAttrs := restoreAttrs (aliveFaces m) (aliveFaces ?c) (m_faceAttrs m) (m_faceAttrs ?c),
      m_cornerAttrs := restoreAttrs (faceCorners m) (faceCorners ?c) (m_cornerAttrs m) (m_cornerAttrs ?c)\<rparr>"
  have d1: "decorated ?c c1"
    using ia restoreAttrs_inv [OF ia(1)] restoreAttrs_inv [OF ia(3)] restoreAttrs_inv [OF ia(4)]
    by (simp add: decorated_def attrs_inv_def c1_def)
  have d2: "decorated c1 (restore_features m (persistedEdges m) c1)" by (rule restore_features_decorated)
  have d3: "decorated x (x\<lparr>m_edgeAttrs := restoreAttrs s o0 a (m_edgeAttrs ?c)\<rparr>)"
    if "m_edgeAttrs x = m_edgeAttrs ?c" for x s o0 a
    using that ia restoreAttrs_inv [OF ia(2)] by (simp add: decorated_def attrs_inv_def)
  have "m_edgeAttrs (restore_features m (persistedEdges m) c1) = m_edgeAttrs ?c"
    by (simp add: restore_features_fields c1_def)
  from decorated_trans [OF decorated_trans [OF d1 d2] d3 [OF this]] show ?thesis
    by (simp add: restored_def Let_def c1_def)
qed

lemma restored_indexed:
  assumes m: "mesh_inv m" "mesh_small m"
  shows "mesh_inv (restored m)" "toIndexed (restored m) = toIndexed m" "aliveIds (restored m) = aliveIds (compacted m)"
    "aliveFaces (restored m) = aliveFaces (compacted m)" "faceCorners (restored m) = faceCorners (compacted m)"
proof -
  note d = restored_decorated [OF m] and c = compacted_facts [OF m]
  show inv: "mesh_inv (restored m)" by (rule decorated_inv [OF d c(1)])
  show ids: "aliveIds (restored m) = aliveIds (compacted m)" "aliveFaces (restored m) = aliveFaces (compacted m)"
    using decorated_alive [OF d] decorated_fields(7) [OF d] decorated_fields(6) [OF d]
    by (simp_all add: aliveIds_def aliveFaces_def)
  show "faceCorners (restored m) = faceCorners (compacted m)"
    by (simp add: faceCorners_def ids decorated_faceVertices(2) [OF d])
  have v: "m_vertices (restored m) = m_vertices (compacted m)"
    by (simp add: restored_def Let_def restore_features_fields)
  have "position (restored m) = position (compacted m)" by (simp add: position_def fun_eq_iff v)
  then have p: "compactPositions (restored m) = compactPositions (compacted m)" by (simp add: compactPositions_def ids)
  have "rank (restored m) = rank (compacted m)" by (simp add: rank_def fun_eq_iff decorated_alive [OF d])
  then have f: "compactFaces (restored m) = compactFaces (compacted m)"
    by (simp add: compactFaces_def ids decorated_faceVertices(1) [OF d])
  show "toIndexed (restored m) = toIndexed m"
    using toIndexed_eq [OF inv] toIndexed_eq [OF c(1)] toIndexed_eq [OF m(1)] c(3) by (simp add: p f)
qed

lemma persisted_images:
  assumes m: "mesh_inv m" "mesh_small m"
  shows "distinct (map (edge_image m) (persistedEdges m))"
    "\<forall>i \<in> set (map (edge_image m) (persistedEdges m)). i < length (m_edges (compacted m))"
proof -
  have "inj_on (edge_image m) (set (persistedEdges m))"
    using edge_image_inj [OF m] persistedEdges_alive by (meson inj_onI)
  then show "distinct (map (edge_image m) (persistedEdges m))"
    by (simp add: distinct_map persistedEdges_def Let_def)
  show "\<forall>i \<in> set (map (edge_image m) (persistedEdges m)). i < length (m_edges (compacted m))"
    using edge_image_alive(1) [OF m] persistedEdges_alive by (auto simp: edgeAlive_def)
qed

lemma compacted_edges:
  assumes m: "mesh_inv m" "mesh_small m" and d: "decorated (compacted m) m'"
  shows "edgeAlive m e \<Longrightarrow> edgeAlive m' (edge_image m e) \<and>
      edge_joins (ed m' (edge_image m e)) (rank m (me_v0 (ed m e))) (rank m (me_v1 (ed m e)))"
    "edgeAlive m' e' \<Longrightarrow> \<exists>e. edgeAlive m e \<and> edge_image m e = e'"
  using edge_image_alive [OF m, of e] edge_image_surj [OF m, of e'] decorated_fields(2) [OF d, of "edge_image m e"]
  by (auto simp: decorated_alive [OF d] edge_joins_def)

lemma restored_copy:
  assumes m: "mesh_inv m" "mesh_small m"
  shows "mesh_copy m (restored m)"
proof -
  let ?c = "compacted m"
  note c = compacted_facts [OF m] and r = restored_indexed [OF m] and d = restored_decorated [OF m]
  note ia = inv_attrs [OF c(1)] and im = inv_attrs [OF m(1)] and len = compacted_lengths [OF m]
  note pl = c(2) [unfolded plain_def]
  have sets: "m_vertexAttrs (restored m) = restoreAttrs (aliveIds m) (aliveIds ?c) (m_vertexAttrs m) (m_vertexAttrs ?c)"
    "m_faceAttrs (restored m) = restoreAttrs (aliveFaces m) (aliveFaces ?c) (m_faceAttrs m) (m_faceAttrs ?c)"
    "m_cornerAttrs (restored m) = restoreAttrs (faceCorners m) (faceCorners ?c) (m_cornerAttrs m) (m_cornerAttrs ?c)"
    "m_edgeAttrs (restored m) = restoreAttrs (persistedEdges m) (map (edge_image m) (persistedEdges m)) (m_edgeAttrs m) (m_edgeAttrs ?c)"
    by (simp_all add: restored_def Let_def restore_features_fields)
  have rv: "rows_restored (aliveIds m) (aliveIds ?c) (m_vertexAttrs m) (m_vertexAttrs (restored m))"
    unfolding sets by (rule rows_at [OF c(1) im(1) _ ia(1)])
      (use pl len ia(5) in \<open>auto simp: aliveIds_def vertexAlive_def\<close>)
  have rf: "rows_restored (aliveFaces m) (aliveFaces ?c) (m_faceAttrs m) (m_faceAttrs (restored m))"
    unfolding sets by (rule rows_at [OF c(1) im(3) _ ia(3)])
      (use pl len ia(7) in \<open>auto simp: aliveFaces_def faceAlive_def\<close>)
  have rc: "rows_restored (faceCorners m) (faceCorners ?c) (m_cornerAttrs m) (m_cornerAttrs (restored m))"
    unfolding sets by (rule rows_at [OF c(1) im(4) _ ia(4)])
      (use pl c(6) ia(8) faceCorners_spec [OF c(1)] in \<open>auto simp: loopAlive_def\<close>)
  have re: "rows_restored (persistedEdges m) (map (edge_image m) (persistedEdges m)) (m_edgeAttrs m) (m_edgeAttrs (restored m))"
    unfolding sets by (rule rows_at [OF c(1) im(2) _ ia(2)]) (use pl ia(6) persisted_images [OF m] in simp_all)
  have flag: "me_feature (ed (restored m) (edge_image m e)) = me_feature (ed m e)" if e: "edgeAlive m e" for e
  proof -
    define c1 where "c1 = ?c\<lparr>m_vertexAttrs := restoreAttrs (aliveIds m) (aliveIds ?c) (m_vertexAttrs m) (m_vertexAttrs ?c),
      m_faceAttrs := restoreAttrs (aliveFaces m) (aliveFaces ?c) (m_faceAttrs m) (m_faceAttrs ?c),
      m_cornerAttrs := restoreAttrs (faceCorners m) (faceCorners ?c) (m_cornerAttrs m) (m_cornerAttrs ?c)\<rparr>"
    have eq: "m_edges (restored m) = m_edges (restore_features m (persistedEdges m) c1)"
      by (simp add: restored_def Let_def c1_def)
    have ne: "\<not> me_feature (ed ?c (edge_image m e))"
      using pl edge_image_alive(1) [OF m e] by (simp add: edgeAlive_def)
    have "e \<in> set (persistedEdges m)" if "me_feature (ed m e)"
      using that e by (simp add: persistedEdges_def Let_def edgeAlive_def)
    then show ?thesis
      using restore_features_flag [OF m, of c1 e "persistedEdges m"] e ne persistedEdges_alive
      by (auto simp: eq c1_def)
  qed
  show ?thesis
    using r rv rf rc re flag compacted_edges [OF m d] by (simp add: mesh_copy_def)
qed

text \<open>A mesh without extras: nothing beyond the indexed form has to be restored.\<close>

lemma compacted_copy:
  assumes m: "mesh_inv m" "mesh_small m" and h: "\<not> hasMeshExtras m"
  shows "mesh_copy m (compacted m)"
proof -
  have none: "as_columns (m_vertexAttrs m) = []" "as_columns (m_edgeAttrs m) = []" "as_columns (m_faceAttrs m) = []"
    "as_columns (m_cornerAttrs m) = []" "persistedEdges m = []"
    using h by (simp_all add: hasMeshExtras_def attr_columnCount_def)
  note c = compacted_facts [OF m]
  note pl = c(2) [unfolded plain_def]
  have "me_feature (ed (compacted m) (edge_image m e)) = me_feature (ed m e)" if e: "edgeAlive m e" for e
  proof -
    have "\<not> me_feature (ed m e)"
    proof
      assume "me_feature (ed m e)"
      then have "e \<in> set (persistedEdges m)" using e by (simp add: persistedEdges_def Let_def edgeAlive_def)
      then show False by (simp add: none(5))
    qed
    then show ?thesis using pl edge_image_alive(1) [OF m e] by (simp add: edgeAlive_def)
  qed
  then show ?thesis
    using c toIndexed_eq [OF m(1)] compacted_edges [OF m decorated_refl] none pl
    by (simp add: mesh_copy_def rows_restored_empty)
qed

end
