(* ===== verification/DocRound.thy ===== *)
theory DocRound
  imports DocLoad
begin

text \<open>
  The whole document: the sections that \<open>save\<close> writes and what \<open>load\<close> makes of each of them.
\<close>

section \<open>Sections\<close>

definition enc_section :: "section_id \<times> bytes \<Rightarrow> bytes" where
  "enc_section s = enc_u32 (section_code (fst s)) @ enc_u64 (of_nat (length (snd s))) @ snd s"

lemma writeSection_append: "writeSection s w = w @ enc_section s"
  by (cases s) (simp add: writeSection_def enc_section_def w_append)

text \<open>\<open>handles ss d d'\<close>: loading the sections one after the other leads from \<open>d\<close> to \<open>d'\<close>.\<close>

fun handles :: "(section_id \<times> bytes) list \<Rightarrow> document \<Rightarrow> document \<Rightarrow> bool" where
  "handles [] d d' \<longleftrightarrow> d' = d"
| "handles (s # ss) d d' \<longleftrightarrow> (\<exists>d1. loadSection (section_code (fst s)) (mk_reader (snd s)) d = Some (Some d1) \<and> handles ss d1 d')"

lemma handles_append: "handles (ss @ ts) d d' \<longleftrightarrow> (\<exists>d1. handles ss d d1 \<and> handles ts d1 d')"
  by (induction ss arbitrary: d) auto

lemma loadSections_enc:
  "handles ss d d' \<Longrightarrow> \<forall>s \<in> set ss. length (snd s) < 2 ^ 64 \<Longrightarrow> reads_from r (concat (map enc_section ss) @ rest) \<Longrightarrow>
    loadSections (length ss) r d = Some (Some d')"
proof (induction ss arbitrary: d r)
  case (Cons s ss)
  obtain sid pl where s: "s = (sid, pl)" by (cases s)
  have small: "length pl < 2 ^ 64" using Cons.prems(2) by (simp add: s)
  obtain d1 where d1: "loadSection (section_code sid) (mk_reader pl) d = Some (Some d1)" "handles ss d1 d'"
    using Cons.prems(1) by (auto simp: s)
  have "reads_from r (enc_u32 (section_code sid) @ enc_u64 (of_nat (length pl)) @ pl @ concat (map enc_section ss) @ rest)"
    using Cons.prems(3) by (simp add: s enc_section_def [of "(sid, pl)"])
  then obtain r1 where r1: "r_u32 r = (section_code sid, r1)"
      "reads_from r1 (enc_u64 (of_nat (length pl)) @ pl @ concat (map enc_section ss) @ rest)"
    using rd_u32 by blast
  obtain r2 where r2: "r_u64 r1 = (of_nat (length pl), r2)" "reads_from r2 (pl @ concat (map enc_section ss) @ rest)"
    using rd_u64 [OF r1(2)] by blast
  obtain r3 where r3: "r_sub (length pl) r2 = (mk_reader pl, r3)" "reads_from r3 (concat (map enc_section ss) @ rest)"
    using r_sub_enc [OF r2(2)] by blast
  have u: "unat (of_nat (length pl) :: u64) = length pl" using small by (simp add: unat_of_nat take_bit_nat_eq_self)
  have "length pl \<le> r_remaining r2" by (simp add: reads_from_remaining [OF r2(2)])
  then show ?case
    using Cons.IH [OF d1(2) _ r3(2)] Cons.prems(2) d1(1) reads_from_ok [OF r2(2)] reads_from_ok [OF r3(2)]
    by (simp add: s r1(1) r2(1) u r3(1))
qed simp

section \<open>Each section\<close>

definition doc_mesh_ok :: "mesh \<Rightarrow> bool" where
  "doc_mesh_ok m \<longleftrightarrow> mesh_inv m \<and> mesh_small m \<and> attrs_valid m"

lemma compact_indexed_valid:
  assumes m: "mesh_inv m" "mesh_small m"
  shows "indexed_valid (compactPositions m, compactFaces m)"
proof -
  have "fits_u32 (compactPositions m)" "fits_u32 (compactFaces m)"
    using order_fits [OF m(1)] by (simp_all add: fits_u32_def compactPositions_def compactFaces_def)
  moreover have "fits_u32 f \<and> (\<forall>i \<in> set f. index_valid i)" if f: "f \<in> set (compactFaces m)" for f
  proof -
    have v: "face_valid (length (compactPositions m)) f" using compactFaces_valid [OF m(1)] f by blast
    then have b: "\<forall>i \<in> set f. i < length (compactPositions m)" "distinct f" by (simp_all add: face_valid_def)
    have n: "length (compactPositions m) < 2 ^ 32" using calculation(1) by (simp add: fits_u32_def)
    have "set f \<subseteq> {..<length (compactPositions m)}" using b(1) by auto
    from card_mono [OF _ this] have "length f \<le> length (compactPositions m)" by (simp add: distinct_card [OF b(2)])
    then show ?thesis using n b(1) by (auto simp: fits_u32_def index_valid_def)
  qed
  ultimately show ?thesis by (simp add: indexed_valid_def)
qed

lemma mesh_section:
  assumes "doc_mesh_ok m"
  shows "\<exists>pl. serializeMesh m = Some pl \<and> fst (readMesh (mk_reader pl)) = Some (compacted m)"
proof -
  have m: "mesh_inv m" "mesh_small m" using assms by (simp_all add: doc_mesh_ok_def)
  have "serializeMesh m = Some (enc_indexed (compactPositions m, compactFaces m))"
    by (simp add: serializeMesh_def toIndexed_eq [OF m(1)] enc_indexed_def)
  moreover have "fst (readIndexed (mk_reader (enc_indexed (compactPositions m, compactFaces m)))) = Some (compactPositions m, compactFaces m)"
    by (rule indexed_codec.roundtrip) (rule compact_indexed_valid [OF m])
  ultimately show ?thesis
    by (auto simp: readMesh_def compacted_def Let_def split: prod.splits)
qed

lemma extras_section:
  assumes "doc_mesh_ok m"
  shows "\<exists>pl. serializeMeshExtras m = Some pl \<and> readMeshExtras (compacted m) (mk_reader pl) = Some (True, restored m)"
proof -
  have m: "mesh_inv m" "mesh_small m" "attrs_valid m" using assms by (simp_all add: doc_mesh_ok_def)
  obtain pl where pl: "serializeMeshExtras m = Some pl" using serializeMeshExtras_eq [OF m(1)] by blast
  have "reads_from (mk_reader pl) (pl @ [])" by simp
  from readMeshExtras_enc [OF m pl this] pl show ?thesis by blast
qed

lemma compactSelections_eq:
  assumes "omap_inv slots"
  shows "compactSelections m slots = (if m_aliveVertices m = length (m_vertices m) then slots
    else omap_visit (\<lambda>_. rebase (aliveIds m)) slots)"
proof -
  have "fold (\<lambda>(name, weights). omap_emplace name (rebase (aliveIds m) weights)) slots [] =
      fold (\<lambda>(k, v). omap_put k v) (omap_visit (\<lambda>_. rebase (aliveIds m)) slots) []"
    by (rule fold_emplace_find) (use assms omap_inv_distinct in \<open>auto simp: omap_find_def\<close>)
  also have "\<dots> = omap_visit (\<lambda>_. rebase (aliveIds m)) slots"
    using std_map.rebuild [of "omap_visit (\<lambda>_. rebase (aliveIds m)) slots"] assms by simp
  finally show ?thesis by (simp add: compactSelections_def)
qed

lemma compactSelections_valid:
  assumes m: "mesh_inv m" and s: "slots_valid slots"
  shows "slots_valid (compactSelections m slots)"
proof -
  have inv: "omap_inv slots" using s by (simp add: slots_valid_def)
  have len: "length (aliveIds m) < 2 ^ 32" using order_fits(1) [OF m] by (simp add: fits_u32_def)
  have "omap_inv (omap_visit (\<lambda>_. rebase (aliveIds m)) slots)" using inv by simp
  moreover have "fits_u32 (omap_visit (\<lambda>_. rebase (aliveIds m)) slots)"
    "\<forall>(n, ws) \<in> set (omap_visit (\<lambda>_. rebase (aliveIds m)) slots). fits_u32 n \<and> fits_u32 ws"
    using s len by (auto simp: slots_valid_def omap_visit_def fits_u32_def rebase_def)
  ultimately have "slots_valid (omap_visit (\<lambda>_. rebase (aliveIds m)) slots)" by (simp add: slots_valid_def)
  then show ?thesis using s by (simp add: compactSelections_eq [OF inv])
qed

lemma selections_section:
  assumes "mesh_inv m" "slots_valid slots"
  shows "fst (readSelections (mk_reader (serializeSelections (compactSelections m slots)))) = Some (compactSelections m slots)"
  by (rule selections_codec.roundtrip) (rule compactSelections_valid [OF assms])

lemma params_section: "\<exists>r'. readParams (mk_reader (serializeParams p)) = (p, r') \<and> r_ok r'"
  using readParams_enc [of "mk_reader (serializeParams p)" p "[]"] reads_from_ok by auto

lemma bake_section: "\<exists>r'. readBake (mk_reader (serializeBake b)) = (b, r') \<and> r_ok r'"
  using readBake_enc [of "mk_reader (serializeBake b)" b "[]"] reads_from_ok by auto

section \<open>Save, then load\<close>

definition doc_ok :: "document \<Rightarrow> bool" where
  "doc_ok d \<longleftrightarrow> doc_mesh_ok (doc_target d) \<and> doc_mesh_ok (doc_editMesh d) \<and> slots_valid (doc_softSelections d)"

text \<open>What the reader of a mesh and of its extra section leaves.\<close>

definition reloaded :: "mesh \<Rightarrow> mesh" where
  "reloaded m = (if hasMeshExtras m then restored m else compacted m)"

lemma reloaded_copy: "doc_mesh_ok m \<Longrightarrow> mesh_copy m (reloaded m)"
  using restored_copy [of m] compacted_copy [of m] by (simp add: reloaded_def doc_mesh_ok_def)

definition reloaded_document :: "document \<Rightarrow> document" where
  "reloaded_document d = \<lparr>doc_target = reloaded (doc_target d), doc_editMesh = reloaded (doc_editMesh d),
     doc_params = doc_params d, doc_bake = doc_bake d,
     doc_softSelections = compactSelections (doc_editMesh d) (doc_softSelections d), doc_dirty = False\<rparr>"

lemma load_codes:
  "loadSection 1 r d = Some (map_option (\<lambda>m. d\<lparr>doc_target := m\<rparr>) (fst (readMesh r)))"
  "loadSection 2 r d = Some (map_option (\<lambda>m. d\<lparr>doc_editMesh := m\<rparr>) (fst (readMesh r)))"
  "loadSection 3 r d = (let (p, r) = readParams r in Some (if \<not> r_ok r then None else Some (d\<lparr>doc_params := p\<rparr>)))"
  "loadSection 4 r d = (let (b, r) = readBake r in Some (if \<not> r_ok r then None else Some (d\<lparr>doc_bake := b\<rparr>)))"
  "loadSection 5 r d = Some (map_option (\<lambda>s. d\<lparr>doc_softSelections := s\<rparr>) (fst (readSelections r)))"
  "loadSection 6 r d = map_option (\<lambda>(ok, m). if ok then Some (d\<lparr>doc_target := m\<rparr>) else None) (readMeshExtras (doc_target d) r)"
  "loadSection 7 r d = map_option (\<lambda>(ok, m). if ok then Some (d\<lparr>doc_editMesh := m\<rparr>) else None) (readMeshExtras (doc_editMesh d) r)"
  by (simp_all add: loadSection_def)

lemma compactSelections_nil: "compactSelections m [] = []"
  by (simp add: compactSelections_def)

lemma docSections_handles:
  assumes d: "doc_ok d"
  shows "\<exists>ss. docSections d = Some ss \<and> handles ss document0 (reloaded_document d) \<and> length ss < 8"
proof -
  have t: "doc_mesh_ok (doc_target d)" and e: "doc_mesh_ok (doc_editMesh d)" and s: "slots_valid (doc_softSelections d)"
    using d by (simp_all add: doc_ok_def)
  obtain pt where pt: "serializeMesh (doc_target d) = Some pt" "fst (readMesh (mk_reader pt)) = Some (compacted (doc_target d))"
    using mesh_section [OF t] by blast
  obtain pe where pe: "serializeMesh (doc_editMesh d) = Some pe" "fst (readMesh (mk_reader pe)) = Some (compacted (doc_editMesh d))"
    using mesh_section [OF e] by blast
  obtain xt where xt: "serializeMeshExtras (doc_target d) = Some xt"
      "readMeshExtras (compacted (doc_target d)) (mk_reader xt) = Some (True, restored (doc_target d))"
    using extras_section [OF t] by blast
  obtain xe where xe: "serializeMeshExtras (doc_editMesh d) = Some xe"
      "readMeshExtras (compacted (doc_editMesh d)) (mk_reader xe) = Some (True, restored (doc_editMesh d))"
    using extras_section [OF e] by blast
  obtain r1 where r1: "readParams (mk_reader (serializeParams (doc_params d))) = (doc_params d, r1)" "r_ok r1"
    using params_section by blast
  obtain r2 where r2: "readBake (mk_reader (serializeBake (doc_bake d))) = (doc_bake d, r2)" "r_ok r2"
    using bake_section by blast
  define base where "base = [(Target, pt), (EditMesh, pe), (ParametersSec, serializeParams (doc_params d)),
      (BakeStateSec, serializeBake (doc_bake d))]"
  define d1 where "d1 = document0\<lparr>doc_target := compacted (doc_target d), doc_editMesh := compacted (doc_editMesh d),
      doc_params := doc_params d, doc_bake := doc_bake d\<rparr>"
  have h1: "handles base document0 d1"
    by (simp add: base_def load_codes pt(2) pe(2) r1 r2 d1_def)
  define sel where "sel = (if doc_softSelections d \<noteq> [] then
      [(SoftSelectionsSec, serializeSelections (compactSelections (doc_editMesh d) (doc_softSelections d)))] else [])"
  define d2 where "d2 = d1\<lparr>doc_softSelections := compactSelections (doc_editMesh d) (doc_softSelections d)\<rparr>"
  have ei: "mesh_inv (doc_editMesh d)" using e by (simp add: doc_mesh_ok_def)
  have h2: "handles sel d1 d2"
    using selections_section [OF ei s]
    by (simp add: sel_def d2_def load_codes d1_def document0_def compactSelections_nil)
  define te where "te = (if hasMeshExtras (doc_target d) then [(TargetExtras, xt)] else [])"
  define ee where "ee = (if hasMeshExtras (doc_editMesh d) then [(EditMeshExtras, xe)] else [])"
  define d3 where "d3 = d2\<lparr>doc_target := reloaded (doc_target d)\<rparr>"
  have h3: "handles te d2 d3"
    by (simp add: te_def d3_def d2_def d1_def load_codes xt(2) reloaded_def)
  have h4: "handles ee d3 (reloaded_document d)"
    by (simp add: ee_def d3_def d2_def d1_def load_codes xe(2) reloaded_def reloaded_document_def document0_def)
  have "docSections d = Some (base @ sel @ te @ ee)"
    by (simp add: docSections_def pt(1) pe(1) xt(1) xe(1) base_def sel_def te_def ee_def)
  moreover have "handles (base @ sel @ te @ ee) document0 (reloaded_document d)"
    unfolding handles_append using h1 h2 h3 h4 by blast
  moreover have "length (base @ sel @ te @ ee) < 8" by (simp add: base_def sel_def te_def ee_def)
  ultimately show ?thesis by blast
qed

lemma concat_part: "x \<in> set xs \<Longrightarrow> length (f x) \<le> length (concat (map f xs))"
  by (induction xs) auto

theorem save_load:
  assumes d: "doc_ok d"
  obtains bs where "saveDocument d = Some bs" "length bs < 2 ^ 64 \<Longrightarrow> loadDocument bs = Some (Some (reloaded_document d))"
proof -
  obtain ss where ss: "docSections d = Some ss" "handles ss document0 (reloaded_document d)" "length ss < 8"
    using docSections_handles [OF d] by blast
  define bs where "bs = enc_u32 kMagic @ enc_u32 kFormatVersion @ enc_u32 (of_nat (length ss)) @ concat (map enc_section ss)"
  have "fold writeSection ss w = w @ concat (map enc_section ss)" for w
    by (rule fold_append) (rule writeSection_append)
  then have s: "saveDocument d = Some bs" by (simp add: saveDocument_def ss(1) bs_def w_append Let_def)
  have "loadDocument bs = Some (Some (reloaded_document d))" if b: "length bs < 2 ^ 64"
  proof -
    have r0: "reads_from (mk_reader bs) (enc_u32 kMagic @ enc_u32 kFormatVersion @ enc_u32 (of_nat (length ss)) @ concat (map enc_section ss))"
      by (simp add: bs_def)
    obtain r1 where r1: "r_u32 (mk_reader bs) = (kMagic, r1)"
        "reads_from r1 (enc_u32 kFormatVersion @ enc_u32 (of_nat (length ss)) @ concat (map enc_section ss))"
      using rd_u32 [OF r0] by blast
    obtain r2 where r2: "r_u32 r1 = (kFormatVersion, r2)" "reads_from r2 (enc_u32 (of_nat (length ss)) @ concat (map enc_section ss))"
      using rd_u32 [OF r1(2)] by blast
    obtain r3 where r3: "r_u32 r2 = (of_nat (length ss), r3)" "reads_from r3 (concat (map enc_section ss) @ [])"
      using rd_u32 [OF r2(2)] by fastforce
    have "length (snd x) < 2 ^ 64" if "x \<in> set ss" for x
      using concat_part [OF that, of enc_section] b by (simp add: bs_def enc_section_def)
    from loadSections_enc [OF ss(2) _ r3(2)] this
    have "loadSections (length ss) r3 document0 = Some (Some (reloaded_document d))" by blast
    moreover have "unat (of_nat (length ss) :: u32) = length ss" using ss(3) by (simp add: unat_of_nat take_bit_nat_eq_self)
    ultimately show ?thesis
      using reads_from_ok [OF r3(2)] by (simp add: loadDocument_def r1(1) r2(1) r3(1) Let_def)
  qed
  then show ?thesis using that s by blast
qed

end
