(* ===== verification/DocSafe.thy ===== *)
theory DocSafe
  imports DocRound
begin

text \<open>
  Loading arbitrary bytes: every reader returns, the counts it accepts are paid for in bytes, and
  the meshes of an accepted document satisfy the mesh invariant.
\<close>

section \<open>What a read costs\<close>

definition consumes :: "nat \<Rightarrow> reader \<Rightarrow> reader \<Rightarrow> bool" where
  "consumes n r r' \<longleftrightarrow> advances r r' \<and> (reader_inv r \<and> r_ok r' \<longrightarrow> r_remaining r = n + r_remaining r')"

lemma consumes_trans: "consumes a r s \<Longrightarrow> consumes b s t \<Longrightarrow> consumes (a + b) r t"
  unfolding consumes_def using advances_trans [of r s t] by (auto simp: advances_def)

lemma consumes_u32: "consumes 4 r (snd (r_u32 r))"
  by (auto simp: consumes_def r_u32_def r_ensure_def advances_def reader_inv_def r_remaining_def)

lemma consumes_f32: "consumes 4 r (snd (r_f32 r))"
  by (simp add: r_f32_def consumes_u32)

lemma consumes_index: "consumes 4 r (snd (readIndex r))"
  using consumes_u32 [of r] by (simp add: readIndex_def split_beta)

lemma consumes_vec3: "consumes 12 r (snd (readVec3 r))"
proof -
  let ?a = "snd (r_f32 r)" and ?b = "snd (r_f32 (snd (r_f32 r)))"
  have "consumes (4 + (4 + 4)) r (snd (r_f32 ?b))"
    by (rule consumes_trans [OF consumes_f32 consumes_trans [OF consumes_f32 consumes_f32]])
  then show ?thesis by (simp add: readVec3_def split_beta)
qed

lemma consumes_list:
  assumes "\<And>r. consumes n r (snd (rd r))"
  shows "consumes (n * k) r (snd (rd_list rd k r)) \<and> length (fst (rd_list rd k r)) = k"
proof (induction k arbitrary: r)
  case (Suc k)
  have "consumes (n + n * k) r (snd (rd_list rd k (snd (rd r))))"
    using consumes_trans [OF assms] Suc.IH by blast
  then show ?case using Suc.IH [of "snd (rd r)"] by (simp add: split_beta)
qed (simp add: consumes_def)

definition face_bytes :: "nat list list \<Rightarrow> nat" where
  "face_bytes fs = sum_list (map (\<lambda>f. 4 + 4 * length f) fs)"

lemma readFaces_cost:
  "readFaces n acc r = (Some fs, r') \<Longrightarrow> \<exists>new. fs = acc @ new \<and> consumes (face_bytes new) r r'"
proof (induction n arbitrary: acc r)
  case 0
  then show ?case by (auto simp: consumes_def face_bytes_def)
next
  case (Suc n)
  obtain arity r1 where a: "r_u32 r = (arity, r1)" by fastforce
  obtain face r2 where f: "rd_list readIndex (unat arity) r1 = (face, r2)" by fastforce
  have "readFaces n (acc @ [face]) r2 = (Some fs, r')"
    using Suc.prems by (simp add: a f split: if_splits)
  from Suc.IH [OF this] obtain new where new: "fs = (acc @ [face]) @ new" "consumes (face_bytes new) r2 r'" by blast
  have "consumes (4 * unat arity) r1 r2" "length face = unat arity"
    using consumes_list [of 4 readIndex "unat arity" r1] consumes_index by (simp_all add: f)
  then have "consumes (4 + (4 * length face + face_bytes new)) r r'"
    using consumes_trans [OF consumes_u32 [of r] consumes_trans [OF _ new(2)]] by (simp add: a)
  then show ?case using new(1) by (intro exI [of _ "face # new"]) (simp add: face_bytes_def add.assoc)
qed

lemma readIndexed_cost:
  assumes "readIndexed r = (Some (ps, fs), r')" "reader_inv r"
  shows "build_room ps fs \<le> r_remaining r"
proof -
  obtain vc r1 where a: "r_u32 r = (vc, r1)" by fastforce
  obtain ps' r2 where b: "rd_list readVec3 (unat vc) r1 = (ps', r2)" by fastforce
  obtain fcount r3 where c: "r_u32 r2 = (fcount, r3)" by fastforce
  have g: "readFaces (unat fcount) [] r3 = (Some fs, r')" "ps' = ps" "r_ok r'"
    using assms(1) by (auto simp: readIndexed_def a b c split: if_splits option.splits prod.splits)
  obtain d: "consumes (face_bytes fs) r3 r'" using readFaces_cost [OF g(1)] by auto
  have v: "consumes (12 * unat vc) r1 r2" "length ps = unat vc"
    using consumes_list [of 12 readVec3 "unat vc" r1] consumes_vec3 g(2) by (simp_all add: b)
  have "consumes 4 r r1" "consumes 4 r2 r3" using consumes_u32 [of r] consumes_u32 [of r2] by (simp_all add: a c)
  then have "consumes (4 + (12 * unat vc + (4 + face_bytes fs))) r r'" using v(1) d consumes_trans by blast
  then have "12 * length ps + face_bytes fs \<le> r_remaining r" using assms(2) g(3) v(2) by (simp add: consumes_def)
  moreover have "sum_list (map (\<lambda>f. Suc (2 * length f)) fs) \<le> face_bytes fs"
    unfolding face_bytes_def by (rule sum_list_mono) simp
  ultimately show ?thesis by (simp add: build_room_def)
qed

lemma readMesh_inv:
  assumes "fst (readMesh r) = Some m" "reader_inv r" "r_remaining r < 2 ^ 32"
  shows "mesh_inv m"
proof -
  obtain ps fs r' where r: "readIndexed r = (Some (ps, fs), r')" "m = fromIndexed ps fs"
    using assms(1) by (auto simp: readMesh_def split_beta) (metis prod.collapse)
  have "build_room ps fs \<le> kInvalidIndex"
    using readIndexed_cost [OF r(1) assms(2)] assms(3) by (simp add: kInvalidIndex_def)
  then show ?thesis using fromIndexed_packed by (simp add: r(2) packed_def)
qed

section \<open>Attribute sections\<close>

definition attr_kept :: "attribute_set \<Rightarrow> attribute_set \<Rightarrow> bool" where
  "attr_kept a a' \<longleftrightarrow> (attr_inv a \<longrightarrow> attr_inv a' \<and> as_size a' = as_size a)"

lemma attr_kept_trans: "attr_kept a b \<Longrightarrow> attr_kept b c \<Longrightarrow> attr_kept a c"
  by (simp add: attr_kept_def)

lemma readRows_kept: "readRows ty order c r = (c', r') \<Longrightarrow> col_length c' = col_length c"
  by (induction ty order c r rule: readRows.induct) (auto split: prod.splits if_splits)

lemma readColumn_kept: "readColumn ty name order a r = (ok, a', r') \<Longrightarrow> attr_kept a a'"
proof -
  assume e: "readColumn ty name order a r = (ok, a', r')"
  obtain rows r1 where rows: "r_u32 r = (rows, r1)" by fastforce
  show ?thesis
  proof (cases "\<not> r_ok r1 \<or> unat rows \<noteq> length order \<or> unat rows > r_remaining r1 div columnValueBytes ty")
    case True
    then show ?thesis using e by (simp add: readColumn_def rows attr_kept_def)
  next
    case False
    show ?thesis unfolding attr_kept_def
    proof
      assume a: "attr_inv a"
      obtain c where c: "attr_find ty name (attr_create ty name a) = Some c" "col_length c = as_size a"
        using attr_find_create [OF a] by blast
      obtain c' r2 where r2: "readRows ty order c r1 = (c', r2)" by fastforce
      have "a' = (attr_create ty name a)\<lparr>as_columns := omap_put name c' (as_columns (attr_create ty name a))\<rparr>"
        using e False by (auto simp: readColumn_def rows c(1) r2 Let_def)
      moreover have "col_length c' = as_size a" using readRows_kept [OF r2] c(2) by simp
      ultimately show "attr_inv a' \<and> as_size a' = as_size a"
        using attr_inv_create [OF a, of ty name] by (auto simp: attr_inv_def split: if_splits)
    qed
  qed
qed

lemma readColumns_kept: "readColumns n order a r = (ok, a', r') \<Longrightarrow> attr_kept a a'"
proof (induction n arbitrary: a r)
  case 0
  then show ?case by (simp add: attr_kept_def)
next
  case (Suc n)
  obtain name r1 where a: "r_str r = (name, r1)" by fastforce
  obtain tag r2 where b: "r_u8 r1 = (tag, r2)" by fastforce
  obtain ok1 a1 r3 where c: "readColumnOfTag tag name order a r2 = (ok1, a1, r3)" by (cases "readColumnOfTag tag name order a r2")
  have "attr_kept a a1"
    using c readColumn_kept by (auto simp: readColumnOfTag_def attr_kept_def split: option.splits)
  then show ?case using Suc by (auto simp: a b c attr_kept_def split: if_splits)
qed

lemma readAttributeSet_kept: "readAttributeSet order a r = (ok, a', r') \<Longrightarrow> attr_kept a a'"
  using readColumns_kept by (auto simp: readAttributeSet_def attr_kept_def split: prod.splits if_splits)

lemma readEdgeLoop_decorated: "decorated m (fst (snd (readEdgeLoop n ids m r)))"
proof (induction n arbitrary: ids m r)
  case (Suc n)
  obtain a r1 where a: "readIndex r = (a, r1)" by fastforce
  obtain b r2 where b: "readIndex r1 = (b, r2)" by fastforce
  obtain f r3 where f: "r_u8 r2 = (f, r3)" by fastforce
  have "decorated m (fst (snd (readEdgeLoop n ids' (setFeatureEdge e x m) r3)))" for ids' e x
    by (rule decorated_trans [OF setFeatureEdge_decorated Suc.IH])
  then show ?case using Suc.IH by (simp add: a b f Let_def)
qed simp

lemma readEdgeRecords_decorated: "decorated m (fst (snd (readEdgeRecords m r)))"
  using readEdgeLoop_decorated by (simp add: readEdgeRecords_def split_beta Let_def)

lemma set_attrs_decorated:
  "attr_kept (m_vertexAttrs m) a \<Longrightarrow> decorated m (m\<lparr>m_vertexAttrs := a\<rparr>)"
  "attr_kept (m_edgeAttrs m) a \<Longrightarrow> decorated m (m\<lparr>m_edgeAttrs := a\<rparr>)"
  "attr_kept (m_faceAttrs m) a \<Longrightarrow> decorated m (m\<lparr>m_faceAttrs := a\<rparr>)"
  "attr_kept (m_cornerAttrs m) a \<Longrightarrow> decorated m (m\<lparr>m_cornerAttrs := a\<rparr>)"
  by (auto simp: decorated_def attrs_inv_def attr_kept_def)

lemma readMeshExtras_inv:
  assumes m: "mesh_inv m"
  shows "\<exists>ok m'. readMeshExtras m r = Some (ok, m') \<and> decorated m m'"
proof -
  obtain order where o: "compactOrder m = Some order" using compactOrder_eq [OF m] by blast
  obtain ok1 a1 r1 where x1: "readAttributeSet (eo_vertices order) (m_vertexAttrs m) r = (ok1, a1, r1)" using prod_cases3 by blast
  define m1 where "m1 = m\<lparr>m_vertexAttrs := a1\<rparr>"
  have d1: "decorated m m1" unfolding m1_def by (rule set_attrs_decorated(1) [OF readAttributeSet_kept [OF x1]])
  obtain ok2 a2 r2 where x2: "readAttributeSet (eo_faces order) (m_faceAttrs m1) r1 = (ok2, a2, r2)" using prod_cases3 by blast
  define m2 where "m2 = m1\<lparr>m_faceAttrs := a2\<rparr>"
  have d2: "decorated m m2"
    unfolding m2_def by (rule decorated_trans [OF d1 set_attrs_decorated(3) [OF readAttributeSet_kept [OF x2]]])
  obtain ok3 a3 r3 where x3: "readAttributeSet (eo_corners order) (m_cornerAttrs m2) r2 = (ok3, a3, r3)" using prod_cases3 by blast
  define m3 where "m3 = m2\<lparr>m_cornerAttrs := a3\<rparr>"
  have d3: "decorated m m3"
    unfolding m3_def by (rule decorated_trans [OF d2 set_attrs_decorated(4) [OF readAttributeSet_kept [OF x3]]])
  obtain es m4 r4 where x4: "readEdgeRecords m3 r3 = (es, m4, r4)" using prod_cases3 by blast
  have d4: "decorated m m4"
    using decorated_trans [OF d3 readEdgeRecords_decorated [of m3 r3]] by (simp add: x4)
  have d5: "decorated m (m4\<lparr>m_edgeAttrs := a\<rparr>)" if "readAttributeSet ed0 (m_edgeAttrs m4) r4 = (ok, a, r5)" for ed0 ok a r5
    by (rule decorated_trans [OF d4 set_attrs_decorated(2) [OF readAttributeSet_kept [OF that]]])
  obtain ok5 a5 r5 where x5: "readAttributeSet (the es) (m_edgeAttrs m4) r4 = (ok5, a5, r5)" using prod_cases3 by blast
  have "readMeshExtras m r = Some (if \<not> ok1 then (False, m1) else if \<not> ok2 then (False, m2) else if \<not> ok3 then (False, m3)
      else case es of None \<Rightarrow> (False, m4)
        | Some edges \<Rightarrow> (case readAttributeSet edges (m_edgeAttrs m4) r4 of (ok, a, _) \<Rightarrow> (ok, m4\<lparr>m_edgeAttrs := a\<rparr>)))"
    unfolding readMeshExtras_def o option.map Let_def x1 prod.case m1_def [symmetric] x2 m2_def [symmetric] x3
      m3_def [symmetric] x4 by (rule refl)
  then show ?thesis
    using d1 d2 d3 d4 d5 [OF x5] x5 by (cases es) auto
qed

section \<open>The document\<close>

definition doc_inv :: "document \<Rightarrow> bool" where
  "doc_inv d \<longleftrightarrow> mesh_inv (doc_target d) \<and> mesh_inv (doc_editMesh d)"

lemma loadSection_safe:
  assumes d: "doc_inv d" and r: "reader_inv r" "r_remaining r < 2 ^ 32"
  shows "\<exists>res. loadSection sid r d = Some res \<and> (\<forall>d'. res = Some d' \<longrightarrow> doc_inv d')"
proof -
  note inv = d [unfolded doc_inv_def]
  obtain ok1 m1 where x1: "readMeshExtras (doc_target d) r = Some (ok1, m1)" "decorated (doc_target d) m1"
    using readMeshExtras_inv inv by blast
  obtain ok2 m2 where x2: "readMeshExtras (doc_editMesh d) r = Some (ok2, m2)" "decorated (doc_editMesh d) m2"
    using readMeshExtras_inv inv by blast
  have "mesh_inv m1" "mesh_inv m2" using decorated_inv x1(2) x2(2) inv by blast+
  then show ?thesis
    using inv readMesh_inv [OF _ r]
    by (auto simp: loadSection_def doc_inv_def x1(1) x2(1) split_beta Let_def)
qed

lemma sub_safe:
  assumes "reader_inv r" "r_sub n r = (sec, r')" "length (r_data r) < 2 ^ 32"
  shows "reader_inv sec" "r_remaining sec < 2 ^ 32"
  using assms by (auto simp: r_sub_def mk_reader_def reader_inv_def r_remaining_def split: prod.splits if_splits)
    (auto simp: r_ensure_def split: if_splits)

lemma loadSections_safe:
  "doc_inv d \<Longrightarrow> reader_inv r \<Longrightarrow> length (r_data r) < 2 ^ 32 \<Longrightarrow>
    \<exists>res. loadSections n r d = Some res \<and> (\<forall>d'. res = Some d' \<longrightarrow> doc_inv d')"
proof (induction n arbitrary: d r)
  case (Suc n)
  obtain sid r1 where a: "r_u32 r = (sid, r1)" by fastforce
  obtain len r2 where b: "r_u64 r1 = (len, r2)" by fastforce
  obtain sec r3 where c: "r_sub (unat len) r2 = (sec, r3)" by fastforce
  have "advances r r1" "advances r1 r2" "advances r2 r3"
    using u32.rd_advances [of r] u64.rd_advances [of r1] r_sub_advances [of r2 "unat len"] by (simp_all add: a b c)
  then have r3: "reader_inv r2" "reader_inv r3" "r_data r2 = r_data r" "r_data r3 = r_data r"
    using Suc.prems(2) by (auto simp: advances_def)
  have s: "reader_inv sec" "r_remaining sec < 2 ^ 32"
    using sub_safe [OF r3(1) c] Suc.prems(3) by (simp_all add: r3(3))
  obtain res where res: "loadSection sid sec d = Some res" "\<forall>d'. res = Some d' \<longrightarrow> doc_inv d'"
    using loadSection_safe [OF Suc.prems(1) s] by blast
  show ?case
    using Suc.IH [OF _ r3(2)] Suc.prems(3) res by (cases res) (auto simp: a b c r3(4) Let_def)
qed simp

lemma loadDocument_safe:
  assumes "length bs < 2 ^ 32"
  shows "\<exists>res. loadDocument bs = Some res \<and> (\<forall>d. res = Some d \<longrightarrow> doc_inv d)"
proof -
  obtain a r1 where a: "r_u32 (mk_reader bs) = (a, r1)" by fastforce
  obtain b r2 where b: "r_u32 r1 = (b, r2)" by fastforce
  obtain c r3 where c: "r_u32 r2 = (c, r3)" by fastforce
  have "advances (mk_reader bs) r1" "advances r1 r2" "advances r2 r3"
    using u32.rd_advances [of "mk_reader bs"] u32.rd_advances [of r1] u32.rd_advances [of r2] by (simp_all add: a b c)
  moreover have "reader_inv (mk_reader bs)" "r_data (mk_reader bs) = bs" by (simp_all add: mk_reader_def reader_inv_def)
  ultimately have r3: "reader_inv r3" "r_data r3 = bs" by (auto simp: advances_def)
  have d0: "doc_inv document0" by (simp add: doc_inv_def document0_def mesh_inv_empty)
  show ?thesis
    using loadSections_safe [OF d0 r3(1), of "unat c"] assms by (auto simp: loadDocument_def a b c r3(2) Let_def)
qed

end
