(* ===== verification/DocProps.thy ===== *)
theory DocProps
  imports DocSafe
begin

text \<open>
  The properties of the document container, with a sample document whose target carries a tagged
  feature edge.
\<close>

section \<open>A sample document\<close>

definition tagged_square :: mesh where
  "tagged_square = setFeatureEdge (edgeBetween square 0 2) True square"

definition sample_document :: document where
  "sample_document = document0\<lparr>doc_target := tagged_square, doc_dirty := True,
     doc_softSelections := [([65], [f32_1, f32_half])]\<rparr>"

lemma tagged_square_facts: "mesh_inv tagged_square" "mesh_small tagged_square" "attrs_valid tagged_square"
proof -
  have d: "decorated square tagged_square" by (simp add: tagged_square_def)
  show "mesh_inv tagged_square" by (rule decorated_inv [OF d square_facts(1)])
  have "capacity square (kInvalidIndex - 18)"
    unfolding square_def by (rule fromIndexed_capacity) (simp add: build_room_def kInvalidIndex_def)
  then have "length (m_vertices square) \<le> 18" "length (m_faces square) \<le> 18" "length (m_loops square) \<le> 18"
    by (simp_all add: capacity_def kInvalidIndex_def)
  then show "mesh_small tagged_square"
    using decorated_fields(5-7) [OF d] by (simp add: mesh_small_def kInvalidIndex_def)
  have "plain square" unfolding square_def by (rule plain_fromIndexed)
  then show "attrs_valid tagged_square"
    by (simp add: attrs_valid_def columns_valid_def plain_def tagged_square_def setFeatureEdge_def set_edge_def fits_u32_def)
qed

lemma sample_document_ok: "doc_ok sample_document"
proof -
  have "doc_mesh_ok mesh_empty"
  proof -
    have "mesh_small mesh_empty" "attrs_valid mesh_empty"
      by (simp_all add: mesh_small_def attrs_valid_def columns_valid_def mesh_empty_def attrs_empty_def fits_u32_def kInvalidIndex_def)
    then show ?thesis using mesh_inv_empty by (simp add: doc_mesh_ok_def)
  qed
  moreover have "slots_valid [([65], [f32_1, f32_half])]" by (simp add: slots_valid_def fits_u32_def omap_inv_def)
  ultimately show ?thesis
    using tagged_square_facts by (simp add: doc_ok_def sample_document_def document0_def doc_mesh_ok_def)
qed

section \<open>Properties\<close>

text \<open>
  C21. Saving returns, and loading the saved bytes gives the document back: both meshes with the
  same indexed form, every attribute row at its element and the same feature edges, the parameters
  and the bake settings bit for bit, and the selection slots over the renumbered vertices.
\<close>

theorem document_roundtrip:
  assumes "doc_ok d" "saveDocument d = Some bs" "length bs < 2 ^ 64"
  shows "\<exists>d'. loadDocument bs = Some (Some d') \<and> mesh_copy (doc_target d) (doc_target d') \<and>
    mesh_copy (doc_editMesh d) (doc_editMesh d') \<and> doc_params d' = doc_params d \<and> doc_bake d' = doc_bake d \<and>
    doc_softSelections d' = compactSelections (doc_editMesh d) (doc_softSelections d) \<and> \<not> doc_dirty d'"
proof -
  have "loadDocument bs = Some (Some (reloaded_document d))" using save_load [OF assms(1)] assms(2,3) by force
  then show ?thesis
    using assms(1) reloaded_copy by (simp add: reloaded_document_def doc_ok_def)
qed

theorem document_roundtrip_witness:
  "\<exists>bs. saveDocument sample_document = Some bs \<and>
    (length bs < 2 ^ 64 \<longrightarrow> (\<exists>d'. loadDocument bs = Some (Some d') \<and> mesh_copy tagged_square (doc_target d')))"
proof -
  obtain bs where bs: "saveDocument sample_document = Some bs" by (rule save_load [OF sample_document_ok])
  have "doc_target sample_document = tagged_square" by (simp add: sample_document_def)
  then show ?thesis using bs document_roundtrip [OF sample_document_ok bs] by metis
qed

text \<open>
  C22. Loading any bytes below 4 GiB returns, and the meshes of a document that is accepted satisfy
  the mesh invariant: a corrupt or hostile file is rejected or gives well-formed meshes.
\<close>

theorem load_any_bytes:
  assumes "length bs < 2 ^ 32"
  shows "\<exists>res. loadDocument bs = Some res \<and>
    (\<forall>d. res = Some d \<longrightarrow> mesh_inv (doc_target d) \<and> mesh_inv (doc_editMesh d))"
  using loadDocument_safe [OF assms] by (simp add: doc_inv_def)

theorem load_any_bytes_witness:
  "\<exists>res. loadDocument [0x43, 0x44, 0x59, 0x43, 1, 0, 0, 0, 0, 0, 0, 0] = Some res"
  using load_any_bytes [of "[0x43, 0x44, 0x59, 0x43, 1, 0, 0, 0, 0, 0, 0, 0]"] by auto

text \<open>
  A file that does not start with the magic number, or whose version is newer than the
  program's, is rejected whatever follows.
\<close>

theorem load_rejects:
  assumes "magic \<noteq> kMagic \<or> kFormatVersion < version"
  shows "loadDocument (w_u32 (w_u32 [] magic) version @ rest) = Some None"
proof -
  have r0: "reads_from (mk_reader (w_u32 (w_u32 [] magic) version @ rest)) (enc_u32 magic @ enc_u32 version @ rest)"
    by (simp add: w_append)
  obtain r1 where r1: "r_u32 (mk_reader (w_u32 (w_u32 [] magic) version @ rest)) = (magic, r1)"
      "reads_from r1 (enc_u32 version @ rest)" using rd_u32 [OF r0] by blast
  obtain r2 where r2: "r_u32 r1 = (version, r2)" using rd_u32 [OF r1(2)] by blast
  show ?thesis using assms by (auto simp: loadDocument_def r1(1) r2 split: prod.splits)
qed

theorem load_rejects_witness:
  "loadDocument (w_u32 (w_u32 [] kMagic) 2 @ [7]) = Some None"
  by (rule load_rejects) (simp add: kFormatVersion_def)

text \<open>
  C23. The autosave hook saves exactly when the document is dirty; it hands over the bytes of
  \<open>save\<close>, and afterwards the document is clean and otherwise unchanged, so the next call does
  nothing.
\<close>

theorem autosave_once:
  assumes "doc_ok d"
  shows "\<exists>out d'. autosaveIfDirty d = Some (doc_dirty d, out, d') \<and> d' = d\<lparr>doc_dirty := False\<rparr> \<and>
    (if doc_dirty d then out = saveDocument d \<and> out \<noteq> None else out = None) \<and>
    autosaveIfDirty d' = Some (False, None, d')"
proof -
  obtain bs where "saveDocument d = Some bs" by (rule save_load [OF assms])
  then show ?thesis by (cases "doc_dirty d") (auto simp: autosaveIfDirty_def)
qed

theorem autosave_once_witness:
  "\<exists>out d'. autosaveIfDirty sample_document = Some (True, out, d') \<and> out \<noteq> None \<and> \<not> doc_dirty d'"
  using autosave_once [OF sample_document_ok] by (auto simp: sample_document_def)

end
