(* ===== verification/MinCostFlow.thy ===== *)
theory MinCostFlow
  imports Prelude
begin

text \<open>
  The min-cost max-flow engine of \<open>src/quadrangulate/src/min_cost_flow.hpp\<close>: successive shortest
  paths found by a queue-based Bellman-Ford search. Node and arc numbers are natural numbers, a
  \<open>prevEdge\<close> of -1 is \<open>None\<close>, and the pending part of the queue (from \<open>head\<close> on) is the list.
  Capacities, flows, costs and distances are integers: overflow of \<open>int\<close> is undefined in the
  source. The loops are written without a bound, so a search that does not return is \<open>None\<close>.
\<close>

section \<open>The network\<close>

record flow_edge =
  fe_to :: nat
  fe_cap :: int
  fe_flow :: int
  fe_cost :: int

record flow_net =
  fn_n :: nat
  fn_edges :: "flow_edge list"
  fn_adj :: "nat list list"

definition kInf :: int where "kInf = 2 ^ 30"

text \<open>\<open>id ^ 1\<close>: an arc and its reverse are neighbours.\<close>

definition partner :: "nat \<Rightarrow> nat" where
  "partner arc = (if even arc then arc + 1 else arc - 1)"

definition mcf_init :: "nat \<Rightarrow> flow_net" where
  "mcf_init nodes = \<lparr>fn_n = nodes, fn_edges = [], fn_adj = replicate nodes []\<rparr>"

definition mcf_addEdge :: "nat \<Rightarrow> nat \<Rightarrow> int \<Rightarrow> int \<Rightarrow> flow_net \<Rightarrow> nat \<times> flow_net" where
  "mcf_addEdge u v cap cost net =
     (let ident = length (fn_edges net);
          net = net\<lparr>fn_adj := (fn_adj net)[u := fn_adj net ! u @ [ident]]\<rparr>;
          net = net\<lparr>fn_edges := fn_edges net @ [\<lparr>fe_to = v, fe_cap = cap, fe_flow = 0, fe_cost = cost\<rparr>]\<rparr>;
          net = net\<lparr>fn_adj := (fn_adj net)[v := fn_adj net ! v @ [ident + 1]]\<rparr>;
          net = net\<lparr>fn_edges := fn_edges net @ [\<lparr>fe_to = u, fe_cap = 0, fe_flow = 0, fe_cost = - cost\<rparr>]\<rparr>
      in (ident, net))"

definition mcf_flow :: "flow_net \<Rightarrow> nat \<Rightarrow> int" where
  "mcf_flow net forwardEdgeId = fe_flow (fn_edges net ! forwardEdgeId)"

section \<open>The shortest-path search\<close>

record spfa_state =
  sp_dist :: "int list"
  sp_inQueue :: "bool list"
  sp_prev :: "nat option list"
  sp_queue :: "nat list"

definition spfa_start :: "flow_net \<Rightarrow> nat \<Rightarrow> spfa_state" where
  "spfa_start net s =
     \<lparr>sp_dist = (replicate (fn_n net) kInf)[s := 0], sp_inQueue = (replicate (fn_n net) False)[s := True],
      sp_prev = replicate (fn_n net) None, sp_queue = [s]\<rparr>"

definition relax :: "flow_net \<Rightarrow> nat \<Rightarrow> nat \<Rightarrow> spfa_state \<Rightarrow> spfa_state" where
  "relax net u ident st =
     (let e = fn_edges net ! ident
      in if fe_cap e - fe_flow e \<le> 0 \<or> sp_dist st ! u = kInf then st
         else (let nd = sp_dist st ! u + fe_cost e
               in if nd < sp_dist st ! fe_to e
                  then (let st = st\<lparr>sp_dist := (sp_dist st)[fe_to e := nd], sp_prev := (sp_prev st)[fe_to e := Some ident]\<rparr>
                        in if \<not> sp_inQueue st ! fe_to e
                           then st\<lparr>sp_inQueue := (sp_inQueue st)[fe_to e := True], sp_queue := sp_queue st @ [fe_to e]\<rparr>
                           else st)
                  else st))"

definition visit :: "flow_net \<Rightarrow> nat \<Rightarrow> nat list \<Rightarrow> spfa_state \<Rightarrow> spfa_state" where
  "visit net u q st =
     fold (relax net u) (fn_adj net ! u) (st\<lparr>sp_queue := q, sp_inQueue := (sp_inQueue st)[u := False]\<rparr>)"

partial_function (option) spfa :: "flow_net \<Rightarrow> spfa_state \<Rightarrow> spfa_state option" where
  "spfa net st = (case sp_queue st of [] \<Rightarrow> Some st | u # q \<Rightarrow> spfa net (visit net u q st))"

section \<open>Augmenting\<close>

text \<open>Walking back from \<open>t\<close>: the smallest residual capacity, then the update.\<close>

partial_function (option) pathPush :: "flow_net \<Rightarrow> nat option list \<Rightarrow> nat \<Rightarrow> nat \<Rightarrow> int \<Rightarrow> int option" where
  "pathPush net prev s v push =
     (if v = s then Some push
      else (case prev ! v of
              None \<Rightarrow> None
            | Some ident \<Rightarrow>
                (let e = fn_edges net ! ident
                 in pathPush net prev s (fe_to (fn_edges net ! partner ident)) (min push (fe_cap e - fe_flow e)))))"

definition addFlow :: "nat \<Rightarrow> int \<Rightarrow> flow_net \<Rightarrow> flow_net" where
  "addFlow ident push net =
     net\<lparr>fn_edges := (fn_edges net)[ident := (fn_edges net ! ident)\<lparr>fe_flow := fe_flow (fn_edges net ! ident) + push\<rparr>]\<rparr>"

partial_function (option) augment :: "nat option list \<Rightarrow> nat \<Rightarrow> int \<Rightarrow> nat \<Rightarrow> flow_net \<Rightarrow> flow_net option" where
  "augment prev s push v net =
     (if v = s then Some net
      else (case prev ! v of
              None \<Rightarrow> None
            | Some ident \<Rightarrow>
                (let net = addFlow (partner ident) (- push) (addFlow ident push net)
                 in augment prev s push (fe_to (fn_edges net ! partner ident)) net)))"

partial_function (option) solveLoop :: "nat \<Rightarrow> nat \<Rightarrow> int \<Rightarrow> int \<Rightarrow> flow_net \<Rightarrow> (int \<times> int \<times> flow_net) option" where
  "solveLoop s t totalFlow totalCost net =
     Option.bind (spfa net (spfa_start net s)) (\<lambda>st.
       if sp_dist st ! t = kInf then Some (totalFlow, totalCost, net)
       else Option.bind (pathPush net (sp_prev st) s t kInf) (\<lambda>push.
         Option.bind (augment (sp_prev st) s push t net) (\<lambda>net.
           solveLoop s t (totalFlow + push) (totalCost + push * sp_dist st ! t) net)))"

definition mcf_solve :: "nat \<Rightarrow> nat \<Rightarrow> flow_net \<Rightarrow> (int \<times> int \<times> flow_net) option" where
  "mcf_solve s t net = solveLoop s t 0 0 net"

end
