(* ===== verification/FlowSearch.thy ===== *)
theory FlowSearch
  imports MinCostFlow
begin

text \<open>
  The shortest-path search of the flow engine: with a potential that makes every reduced residual
  cost non-negative, the queue empties, the distances are exact on the predecessor arcs and every
  predecessor chain leads back to the source.
\<close>

section \<open>Arcs\<close>

abbreviation arcs :: "flow_net \<Rightarrow> nat" where "arcs net \<equiv> length (fn_edges net)"

definition head_of :: "flow_net \<Rightarrow> nat \<Rightarrow> nat" where "head_of net a = fe_to (fn_edges net ! a)"
definition tail_of :: "flow_net \<Rightarrow> nat \<Rightarrow> nat" where "tail_of net a = fe_to (fn_edges net ! partner a)"
definition cap_of :: "flow_net \<Rightarrow> nat \<Rightarrow> int" where "cap_of net a = fe_cap (fn_edges net ! a)"
definition flow_of :: "flow_net \<Rightarrow> nat \<Rightarrow> int" where "flow_of net a = fe_flow (fn_edges net ! a)"
definition cost_of :: "flow_net \<Rightarrow> nat \<Rightarrow> int" where "cost_of net a = fe_cost (fn_edges net ! a)"
definition residual :: "flow_net \<Rightarrow> nat \<Rightarrow> bool" where "residual net a \<longleftrightarrow> flow_of net a < cap_of net a"

lemma partner_partner [simp]: "partner (partner a) = a"
  by (auto simp: partner_def)

lemma partner_neq [simp]: "partner a \<noteq> a" "a \<noteq> partner a"
  by (auto simp: partner_def dest: odd_pos)

lemma partner_less: "even m \<Longrightarrow> a < m \<Longrightarrow> partner a < m"
  by (auto simp: partner_def elim!: evenE oddE)

lemma partner_ends [simp]: "head_of net (partner a) = tail_of net a" "tail_of net (partner a) = head_of net a"
  by (simp_all add: head_of_def tail_of_def)

definition wf_net :: "flow_net \<Rightarrow> bool" where
  "wf_net net \<longleftrightarrow> length (fn_adj net) = fn_n net \<and> even (arcs net) \<and>
     (\<forall>a < arcs net. head_of net a < fn_n net \<and> cost_of net (partner a) = - cost_of net a \<and>
        flow_of net (partner a) = - flow_of net a \<and> flow_of net a \<le> cap_of net a) \<and>
     (\<forall>u < fn_n net. set (fn_adj net ! u) = {a. a < arcs net \<and> tail_of net a = u})"

definition pot_ok :: "flow_net \<Rightarrow> (nat \<Rightarrow> int) \<Rightarrow> bool" where
  "pot_ok net pot \<longleftrightarrow> (\<forall>a < arcs net. residual net a \<longrightarrow>
     0 \<le> cost_of net a + pot (tail_of net a) - pot (head_of net a))"

lemma wf_tail: "wf_net net \<Longrightarrow> a < arcs net \<Longrightarrow> tail_of net a < fn_n net"
  using partner_less [of "arcs net" a] unfolding wf_net_def by (metis partner_ends(1))

section \<open>Chains of predecessor arcs\<close>

inductive chain :: "flow_net \<Rightarrow> nat option list \<Rightarrow> nat \<Rightarrow> nat \<Rightarrow> bool" for net prev s where
  chain_start: "chain net prev s s"
| chain_step: "prev ! v = Some a \<Longrightarrow> v \<noteq> s \<Longrightarrow> chain net prev s (tail_of net a) \<Longrightarrow> chain net prev s v"

lemma chain_update_below:
  assumes "chain net prev s w"
    "\<And>x a. prev ! x = Some a \<Longrightarrow> (rank :: nat \<Rightarrow> int) (tail_of net a) \<le> rank x" "rank w < rank v"
  shows "chain net (prev[v := Some b]) s w"
  using assms(1,3)
proof (induction rule: chain.induct)
  case (chain_step x a)
  then have "rank (tail_of net a) < rank v" using assms(2) [of x a] by simp
  moreover have "x \<noteq> v" using chain_step.prems by auto
  ultimately show ?case using chain_step by (intro chain.chain_step [of _ x a]) auto
qed (rule chain.chain_start)

lemma chain_update:
  assumes "chain net prev s w" "chain net (prev[v := Some b]) s v"
  shows "chain net (prev[v := Some b]) s w"
  using assms(1)
proof (induction rule: chain.induct)
  case (chain_step x a)
  show ?case
  proof (cases "x = v")
    case True
    then show ?thesis using assms(2) by simp
  next
    case False
    then show ?thesis using chain_step by (intro chain.chain_step [of _ x a]) auto
  qed
qed (rule chain.chain_start)

section \<open>The invariant of the search\<close>

definition search_inv :: "flow_net \<Rightarrow> nat \<Rightarrow> (nat \<Rightarrow> int) \<Rightarrow> spfa_state \<Rightarrow> bool" where
  "search_inv net s pot st \<longleftrightarrow>
     length (sp_dist st) = fn_n net \<and> length (sp_inQueue st) = fn_n net \<and> length (sp_prev st) = fn_n net \<and>
     sp_dist st ! s = 0 \<and> sp_prev st ! s = None \<and>
     (\<forall>v < fn_n net. sp_dist st ! v \<le> kInf \<and>
        (sp_dist st ! v < kInf \<longrightarrow> pot v - pot s \<le> sp_dist st ! v \<and> chain net (sp_prev st) s v) \<and>
        (sp_inQueue st ! v \<longrightarrow> v \<in> set (sp_queue st)) \<and>
        (\<forall>a. sp_prev st ! v = Some a \<longrightarrow> a < arcs net \<and> head_of net a = v \<and> residual net a \<and>
           sp_dist st ! tail_of net a < kInf \<and> sp_dist st ! tail_of net a + cost_of net a \<le> sp_dist st ! v)) \<and>
     (\<forall>v \<in> set (sp_queue st). v < fn_n net \<and> sp_dist st ! v < kInf)"

definition scanned :: "flow_net \<Rightarrow> spfa_state \<Rightarrow> nat \<Rightarrow> bool" where
  "scanned net st a \<longleftrightarrow> (residual net a \<longrightarrow> sp_dist st ! head_of net a \<le> sp_dist st ! tail_of net a + cost_of net a)"

definition search_weight :: "flow_net \<Rightarrow> nat \<Rightarrow> (nat \<Rightarrow> int) \<Rightarrow> spfa_state \<Rightarrow> nat" where
  "search_weight net s pot st = (\<Sum>v < fn_n net. nat (sp_dist st ! v - (pot v - pot s)))"

lemma relax_cases:
  assumes "tail_of net a = u"
  obtains (same) "relax net u a st = st" "sp_dist st ! u < kInf \<Longrightarrow> sp_dist st ! u \<le> kInf \<Longrightarrow> scanned net st a"
  | (better) nd where "residual net a" "sp_dist st ! u \<noteq> kInf" "nd = sp_dist st ! u + cost_of net a"
      "nd < sp_dist st ! head_of net a"
      "sp_dist (relax net u a st) = (sp_dist st)[head_of net a := nd]"
      "sp_prev (relax net u a st) = (sp_prev st)[head_of net a := Some a]"
      "sp_inQueue (relax net u a st) = (if sp_inQueue st ! head_of net a then sp_inQueue st else (sp_inQueue st)[head_of net a := True])"
      "sp_queue (relax net u a st) = (if sp_inQueue st ! head_of net a then sp_queue st else sp_queue st @ [head_of net a])"
proof (cases "residual net a \<and> sp_dist st ! u \<noteq> kInf \<and> sp_dist st ! u + cost_of net a < sp_dist st ! head_of net a")
  case True
  then show ?thesis
    by (intro better) (auto simp: relax_def Let_def residual_def flow_of_def cap_of_def cost_of_def head_of_def)
next
  case False
  then have "relax net u a st = st"
    by (auto simp: relax_def Let_def residual_def flow_of_def cap_of_def cost_of_def head_of_def)
  then show ?thesis using False assms by (intro same) (auto simp: scanned_def)
qed

section \<open>One relaxation\<close>

definition search_step :: "flow_net \<Rightarrow> nat \<Rightarrow> (nat \<Rightarrow> int) \<Rightarrow> spfa_state \<Rightarrow> spfa_state \<Rightarrow> bool" where
  "search_step net s pot st st' \<longleftrightarrow>
     (\<forall>v < fn_n net. sp_dist st' ! v \<le> sp_dist st ! v \<and> (sp_dist st' ! v \<noteq> sp_dist st ! v \<longrightarrow> v \<in> set (sp_queue st'))) \<and>
     set (sp_queue st) \<subseteq> set (sp_queue st') \<and> (st' = st \<or> search_weight net s pot st' < search_weight net s pot st)"

lemma search_step_refl [simp]: "search_step net s pot st st"
  by (simp add: search_step_def)

lemma search_step_trans:
  assumes "search_step net s pot st st'" "search_step net s pot st' st''"
  shows "search_step net s pot st st''"
  unfolding search_step_def
proof (intro conjI allI impI)
  fix v assume v: "v < fn_n net"
  have 1: "sp_dist st' ! v \<le> sp_dist st ! v" "sp_dist st' ! v \<noteq> sp_dist st ! v \<Longrightarrow> v \<in> set (sp_queue st')"
    using assms(1) v by (auto simp: search_step_def)
  have 2: "sp_dist st'' ! v \<le> sp_dist st' ! v" "sp_dist st'' ! v \<noteq> sp_dist st' ! v \<Longrightarrow> v \<in> set (sp_queue st'')"
      "set (sp_queue st') \<subseteq> set (sp_queue st'')"
    using assms(2) v by (auto simp: search_step_def)
  show "sp_dist st'' ! v \<le> sp_dist st ! v" using 1(1) 2(1) by simp
  show "v \<in> set (sp_queue st'')" if "sp_dist st'' ! v \<noteq> sp_dist st ! v"
    using that 1(2) 2(2,3) by (cases "sp_dist st' ! v = sp_dist st ! v") auto
next
  show "set (sp_queue st) \<subseteq> set (sp_queue st'')" using assms by (auto simp: search_step_def)
  show "st'' = st \<or> search_weight net s pot st'' < search_weight net s pot st" using assms by (auto simp: search_step_def)
qed

lemma search_invD:
  assumes "search_inv net s pot st" "v < fn_n net"
  shows "sp_dist st ! v \<le> kInf" "sp_dist st ! v < kInf \<Longrightarrow> pot v - pot s \<le> sp_dist st ! v"
    "sp_dist st ! v < kInf \<Longrightarrow> chain net (sp_prev st) s v" "sp_inQueue st ! v \<Longrightarrow> v \<in> set (sp_queue st)"
    "sp_prev st ! v = Some a \<Longrightarrow> a < arcs net \<and> head_of net a = v \<and> residual net a \<and>
       sp_dist st ! tail_of net a < kInf \<and> sp_dist st ! tail_of net a + cost_of net a \<le> sp_dist st ! v"
  using assms unfolding search_inv_def by auto

lemma search_invD':
  assumes "search_inv net s pot st"
  shows "length (sp_dist st) = fn_n net" "length (sp_inQueue st) = fn_n net" "length (sp_prev st) = fn_n net"
    "sp_dist st ! s = 0" "sp_prev st ! s = None" "v \<in> set (sp_queue st) \<Longrightarrow> v < fn_n net \<and> sp_dist st ! v < kInf"
  using assms unfolding search_inv_def by auto

lemma scanned_step:
  assumes "search_step net s pot st st'" "wf_net net" "b < arcs net" "scanned net st b" "tail_of net b \<notin> set (sp_queue st')"
  shows "scanned net st' b"
proof -
  have "head_of net b < fn_n net" "tail_of net b < fn_n net" using assms(2,3) wf_tail by (auto simp: wf_net_def)
  then have "sp_dist st' ! head_of net b \<le> sp_dist st ! head_of net b" "sp_dist st' ! tail_of net b = sp_dist st ! tail_of net b"
    using assms(1,5) unfolding search_step_def by auto
  then show ?thesis using assms(4) unfolding scanned_def by auto
qed

lemma prev_rank:
  assumes "pot_ok net pot" "search_inv net s pot st" "x < fn_n net" "sp_prev st ! x = Some a"
  shows "sp_dist st ! tail_of net a - pot (tail_of net a) \<le> sp_dist st ! x - pot x"
proof -
  have "a < arcs net" "head_of net a = x" "residual net a" "sp_dist st ! tail_of net a + cost_of net a \<le> sp_dist st ! x"
    using assms(2-4) unfolding search_inv_def by auto
  then show ?thesis using assms(1) unfolding pot_ok_def by force
qed

lemma sum_one_less:
  fixes f g :: "nat \<Rightarrow> nat"
  assumes "v < n" "g v < f v" "\<And>w. w < n \<Longrightarrow> w \<noteq> v \<Longrightarrow> g w = f w"
  shows "(\<Sum>w < n. g w) < (\<Sum>w < n. f w)"
  using assms by (intro sum_strict_mono_ex1) (auto simp: le_less)

lemma chain_in_range:
  assumes "search_inv net s pot st" "wf_net net" "chain net (sp_prev st) s w" "w < fn_n net" "pot_ok net pot"
    "sp_dist st ! w - pot w < sp_dist st ! v - pot v"
  shows "chain net ((sp_prev st)[v := Some b]) s w"
  using assms(3,4,6)
proof (induction rule: chain.induct)
  case (chain_step x a)
  have a: "a < arcs net" using assms(1) chain_step by (auto simp: search_inv_def)
  have "tail_of net a < fn_n net" using wf_tail [OF assms(2) a] .
  moreover have "sp_dist st ! tail_of net a - pot (tail_of net a) < sp_dist st ! v - pot v"
    using prev_rank [OF assms(5,1) chain_step.prems(1) chain_step.hyps(1)] chain_step.prems(2) by simp
  moreover have "x \<noteq> v" using chain_step.prems(2) by auto
  ultimately show ?case using chain_step by (intro chain.chain_step [of _ x a]) auto
qed (rule chain.chain_start)

lemma relax_step:
  assumes wf: "wf_net net" and pot: "pot_ok net pot" and s: "s < fn_n net" and inv: "search_inv net s pot st"
    and a: "a < arcs net" "tail_of net a = u" and du: "sp_dist st ! u < kInf"
  shows "search_inv net s pot (relax net u a st) \<and> search_step net s pot st (relax net u a st) \<and>
    sp_dist (relax net u a st) ! u = sp_dist st ! u \<and> scanned net (relax net u a st) a"
proof (rule relax_cases [OF a(2), of st])
  assume "relax net u a st = st" "sp_dist st ! u < kInf \<Longrightarrow> sp_dist st ! u \<le> kInf \<Longrightarrow> scanned net st a"
  then show ?thesis using inv du by simp
next
  fix nd
  let ?v = "head_of net a" and ?st = "relax net u a st"
  assume r: "residual net a" "sp_dist st ! u \<noteq> kInf" "nd = sp_dist st ! u + cost_of net a" "nd < sp_dist st ! ?v"
    and st: "sp_dist ?st = (sp_dist st)[?v := nd]" "sp_prev ?st = (sp_prev st)[?v := Some a]"
      "sp_inQueue ?st = (if sp_inQueue st ! ?v then sp_inQueue st else (sp_inQueue st)[?v := True])"
      "sp_queue ?st = (if sp_inQueue st ! ?v then sp_queue st else sp_queue st @ [?v])"
  have un: "u < fn_n net" using wf_tail [OF wf a(1)] a(2) by simp
  have vn: "?v < fn_n net" using wf a(1) by (simp add: wf_net_def)
  have red: "pot ?v \<le> cost_of net a + pot u" using pot a r(1) unfolding pot_ok_def by auto
  note lens = search_invD' (1-3) [OF inv]
  have low: "pot u - pot s \<le> sp_dist st ! u" by (rule search_invD (2) [OF inv un du])
  then have nd_low: "pot ?v - pot s \<le> nd" using red r(3) by simp
  have rank: "sp_dist st ! u - pot u < sp_dist st ! ?v - pot ?v" using red r(3,4) by simp
  then have uv: "u \<noteq> ?v" by auto
  have sv: "?v \<noteq> s" using nd_low r(4) search_invD' (4) [OF inv] by auto
  have nd_inf: "nd < kInf" using r(4) search_invD (1) [OF inv vn] by simp
  have chv: "chain net (sp_prev ?st) s ?v"
    unfolding st(2) using chain_in_range [OF inv wf search_invD (3) [OF inv un du] un pot rank] a(2) sv lens vn
    by (intro chain.chain_step [of _ ?v a]) auto
  have ch: "chain net (sp_prev ?st) s w" if "chain net (sp_prev st) s w" for w
    using chain_update [OF that] chv unfolding st(2) by blast
  have d_other: "sp_dist ?st ! w = sp_dist st ! w" if "w \<noteq> ?v" for w using that by (simp add: st(1))
  have d_v: "sp_dist ?st ! ?v = nd" using vn lens by (simp add: st(1))
  have mono: "sp_dist ?st ! w \<le> sp_dist st ! w" for w
    using r(4) d_v d_other [of w] by (cases "w = ?v") auto
  have vq: "?v \<in> set (sp_queue ?st)" using search_invD (4) [OF inv vn] by (simp add: st(4))
  have qq: "set (sp_queue st) \<subseteq> set (sp_queue ?st)" "set (sp_queue ?st) \<subseteq> insert ?v (set (sp_queue st))" by (auto simp: st(4))
  have "search_inv net s pot ?st"
    unfolding search_inv_def
  proof (intro conjI allI impI ballI)
    show "length (sp_dist ?st) = fn_n net" "length (sp_inQueue ?st) = fn_n net" "length (sp_prev ?st) = fn_n net"
      using lens by (simp_all add: st)
    show "sp_dist ?st ! s = 0" "sp_prev ?st ! s = None" using search_invD' (4,5) [OF inv] sv d_other [of s] by (simp_all add: st(2))
  next
    fix w assume w: "w < fn_n net"
    show "sp_dist ?st ! w \<le> kInf" using search_invD (1) [OF inv w] mono [of w] by simp
    show "w \<in> set (sp_queue ?st)" if "sp_inQueue ?st ! w"
    proof (cases "w = ?v")
      case False
      then have "sp_inQueue st ! w" using that by (simp add: st(3) split: if_splits)
      then show ?thesis using search_invD (4) [OF inv w] qq(1) by auto
    qed (simp add: vq)
    show "pot w - pot s \<le> sp_dist ?st ! w" if "sp_dist ?st ! w < kInf"
      using search_invD (2) [OF inv w] that nd_low d_other [of w] d_v by (cases "w = ?v") auto
    show "chain net (sp_prev ?st) s w" if "sp_dist ?st ! w < kInf"
      using search_invD (3) [OF inv w] that chv ch [of w] d_other [of w] by (cases "w = ?v") auto
    fix b assume b: "sp_prev ?st ! w = Some b"
    have "b < arcs net \<and> head_of net b = w \<and> residual net b \<and> sp_dist ?st ! tail_of net b < kInf \<and>
        sp_dist ?st ! tail_of net b + cost_of net b \<le> sp_dist ?st ! w"
    proof (cases "w = ?v")
      case True
      then have "b = a" using b lens vn by (simp add: st(2))
      then show ?thesis using True a r uv du d_v d_other [of u] by simp
    next
      case False
      then have "sp_prev st ! w = Some b" using b by (simp add: st(2))
      from search_invD (5) [OF inv w this] show ?thesis
        using mono [of "tail_of net b"] d_other [OF False] by auto
    qed
    then show "b < arcs net" "head_of net b = w" "residual net b" "sp_dist ?st ! tail_of net b < kInf"
        "sp_dist ?st ! tail_of net b + cost_of net b \<le> sp_dist ?st ! w" by simp_all
  next
    fix w assume "w \<in> set (sp_queue ?st)"
    then have "w = ?v \<or> w \<in> set (sp_queue st)" using qq by auto
    then have "w < fn_n net \<and> sp_dist ?st ! w < kInf"
      using search_invD' (6) [OF inv] vn nd_inf d_v d_other [of w] by (cases "w = ?v") auto
    then show "w < fn_n net" "sp_dist ?st ! w < kInf" by simp_all
  qed
  moreover have "search_weight net s pot ?st < search_weight net s pot st"
    unfolding search_weight_def using vn d_v d_other r(4) nd_low by (intro sum_one_less [of ?v]) auto
  moreover have "w \<in> set (sp_queue ?st)" if "sp_dist ?st ! w \<noteq> sp_dist st ! w" for w
    using that d_other [of w] vq by (cases "w = ?v") auto
  ultimately have "search_inv net s pot ?st" "search_step net s pot st ?st"
    unfolding search_step_def using mono qq(1) by auto
  moreover have "scanned net ?st a" using d_v d_other [OF uv] r(3) a(2) by (simp add: scanned_def)
  ultimately show ?thesis using d_other [OF uv] by simp
qed

section \<open>The loop\<close>

definition settled :: "flow_net \<Rightarrow> spfa_state \<Rightarrow> bool" where
  "settled net st \<longleftrightarrow> (\<forall>a < arcs net. sp_dist st ! tail_of net a < kInf \<longrightarrow>
     tail_of net a \<notin> set (sp_queue st) \<longrightarrow> scanned net st a)"

lemma relax_fold:
  assumes wf: "wf_net net" and pot: "pot_ok net pot" and s: "s < fn_n net"
    and as: "\<forall>a \<in> set as. a < arcs net \<and> tail_of net a = u" and inv: "search_inv net s pot st" and du: "sp_dist st ! u < kInf"
  shows "search_inv net s pot (fold (relax net u) as st) \<and> search_step net s pot st (fold (relax net u) as st) \<and>
    sp_dist (fold (relax net u) as st) ! u = sp_dist st ! u \<and> (\<forall>a \<in> set as. scanned net (fold (relax net u) as st) a)"
  using as inv du
proof (induction as rule: rev_induct)
  case (snoc a as)
  let ?st = "fold (relax net u) as st"
  have ih: "search_inv net s pot ?st" "search_step net s pot st ?st" "sp_dist ?st ! u = sp_dist st ! u"
      "\<forall>a \<in> set as. scanned net ?st a"
    using snoc by auto
  have a: "a < arcs net" "tail_of net a = u" "sp_dist ?st ! u < kInf" using snoc.prems ih(3) by auto
  note step = relax_step [OF wf pot s ih(1) a]
  have "scanned net (relax net u a ?st) b" if "b \<in> set as" for b
  proof -
    have b: "b < arcs net" "tail_of net b = u" "scanned net ?st b" using snoc.prems(1) ih(4) that by auto
    have "head_of net b < fn_n net" using wf b(1) by (simp add: wf_net_def)
    then have "sp_dist (relax net u a ?st) ! head_of net b \<le> sp_dist ?st ! head_of net b" using step by (simp add: search_step_def)
    then show ?thesis using b(2,3) step by (auto simp: scanned_def)
  qed
  then show ?case using step ih search_step_trans [OF ih(2)] by auto
qed simp

lemma visit_inv:
  assumes wf: "wf_net net" and pot: "pot_ok net pot" and s: "s < fn_n net" and inv: "search_inv net s pot st"
    and settled: "settled net st" and queue: "sp_queue st = u # q"
  shows "search_inv net s pot (visit net u q st)" "settled net (visit net u q st)"
    "search_weight net s pot (visit net u q st) < search_weight net s pot st \<or>
       search_weight net s pot (visit net u q st) = search_weight net s pot st \<and> length (sp_queue (visit net u q st)) < length (sp_queue st)"
proof -
  let ?st0 = "st\<lparr>sp_queue := q, sp_inQueue := (sp_inQueue st)[u := False]\<rparr>" and ?st1 = "visit net u q st"
  have u: "u < fn_n net" "sp_dist st ! u < kInf" using inv queue by (auto simp: search_inv_def)
  have inv0: "search_inv net s pot ?st0"
    using inv queue by (auto simp: search_inv_def nth_list_update split: if_splits)
  have adj: "set (fn_adj net ! u) = {a. a < arcs net \<and> tail_of net a = u}" using wf u(1) by (simp add: wf_net_def)
  have f: "search_inv net s pot ?st1" "search_step net s pot ?st0 ?st1" "\<forall>a \<in> set (fn_adj net ! u). scanned net ?st1 a"
    using relax_fold [OF wf pot s, of "fn_adj net ! u" u ?st0] adj inv0 u(2) unfolding visit_def by auto
  show "search_inv net s pot ?st1" by (rule f(1))
  show "settled net ?st1"
    unfolding settled_def
  proof (intro allI impI)
    fix a assume a: "a < arcs net" "sp_dist ?st1 ! tail_of net a < kInf" "tail_of net a \<notin> set (sp_queue ?st1)"
    show "scanned net ?st1 a"
    proof (cases "tail_of net a = u")
      case True
      then show ?thesis using f(3) adj a(1) by auto
    next
      case False
      have "sp_dist ?st1 ! tail_of net a = sp_dist st ! tail_of net a" "tail_of net a \<notin> set q"
        using f(2) a(3) wf_tail [OF wf a(1)] by (auto simp: search_step_def)
      then have "scanned net ?st0 a" using settled a(1,2) False queue by (auto simp: settled_def scanned_def)
      then show ?thesis using scanned_step [OF f(2) wf a(1) _ a(3)] by blast
    qed
  qed
  have "search_weight net s pot ?st0 = search_weight net s pot st" by (simp add: search_weight_def)
  then show "search_weight net s pot ?st1 < search_weight net s pot st \<or>
      search_weight net s pot ?st1 = search_weight net s pot st \<and> length (sp_queue ?st1) < length (sp_queue st)"
    using f(2) queue by (auto simp: search_step_def)
qed

lemma spfa_returns:
  assumes wf: "wf_net net" and pot: "pot_ok net pot" and s: "s < fn_n net"
    and "search_inv net s pot st" "settled net st"
  shows "\<exists>st'. spfa net st = Some st' \<and> search_inv net s pot st' \<and> settled net st' \<and> sp_queue st' = []"
  using assms(4,5)
proof (induction st rule: wf_induct [of "inv_image (less_than <*lex*> less_than) (\<lambda>st. (search_weight net s pot st, length (sp_queue st)))"])
  case 1
  show ?case by (intro wf_inv_image wf_lex_prod wf_less_than)
next
  case (2 st)
  show ?case
  proof (cases "sp_queue st")
    case Nil
    then show ?thesis using 2 by (subst spfa.simps) auto
  next
    case (Cons u q)
    note v = visit_inv [OF wf pot s 2(2,3) Cons]
    have "\<exists>st'. spfa net (visit net u q st) = Some st' \<and> search_inv net s pot st' \<and> settled net st' \<and> sp_queue st' = []"
      using 2(1) v by auto
    then show ?thesis using Cons by (subst spfa.simps) auto
  qed
qed

lemma start_inv:
  assumes "s < fn_n net" "wf_net net"
  shows "search_inv net s pot (spfa_start net s)" "settled net (spfa_start net s)"
  using assms
  by (auto simp: search_inv_def spfa_start_def settled_def kInf_def nth_list_update wf_tail intro: chain_start split: if_splits)

end
