(* ===== verification/FlowPath.thy ===== *)
theory FlowPath
  imports FlowSearch
begin

text \<open>
  Augmenting along the predecessor chain: the walk back from the sink visits every arc once, the
  pushed amount fits every arc of it, and the update keeps the network well formed, moves that amount
  from the source to the sink and has the cost of the path.
\<close>

section \<open>Walks\<close>

inductive walk :: "flow_net \<Rightarrow> nat option list \<Rightarrow> nat \<Rightarrow> nat \<Rightarrow> nat list \<Rightarrow> bool" for net prev s where
  walk_start: "walk net prev s s []"
| walk_step: "prev ! v = Some a \<Longrightarrow> v \<noteq> s \<Longrightarrow> walk net prev s (tail_of net a) P \<Longrightarrow> walk net prev s v (a # P)"

inductive_cases walk_ConsE: "walk net prev s v (a # P)"

lemma chain_walk: "chain net prev s v \<Longrightarrow> \<exists>P. walk net prev s v P"
proof (induction rule: chain.induct)
  case chain_start
  show ?case using walk.walk_start by blast
next
  case (chain_step v a)
  then show ?case using walk.walk_step by blast
qed

lemma walk_unique: "walk net prev s v P \<Longrightarrow> walk net prev s v Q \<Longrightarrow> P = Q"
proof (induction arbitrary: Q rule: walk.induct)
  case walk_start
  then show ?case by (rule walk.cases) simp_all
next
  case (walk_step v a P)
  from walk_step.prems show ?case
  proof (rule walk.cases)
    assume "v = s" then show ?thesis using walk_step.hyps by simp
  next
    fix x b R
    assume "v = x" "Q = b # R" "prev ! x = Some b" "walk net prev s (tail_of net b) R"
    then show ?thesis using walk_step.hyps(1) walk_step.IH by simp
  qed
qed

lemma walk_from:
  assumes "walk net prev s v P" "a \<in> set P"
  shows "\<exists>x Q. prev ! x = Some a \<and> walk net prev s x (a # Q) \<and> length Q < length P"
  using assms
proof (induction rule: walk.induct)
  case (walk_step v b P)
  show ?case
  proof (cases "a = b")
    case True
    then show ?thesis using walk_step walk.walk_step [of prev v b s net P] by auto
  next
    case False
    then obtain x Q where "prev ! x = Some a" "walk net prev s x (a # Q)" "length Q < length P" using walk_step by auto
    then show ?thesis by (intro exI [of _ x] exI [of _ Q]) auto
  qed
qed simp

definition walk_ok :: "flow_net \<Rightarrow> nat option list \<Rightarrow> nat \<Rightarrow> bool" where
  "walk_ok net prev v \<longleftrightarrow> (\<forall>a. prev ! v = Some a \<longrightarrow> a < arcs net \<and> head_of net a = v)"

lemma walk_arcs:
  assumes "walk net prev s v P" "\<forall>x < fn_n net. walk_ok net prev x" "wf_net net" "v < fn_n net" "a \<in> set P"
  shows "a < arcs net \<and> head_of net a < fn_n net \<and> head_of net a \<noteq> s \<and> prev ! head_of net a = Some a"
  using assms(1,4,5)
proof (induction rule: walk.induct)
  case (walk_step v b P)
  have b: "b < arcs net" "head_of net b = v" using assms(2) walk_step by (auto simp: walk_ok_def)
  then show ?case using walk_step wf_tail [OF assms(3) b(1)] by auto
qed simp

lemma walk_distinct:
  assumes "walk net prev s v P" "\<forall>x < fn_n net. walk_ok net prev x" "wf_net net" "v < fn_n net"
  shows "distinct P"
  using assms(1,4)
proof (induction rule: walk.induct)
  case (walk_step v a P)
  have a: "a < arcs net" "head_of net a = v" using assms(2) walk_step by (auto simp: walk_ok_def)
  have "a \<notin> set P"
  proof
    assume "a \<in> set P"
    from walk_from [OF walk_step.hyps(3) this] obtain x Q where
      x: "prev ! x = Some a" "walk net prev s x (a # Q)" "length Q < length P" by blast
    from x(2) have "walk net prev s (tail_of net a) Q" by (auto elim: walk_ConsE)
    with walk_step.hyps(3) have "Q = P" by (rule walk_unique [symmetric])
    then show False using x(3) by simp
  qed
  then show ?case using walk_step wf_tail [OF assms(3) a(1)] by simp
qed simp

lemma walk_length:
  assumes "walk net prev s v P" "\<forall>x < fn_n net. walk_ok net prev x" "wf_net net" "v < fn_n net" "s < fn_n net"
  shows "length P < fn_n net"
proof -
  have arcs: "head_of net a < fn_n net \<and> head_of net a \<noteq> s \<and> prev ! head_of net a = Some a" if "a \<in> set P" for a
    using walk_arcs [OF assms(1-4) that] by simp
  then have "inj_on (head_of net) (set P)" by (intro inj_onI) (metis option.inject)
  then have "length P = card (head_of net ` set P)"
    using distinct_card [OF walk_distinct [OF assms(1-4)]] by (simp add: card_image)
  also have "\<dots> \<le> card ({..<fn_n net} - {s})" using arcs by (intro card_mono) auto
  also have "\<dots> < fn_n net" using assms(5) by simp
  finally show ?thesis .
qed

section \<open>Pushing along an arc\<close>

definition push_arc :: "int \<Rightarrow> nat \<Rightarrow> flow_net \<Rightarrow> flow_net" where
  "push_arc p a net = addFlow (partner a) (- p) (addFlow a p net)"

definition same_shape :: "flow_net \<Rightarrow> flow_net \<Rightarrow> bool" where
  "same_shape net net' \<longleftrightarrow> fn_n net' = fn_n net \<and> fn_adj net' = fn_adj net \<and> arcs net' = arcs net \<and>
     (\<forall>a < arcs net. fe_to (fn_edges net' ! a) = fe_to (fn_edges net ! a) \<and> cap_of net' a = cap_of net a \<and> cost_of net' a = cost_of net a)"

lemma same_shape_refl [simp]: "same_shape net net"
  by (simp add: same_shape_def)

lemma same_shape_trans: "same_shape a b \<Longrightarrow> same_shape b c \<Longrightarrow> same_shape a c"
  by (simp add: same_shape_def)

lemma same_shape_ends:
  assumes "same_shape net net'" "even (arcs net)" "a < arcs net"
  shows "head_of net' a = head_of net a" "tail_of net' a = tail_of net a"
  using assms partner_less [OF assms(2,3)] by (auto simp: same_shape_def head_of_def tail_of_def)

lemma addFlow_shape: "same_shape net (addFlow a p net)"
  by (cases "a < arcs net") (auto simp: same_shape_def addFlow_def cap_of_def cost_of_def nth_list_update)

lemma push_shape: "same_shape net (push_arc p a net)"
  unfolding push_arc_def using addFlow_shape same_shape_trans by blast

lemma addFlow_flow:
  "a < arcs net \<Longrightarrow> flow_of (addFlow a p net) b = flow_of net b + (if b = a then p else 0)"
  by (simp add: flow_of_def addFlow_def)

lemma push_flow:
  assumes "a < arcs net" "even (arcs net)"
  shows "flow_of (push_arc p a net) b = flow_of net b + (if b = a then p else 0) - (if partner b = a then p else 0)"
proof -
  have "partner a < arcs (addFlow a p net)" using partner_less [OF assms(2,1)] by (simp add: addFlow_def)
  moreover have "partner b = a \<longleftrightarrow> b = partner a" by auto
  ultimately show ?thesis unfolding push_arc_def using assms(1) by (simp add: addFlow_flow)
qed

lemma push_flow':
  assumes "a < arcs net" "even (arcs net)"
  shows "flow_of (push_arc p a net) b = flow_of net b + (if b = a then p else 0) - (if b = partner a then p else 0)"
proof -
  have "partner b = a \<longleftrightarrow> b = partner a" by auto
  then show ?thesis using push_flow [OF assms, of p b] by (simp only: )
qed

lemma pathPush_walk:
  "walk net prev s v P \<Longrightarrow> pathPush net prev s v p = Some (fold (\<lambda>a p. min p (cap_of net a - flow_of net a)) P p)"
proof (induction arbitrary: p rule: walk.induct)
  case walk_start
  show ?case by (subst pathPush.simps) simp
next
  case (walk_step v a P)
  then show ?case by (subst pathPush.simps) (simp add: tail_of_def cap_of_def flow_of_def Let_def)
qed

lemma augment_walk:
  assumes "walk net prev s v P" "\<forall>a \<in> set P. a < arcs net" "even (arcs net)" "same_shape net net'"
  shows "augment prev s p v net' = Some (fold (push_arc p) P net')"
  using assms
proof (induction arbitrary: net' rule: walk.induct)
  case walk_start
  show ?case by (subst augment.simps) simp
next
  case (walk_step v a P)
  have s: "same_shape net (push_arc p a net')" using walk_step.prems(3) push_shape same_shape_trans by blast
  have "fe_to (fn_edges (push_arc p a net') ! partner a) = tail_of net a"
    using same_shape_ends(2) [OF s walk_step.prems(2)] walk_step.prems(1) by (simp add: tail_of_def)
  then show ?case
    using walk_step.IH [OF _ walk_step.prems(2) s] walk_step
    by (subst augment.simps) (simp add: Let_def push_arc_def [symmetric])
qed

section \<open>Pushing along a walk\<close>

definition outflow :: "flow_net \<Rightarrow> nat \<Rightarrow> int" where
  "outflow net v = (\<Sum>a < arcs net. if tail_of net a = v then flow_of net a else 0)"

text \<open>Every unit of flow is counted on its arc and on the reverse arc, so this is twice the cost.\<close>

definition twice_cost :: "flow_net \<Rightarrow> int" where
  "twice_cost net = (\<Sum>a < arcs net. flow_of net a * cost_of net a)"

lemma push_fold_shape: "same_shape net (fold (push_arc p) P net)"
proof (induction P arbitrary: net)
  case (Cons a P)
  then show ?case using push_shape same_shape_trans by (metis fold_simps(2))
qed simp

lemma same_shape_arcs: "same_shape net net' \<Longrightarrow> arcs net' = arcs net"
  by (simp add: same_shape_def)

lemma push_fold_flow:
  assumes "\<forall>a \<in> set P. a < arcs net" "even (arcs net)"
  shows "flow_of (fold (push_arc p) P net) b =
    flow_of net b + p * int (count_list P b) - p * int (count_list P (partner b))"
  using assms
proof (induction P arbitrary: net)
  case (Cons a P)
  have m: "arcs (push_arc p a net) = arcs net" using same_shape_arcs [OF push_shape] .
  have "flow_of (fold (push_arc p) P (push_arc p a net)) b =
      flow_of (push_arc p a net) b + p * int (count_list P b) - p * int (count_list P (partner b))"
    using Cons.IH [of "push_arc p a net"] Cons.prems m by simp
  then show ?case using push_flow [of a net p b] Cons.prems by (auto simp: algebra_simps)
qed simp

lemma sum_hits:
  fixes c :: int
  assumes "a < (m :: nat)"
  shows "(\<Sum>b < m. if g b then (if b = a then c else 0) else 0) = (if g a then c else 0)"
proof -
  have "(\<Sum>b < m. if g b then (if b = a then c else 0) else 0) = (\<Sum>b < m. if b = a then (if g a then c else 0) else 0)"
    by (rule sum.cong) auto
  then show ?thesis using assms by simp
qed

lemma push_outflow:
  assumes "a < arcs net" "even (arcs net)"
  shows "outflow (push_arc p a net) v =
    outflow net v + (if tail_of net a = v then p else 0) - (if head_of net a = v then p else 0)"
proof -
  let ?net = "push_arc p a net"
  have m: "arcs ?net = arcs net" using same_shape_arcs [OF push_shape] .
  have pa: "partner a < arcs net" using partner_less [OF assms(2,1)] .
  have "outflow ?net v = (\<Sum>b < arcs net. if tail_of net b = v then flow_of ?net b else 0)"
    unfolding outflow_def m using same_shape_ends(2) [OF push_shape assms(2)] by (intro sum.cong) auto
  also have "\<dots> = (\<Sum>b < arcs net. (if tail_of net b = v then flow_of net b else 0) +
      (if tail_of net b = v then (if b = a then p else 0) else 0) -
      (if tail_of net b = v then (if b = partner a then p else 0) else 0))"
    by (intro sum.cong refl) (simp add: push_flow' [OF assms])
  also have "\<dots> = outflow net v + (if tail_of net a = v then p else 0) - (if tail_of net (partner a) = v then p else 0)"
    unfolding sum_subtractf sum.distrib sum_hits [OF assms(1)] sum_hits [OF pa] outflow_def ..
  finally show ?thesis by simp
qed

lemma push_cost:
  assumes "a < arcs net" "even (arcs net)" "cost_of net (partner a) = - cost_of net a"
  shows "twice_cost (push_arc p a net) = twice_cost net + 2 * (p * cost_of net a)"
proof -
  let ?net = "push_arc p a net"
  have m: "arcs ?net = arcs net" using same_shape_arcs [OF push_shape] .
  have pa: "partner a < arcs net" using partner_less [OF assms(2,1)] .
  have "twice_cost ?net = (\<Sum>b < arcs net. flow_of ?net b * cost_of net b)"
    unfolding twice_cost_def m using push_shape [of net p a] by (intro sum.cong) (auto simp: same_shape_def)
  also have "\<dots> = (\<Sum>b < arcs net. flow_of net b * cost_of net b +
      (if True then (if b = a then p * cost_of net a else 0) else 0) -
      (if True then (if b = partner a then p * cost_of net (partner a) else 0) else 0))"
    by (intro sum.cong refl) (simp add: push_flow' [OF assms(1,2)] algebra_simps)
  also have "\<dots> = twice_cost net + p * cost_of net a - p * cost_of net (partner a)"
    unfolding sum_subtractf sum.distrib sum_hits [OF assms(1)] sum_hits [OF pa] twice_cost_def by simp
  finally show ?thesis by (simp add: assms(3))
qed

lemma wf_partner_cost: "wf_net net \<Longrightarrow> a < arcs net \<Longrightarrow> cost_of net (partner a) = - cost_of net a"
  by (simp add: wf_net_def)

lemma push_walk:
  assumes "walk net prev s v P" "\<forall>x < fn_n net. walk_ok net prev x" "wf_net net" "v < fn_n net" "same_shape net net'"
  shows "outflow (fold (push_arc p) P net') x = outflow net' x + (if x = s then p else 0) - (if x = v then p else 0)"
    "twice_cost (fold (push_arc p) P net') = twice_cost net' + 2 * (p * (\<Sum>a \<leftarrow> P. cost_of net a))"
proof -
  have "outflow (fold (push_arc p) P net') x = outflow net' x + (if x = s then p else 0) - (if x = v then p else 0) \<and>
    twice_cost (fold (push_arc p) P net') = twice_cost net' + 2 * (p * (\<Sum>a \<leftarrow> P. cost_of net a))"
    using assms(1,4,5)
  proof (induction arbitrary: net' rule: walk.induct)
    case (walk_step v a P)
    let ?net = "push_arc p a net'"
    have a: "a < arcs net" "head_of net a = v" using assms(2) walk_step by (auto simp: walk_ok_def)
    have ev: "even (arcs net)" "a < arcs net'" "even (arcs net')"
      using walk_step.prems(2) assms(3) a(1) by (auto simp: same_shape_def wf_net_def)
    have pa: "partner a < arcs net" by (rule partner_less [OF ev(1) a(1)])
    have ends: "head_of net' a = v" "tail_of net' a = tail_of net a"
      using same_shape_ends [OF walk_step.prems(2) ev(1) a(1)] a(2) by auto
    have costs: "cost_of net' a = cost_of net a" "cost_of net' (partner a) = - cost_of net' a"
      using walk_step.prems(2) a(1) pa wf_partner_cost [OF assms(3) a(1)] by (auto simp: same_shape_def)
    have ih: "outflow (fold (push_arc p) P ?net) x = outflow ?net x + (if x = s then p else 0) - (if x = tail_of net a then p else 0) \<and>
        twice_cost (fold (push_arc p) P ?net) = twice_cost ?net + 2 * (p * (\<Sum>a \<leftarrow> P. cost_of net a))"
      using walk_step.IH [of ?net] wf_tail [OF assms(3) a(1)] same_shape_trans [OF walk_step.prems(2) push_shape] by blast
    show ?case
      using ih push_outflow [OF ev(2,3), of p x] push_cost [OF ev(2,3) costs(2), of p]
      by (cases "x = v"; cases "x = tail_of net a") (auto simp: ends costs(1) algebra_simps)
  qed simp
  then show "outflow (fold (push_arc p) P net') x = outflow net' x + (if x = s then p else 0) - (if x = v then p else 0)"
    "twice_cost (fold (push_arc p) P net') = twice_cost net' + 2 * (p * (\<Sum>a \<leftarrow> P. cost_of net a))" by simp_all
qed

end
