(* ===== verification/FlowSolve.thy ===== *)
theory FlowSolve
  imports FlowPath
begin

text \<open>
  The outer loop of the flow engine: every round keeps the network well formed and a potential for
  its residual arcs, moves at least one unit and charges it at the length of the path; the last round
  leaves a cut without residual arcs.
\<close>

section \<open>The end of a search\<close>

lemma settled_arc:
  assumes "search_inv net s pot st" "settled net st" "sp_queue st = []" "a < arcs net" "residual net a"
    "sp_dist st ! tail_of net a < kInf"
  shows "sp_dist st ! head_of net a \<le> sp_dist st ! tail_of net a + cost_of net a"
  using assms by (auto simp: settled_def scanned_def)

lemma prev_tight:
  assumes "search_inv net s pot st" "settled net st" "sp_queue st = []" "v < fn_n net" "sp_prev st ! v = Some a"
  shows "sp_dist st ! v = sp_dist st ! tail_of net a + cost_of net a"
  using search_invD (5) [OF assms(1,4,5)] settled_arc [OF assms(1-3), of a] by auto

lemma search_walk_ok: "search_inv net s pot st \<Longrightarrow> \<forall>x < fn_n net. walk_ok net (sp_prev st) x"
  by (auto simp: walk_ok_def dest: search_invD(5))

lemma walk_dist:
  assumes "walk net (sp_prev st) s v P" "wf_net net" "search_inv net s pot st" "settled net st" "sp_queue st = []" "v < fn_n net"
  shows "sp_dist st ! v = (\<Sum>a \<leftarrow> P. cost_of net a) \<and> (\<forall>a \<in> set P. a < arcs net \<and> residual net a \<and>
    sp_dist st ! tail_of net a < kInf \<and> sp_dist st ! head_of net a = sp_dist st ! tail_of net a + cost_of net a)"
  using assms(1,6)
proof (induction rule: walk.induct)
  case walk_start
  then show ?case using search_invD' (4) [OF assms(3)] by simp
next
  case (walk_step v a P)
  have a: "a < arcs net" "head_of net a = v" "residual net a" "sp_dist st ! tail_of net a < kInf"
    using search_invD (5) [OF assms(3) walk_step.prems walk_step.hyps(1)] by auto
  have t: "sp_dist st ! v = sp_dist st ! tail_of net a + cost_of net a"
    by (rule prev_tight [OF assms(3-5) walk_step.prems walk_step.hyps(1)])
  show ?case using walk_step.IH [OF wf_tail [OF assms(2) a(1)]] a t by simp
qed

lemma sum_list_bound:
  fixes f :: "nat \<Rightarrow> int"
  assumes "\<forall>a \<in> set P. f a \<le> C"
  shows "(\<Sum>a \<leftarrow> P. f a) \<le> int (length P) * C"
  using assms by (induction P) (auto simp: algebra_simps)

section \<open>One round\<close>

lemma fold_min_bounds:
  fixes f :: "nat \<Rightarrow> int"
  shows "fold (\<lambda>a p. min p (f a)) P p \<le> p" "a \<in> set P \<Longrightarrow> fold (\<lambda>a p. min p (f a)) P p \<le> f a"
    "1 \<le> p \<Longrightarrow> \<forall>a \<in> set P. 1 \<le> f a \<Longrightarrow> 1 \<le> fold (\<lambda>a p. min p (f a)) P p"
proof -
  show le: "fold (\<lambda>a p. min p (f a)) P p \<le> p" for P p
  proof (induction P arbitrary: p)
    case (Cons b P)
    then show ?case using Cons.IH [of "min p (f b)"] by simp
  qed simp
  show "a \<in> set P \<Longrightarrow> fold (\<lambda>a p. min p (f a)) P p \<le> f a"
    using le by (induction P arbitrary: p) (force intro: order_trans [OF le])+
  show "1 \<le> p \<Longrightarrow> \<forall>a \<in> set P. 1 \<le> f a \<Longrightarrow> 1 \<le> fold (\<lambda>a p. min p (f a)) P p"
    by (induction P arbitrary: p) auto
qed

lemma wf_after_push:
  assumes "wf_net net" "distinct P" "\<forall>a \<in> set P. a < arcs net \<and> p \<le> cap_of net a - flow_of net a" "0 \<le> p"
  shows "wf_net (fold (push_arc p) P net)"
proof -
  let ?net = "fold (push_arc p) P net"
  have sh: "same_shape net ?net" by (rule push_fold_shape)
  have ev: "even (arcs net)" using assms(1) by (simp add: wf_net_def)
  have flow: "flow_of ?net b = flow_of net b + p * int (count_list P b) - p * int (count_list P (partner b))" for b
    using push_fold_flow [OF _ ev] assms(3) by blast
  show ?thesis
    unfolding wf_net_def
  proof (intro conjI allI impI)
    show "length (fn_adj ?net) = fn_n ?net" "even (arcs ?net)" using sh assms(1) by (simp_all add: same_shape_def wf_net_def)
  next
    fix b assume "b < arcs ?net"
    then have b: "b < arcs net" using sh by (simp add: same_shape_def)
    have pb: "partner b < arcs net" by (rule partner_less [OF ev b])
    show "head_of ?net b < fn_n ?net" using sh b assms(1) same_shape_ends [OF sh ev b] by (simp add: same_shape_def wf_net_def)
    show "cost_of ?net (partner b) = - cost_of ?net b"
      using sh b pb wf_partner_cost [OF assms(1) b] by (simp add: same_shape_def)
    show "flow_of ?net (partner b) = - flow_of ?net b" using b assms(1) by (simp add: flow wf_net_def)
    have old: "flow_of net b \<le> cap_of net b" using assms(1) b by (simp add: wf_net_def)
    have "p * int (count_list P b) \<le> cap_of net b - flow_of net b"
    proof (cases "b \<in> set P")
      case True
      then have "count_list P b = 1" using assms(2) by (simp add: count_list_distinct)
      then show ?thesis using assms(3) True by simp
    next
      case False
      then show ?thesis using old by (simp add: count_notin)
    qed
    moreover have "0 \<le> p * int (count_list P (partner b))" using assms(4) by simp
    ultimately show "flow_of ?net b \<le> cap_of ?net b" using sh b by (simp add: flow same_shape_def)
  next
    fix u assume "u < fn_n ?net"
    then show "set (fn_adj ?net ! u) = {a. a < arcs ?net \<and> tail_of ?net a = u}"
      using sh assms(1) same_shape_ends(2) [OF sh ev] by (auto simp: same_shape_def wf_net_def)
  qed
qed

definition small_costs :: "flow_net \<Rightarrow> int \<Rightarrow> bool" where
  "small_costs net C \<longleftrightarrow> 0 \<le> C \<and> int (fn_n net) * C < kInf \<and> (\<forall>a < arcs net. \<bar>cost_of net a\<bar> \<le> C)"

lemma dist_room:
  assumes "wf_net net" "search_inv net s pot st" "settled net st" "sp_queue st = []" "v < fn_n net" "s < fn_n net"
    "small_costs net C" "sp_dist st ! v < kInf"
  shows "sp_dist st ! v + C < kInf"
proof -
  obtain P where P: "walk net (sp_prev st) s v P" using chain_walk [OF search_invD (3) [OF assms(2,5,8)]] by blast
  have len: "length P < fn_n net" by (rule walk_length [OF P search_walk_ok [OF assms(2)] assms(1,5,6)])
  have d: "sp_dist st ! v = (\<Sum>a \<leftarrow> P. cost_of net a)" "\<forall>a \<in> set P. a < arcs net"
    using walk_dist [OF P assms(1-5)] by auto
  then have "\<forall>a \<in> set P. cost_of net a \<le> C" using assms(7) unfolding small_costs_def by fastforce
  then have "sp_dist st ! v \<le> int (length P) * C" unfolding d(1) by (rule sum_list_bound)
  then have "sp_dist st ! v + C \<le> int (Suc (length P)) * C" by (simp add: algebra_simps)
  also have "\<dots> \<le> int (fn_n net) * C" using len assms(7) by (intro mult_right_mono) (auto simp: small_costs_def)
  finally show ?thesis using assms(7) by (simp add: small_costs_def)
qed

lemma settled_head:
  assumes "wf_net net" "search_inv net s pot st" "settled net st" "sp_queue st = []" "s < fn_n net" "small_costs net C"
    "a < arcs net" "sp_dist st ! tail_of net a < kInf" "residual net a"
  shows "sp_dist st ! head_of net a < kInf" "sp_dist st ! head_of net a \<le> sp_dist st ! tail_of net a + cost_of net a"
proof -
  show "sp_dist st ! head_of net a \<le> sp_dist st ! tail_of net a + cost_of net a"
    by (rule settled_arc [OF assms(2-4,7,9,8)])
  moreover have "cost_of net a \<le> C" using assms(6,7) unfolding small_costs_def by fastforce
  ultimately show "sp_dist st ! head_of net a < kInf"
    using dist_room [OF assms(1-4) wf_tail [OF assms(1,7)] assms(5,6,8)] by simp
qed

lemma new_potential:
  assumes wf: "wf_net net" and inv: "search_inv net s pot st" "settled net st" "sp_queue st = []" and s: "s < fn_n net"
    and small: "small_costs net C" and pot: "pot_ok net pot" and shape: "same_shape net net'"
    and new: "\<And>a. a < arcs net \<Longrightarrow> residual net' a \<Longrightarrow> residual net a \<or> (sp_dist st ! tail_of net a < kInf \<and>
      sp_dist st ! head_of net a < kInf \<and> sp_dist st ! head_of net a = sp_dist st ! tail_of net a + cost_of net a)"
  shows "\<exists>pot'. pot_ok net' pot'"
proof -
  define K where "K = (\<Sum>a < arcs net. \<bar>cost_of net a\<bar> + \<bar>pot (tail_of net a)\<bar> + \<bar>sp_dist st ! head_of net a\<bar>)"
  define pot' where "pot' v = (if sp_dist st ! v < kInf then sp_dist st ! v else pot v + K)" for v
  have K: "\<bar>cost_of net a\<bar> + \<bar>pot (tail_of net a)\<bar> + \<bar>sp_dist st ! head_of net a\<bar> \<le> K" if "a < arcs net" for a
    unfolding K_def using that by (intro member_le_sum [where f = "\<lambda>a. \<bar>cost_of net a\<bar> + \<bar>pot (tail_of net a)\<bar> + \<bar>sp_dist st ! head_of net a\<bar>"]) auto
  have ev: "even (arcs net)" using wf by (simp add: wf_net_def)
  have good: "0 \<le> cost_of net a + pot' (tail_of net a) - pot' (head_of net a)" if a: "a < arcs net" "residual net' a" for a
  proof (cases "residual net a")
    case False
    then show ?thesis using new [OF a] by (simp add: pot'_def)
  next
    case True
    show ?thesis
    proof (cases "sp_dist st ! tail_of net a < kInf")
      case tail: True
      then show ?thesis using settled_head [OF wf inv s small a(1) tail True] by (simp add: pot'_def)
    next
      case tail: False
      have "0 \<le> cost_of net a + pot (tail_of net a) - pot (head_of net a)" using pot a(1) True by (simp add: pot_ok_def)
      then show ?thesis using tail K [OF a(1)] by (auto simp: pot'_def)
    qed
  qed
  have "pot_ok net' pot'"
    unfolding pot_ok_def
  proof (intro allI impI)
    fix a assume "a < arcs net'" "residual net' a"
    then show "0 \<le> cost_of net' a + pot' (tail_of net' a) - pot' (head_of net' a)"
      using good [of a] shape same_shape_ends [OF shape ev, of a] by (simp add: same_shape_def)
  qed
  then show ?thesis by blast
qed

lemma round_ok:
  assumes wf: "wf_net net" and inv: "search_inv net s pot st" "settled net st" "sp_queue st = []" and s: "s < fn_n net"
    and t: "t < fn_n net" "s \<noteq> t" and small: "small_costs net C" and pot: "pot_ok net pot" and dt: "sp_dist st ! t < kInf"
  shows "\<exists>p net'. pathPush net (sp_prev st) s t kInf = Some p \<and> augment (sp_prev st) s p t net = Some net' \<and> 1 \<le> p \<and>
    wf_net net' \<and> same_shape net net' \<and> (\<exists>pot'. pot_ok net' pot') \<and>
    (\<forall>v. outflow net' v = outflow net v + (if v = s then p else 0) - (if v = t then p else 0)) \<and>
    twice_cost net' = twice_cost net + 2 * (p * sp_dist st ! t)"
proof -
  obtain P where P: "walk net (sp_prev st) s t P" using chain_walk [OF search_invD (3) [OF inv(1) t(1) dt]] by blast
  note ok = search_walk_ok [OF inv(1)]
  define p where "p = fold (\<lambda>a p. min p (cap_of net a - flow_of net a)) P kInf"
  define net' where "net' = fold (push_arc p) P net"
  have d: "sp_dist st ! t = (\<Sum>a \<leftarrow> P. cost_of net a)" "\<And>a. a \<in> set P \<Longrightarrow> a < arcs net \<and> residual net a \<and>
      sp_dist st ! tail_of net a < kInf \<and> sp_dist st ! head_of net a = sp_dist st ! tail_of net a + cost_of net a"
    using walk_dist [OF P wf inv t(1)] by auto
  have ev: "even (arcs net)" using wf by (simp add: wf_net_def)
  have "1 \<le> cap_of net a - flow_of net a" if "a \<in> set P" for a using d(2) [OF that] by (simp add: residual_def)
  then have p1: "1 \<le> p" unfolding p_def by (intro fold_min_bounds) (auto simp: kInf_def)
  have pa: "p \<le> cap_of net a - flow_of net a" if "a \<in> set P" for a
    unfolding p_def using that by (rule fold_min_bounds)
  have dist: "distinct P" by (rule walk_distinct [OF P ok wf t(1)])
  have shape: "same_shape net net'" unfolding net'_def by (rule push_fold_shape)
  have flow: "flow_of net' b = flow_of net b + p * int (count_list P b) - p * int (count_list P (partner b))" for b
    unfolding net'_def using push_fold_flow [OF _ ev] d(2) by blast
  have "\<exists>pot'. pot_ok net' pot'"
  proof (rule new_potential [OF wf inv s small pot shape])
    fix a assume a: "a < arcs net" "residual net' a"
    show "residual net a \<or> (sp_dist st ! tail_of net a < kInf \<and> sp_dist st ! head_of net a < kInf \<and>
        sp_dist st ! head_of net a = sp_dist st ! tail_of net a + cost_of net a)"
    proof (cases "partner a \<in> set P")
      case True
      note q = d(2) [OF True]
      have "residual net (partner a)" "sp_dist st ! tail_of net (partner a) < kInf" "partner a < arcs net" using q by auto
      from settled_head [OF wf inv s small this(3,2,1)] q show ?thesis
        using wf_partner_cost [OF wf a(1)] by simp
    next
      case False
      then have "flow_of net a \<le> flow_of net' a" using flow [of a] p1 by (simp add: count_notin)
      then show ?thesis using a shape by (simp add: residual_def same_shape_def)
    qed
  qed
  moreover have "wf_net net'" unfolding net'_def using wf_after_push [OF wf dist] d(2) pa p1 by simp
  moreover have "pathPush net (sp_prev st) s t kInf = Some p" using pathPush_walk [OF P] by (simp add: p_def)
  moreover have "augment (sp_prev st) s p t net = Some net'"
    unfolding net'_def using augment_walk [OF P _ ev same_shape_refl] d(2) by blast
  moreover have "outflow net' v = outflow net v + (if v = s then p else 0) - (if v = t then p else 0)"
    "twice_cost net' = twice_cost net + 2 * (p * sp_dist st ! t)" for v
    unfolding net'_def d(1) by (rule push_walk [OF P ok wf t(1) same_shape_refl])+
  ultimately show ?thesis using p1 shape by blast
qed

section \<open>The whole computation\<close>

definition source_slack :: "flow_net \<Rightarrow> nat \<Rightarrow> nat" where
  "source_slack net s = nat ((\<Sum>a < arcs net. if tail_of net a = s then cap_of net a else 0) - outflow net s)"

lemma outflow_le_caps:
  assumes "wf_net net"
  shows "outflow net s \<le> (\<Sum>a < arcs net. if tail_of net a = s then cap_of net a else 0)"
  unfolding outflow_def using assms by (intro sum_mono) (auto simp: wf_net_def)

definition saturated_cut :: "flow_net \<Rightarrow> nat \<Rightarrow> nat \<Rightarrow> bool" where
  "saturated_cut net s t \<longleftrightarrow> (\<exists>S. S \<subseteq> {..<fn_n net} \<and> s \<in> S \<and> t \<notin> S \<and>
     (\<forall>a < arcs net. tail_of net a \<in> S \<longrightarrow> head_of net a \<notin> S \<longrightarrow> flow_of net a = cap_of net a))"

lemma small_costs_shape: "same_shape net net' \<Longrightarrow> small_costs net C \<Longrightarrow> small_costs net' C"
  by (simp add: small_costs_def same_shape_def)

lemma caps_shape:
  assumes "same_shape net net'" "even (arcs net)"
  shows "(\<Sum>a < arcs net'. if tail_of net' a = s then cap_of net' a else 0) = (\<Sum>a < arcs net. if tail_of net a = s then cap_of net a else 0)"
  using assms(1) same_shape_ends [OF assms] by (intro sum.cong) (auto simp: same_shape_def)

lemma solve_returns:
  assumes "wf_net net" "\<exists>pot. pot_ok net pot" "s < fn_n net" "t < fn_n net" "s \<noteq> t" "small_costs net C"
  shows "\<exists>F' K' net'. solveLoop s t F K net = Some (F', K', net') \<and> wf_net net' \<and> same_shape net net' \<and>
    (\<exists>pot. pot_ok net' pot) \<and> saturated_cut net' s t \<and>
    (\<forall>v. outflow net' v = outflow net v + (if v = s then F' - F else 0) - (if v = t then F' - F else 0)) \<and>
    twice_cost net' = twice_cost net + 2 * (K' - K)"
  using assms
proof (induction "source_slack net s" arbitrary: net F K rule: less_induct)
  case less
  note wf = less.prems(1) and s = less.prems(3) and t = less.prems(4,5) and small = less.prems(6)
  obtain pot where pot: "pot_ok net pot" using less.prems(2) by blast
  have ev: "even (arcs net)" using wf by (simp add: wf_net_def)
  obtain st where st: "spfa net (spfa_start net s) = Some st" "search_inv net s pot st" "settled net st" "sp_queue st = []"
    using spfa_returns [OF wf pot s start_inv [OF s wf]] by blast
  show ?case
  proof (cases "sp_dist st ! t = kInf")
    case True
    have "saturated_cut net s t"
      unfolding saturated_cut_def
    proof (intro exI conjI allI impI)
      let ?S = "{v. v < fn_n net \<and> sp_dist st ! v < kInf}"
      show "?S \<subseteq> {..<fn_n net}" "s \<in> ?S" "t \<notin> ?S" using s True search_invD' (4) [OF st(2)] by (auto simp: kInf_def)
      fix a assume a: "a < arcs net" "tail_of net a \<in> ?S" "head_of net a \<notin> ?S"
      have "head_of net a < fn_n net" "flow_of net a \<le> cap_of net a" using wf a(1) by (auto simp: wf_net_def)
      then show "flow_of net a = cap_of net a"
        using settled_head (1) [OF wf st(2-4) s small a(1)] a(2,3) by (cases "residual net a") (auto simp: residual_def)
    qed
    then have "solveLoop s t F K net = Some (F, K, net) \<and> wf_net net \<and> same_shape net net \<and> (\<exists>pot. pot_ok net pot) \<and>
        saturated_cut net s t"
      using wf pot st(1) True by (subst solveLoop.simps) auto
    then show ?thesis by (intro exI [of _ F] exI [of _ K] exI [of _ net]) simp
  next
    case False
    then have dt: "sp_dist st ! t < kInf" using search_invD (1) [OF st(2) t(1)] by simp
    obtain p net' where r: "pathPush net (sp_prev st) s t kInf = Some p" "augment (sp_prev st) s p t net = Some net'" "1 \<le> p"
        "wf_net net'" "same_shape net net'" "\<exists>pot'. pot_ok net' pot'"
        "\<And>v. outflow net' v = outflow net v + (if v = s then p else 0) - (if v = t then p else 0)"
        "twice_cost net' = twice_cost net + 2 * (p * sp_dist st ! t)"
      using round_ok [OF wf st(2-4) s t small pot dt] by blast
    have n: "s < fn_n net'" "t < fn_n net'" using s t r(5) by (simp_all add: same_shape_def)
    have "outflow net' s = outflow net s + p" using r(7) [of s] t(2) by simp
    then have "source_slack net' s < source_slack net s"
      using outflow_le_caps [OF r(4), of s] r(3) caps_shape [OF r(5) ev, of s] by (simp add: source_slack_def)
    from less.hyps [OF this r(4,6) n t(2) small_costs_shape [OF r(5) small], of "F + p" "K + p * sp_dist st ! t"]
    obtain F' K' net'' where l: "solveLoop s t (F + p) (K + p * sp_dist st ! t) net' = Some (F', K', net'')" "wf_net net''"
        "same_shape net' net''" "\<exists>pot. pot_ok net'' pot" "saturated_cut net'' s t"
        "\<And>v. outflow net'' v = outflow net' v + (if v = s then F' - (F + p) else 0) - (if v = t then F' - (F + p) else 0)"
        "twice_cost net'' = twice_cost net' + 2 * (K' - (K + p * sp_dist st ! t))"
      by blast
    have "solveLoop s t F K net = Some (F', K', net'')"
      using st(1) r(1,2) l(1) False by (subst solveLoop.simps) simp
    moreover have "\<forall>v. outflow net'' v = outflow net v + (if v = s then F' - F else 0) - (if v = t then F' - F else 0)"
      using l(6) r(7) by auto
    moreover have "twice_cost net'' = twice_cost net + 2 * (K' - K)" using l(7) r(8) by (simp add: algebra_simps)
    ultimately show ?thesis using l(2,4,5) same_shape_trans [OF r(5) l(3)] by blast
  qed
qed

end
