(* ===== verification/FlowOpt.thy ===== *)
theory FlowOpt
  imports FlowSolve
begin

text \<open>
  Why the result is optimal: a saturated cut bounds the value of every flow, and a potential bounds
  the cost of every flow of the same value. Here a flow is any function on the arcs of the network
  that is opposite on an arc and its reverse.
\<close>

definition skew :: "flow_net \<Rightarrow> (nat \<Rightarrow> int) \<Rightarrow> bool" where
  "skew net g \<longleftrightarrow> (\<forall>a < arcs net. g (partner a) = - g a \<and> g a \<le> cap_of net a)"

definition outg :: "flow_net \<Rightarrow> (nat \<Rightarrow> int) \<Rightarrow> nat \<Rightarrow> int" where
  "outg net g v = (\<Sum>a < arcs net. if tail_of net a = v then g a else 0)"

lemma outflow_outg: "outflow net v = outg net (flow_of net) v"
  by (simp add: outflow_def outg_def)

lemma wf_skew: "wf_net net \<Longrightarrow> skew net (flow_of net)"
  by (simp add: wf_net_def skew_def)

lemma sum_partner:
  fixes f :: "nat \<Rightarrow> int"
  assumes "even m"
  shows "(\<Sum>a < m. f a) = (\<Sum>a < m. f (partner a))"
  using assms by (intro sum.reindex_bij_witness [of _ partner partner]) (auto simp: partner_less)

lemma sum_skew_zero:
  fixes h :: "nat \<Rightarrow> int"
  assumes "even m" "\<And>a. a < m \<Longrightarrow> h (partner a) = - h a"
  shows "(\<Sum>a < m. h a) = 0"
proof -
  have "(\<Sum>a < m. h a) = (\<Sum>a < m. - h a)"
    unfolding sum_partner [OF assms(1), of h] using assms(2) by (intro sum.cong) auto
  then show ?thesis by (simp add: sum_negf)
qed

lemma outg_sum:
  assumes "finite S"
  shows "(\<Sum>v \<in> S. c v * outg net g v) = (\<Sum>a < arcs net. if tail_of net a \<in> S then c (tail_of net a) * g a else 0)"
proof -
  have "(\<Sum>v \<in> S. c v * outg net g v) = (\<Sum>v \<in> S. \<Sum>a < arcs net. if tail_of net a = v then c (tail_of net a) * g a else 0)"
    unfolding outg_def sum_distrib_left by (intro sum.cong refl) auto
  also have "\<dots> = (\<Sum>a < arcs net. \<Sum>v \<in> S. if tail_of net a = v then c (tail_of net a) * g a else 0)" by (rule sum.swap)
  also have "\<dots> = (\<Sum>a < arcs net. if tail_of net a \<in> S then c (tail_of net a) * g a else 0)" using assms by simp
  finally show ?thesis .
qed

lemma cut_value:
  assumes "wf_net net" "skew net g" "finite S" "s \<in> S" "t \<notin> S" "\<And>v. v \<noteq> s \<Longrightarrow> v \<noteq> t \<Longrightarrow> outg net g v = 0"
  shows "outg net g s = (\<Sum>a < arcs net. if tail_of net a \<in> S \<and> head_of net a \<notin> S then g a else 0)"
proof -
  have ev: "even (arcs net)" using assms(1) by (simp add: wf_net_def)
  have "outg net g s = (\<Sum>v \<in> S. outg net g v)"
  proof -
    have "(\<Sum>v \<in> S - {s}. outg net g v) = 0" using assms(5,6) by (intro sum.neutral) force
    then show ?thesis using sum.remove [OF assms(3,4), of "outg net g"] by simp
  qed
  also have "\<dots> = (\<Sum>a < arcs net. if tail_of net a \<in> S then g a else 0)" using outg_sum [OF assms(3), of "\<lambda>_. 1" net g] by (simp cong: if_cong)
  also have "\<dots> = (\<Sum>a < arcs net. (if tail_of net a \<in> S \<and> head_of net a \<notin> S then g a else 0) +
      (if tail_of net a \<in> S \<and> head_of net a \<in> S then g a else 0))"
    by (intro sum.cong) auto
  also have "\<dots> = (\<Sum>a < arcs net. if tail_of net a \<in> S \<and> head_of net a \<notin> S then g a else 0) +
      (\<Sum>a < arcs net. if tail_of net a \<in> S \<and> head_of net a \<in> S then g a else 0)" by (rule sum.distrib)
  also have "(\<Sum>a < arcs net. if tail_of net a \<in> S \<and> head_of net a \<in> S then g a else 0) = 0"
    using assms(2) by (intro sum_skew_zero [OF ev]) (auto simp: skew_def)
  finally show ?thesis by simp
qed

lemma cut_maximal:
  assumes "wf_net net" "saturated_cut net s t" "skew net g"
    "\<And>v. v \<noteq> s \<Longrightarrow> v \<noteq> t \<Longrightarrow> outg net g v = 0" "\<And>v. v \<noteq> s \<Longrightarrow> v \<noteq> t \<Longrightarrow> outflow net v = 0"
  shows "outg net g s \<le> outflow net s"
proof -
  obtain S where S: "S \<subseteq> {..<fn_n net}" "s \<in> S" "t \<notin> S"
      "\<And>a. a < arcs net \<Longrightarrow> tail_of net a \<in> S \<Longrightarrow> head_of net a \<notin> S \<Longrightarrow> flow_of net a = cap_of net a"
    using assms(2) unfolding saturated_cut_def by blast
  have fin: "finite S" using S(1) finite_subset by blast
  have "outg net g s = (\<Sum>a < arcs net. if tail_of net a \<in> S \<and> head_of net a \<notin> S then g a else 0)"
    using assms(4) by (intro cut_value [OF assms(1,3) fin S(2,3)]) auto
  also have "\<dots> \<le> (\<Sum>a < arcs net. if tail_of net a \<in> S \<and> head_of net a \<notin> S then flow_of net a else 0)"
    using assms(3) S(4) by (intro sum_mono) (auto simp: skew_def)
  also have "\<dots> = outg net (flow_of net) s"
    using assms(5) by (intro cut_value [OF assms(1) wf_skew [OF assms(1)] fin S(2,3), symmetric]) (auto simp: outflow_outg)
  finally show ?thesis by (simp add: outflow_outg)
qed

lemma outg_total:
  assumes "wf_net net" "skew net g" "s < fn_n net" "t < fn_n net" "s \<noteq> t" "\<And>v. v \<noteq> s \<Longrightarrow> v \<noteq> t \<Longrightarrow> outg net g v = 0"
  shows "outg net g t = - outg net g s"
proof -
  have ev: "even (arcs net)" using assms(1) by (simp add: wf_net_def)
  have "(\<Sum>v < fn_n net. outg net g v) = (\<Sum>v \<in> {s, t}. outg net g v)"
    using assms(3,4,6) by (intro sum.mono_neutral_right) auto
  moreover have "(\<Sum>v < fn_n net. outg net g v) = (\<Sum>a < arcs net. g a)"
    using outg_sum [of "{..<fn_n net}" "\<lambda>_. 1" net g] wf_tail [OF assms(1)] by simp
  moreover have "(\<Sum>a < arcs net. g a) = 0" using assms(2) by (intro sum_skew_zero [OF ev]) (simp add: skew_def)
  ultimately show ?thesis using assms(5) by simp
qed

lemma potential_cheapest:
  assumes wf: "wf_net net" and pot: "pot_ok net pot" and g: "skew net g"
    and same: "\<And>v. outg net g v = outflow net v"
  shows "twice_cost net \<le> (\<Sum>a < arcs net. g a * cost_of net a)"
proof -
  let ?d = "\<lambda>a. g a - flow_of net a"
  have ev: "even (arcs net)" using wf by (simp add: wf_net_def)
  have sk: "?d (partner a) = - ?d a" if "a < arcs net" for a using g wf that by (simp add: skew_def wf_net_def)
  have each: "0 \<le> ?d a * (cost_of net a + pot (tail_of net a) - pot (head_of net a))" if a: "a < arcs net" for a
  proof (cases "flow_of net a < g a")
    case True
    then have "residual net a" using g a by (auto simp: residual_def skew_def intro: less_le_trans)
    then show ?thesis using pot a True by (simp add: pot_ok_def)
  next
    case False
    show ?thesis
    proof (cases "g a = flow_of net a")
      case neq: False
      have pa: "partner a < arcs net" by (rule partner_less [OF ev a])
      have "flow_of net (partner a) < g (partner a)" using sk [OF a] False neq by simp
      moreover have "g (partner a) \<le> cap_of net (partner a)" using g pa by (simp add: skew_def)
      ultimately have "residual net (partner a)" by (simp add: residual_def)
      then have "0 \<le> cost_of net (partner a) + pot (head_of net a) - pot (tail_of net a)"
        using pot pa unfolding pot_ok_def by force
      then have "cost_of net a + pot (tail_of net a) - pot (head_of net a) \<le> 0" using wf_partner_cost [OF wf a] by simp
      then show ?thesis using False by (simp add: mult_nonpos_nonpos)
    qed simp
  qed
  have tails: "(\<Sum>a < arcs net. ?d a * pot (tail_of net a)) = 0"
  proof -
    have "(\<Sum>a < arcs net. ?d a * pot (tail_of net a)) = (\<Sum>v < fn_n net. pot v * outg net ?d v)"
      using outg_sum [of "{..<fn_n net}" pot net ?d] wf_tail [OF wf] by (simp add: mult.commute)
    moreover have "outg net ?d v = outg net g v - outflow net v" for v
      unfolding outg_def outflow_def sum_subtractf [symmetric] by (intro sum.cong) auto
    ultimately show ?thesis using same by simp
  qed
  have "(\<Sum>a < arcs net. ?d a * pot (head_of net a)) = (\<Sum>a < arcs net. - (?d a * pot (tail_of net a)))"
    unfolding sum_partner [OF ev, of "\<lambda>a. ?d a * pot (head_of net a)"] by (intro sum.cong refl) (simp only: sk lessThan_iff partner_ends mult_minus_left)
  then have heads: "(\<Sum>a < arcs net. ?d a * pot (head_of net a)) = 0" using tails by (simp add: sum_negf)
  have "0 \<le> (\<Sum>a < arcs net. ?d a * (cost_of net a + pot (tail_of net a) - pot (head_of net a)))"
    using each by (intro sum_nonneg) auto
  also have "\<dots> = (\<Sum>a < arcs net. ?d a * cost_of net a + ?d a * pot (tail_of net a) - ?d a * pot (head_of net a))"
    by (intro sum.cong) (auto simp: algebra_simps)
  also have "\<dots> = (\<Sum>a < arcs net. ?d a * cost_of net a)" by (simp only: sum_subtractf sum.distrib tails heads add_0_right diff_0_right)
  also have "\<dots> = (\<Sum>a < arcs net. g a * cost_of net a) - twice_cost net"
    unfolding twice_cost_def sum_subtractf [symmetric] by (intro sum.cong) (auto simp: algebra_simps)
  finally show ?thesis by simp
qed

end
