(* ===== verification/FlowProps.thy ===== *)
theory FlowProps
  imports FlowOpt
begin






section \<open>Building the network\<close>








section \<open>Arc amounts and arc pairs\<close>






















end
