(* ===== verification/HalfLattice.thy ===== *)
theory HalfLattice
  imports Floats
begin

text \<open>
  The half-integer lattice systems of \<open>src/quadrangulate/src/half_lattice_components.hpp\<close> and \<open>.cpp\<close>:
  normalisation of source rows, components, the ownership audit, the parity solver, the projection
  of targets and the bounded completion. A 64-bit integer is an integer, every operation on it that
  the code checks for overflow returning an option; a \<open>long double\<close> is the 80-bit format of x86. The
  exception that \<open>map::at\<close> throws is \<open>None\<close>.
\<close>

section \<open>Numbers\<close>

definition int64_max :: int where "int64_max = 2 ^ 63 - 1"
definition int64_min :: int where "int64_min = - (2 ^ 63)"

definition addChecked :: "int \<Rightarrow> int \<Rightarrow> int option" where
  "addChecked target v =
     (if (v > 0 \<and> target > int64_max - v) \<or> (v < 0 \<and> target < int64_min - v) then None else Some (target + v))"

definition multiplyChecked :: "int \<Rightarrow> int \<Rightarrow> int option" where
  "multiplyChecked left right =
     (if left * right < int64_min \<or> left * right > int64_max then None else Some (left * right))"

text \<open>To the nearest integer, ties away from zero; out of range is what x86 gives.\<close>

fun nearest_mant :: "nat \<Rightarrow> int \<Rightarrow> nat" where
  "nearest_mant m e = (if 0 \<le> e then m * 2 ^ nat e else (2 * m + 2 ^ nat (- e)) div (2 * 2 ^ nat (- e)))"

fun fv_round :: "fval \<Rightarrow> fval" where
  "fv_round (FFin s m e) = FFin s (nearest_mant m e) 0"
| "fv_round v = v"

fun fv_llround :: "fval \<Rightarrow> int" where
  "fv_llround (FFin s m e) =
     (let i = signed_mant s (nearest_mant m e) in if int64_min \<le> i \<and> i \<le> int64_max then i else int64_min)"
| "fv_llround _ = int64_min"

definition dround :: "f64 \<Rightarrow> f64" where "dround a = enc64 (fv_round (dec64 a))"
definition dabs :: "f64 \<Rightarrow> f64" where "dabs a = a AND 0x7FFFFFFFFFFFFFFF"

definition binary80 :: float_format where
  "binary80 = \<lparr>ff_prec = 64, ff_emin = -16445, ff_inf = 0x7FFF * 2 ^ 63, ff_sign = 0x8000 * 2 ^ 63\<rparr>"

type_synonym f80 = nat

definition ldec :: "f80 \<Rightarrow> fval" where "ldec a = fdecode binary80 a"
definition lenc :: "fval \<Rightarrow> f80" where "lenc v = fencode binary80 v"
definition ldsub :: "f80 \<Rightarrow> f80 \<Rightarrow> f80" where "ldsub a b = lenc (fv_add (ldec a) (fv_neg (ldec b)))"
definition ldmul :: "f80 \<Rightarrow> f80 \<Rightarrow> f80" where "ldmul a b = lenc (fv_mul (ldec a) (ldec b))"
definition lddiv :: "f80 \<Rightarrow> f80 \<Rightarrow> f80" where "lddiv a b = lenc (fv_div 140 (ldec a) (ldec b))"
definition ldround :: "f80 \<Rightarrow> f80" where "ldround a = lenc (fv_round (ldec a))"
definition ldabs :: "f80 \<Rightarrow> f80" where "ldabs a = a mod ff_sign binary80"
definition ld_of_int :: "int \<Rightarrow> f80" where "ld_of_int i = lenc (FFin (i < 0) (nat \<bar>i\<bar>) 0)"
definition f64_of_ld :: "f80 \<Rightarrow> f64" where "f64_of_ld a = enc64 (ldec a)"

definition ld_isnan :: "f80 \<Rightarrow> bool" where "ld_isnan a \<longleftrightarrow> a mod ff_sign binary80 > ff_inf binary80"

definition ld_key :: "f80 \<Rightarrow> int" where
  "ld_key a = (if a \<ge> ff_sign binary80 then - int (a mod ff_sign binary80) else int a)"

definition ldle :: "f80 \<Rightarrow> f80 \<Rightarrow> bool" where
  "ldle a b \<longleftrightarrow> \<not> ld_isnan a \<and> \<not> ld_isnan b \<and> ld_key a \<le> ld_key b"

definition ldlt :: "f80 \<Rightarrow> f80 \<Rightarrow> bool" where
  "ldlt a b \<longleftrightarrow> \<not> ld_isnan a \<and> \<not> ld_isnan b \<and> ld_key a < ld_key b"

section \<open>Rows and equations\<close>

datatype rejection_reason = NoRejection | EmptyRow | ContinuousDependency | ExcludedArc | FractionalCoefficient
  | Overflow | ParityConflict | BoundViolation | TargetResidual | Underdetermined

record source_row =
  sr_arc :: nat
  sr_terms :: "(nat \<times> f64) list"
  sr_targetHalf :: int
  sr_dependency :: rejection_reason

record equation =
  eq_arc :: nat
  eq_terms :: "(nat \<times> int) list"
  eq_rhs :: int
  eq_rejection :: rejection_reason

definition firstRejection :: "rejection_reason \<Rightarrow> rejection_reason \<Rightarrow> rejection_reason" where
  "firstRejection current candidate = (if current = NoRejection then candidate else current)"

text \<open>The ordered map \<open>merged\<close> is its list of entries by ascending key.\<close>

fun mergeTerm :: "nat \<Rightarrow> int \<Rightarrow> (nat \<times> int) list \<Rightarrow> (nat \<times> int) list option" where
  "mergeTerm v k [] = map_option (\<lambda>c. [(v, c)]) (addChecked 0 k)"
| "mergeTerm v k ((w, c) # m) =
     (if v < w then map_option (\<lambda>c'. (v, c') # (w, c) # m) (addChecked 0 k)
      else if v = w then map_option (\<lambda>c'. (w, c') # m) (addChecked c k)
      else map_option ((#) (w, c)) (mergeTerm v k m))"

definition kHalfTolerance :: f64 where "kHalfTolerance = ddiv (f64_of_int 1) (f64_of_int 10000000)"

fun mergeTerms :: "(nat \<times> f64) list \<Rightarrow> (nat \<times> int) list \<Rightarrow> rejection_reason + (nat \<times> int) list" where
  "mergeTerms [] merged = Inr merged"
| "mergeTerms ((variable, coefficient) # terms) merged =
     (let doubled = dmul coefficient (f64_of_int 2)
      in if \<not> f64_isfinite doubled \<or> dlt kHalfTolerance (dabs (dsub doubled (dround doubled))) \<or>
            dlt doubled (f64_of_int int64_min) \<or> dlt (f64_of_int int64_max) doubled
         then Inl FractionalCoefficient
         else (case mergeTerm variable (fv_llround (dec64 doubled)) merged of
                 None \<Rightarrow> Inl Overflow
               | Some merged \<Rightarrow> mergeTerms terms merged))"

definition normalize :: "source_row \<Rightarrow> equation" where
  "normalize source =
     (let result = \<lparr>eq_arc = sr_arc source, eq_terms = [], eq_rhs = 0, eq_rejection = sr_dependency source\<rparr>
      in case multiplyChecked (sr_targetHalf source) 2 of
           None \<Rightarrow> result\<lparr>eq_rejection := Overflow\<rparr>
         | Some rhs \<Rightarrow>
             (let result = result\<lparr>eq_rhs := rhs\<rparr>
              in case mergeTerms (sr_terms source) [] of
                   Inl reason \<Rightarrow> result\<lparr>eq_rejection := reason\<rparr>
                 | Inr merged \<Rightarrow>
                     (let result = result\<lparr>eq_terms := filter (\<lambda>(v, c). c \<noteq> 0) merged\<rparr>
                      in if eq_terms result = [] then result\<lparr>eq_rejection := EmptyRow\<rparr> else result)))"

section \<open>Components\<close>

record component =
  cp_equations :: "nat list"
  cp_variables :: "nat list"
  cp_rejection :: rejection_reason

text \<open>\<open>equationsOfVariable[variable]\<close>: the rows by ascending index, once for every occurrence.\<close>

definition equationsOf :: "equation list \<Rightarrow> nat \<Rightarrow> nat list" where
  "equationsOf eqs variable =
     concat (map (\<lambda>row. map (\<lambda>_. row) (filter (\<lambda>(v, c). c \<noteq> 0 \<and> v = variable) (eq_terms (eqs ! row)))) [0..<length eqs])"

definition pushAdjacent :: "nat \<Rightarrow> nat list \<times> nat set \<Rightarrow> nat list \<times> nat set" where
  "pushAdjacent adjacent st = (case st of (pending, visited) \<Rightarrow>
     if adjacent \<notin> visited then (pending @ [adjacent], insert adjacent visited) else (pending, visited))"

definition visitTerm :: "equation list \<Rightarrow> nat \<times> int \<Rightarrow> nat list \<times> nat list \<times> nat set \<Rightarrow> nat list \<times> nat list \<times> nat set" where
  "visitTerm eqs term st = (case st of (variables, pending, visited) \<Rightarrow>
     if snd term = 0 then st
     else (variables @ [fst term], fold pushAdjacent (equationsOf eqs (fst term)) (pending, visited)))"

lemma pushAdjacents_card:
  assumes "fold pushAdjacent as (pending, visited) = (p, v)" "\<forall>a \<in> set as. a < n"
  shows "card ({..<n} - v) + length p = card ({..<n} - visited) + length pending"
  using assms
proof (induction as arbitrary: pending visited)
  case (Cons a as)
  show ?case
  proof (cases "a \<in> visited")
    case True
    then show ?thesis using Cons.IH [of pending visited] Cons.prems by (simp add: pushAdjacent_def)
  next
    case False
    have a: "a \<in> {..<n} - visited" using Cons.prems(2) False by simp
    have "{..<n} - insert a visited = {..<n} - visited - {a}" by blast
    then have "card ({..<n} - visited) = Suc (card ({..<n} - insert a visited))"
      using card.remove [OF _ a] by simp
    moreover have "card ({..<n} - v) + length p = card ({..<n} - insert a visited) + length (pending @ [a])"
      using Cons.IH [of "pending @ [a]" "insert a visited"] Cons.prems False by (simp add: pushAdjacent_def)
    ultimately show ?thesis by simp
  qed
qed simp

lemma equationsOf_less: "r \<in> set (equationsOf eqs v) \<Longrightarrow> r < length eqs"
  by (auto simp: equationsOf_def)

lemma visitTerms_card:
  assumes "fold (visitTerm eqs) terms (vars, pending, visited) = (vs, p, v)"
  shows "card ({..<length eqs} - v) + length p = card ({..<length eqs} - visited) + length pending"
  using assms
proof (induction terms arbitrary: vars pending visited)
  case (Cons t terms)
  obtain p' v' where f: "fold pushAdjacent (equationsOf eqs (fst t)) (pending, visited) = (p', v')" by (rule prod.exhaust)
  show ?case
    using Cons.IH Cons.prems pushAdjacents_card [OF f, of "length eqs"] equationsOf_less
    by (cases "snd t = 0") (auto simp: visitTerm_def f)
qed simp

function growComponent :: "equation list \<Rightarrow> nat list \<Rightarrow> nat set \<Rightarrow> component \<Rightarrow> component \<times> nat set" where
  "growComponent eqs pending visited component =
     (case pending of
        [] \<Rightarrow> (component, visited)
      | row # pending \<Rightarrow>
          (let component = component\<lparr>cp_equations := cp_equations component @ [row],
                                     cp_rejection := firstRejection (cp_rejection component) (eq_rejection (eqs ! row))\<rparr>
           in case fold (visitTerm eqs) (eq_terms (eqs ! row)) (cp_variables component, pending, visited) of
                (variables, pending, visited) \<Rightarrow> growComponent eqs pending visited (component\<lparr>cp_variables := variables\<rparr>)))"
  by pat_completeness auto
termination
  by (relation "measure (\<lambda>(eqs, pending, visited, c). card ({..<length eqs} - visited) + length pending)")
    (auto dest!: visitTerms_card [OF sym])

declare growComponent.simps [simp del]

definition buildComponents :: "equation list \<Rightarrow> component list" where
  "buildComponents eqs =
     snd (fold (\<lambda>first (visited, components).
       if first \<in> visited then (visited, components)
       else (case growComponent eqs [first] (insert first visited)
                    \<lparr>cp_equations = [], cp_variables = [], cp_rejection = NoRejection\<rparr> of
               (component, visited) \<Rightarrow>
                 (visited, components @ [component\<lparr>cp_equations := sort (cp_equations component),
                                                   cp_variables := remdups_adj (sort (cp_variables component))\<rparr>])))
       [0..<length eqs] ({}, []))"

record ownership_audit =
  oa_isolatedComponents :: nat
  oa_blockedComponents :: nat
  oa_sharedRejectedVariables :: nat

definition auditRejectedOwnership :: "equation list \<Rightarrow> ownership_audit" where
  "auditRejectedOwnership eqs =
     (let supported = filter (\<lambda>e. eq_rejection e = NoRejection) eqs;
          rejectedVariables = concat (map (\<lambda>e. map fst (filter (\<lambda>(v, c). c \<noteq> 0) (eq_terms e)))
                                        (filter (\<lambda>e. eq_rejection e \<noteq> NoRejection) eqs));
          rejectedVariables = remdups_adj (sort rejectedVariables);
          audit = fold (\<lambda>component audit.
             if \<exists>v \<in> set (cp_variables component). v \<in> set rejectedVariables
             then audit\<lparr>oa_blockedComponents := oa_blockedComponents audit + 1\<rparr>
             else audit\<lparr>oa_isolatedComponents := oa_isolatedComponents audit + 1\<rparr>)
             (buildComponents supported) \<lparr>oa_isolatedComponents = 0, oa_blockedComponents = 0, oa_sharedRejectedVariables = 0\<rparr>
      in audit\<lparr>oa_sharedRejectedVariables := length rejectedVariables\<rparr>)"

end
