(* ===== verification/HalfSolve.thy ===== *)
theory HalfSolve
  imports HalfLattice
begin

text \<open>
  The parity solver, the projection of targets and the bounded completion of
  \<open>half_lattice_components.cpp\<close>. The two eliminations are loops over the columns that carry the
  matrix and the pivot row.
\<close>

section \<open>Parity\<close>

text \<open>The number of the column of a variable: the position of its first occurrence.\<close>

definition columnOf :: "component \<Rightarrow> nat \<Rightarrow> nat option" where
  "columnOf component variable =
     find (\<lambda>c. cp_variables component ! c = variable) [0..<length (cp_variables component)]"

definition parityTerm :: "component \<Rightarrow> nat \<times> int \<Rightarrow> bool list option \<Rightarrow> bool list option" where
  "parityTerm component term row =
     (if even (snd term) then row
      else Option.bind row (\<lambda>row. map_option (\<lambda>c. row[c := \<not> row ! c]) (columnOf component (fst term))))"

definition parityRow :: "equation list \<Rightarrow> component \<Rightarrow> nat \<Rightarrow> bool list option" where
  "parityRow eqs component rowIndex =
     (let columns = length (cp_variables component); eqn = eqs ! rowIndex
      in map_option (\<lambda>row. row[columns := odd (eq_rhs eqn)])
           (fold (parityTerm component) (eq_terms eqn) (Some (replicate (columns + 2) False))))"

fun parityRows :: "equation list \<Rightarrow> component \<Rightarrow> nat list \<Rightarrow> bool list list option" where
  "parityRows eqs component [] = Some []"
| "parityRows eqs component (r # rs) =
     Option.bind (parityRow eqs component r) (\<lambda>row. map_option ((#) row) (parityRows eqs component rs))"

text \<open>\<open>std::set_symmetric_difference\<close> of two ascending lists.\<close>

fun xorProvenance :: "nat list \<Rightarrow> nat list \<Rightarrow> nat list" where
  "xorProvenance [] ys = ys"
| "xorProvenance (x # xs) [] = x # xs"
| "xorProvenance (x # xs) (y # ys) =
     (if x < y then x # xorProvenance xs (y # ys)
      else if y < x then y # xorProvenance (x # xs) ys
      else xorProvenance xs ys)"

definition xorRow :: "nat \<Rightarrow> nat \<Rightarrow> bool list \<Rightarrow> bool list \<Rightarrow> bool list" where
  "xorRow column columns pivotRow row =
     fold (\<lambda>entry row. row[entry := (row ! entry \<noteq> pivotRow ! entry)]) [column..<columns + 1] row"

record parity_state =
  pt_matrix :: "bool list list"
  pt_provenance :: "nat list list"
  pt_pivot :: nat

definition eliminateRow :: "nat \<Rightarrow> nat \<Rightarrow> nat \<Rightarrow> parity_state \<Rightarrow> parity_state" where
  "eliminateRow columns column row st =
     (let m = pt_matrix st; pv = pt_provenance st; pivot = pt_pivot st
      in if row \<noteq> pivot \<and> m ! row ! column
         then st\<lparr>pt_matrix := m[row := xorRow column columns (m ! pivot) (m ! row)],
                 pt_provenance := pv[row := xorProvenance (pv ! row) (pv ! pivot)]\<rparr>
         else st)"

definition findSource :: "nat \<Rightarrow> parity_state \<Rightarrow> nat option" where
  "findSource column st = find (\<lambda>r. pt_matrix st ! r ! column) [pt_pivot st..<length (pt_matrix st)]"

text \<open>The rows are exchanged, their provenance is not.\<close>

definition swapRows :: "nat \<Rightarrow> nat \<Rightarrow> 'a list \<Rightarrow> 'a list" where
  "swapRows i j m = m[i := m ! j, j := m ! i]"

definition parityColumn :: "nat \<Rightarrow> nat \<Rightarrow> parity_state \<Rightarrow> parity_state" where
  "parityColumn columns column st =
     (if pt_pivot st < length (pt_matrix st)
      then (case findSource column st of
              None \<Rightarrow> st
            | Some source \<Rightarrow>
                (let st = st\<lparr>pt_matrix := swapRows (pt_pivot st) source (pt_matrix st)\<rparr>;
                     st = fold (eliminateRow columns column) [0..<length (pt_matrix st)] st
                 in st\<lparr>pt_pivot := pt_pivot st + 1\<rparr>))
      else st)"

record parity_result =
  pr_consistent :: bool
  pr_rank :: nat
  pr_witnessEquations :: "nat list"
  pr_witnessEquation :: nat

definition kNoWitness :: nat where "kNoWitness = 2 ^ 64 - 1"

definition contradictory :: "nat \<Rightarrow> bool list \<Rightarrow> bool" where
  "contradictory columns row \<longleftrightarrow> (\<forall>c < columns. \<not> row ! c) \<and> row ! columns"

definition solveParity :: "equation list \<Rightarrow> component \<Rightarrow> parity_result option" where
  "solveParity eqs component =
     map_option (\<lambda>matrix.
       (let columns = length (cp_variables component);
            st = fold (parityColumn columns) [0..<columns]
                   \<lparr>pt_matrix = matrix, pt_provenance = map (\<lambda>r. [r]) (cp_equations component), pt_pivot = 0\<rparr>
        in case find (\<lambda>r. contradictory columns (pt_matrix st ! r)) [0..<length (pt_matrix st)] of
             None \<Rightarrow> \<lparr>pr_consistent = True, pr_rank = pt_pivot st, pr_witnessEquations = [], pr_witnessEquation = kNoWitness\<rparr>
           | Some r \<Rightarrow> \<lparr>pr_consistent = False, pr_rank = pt_pivot st, pr_witnessEquations = pt_provenance st ! r,
                        pr_witnessEquation = hd (pt_provenance st ! r)\<rparr>))
       (parityRows eqs component (cp_equations component))"

section \<open>Projection\<close>

text \<open>
  The ordered map built from a range of pairs keeps the first pair of every key. The sum of a row is
  \<open>None\<close> when a variable is missing (\<open>at\<close> throws) and \<open>Some None\<close> when it overflows.
\<close>

fun sumTerms :: "(nat \<Rightarrow> int option) \<Rightarrow> (nat \<times> int) list \<Rightarrow> int \<Rightarrow> int option option" where
  "sumTerms values [] s = Some (Some s)"
| "sumTerms values ((variable, coefficient) # terms) s =
     Option.bind (values variable) (\<lambda>v.
       case Option.bind (multiplyChecked coefficient v) (addChecked s) of
         None \<Rightarrow> Some None
       | Some s \<Rightarrow> sumTerms values terms s)"

record projection_result =
  pj_rejection :: rejection_reason
  pj_equations :: "equation list"

fun projectRows :: "(nat \<Rightarrow> int option) \<Rightarrow> nat list \<Rightarrow> equation list \<Rightarrow> projection_result option" where
  "projectRows values [] eqs = Some \<lparr>pj_rejection = NoRejection, pj_equations = eqs\<rparr>"
| "projectRows values (r # rs) eqs =
     Option.bind (sumTerms values (eq_terms (eqs ! r)) 0) (\<lambda>s.
       case s of
         None \<Rightarrow> Some \<lparr>pj_rejection = Overflow, pj_equations = []\<rparr>
       | Some rhs \<Rightarrow> projectRows values rs (eqs[r := (eqs ! r)\<lparr>eq_rhs := rhs\<rparr>]))"

definition projectTargets :: "equation list \<Rightarrow> component \<Rightarrow> (nat \<times> int) list \<Rightarrow> projection_result option" where
  "projectTargets eqs component suppliedValues =
     (let values = map_of suppliedValues
      in if cp_rejection component \<noteq> NoRejection
         then Some \<lparr>pj_rejection = cp_rejection component, pj_equations = []\<rparr>
         else if \<exists>v \<in> set (cp_variables component). values v = None
         then Some \<lparr>pj_rejection = Underdetermined, pj_equations = []\<rparr>
         else projectRows values (cp_equations component) eqs)"

section \<open>Bounded completion\<close>

definition kPivotTolerance :: f80 where "kPivotTolerance = lddiv (ld_of_int 1) (ld_of_int 1000000000000)"

definition realTerm :: "component \<Rightarrow> nat \<times> int \<Rightarrow> f80 list option \<Rightarrow> f80 list option" where
  "realTerm component term row =
     Option.bind row (\<lambda>row. map_option (\<lambda>c. row[c := ld_of_int (snd term)]) (columnOf component (fst term)))"

definition realRow :: "equation list \<Rightarrow> component \<Rightarrow> nat \<Rightarrow> f80 list option" where
  "realRow eqs component rowIndex =
     (let columns = length (cp_variables component); eqn = eqs ! rowIndex
      in map_option (\<lambda>row. row[columns := ld_of_int (eq_rhs eqn)])
           (fold (realTerm component) (eq_terms eqn) (Some (replicate (columns + 1) (ld_of_int 0)))))"

fun realRows :: "equation list \<Rightarrow> component \<Rightarrow> nat list \<Rightarrow> f80 list list option" where
  "realRows eqs component [] = Some []"
| "realRows eqs component (r # rs) =
     Option.bind (realRow eqs component r) (\<lambda>row. map_option ((#) row) (realRows eqs component rs))"

record real_state =
  rs_matrix :: "f80 list list"
  rs_pivotColumn :: "nat list"
  rs_pivotRow :: nat

definition divideRow :: "nat \<Rightarrow> nat \<Rightarrow> f80 list \<Rightarrow> f80 list" where
  "divideRow column columns row =
     (let divisor = row ! column in fold (\<lambda>entry row. row[entry := lddiv (row ! entry) divisor]) [column..<columns + 1] row)"

definition subtractRow :: "nat \<Rightarrow> nat \<Rightarrow> f80 list \<Rightarrow> f80 list \<Rightarrow> f80 list" where
  "subtractRow column columns pivotRow row =
     (let factor = row ! column
      in fold (\<lambda>entry row. row[entry := ldsub (row ! entry) (ldmul factor (pivotRow ! entry))]) [column..<columns + 1] row)"

definition realColumn :: "nat \<Rightarrow> nat \<Rightarrow> real_state \<Rightarrow> real_state" where
  "realColumn columns column st =
     (if rs_pivotRow st < length (rs_matrix st)
      then (case find (\<lambda>r. \<not> ldle (ldabs (rs_matrix st ! r ! column)) kPivotTolerance) [rs_pivotRow st..<length (rs_matrix st)] of
              None \<Rightarrow> st
            | Some source \<Rightarrow>
                (let p = rs_pivotRow st;
                     m = swapRows p source (rs_matrix st);
                     m = m[p := divideRow column columns (m ! p)];
                     m = fold (\<lambda>row m. if row = p \<or> ldle (ldabs (m ! row ! column)) kPivotTolerance then m
                                       else m[row := subtractRow column columns (m ! p) (m ! row)]) [0..<length m] m
                 in st\<lparr>rs_matrix := m, rs_pivotColumn := rs_pivotColumn st @ [column], rs_pivotRow := p + 1\<rparr>))
      else st)"

definition residualRow :: "nat \<Rightarrow> f80 list \<Rightarrow> bool" where
  "residualRow columns row \<longleftrightarrow> (\<forall>c < columns. ldle (ldabs (row ! c)) kPivotTolerance) \<and>
     ldlt kPivotTolerance (ldabs (row ! columns))"

text \<open>The value of a pivot variable, or the reason why it is refused.\<close>

definition pivotValue :: "int \<Rightarrow> int \<Rightarrow> f80 \<Rightarrow> rejection_reason + int" where
  "pivotValue minimum maximum v =
     (if \<not> f64_isfinite (f64_of_ld v) \<or> ldlt kPivotTolerance (ldabs (ldsub v (ldround v))) \<or>
         ldlt v (ld_of_int minimum) \<or> ldlt (ld_of_int maximum) v
      then Inl (if ldlt v (ld_of_int minimum) \<or> ldlt (ld_of_int maximum) v then BoundViolation else TargetResidual)
      else Inr (fv_llround (ldec v)))"

fun pivotValues :: "int \<Rightarrow> int \<Rightarrow> nat list \<Rightarrow> f80 list \<Rightarrow> (nat \<Rightarrow> int option) \<Rightarrow> rejection_reason + (nat \<Rightarrow> int option)" where
  "pivotValues minimum maximum (variable # variables) (v # vs) values =
     (case pivotValue minimum maximum v of
        Inl reason \<Rightarrow> Inl reason
      | Inr x \<Rightarrow> pivotValues minimum maximum variables vs (if values variable = None then values(variable \<mapsto> x) else values))"
| "pivotValues minimum maximum _ _ values = Inr values"

fun checkRows :: "equation list \<Rightarrow> (nat \<Rightarrow> int option) \<Rightarrow> nat list \<Rightarrow> rejection_reason option" where
  "checkRows eqs values [] = Some NoRejection"
| "checkRows eqs values (r # rs) =
     Option.bind (sumTerms values (eq_terms (eqs ! r)) 0) (\<lambda>s.
       case s of
         None \<Rightarrow> Some Overflow
       | Some s \<Rightarrow> if s \<noteq> eq_rhs (eqs ! r) then Some TargetResidual else checkRows eqs values rs)"

record completion_result =
  cr_rejection :: rejection_reason
  cr_values :: "(nat \<times> int) list"

text \<open>The values are listed by ascending variable; the keys of the map are those of the component.\<close>

definition rejectCompletion :: "rejection_reason \<Rightarrow> completion_result option" where
  "rejectCompletion reason = Some \<lparr>cr_rejection = reason, cr_values = []\<rparr>"

definition finishCompletion :: "equation list \<Rightarrow> component \<Rightarrow> (nat \<rightharpoonup> int) \<Rightarrow> completion_result option" where
  "finishCompletion eqs component pivots =
     (let values = fold (\<lambda>v values. if values v = None then values(v \<mapsto> 0) else values) (cp_variables component) pivots
      in Option.bind (checkRows eqs values (cp_equations component)) (\<lambda>reason.
           if reason \<noteq> NoRejection then rejectCompletion reason
           else Some \<lparr>cr_rejection = NoRejection,
             cr_values = map (\<lambda>v. (v, the (values v))) (remdups_adj (sort (cp_variables component)))\<rparr>))"

definition readCompletion :: "equation list \<Rightarrow> component \<Rightarrow> int \<Rightarrow> int \<Rightarrow> real_state \<Rightarrow> completion_result option" where
  "readCompletion eqs component minimum maximum st =
     (let columns = length (cp_variables component)
      in if \<exists>r \<in> set [rs_pivotRow st..<length (rs_matrix st)]. residualRow columns (rs_matrix st ! r)
         then rejectCompletion TargetResidual
         else (case pivotValues minimum maximum (map (\<lambda>c. cp_variables component ! c) (rs_pivotColumn st))
                      (map (\<lambda>r. rs_matrix st ! r ! columns) [0..<length (rs_pivotColumn st)]) Map.empty of
                 Inl reason \<Rightarrow> rejectCompletion reason
               | Inr values \<Rightarrow> finishCompletion eqs component values))"

definition completeBounded :: "equation list \<Rightarrow> component \<Rightarrow> int \<Rightarrow> int \<Rightarrow> completion_result option" where
  "completeBounded eqs component minimum maximum =
     (if cp_rejection component \<noteq> NoRejection then rejectCompletion (cp_rejection component)
      else Option.bind (solveParity eqs component) (\<lambda>parity.
        if \<not> pr_consistent parity then rejectCompletion ParityConflict
        else Option.bind (realRows eqs component (cp_equations component)) (\<lambda>matrix.
          readCompletion eqs component minimum maximum
            (fold (realColumn (length (cp_variables component))) [0..<length (cp_variables component)]
               \<lparr>rs_matrix = matrix, rs_pivotColumn = [], rs_pivotRow = 0\<rparr>))))"

end
