(* ===== verification/HalfProof.thy ===== *)
theory HalfProof
  imports HalfSolve
begin

text \<open>
  The elimination over the two-element field: every column step keeps the solutions of the rows and
  leaves a reduced form from which a solution can be read off.
\<close>

section \<open>Parity of a row\<close>

primrec par :: "nat \<Rightarrow> (nat \<Rightarrow> bool) \<Rightarrow> bool" where
  "par 0 f = False"
| "par (Suc n) f = (par n f \<noteq> f n)"

lemma par_cong: "(\<And>c. c < n \<Longrightarrow> f c = g c) \<Longrightarrow> par n f = par n g"
  by (induction n) auto

lemma par_xor: "par n (\<lambda>c. f c \<noteq> g c) = (par n f \<noteq> par n g)"
  by (induction n) auto

lemma par_False: "par n (\<lambda>c. False) = False"
  by (induction n) auto

lemma par_one: "par n (\<lambda>c. c = k \<and> b) = (k < n \<and> b)"
  by (induction n) (auto simp: less_Suc_eq)

definition row_sat :: "nat \<Rightarrow> (nat \<Rightarrow> bool) \<Rightarrow> bool list \<Rightarrow> bool" where
  "row_sat n y row \<longleftrightarrow> par n (\<lambda>c. row ! c \<and> y c) = row ! n"

definition sat :: "nat \<Rightarrow> (nat \<Rightarrow> bool) \<Rightarrow> bool list list \<Rightarrow> bool" where
  "sat n y m \<longleftrightarrow> (\<forall>j < length m. row_sat n y (m ! j))"

section \<open>Row operations\<close>

lemma xorRow_length [simp]: "length (xorRow col n p r) = length r"
proof -
  have "length (fold (\<lambda>entry row. row[entry := (row ! entry \<noteq> p ! entry)]) es r) = length r" for es
    by (induction es arbitrary: r) auto
  then show ?thesis by (simp add: xorRow_def)
qed

lemma xorRow_nth:
  assumes "c < length r"
  shows "xorRow col n p r ! c = (if col \<le> c \<and> c \<le> n then r ! c \<noteq> p ! c else r ! c)"
proof -
  have "fold (\<lambda>entry row. row[entry := (row ! entry \<noteq> p ! entry)]) es r ! c = (if c \<in> set es then r ! c \<noteq> p ! c else r ! c)"
    if "distinct es" for es
    using that assms
  proof (induction es arbitrary: r)
    case (Cons a es)
    then show ?case using Cons.IH [of "r[a := (r ! a \<noteq> p ! a)]"] by (cases "c = a") simp_all
  qed simp
  then show ?thesis by (auto simp: xorRow_def)
qed

lemma xorRow_sat:
  assumes "n < length r" "\<forall>c < col. \<not> p ! c" "col \<le> n" "row_sat n y p"
  shows "row_sat n y (xorRow col n p r) = row_sat n y r"
proof -
  have nth: "xorRow col n p r ! c = (r ! c \<noteq> p ! c)" if "c \<le> n" for c
    using assms(1,2) that by (cases "col \<le> c") (simp_all add: xorRow_nth)
  have "par n (\<lambda>c. xorRow col n p r ! c \<and> y c) = par n (\<lambda>c. (r ! c \<and> y c) \<noteq> (p ! c \<and> y c))"
    by (rule par_cong) (auto simp: nth)
  then show ?thesis using assms(4) unfolding row_sat_def par_xor nth [OF order_refl] by auto
qed

lemma swapRows_length [simp]: "length (swapRows i j m) = length m"
  by (simp add: swapRows_def)

lemma swapRows_nth:
  "i < length m \<Longrightarrow> j < length m \<Longrightarrow> k < length m \<Longrightarrow>
     swapRows i j m ! k = (if k = i then m ! j else if k = j then m ! i else m ! k)"
  by (auto simp: swapRows_def nth_list_update)

lemma swapRows_sat:
  assumes "i < length m" "j < length m"
  shows "sat n y (swapRows i j m) = sat n y m"
proof -
  have "set (swapRows i j m) = set m"
    unfolding swapRows_def using assms by (metis set_swap)
  moreover have "sat n y m' \<longleftrightarrow> (\<forall>r \<in> set m'. row_sat n y r)" for m' by (simp add: sat_def all_set_conv_all_nth)
  ultimately show ?thesis by simp
qed

lemma eliminate_fold:
  assumes "k \<le> length (pt_matrix st)" "pt_pivot st < length (pt_matrix st)"
  shows "pt_matrix (fold (eliminateRow n col) [0..<k] st) =
      map (\<lambda>j. if j < k \<and> j \<noteq> pt_pivot st \<and> pt_matrix st ! j ! col
               then xorRow col n (pt_matrix st ! pt_pivot st) (pt_matrix st ! j) else pt_matrix st ! j) [0..<length (pt_matrix st)] \<and>
    pt_pivot (fold (eliminateRow n col) [0..<k] st) = pt_pivot st"
  using assms(1)
proof (induction k)
  case 0
  then show ?case by (simp add: map_nth)
next
  case (Suc k)
  let ?st = "fold (eliminateRow n col) [0..<k] st"
  have m: "pt_matrix ?st = map (\<lambda>j. if j < k \<and> j \<noteq> pt_pivot st \<and> pt_matrix st ! j ! col
      then xorRow col n (pt_matrix st ! pt_pivot st) (pt_matrix st ! j) else pt_matrix st ! j) [0..<length (pt_matrix st)]"
    and p: "pt_pivot ?st = pt_pivot st" using Suc by auto
  have k: "pt_matrix ?st ! k = pt_matrix st ! k" using Suc.prems by (simp add: m)
  have piv: "pt_matrix ?st ! pt_pivot st = pt_matrix st ! pt_pivot st" using assms(2) by (simp add: m)
  have step: "fold (eliminateRow n col) [0..<Suc k] st = eliminateRow n col k ?st" by simp
  show ?case
  proof (cases "k \<noteq> pt_pivot st \<and> pt_matrix st ! k ! col")
    case False
    then have "eliminateRow n col k ?st = ?st" by (auto simp: eliminateRow_def p k Let_def)
    then show ?thesis unfolding step using False p by (auto simp: m less_Suc_eq)
  next
    case True
    have "pt_matrix (eliminateRow n col k ?st) = (pt_matrix ?st)[k := xorRow col n (pt_matrix st ! pt_pivot st) (pt_matrix st ! k)]"
      "pt_pivot (eliminateRow n col k ?st) = pt_pivot st"
      using True by (simp_all add: eliminateRow_def p k piv Let_def)
    moreover have "(pt_matrix ?st)[k := xorRow col n (pt_matrix st ! pt_pivot st) (pt_matrix st ! k)] =
        map (\<lambda>j. if j < Suc k \<and> j \<noteq> pt_pivot st \<and> pt_matrix st ! j ! col
          then xorRow col n (pt_matrix st ! pt_pivot st) (pt_matrix st ! j) else pt_matrix st ! j) [0..<length (pt_matrix st)]"
      unfolding m using True Suc.prems by (intro nth_equalityI [of "_ [_ := _]"]) (auto simp: nth_list_update less_Suc_eq)
    ultimately show ?thesis unfolding step by (simp only: )
  qed
qed

section \<open>The reduced form\<close>

definition reduced :: "nat \<Rightarrow> nat \<Rightarrow> parity_state \<Rightarrow> bool" where
  "reduced n col st \<longleftrightarrow> (\<forall>r \<in> set (pt_matrix st). n < length r) \<and> pt_pivot st \<le> length (pt_matrix st) \<and>
     (\<forall>j < length (pt_matrix st). pt_pivot st \<le> j \<longrightarrow> (\<forall>c < col. \<not> pt_matrix st ! j ! c)) \<and>
     (\<exists>pc. \<forall>i < pt_pivot st. pc i < col \<and> pt_matrix st ! i ! pc i \<and>
        (\<forall>j < length (pt_matrix st). j \<noteq> i \<longrightarrow> \<not> pt_matrix st ! j ! pc i))"

lemma column_step:
  assumes red: "reduced n col st" and col: "col < n"
  shows "reduced n (Suc col) (parityColumn n col st) \<and> length (pt_matrix (parityColumn n col st)) = length (pt_matrix st) \<and>
    (\<forall>y. sat n y (pt_matrix (parityColumn n col st)) = sat n y (pt_matrix st))"
proof -
  let ?m = "pt_matrix st" and ?p = "pt_pivot st" and ?L = "length (pt_matrix st)"
  obtain pc where pc: "\<And>i. i < ?p \<Longrightarrow> pc i < col \<and> ?m ! i ! pc i \<and> (\<forall>j < ?L. j \<noteq> i \<longrightarrow> \<not> ?m ! j ! pc i)"
    using red unfolding reduced_def by blast
  have zero: "\<not> ?m ! j ! c" if "j < ?L" "?p \<le> j" "c < col" for j c using red that by (simp add: reduced_def)
  have len: "n < length (?m ! j)" if "j < ?L" for j using red that by (simp add: reduced_def)
  have keep: "reduced n (Suc col) st" if none: "\<And>j. j < ?L \<Longrightarrow> ?p \<le> j \<Longrightarrow> \<not> ?m ! j ! col"
    unfolding reduced_def
  proof (intro conjI exI [of _ pc] allI impI)
    show "\<forall>r \<in> set ?m. n < length r" "?p \<le> ?L" using red by (simp_all add: reduced_def)
    show "\<not> ?m ! j ! c" if "j < ?L" "?p \<le> j" "c < Suc col" for j c
      using that zero [of j c] none [of j] by (cases "c = col") auto
    fix i assume i: "i < ?p"
    show "pc i < Suc col" "?m ! i ! pc i" using pc [OF i] by auto
    show "\<not> ?m ! j ! pc i" if "j < ?L" "j \<noteq> i" for j using pc [OF i] that by auto
  qed
  show ?thesis
  proof (cases "?p < ?L")
  case False
  then have "parityColumn n col st = st" by (simp add: parityColumn_def)
  then show ?thesis using keep False by simp
next
  case piv: True
  show ?thesis
  proof (cases "findSource col st")
    case None
    then have none: "\<not> ?m ! j ! col" if "j < ?L" "?p \<le> j" for j
      using that by (auto simp: findSource_def find_None_iff)
    have "parityColumn n col st = st" using piv None by (simp add: parityColumn_def)
    then show ?thesis using keep none by simp
  next
    case (Some s)
    then have s: "?p \<le> s" "s < ?L" "?m ! s ! col" by (auto simp: findSource_def find_Some_iff)
    let ?m1 = "swapRows ?p s ?m"
    let ?st1 = "st\<lparr>pt_matrix := ?m1\<rparr>"
    define m2 where "m2 = map (\<lambda>j. if j < ?L \<and> j \<noteq> ?p \<and> ?m1 ! j ! col then xorRow col n (?m1 ! ?p) (?m1 ! j) else ?m1 ! j) [0..<?L]"
    have m2_len: "length m2 = ?L" by (simp add: m2_def)
    note nth1 = swapRows_nth [OF piv s(2)]
    have f: "pt_matrix (fold (eliminateRow n col) [0..<?L] ?st1) = m2" "pt_pivot (fold (eliminateRow n col) [0..<?L] ?st1) = ?p"
      using eliminate_fold [of ?L ?st1 n col] piv by (simp_all add: m2_def)
    have step: "pt_matrix (parityColumn n col st) = m2" "pt_pivot (parityColumn n col st) = Suc ?p"
      using piv Some f by (simp_all add: parityColumn_def Let_def)
    have len1: "n < length (?m1 ! j)" if "j < ?L" for j using that s(2) piv len by (simp add: nth1)
    have zero1: "\<not> ?m1 ! j ! c" if "j < ?L" "?p \<le> j" "c < col" for j c
      using that zero s piv by (simp add: nth1)
    have p1: "?m1 ! ?p ! col" using piv s(3) by (simp add: nth1)
    have m2_nth: "m2 ! j = (if j \<noteq> ?p \<and> ?m1 ! j ! col then xorRow col n (?m1 ! ?p) (?m1 ! j) else ?m1 ! j)" if "j < ?L" for j
      using that by (simp add: m2_def)
    have low: "m2 ! j ! c = ?m1 ! j ! c" if "j < ?L" "c < col" for j c
      using that len1 [of j] col by (simp add: m2_nth xorRow_nth)
    have clear: "\<not> m2 ! j ! col" if "j < ?L" "j \<noteq> ?p" for j
      using that len1 [of j] col p1 by (simp add: m2_nth xorRow_nth)
    have pc1: "?m1 ! i ! pc i \<and> (\<forall>j < ?L. j \<noteq> i \<longrightarrow> \<not> ?m1 ! j ! pc i)" if "i < ?p" for i
      using pc [OF that] that s(1,2) piv by (auto simp: nth1)
    have "reduced n (Suc col) (parityColumn n col st)"
      unfolding reduced_def step
    proof (intro conjI allI impI)
      show "\<forall>r \<in> set m2. n < length r" using len1 by (auto simp: m2_def)
      show "Suc ?p \<le> length m2" using piv by (simp add: m2_len)
      show "\<not> m2 ! j ! c" if "j < length m2" "Suc ?p \<le> j" "c < Suc col" for j c
        using that clear [of j] low [of j c] zero1 [of j c] by (cases "c = col") (auto simp: m2_len)
      show "\<exists>pc. \<forall>i < Suc ?p. pc i < Suc col \<and> m2 ! i ! pc i \<and> (\<forall>j < length m2. j \<noteq> i \<longrightarrow> \<not> m2 ! j ! pc i)"
      proof (intro exI allI impI)
        fix i assume i: "i < Suc ?p"
        let ?pc = "pc(?p := col)"
        show "?pc i < Suc col \<and> m2 ! i ! ?pc i \<and> (\<forall>j < length m2. j \<noteq> i \<longrightarrow> \<not> m2 ! j ! ?pc i)"
        proof (cases "i = ?p")
          case True
          then show ?thesis using p1 piv clear by (simp add: m2_nth m2_len)
        next
          case False
          then have "i < ?p" using i by simp
          then show ?thesis using pc [of i] pc1 [of i] low piv False by (auto simp: m2_len)
        qed
      qed
    qed
    moreover have "sat n y m2 = sat n y ?m" for y
    proof -
      have "sat n y m2 = sat n y ?m1"
      proof
        assume a: "sat n y m2"
        then have "row_sat n y (m2 ! ?p)" using piv by (simp add: sat_def m2_len)
        then have p: "row_sat n y (?m1 ! ?p)" using piv by (simp add: m2_nth)
        show "sat n y ?m1"
          unfolding sat_def
        proof (intro allI impI)
          fix j assume "j < length ?m1"
          then have j: "j < ?L" by simp
          have "row_sat n y (m2 ! j)" using a j by (simp add: sat_def m2_len)
          then show "row_sat n y (?m1 ! j)"
            using xorRow_sat [OF len1 [OF j] _ _ p, of col] zero1 [OF piv] col by (auto simp: m2_nth [OF j] split: if_splits)
        qed
      next
        assume a: "sat n y ?m1"
        then have p: "row_sat n y (?m1 ! ?p)" using piv by (simp add: sat_def)
        show "sat n y m2"
          unfolding sat_def
        proof (intro allI impI)
          fix j assume "j < length m2"
          then have j: "j < ?L" by (simp add: m2_len)
          have "row_sat n y (?m1 ! j)" using a j by (simp add: sat_def m2_len)
          then show "row_sat n y (m2 ! j)"
            using xorRow_sat [OF len1 [OF j] _ _ p, of col] zero1 [OF piv] col by (auto simp: m2_nth [OF j])
        qed
      qed
      then show ?thesis using swapRows_sat [OF piv s(2)] by simp
    qed
    ultimately show ?thesis by (simp add: step m2_len)
  qed
qed
qed

lemma columns_reduced:
  assumes "\<forall>r \<in> set (pt_matrix st). n < length r" "pt_pivot st = 0" "k \<le> n"
  shows "reduced n k (fold (parityColumn n) [0..<k] st) \<and>
    length (pt_matrix (fold (parityColumn n) [0..<k] st)) = length (pt_matrix st) \<and>
    (\<forall>y. sat n y (pt_matrix (fold (parityColumn n) [0..<k] st)) = sat n y (pt_matrix st))"
  using assms(3)
proof (induction k)
  case 0
  show ?case using assms(1,2) by (simp add: reduced_def)
next
  case (Suc k)
  then have ih: "reduced n k (fold (parityColumn n) [0..<k] st)" "length (pt_matrix (fold (parityColumn n) [0..<k] st)) = length (pt_matrix st)"
      "\<And>y. sat n y (pt_matrix (fold (parityColumn n) [0..<k] st)) = sat n y (pt_matrix st)"
    by auto
  show ?case using column_step [OF ih(1)] ih(2,3) Suc.prems by simp
qed

lemma reduced_solvable:
  assumes "reduced n n st" "\<forall>j < length (pt_matrix st). \<not> contradictory n (pt_matrix st ! j)"
  shows "\<exists>y. sat n y (pt_matrix st)"
proof -
  let ?m = "pt_matrix st" and ?p = "pt_pivot st" and ?L = "length (pt_matrix st)"
  obtain pc where pc: "\<And>i. i < ?p \<Longrightarrow> pc i < n \<and> ?m ! i ! pc i \<and> (\<forall>j < ?L. j \<noteq> i \<longrightarrow> \<not> ?m ! j ! pc i)"
    using assms(1) unfolding reduced_def by blast
  have pl: "?p \<le> ?L" using assms(1) by (simp add: reduced_def)
  define y where "y c \<longleftrightarrow> (\<exists>i < ?p. pc i = c \<and> ?m ! i ! n)" for c
  have "row_sat n y (?m ! j)" if j: "j < ?L" for j
  proof (cases "j < ?p")
    case True
    have "(?m ! j ! c \<and> y c) = (c = pc j \<and> ?m ! j ! n)" for c
    proof
      assume a: "?m ! j ! c \<and> y c"
      then obtain i where i: "i < ?p" "pc i = c" "?m ! i ! n" by (auto simp: y_def)
      then have "i = j" using pc [OF i(1)] a j by auto
      then show "c = pc j \<and> ?m ! j ! n" using i by simp
    next
      assume "c = pc j \<and> ?m ! j ! n"
      then show "?m ! j ! c \<and> y c" using pc [OF True] True by (auto simp: y_def)
    qed
    then show ?thesis using pc [OF True] by (simp add: row_sat_def par_one)
  next
    case False
    then have z: "\<not> ?m ! j ! c" if "c < n" for c using assms(1) j that by (simp add: reduced_def)
    then have "par n (\<lambda>c. ?m ! j ! c \<and> y c) = par n (\<lambda>c. False)" by (intro par_cong) simp
    then show ?thesis using assms(2) j z by (auto simp: row_sat_def par_False contradictory_def)
  qed
  then show ?thesis by (auto simp: sat_def)
qed

lemma contradictory_unsat: "contradictory n r \<Longrightarrow> \<not> row_sat n y r"
proof -
  assume a: "contradictory n r"
  then have "par n (\<lambda>c. r ! c \<and> y c) = par n (\<lambda>c. False)" by (intro par_cong) (simp add: contradictory_def)
  then show ?thesis using a by (simp add: row_sat_def par_False contradictory_def)
qed

end
