(* ===== verification/HalfProps.thy ===== *)
theory HalfProps
  imports HalfProof
begin

text \<open>
  The half-lattice systems: components are the connected classes of rows, the parity solver decides
  solvability modulo two (and names wrong witnesses), and a bounded completion solves its component.
\<close>

section \<open>Components\<close>

definition uses_var :: "equation list \<Rightarrow> nat \<Rightarrow> nat \<Rightarrow> bool" where
  "uses_var eqs row v \<longleftrightarrow> (\<exists>c. (v, c) \<in> set (eq_terms (eqs ! row)) \<and> c \<noteq> 0)"

definition shares :: "equation list \<Rightarrow> (nat \<times> nat) set" where
  "shares eqs = {(i, j). i < length eqs \<and> j < length eqs \<and> (\<exists>v. uses_var eqs i v \<and> uses_var eqs j v)}"

lemma equationsOf_set: "set (equationsOf eqs v) = {r. r < length eqs \<and> uses_var eqs r v}"
  by (force simp: equationsOf_def uses_var_def)

lemma pushAdjacents:
  assumes "fold pushAdjacent as (pending, visited) = (p, v)"
  shows "v = visited \<union> set as" "set p = set pending \<union> (set as - visited)"
    "distinct pending \<Longrightarrow> set pending \<subseteq> visited \<Longrightarrow> distinct p"
  using assms
proof (induction as arbitrary: pending visited)
  case (Cons a as)
  { case 1 show ?case using Cons.IH(1) 1 by (cases "a \<in> visited") (auto simp: pushAdjacent_def) }
  { case 2 show ?case using Cons.IH(2) 2 by (cases "a \<in> visited") (auto simp: pushAdjacent_def) }
  { case 3 show ?case
    proof (cases "a \<in> visited")
      case True
      then show ?thesis using Cons.IH(3) [of pending visited] 3 by (simp add: pushAdjacent_def)
    next
      case False
      then show ?thesis using Cons.IH(3) [of "pending @ [a]" "insert a visited"] 3 by (auto simp: pushAdjacent_def)
    qed }
qed auto

lemma visitTerm_live: "c \<noteq> 0 \<Longrightarrow> visitTerm eqs (w, c) (vars, pending, visited) =
    (vars @ [w], fold pushAdjacent (equationsOf eqs w) (pending, visited))"
  by (simp add: visitTerm_def)

lemma visitTerms:
  assumes "fold (visitTerm eqs) terms (vars, pending, visited) = (vs, p, v)"
  shows "vs = vars @ map fst (filter (\<lambda>(v, c). c \<noteq> 0) terms)"
    "v = visited \<union> (\<Union>(w, c) \<in> set terms. if c \<noteq> 0 then set (equationsOf eqs w) else {})"
    "set p = set pending \<union> (v - visited)"
    "distinct pending \<Longrightarrow> set pending \<subseteq> visited \<Longrightarrow> distinct p"
proof -
  have "vs = vars @ map fst (filter (\<lambda>(v, c). c \<noteq> 0) terms) \<and>
    v = visited \<union> (\<Union>(w, c) \<in> set terms. if c \<noteq> 0 then set (equationsOf eqs w) else {}) \<and>
    set p = set pending \<union> (v - visited) \<and> (distinct pending \<longrightarrow> set pending \<subseteq> visited \<longrightarrow> distinct p)"
    using assms
  proof (induction terms arbitrary: vars pending visited)
    case (Cons t terms)
    obtain w c where t: "t = (w, c)" by (cases t)
    show ?case
    proof (cases "c = 0")
      case True
      then show ?thesis using Cons.IH [of vars pending visited] Cons.prems by (simp add: t visitTerm_def)
    next
      case False
      obtain p' v' where f: "fold pushAdjacent (equationsOf eqs w) (pending, visited) = (p', v')" by (rule prod.exhaust)
      have r: "fold (visitTerm eqs) terms (vars @ [w], p', v') = (vs, p, v)" using Cons.prems False by (simp add: t visitTerm_live f)
      note ih = Cons.IH [OF r] and a = pushAdjacents [OF f]
      have "set p' \<subseteq> v'" if "set pending \<subseteq> visited" using a(1,2) that by auto
      then show ?thesis using ih a False by (auto simp: t)
    qed
  qed auto
  then show "vs = vars @ map fst (filter (\<lambda>(v, c). c \<noteq> 0) terms)"
    "v = visited \<union> (\<Union>(w, c) \<in> set terms. if c \<noteq> 0 then set (equationsOf eqs w) else {})"
    "set p = set pending \<union> (v - visited)"
    "distinct pending \<Longrightarrow> set pending \<subseteq> visited \<Longrightarrow> distinct p" by auto
qed

lemma visitRow:
  assumes "fold (visitTerm eqs) (eq_terms (eqs ! row)) (vars, pending, visited) = (vs, p, v)" "row < length eqs"
  shows "set vs = set vars \<union> {w. uses_var eqs row w}" "v = visited \<union> shares eqs `` {row}"
  using visitTerms(1,2) [OF assms(1)] assms(2)
  by (force simp: uses_var_def shares_def equationsOf_set split: if_splits)+

definition grown :: "equation list \<Rightarrow> nat \<Rightarrow> nat set \<Rightarrow> nat list \<Rightarrow> nat set \<Rightarrow> component \<Rightarrow> bool" where
  "grown eqs first base pending visited cmp \<longleftrightarrow>
     visited = base \<union> set (cp_equations cmp) \<union> set pending \<and> distinct (cp_equations cmp @ pending) \<and>
     base \<inter> (set (cp_equations cmp) \<union> set pending) = {} \<and>
     set (cp_equations cmp) \<union> set pending \<subseteq> (shares eqs)\<^sup>* `` {first} \<inter> {..<length eqs} \<and>
     shares eqs `` set (cp_equations cmp) \<subseteq> visited \<and>
     set (cp_variables cmp) = {w. \<exists>r \<in> set (cp_equations cmp). uses_var eqs r w} \<and>
     first \<in> set (cp_equations cmp) \<union> set pending \<and>
     (cp_rejection cmp = NoRejection \<longleftrightarrow> (\<forall>i \<in> set (cp_equations cmp). eq_rejection (eqs ! i) = NoRejection))"

lemma grow_grown:
  assumes "growComponent eqs pending visited cmp = (cmp', visited')" "grown eqs first base pending visited cmp"
  shows "grown eqs first base [] visited' cmp'"
  using assms
proof (induction eqs pending visited cmp rule: growComponent.induct)
  case (1 eqs pending visited cmp)
  show ?case
  proof (cases pending)
    case Nil
    then show ?thesis using 1(2,3) by (simp add: growComponent.simps)
  next
    case (Cons row rest)
    let ?cmp = "cmp\<lparr>cp_equations := cp_equations cmp @ [row],
        cp_rejection := firstRejection (cp_rejection cmp) (eq_rejection (eqs ! row))\<rparr>"
    obtain vs p v where f: "fold (visitTerm eqs) (eq_terms (eqs ! row)) (cp_variables ?cmp, rest, visited) = (vs, p, v)"
      by (rule prod_cases3)
    have g: "visited = base \<union> set (cp_equations cmp) \<union> set pending" "distinct (cp_equations cmp @ pending)"
        "base \<inter> (set (cp_equations cmp) \<union> set pending) = {}"
        "set (cp_equations cmp) \<union> set pending \<subseteq> (shares eqs)\<^sup>* `` {first} \<inter> {..<length eqs}"
        "shares eqs `` set (cp_equations cmp) \<subseteq> visited"
        "set (cp_variables cmp) = {w. \<exists>r \<in> set (cp_equations cmp). uses_var eqs r w}"
        "first \<in> set (cp_equations cmp) \<union> set pending"
        "cp_rejection cmp = NoRejection \<longleftrightarrow> (\<forall>i \<in> set (cp_equations cmp). eq_rejection (eqs ! i) = NoRejection)"
      using 1(3) unfolding grown_def by blast+
    have row: "row < length eqs" "(first, row) \<in> (shares eqs)\<^sup>*" using g(4) Cons by auto
    note vr = visitRow [OF f row(1)] and vt = visitTerms(3,4) [OF f]
    have run: "growComponent eqs p v (?cmp\<lparr>cp_variables := vs\<rparr>) = (cmp', visited')"
      using 1(2) f by (simp add: Cons growComponent.simps [of eqs "row # rest"] Let_def)
    have dist: "distinct p" using vt(2) g(1,2) Cons by auto
    have reach: "shares eqs `` {row} \<subseteq> (shares eqs)\<^sup>* `` {first} \<inter> {..<length eqs}"
      using row(2) by (auto simp: shares_def intro: rtrancl_into_rtrancl)
    have "grown eqs first base p v (?cmp\<lparr>cp_variables := vs\<rparr>)"
      unfolding grown_def
    proof (intro conjI)
      show "v = base \<union> set (cp_equations (?cmp\<lparr>cp_variables := vs\<rparr>)) \<union> set p"
        using vr(2) vt(1) g(1) Cons by auto
      show "distinct (cp_equations (?cmp\<lparr>cp_variables := vs\<rparr>) @ p)"
        using dist vt(1) g(1,2) Cons by auto
      show "base \<inter> (set (cp_equations (?cmp\<lparr>cp_variables := vs\<rparr>)) \<union> set p) = {}"
        using vt(1) g(1,3) Cons by auto
      show "set (cp_equations (?cmp\<lparr>cp_variables := vs\<rparr>)) \<union> set p \<subseteq> (shares eqs)\<^sup>* `` {first} \<inter> {..<length eqs}"
        using vt(1) vr(2) g(4) reach Cons by auto
      show "shares eqs `` set (cp_equations (?cmp\<lparr>cp_variables := vs\<rparr>)) \<subseteq> v"
        using vr(2) g(5) by auto
      show "set (cp_variables (?cmp\<lparr>cp_variables := vs\<rparr>)) = {w. \<exists>r \<in> set (cp_equations (?cmp\<lparr>cp_variables := vs\<rparr>)). uses_var eqs r w}"
        using vr(1) g(6) by auto
      show "first \<in> set (cp_equations (?cmp\<lparr>cp_variables := vs\<rparr>)) \<union> set p" using g(7) Cons vt(1) by auto
      show "(cp_rejection (?cmp\<lparr>cp_variables := vs\<rparr>) = NoRejection) =
          (\<forall>i \<in> set (cp_equations (?cmp\<lparr>cp_variables := vs\<rparr>)). eq_rejection (eqs ! i) = NoRejection)"
        using g(8) by (auto simp: firstRejection_def)
    qed
    then show ?thesis by (rule 1(1) [OF Cons refl f [symmetric] refl run])
  qed
qed

lemma shares_sym: "(i, j) \<in> shares eqs \<Longrightarrow> (j, i) \<in> shares eqs"
  by (auto simp: shares_def)

lemma shares_rtrancl_sym: "(i, j) \<in> (shares eqs)\<^sup>* \<Longrightarrow> (j, i) \<in> (shares eqs)\<^sup>*"
  using shares_sym by (metis symI sym_rtrancl symE)

definition row_class :: "equation list \<Rightarrow> nat \<Rightarrow> nat set" where
  "row_class eqs i = (shares eqs)\<^sup>* `` {i} \<inter> {..<length eqs}"

lemma closed_rtrancl:
  assumes "shares eqs `` S \<subseteq> S" "i \<in> S" "(i, j) \<in> (shares eqs)\<^sup>*"
  shows "j \<in> S"
  using assms(3) by (induction rule: rtrancl_induct) (use assms in auto)

lemma grown_whole:
  assumes "grown eqs first base [] visited cmp" "shares eqs `` base \<subseteq> base" "first < length eqs"
  shows "set (cp_equations cmp) = row_class eqs first" "distinct (cp_equations cmp)" "visited = base \<union> row_class eqs first"
    "set (cp_variables cmp) = {w. \<exists>r \<in> set (cp_equations cmp). uses_var eqs r w}"
    "shares eqs `` visited \<subseteq> visited"
    "cp_rejection cmp = NoRejection \<longleftrightarrow> (\<forall>i \<in> set (cp_equations cmp). eq_rejection (eqs ! i) = NoRejection)"
proof -
  let ?D = "set (cp_equations cmp)"
  have g: "visited = base \<union> ?D" "distinct (cp_equations cmp)" "base \<inter> ?D = {}" "?D \<subseteq> row_class eqs first"
      "shares eqs `` ?D \<subseteq> visited" "first \<in> ?D"
    using assms(1) by (auto simp: grown_def row_class_def)
  have "shares eqs `` ?D \<subseteq> ?D"
  proof
    fix j assume "j \<in> shares eqs `` ?D"
    then obtain i where i: "i \<in> ?D" "(i, j) \<in> shares eqs" by blast
    have "j \<notin> base"
    proof
      assume "j \<in> base"
      then have "i \<in> base" using assms(2) shares_sym [OF i(2)] by auto
      then show False using i(1) g(3) by auto
    qed
    then show "j \<in> ?D" using i g(1,5) by auto
  qed
  then have "row_class eqs first \<subseteq> ?D" using closed_rtrancl [of eqs ?D first] g(6) by (auto simp: row_class_def)
  then show d: "?D = row_class eqs first" using g(4) by auto
  show "distinct (cp_equations cmp)" by (rule g(2))
  show "visited = base \<union> row_class eqs first" using g(1) d by simp
  show "set (cp_variables cmp) = {w. \<exists>r \<in> ?D. uses_var eqs r w}" using assms(1) by (simp add: grown_def)
  show "shares eqs `` visited \<subseteq> visited" using \<open>shares eqs `` ?D \<subseteq> ?D\<close> assms(2) g(1) by auto
  show "cp_rejection cmp = NoRejection \<longleftrightarrow> (\<forall>i \<in> ?D. eq_rejection (eqs ! i) = NoRejection)"
    using assms(1) by (simp add: grown_def)
qed

lemma distinct_remdups_adj_sort: "distinct (remdups_adj (sort (xs :: nat list)))"
proof -
  have "sorted ys \<Longrightarrow> distinct (remdups_adj ys)" for ys :: "nat list"
    by (induction ys rule: remdups_adj.induct) (auto simp: order_le_less)
  then show ?thesis by simp
qed

definition component_of :: "equation list \<Rightarrow> nat \<Rightarrow> component \<Rightarrow> bool" where
  "component_of eqs i cmp \<longleftrightarrow> sorted (cp_equations cmp) \<and> distinct (cp_equations cmp) \<and> set (cp_equations cmp) = row_class eqs i \<and>
     sorted (cp_variables cmp) \<and> distinct (cp_variables cmp) \<and>
     set (cp_variables cmp) = {w. \<exists>r \<in> row_class eqs i. uses_var eqs r w} \<and>
     (cp_rejection cmp = NoRejection \<longleftrightarrow> (\<forall>r \<in> row_class eqs i. eq_rejection (eqs ! r) = NoRejection))"

definition build_step :: "equation list \<Rightarrow> nat \<Rightarrow> nat set \<times> component list \<Rightarrow> nat set \<times> component list" where
  "build_step eqs = (\<lambda>first (visited, components).
       if first \<in> visited then (visited, components)
       else (case growComponent eqs [first] (insert first visited)
                    \<lparr>cp_equations = [], cp_variables = [], cp_rejection = NoRejection\<rparr> of
               (component, visited) \<Rightarrow>
                 (visited, components @ [component\<lparr>cp_equations := sort (cp_equations component),
                                                   cp_variables := remdups_adj (sort (cp_variables component))\<rparr>])))"

lemma build_steps:
  assumes "k \<le> length eqs"
  shows "\<exists>visited seeds cmps. fold (build_step eqs) [0..<k] ({}, []) = (visited, cmps) \<and>
    visited = (\<Union>i < k. row_class eqs i) \<and> list_all2 (component_of eqs) seeds cmps \<and>
    set seeds \<subseteq> {..<length eqs} \<and> distinct (map (row_class eqs) seeds) \<and> (\<Union>i \<in> set seeds. row_class eqs i) = visited"
  using assms
proof (induction k)
  case 0
  show ?case by simp
next
  case (Suc k)
  then obtain visited seeds cmps where ih: "fold (build_step eqs) [0..<k] ({}, []) = (visited, cmps)"
      "visited = (\<Union>i < k. row_class eqs i)" "list_all2 (component_of eqs) seeds cmps"
      "set seeds \<subseteq> {..<length eqs}" "distinct (map (row_class eqs) seeds)" "(\<Union>i \<in> set seeds. row_class eqs i) = visited"
    by auto
  have k: "k < length eqs" "k \<in> row_class eqs k" using Suc.prems by (simp_all add: row_class_def)
  have closed: "shares eqs `` visited \<subseteq> visited"
    unfolding ih(2) row_class_def by (auto intro: rtrancl_into_rtrancl simp: shares_def)
  have inside: "row_class eqs i \<subseteq> visited" if "i \<in> visited" for i
    using closed_rtrancl [OF closed that] by (auto simp: row_class_def)
  show ?case
  proof (cases "k \<in> visited")
    case True
    have "(\<Union>i < Suc k. row_class eqs i) = row_class eqs k \<union> visited" by (simp add: lessThan_Suc ih(2))
    then have "visited = (\<Union>i < Suc k. row_class eqs i)" using inside [OF True] by auto
    moreover have "fold (build_step eqs) [0..<Suc k] ({}, []) = (visited, cmps)" using ih(1) True by (simp add: build_step_def)
    ultimately show ?thesis using ih(3-6) by blast
  next
    case False
    obtain cmp v where g: "growComponent eqs [k] (insert k visited) \<lparr>cp_equations = [], cp_variables = [], cp_rejection = NoRejection\<rparr> = (cmp, v)"
      by (rule prod.exhaust)
    have "grown eqs k visited [k] (insert k visited) \<lparr>cp_equations = [], cp_variables = [], cp_rejection = NoRejection\<rparr>"
      using False k by (auto simp: grown_def)
    note w = grown_whole [OF grow_grown [OF g this] closed k(1)]
    let ?c = "cmp\<lparr>cp_equations := sort (cp_equations cmp), cp_variables := remdups_adj (sort (cp_variables cmp))\<rparr>"
    have r: "fold (build_step eqs) [0..<Suc k] ({}, []) = (v, cmps @ [?c])" using ih(1) False g by (simp add: build_step_def)
    have c: "component_of eqs k ?c"
      using w(1,2,4,6) by (simp add: component_of_def sorted_remdups_adj distinct_remdups_adj_sort)
    have "v = (\<Union>i < Suc k. row_class eqs i)" using w(3) ih(2) by (auto simp: less_Suc_eq)
    moreover have "list_all2 (component_of eqs) (seeds @ [k]) (cmps @ [?c])" using ih(3) c by (simp add: list_all2_appendI)
    moreover have "row_class eqs k \<notin> row_class eqs ` set seeds" using k(2) False ih(6) by blast
    then have "distinct (map (row_class eqs) (seeds @ [k]))" using ih(5) by simp
    moreover have "(\<Union>i \<in> set (seeds @ [k]). row_class eqs i) = v" using ih(6) w(3) by auto
    moreover have "set (seeds @ [k]) \<subseteq> {..<length eqs}" using ih(4) k(1) by simp
    ultimately show ?thesis using r by blast
  qed
qed

lemma build_spec:
  "\<exists>seeds. list_all2 (component_of eqs) seeds (buildComponents eqs) \<and> set seeds \<subseteq> {..<length eqs} \<and>
     distinct (map (row_class eqs) seeds) \<and> (\<Union>i \<in> set seeds. row_class eqs i) = {..<length eqs}"
proof -
  obtain visited seeds cmps where b: "fold (build_step eqs) [0..<length eqs] ({}, []) = (visited, cmps)"
      "visited = (\<Union>i < length eqs. row_class eqs i)" "list_all2 (component_of eqs) seeds cmps"
      "set seeds \<subseteq> {..<length eqs}" "distinct (map (row_class eqs) seeds)" "(\<Union>i \<in> set seeds. row_class eqs i) = visited"
    using build_steps [of "length eqs" eqs] by auto
  have "buildComponents eqs = cmps" using b(1) by (simp add: buildComponents_def build_step_def)
  moreover have "visited = {..<length eqs}" using b(2) by (auto simp: row_class_def)
  ultimately show ?thesis using b(3-6) by auto
qed

lemma row_class_eq: "j \<in> row_class eqs i \<Longrightarrow> row_class eqs j = row_class eqs i"
  using shares_rtrancl_sym [of i j eqs] by (auto simp: row_class_def intro: rtrancl_trans)

lemma built_component:
  assumes "c \<in> set (buildComponents eqs)" "i \<in> set (cp_equations c)"
  shows "component_of eqs i c"
proof -
  obtain seeds where "list_all2 (component_of eqs) seeds (buildComponents eqs)" using build_spec by blast
  then obtain k where k: "component_of eqs k c" using assms(1) by (auto simp: list_all2_conv_all_nth in_set_conv_nth)
  then have "row_class eqs i = row_class eqs k" using row_class_eq [of i eqs k] assms(2) by (simp add: component_of_def)
  then show ?thesis using k by (simp add: component_of_def)
qed

lemma built_partition: "(\<Union>c \<in> set (buildComponents eqs). set (cp_equations c)) = {..<length eqs}"
proof -
  obtain seeds where s: "list_all2 (component_of eqs) seeds (buildComponents eqs)" "(\<Union>i \<in> set seeds. row_class eqs i) = {..<length eqs}"
    using build_spec by blast
  then have "map (\<lambda>c. set (cp_equations c)) (buildComponents eqs) = map (row_class eqs) seeds"
    by (intro nth_equalityI) (auto simp: list_all2_conv_all_nth component_of_def)
  then have "(\<lambda>c. set (cp_equations c)) ` set (buildComponents eqs) = row_class eqs ` set seeds" by (metis list.set_map)
  then show ?thesis using s(2) by simp
qed

lemma built_disjoint:
  assumes "a < length (buildComponents eqs)" "b < length (buildComponents eqs)" "a \<noteq> b"
  shows "set (cp_equations (buildComponents eqs ! a)) \<inter> set (cp_equations (buildComponents eqs ! b)) = {}"
    "set (cp_variables (buildComponents eqs ! a)) \<inter> set (cp_variables (buildComponents eqs ! b)) = {}"
proof -
  obtain seeds where s: "list_all2 (component_of eqs) seeds (buildComponents eqs)" "distinct (map (row_class eqs) seeds)"
    using build_spec by blast
  then have len: "length seeds = length (buildComponents eqs)" by (simp add: list_all2_lengthD)
  have n: "component_of eqs (seeds ! a) (buildComponents eqs ! a)" "component_of eqs (seeds ! b) (buildComponents eqs ! b)"
    using s(1) assms len by (simp_all add: list_all2_conv_all_nth)
  have "row_class eqs (seeds ! a) \<noteq> row_class eqs (seeds ! b)" using s(2) len assms by (auto simp: distinct_conv_nth)
  then have dis: "row_class eqs (seeds ! a) \<inter> row_class eqs (seeds ! b) = {}" using row_class_eq by blast
  have "False" if "i \<in> row_class eqs (seeds ! a)" "uses_var eqs i v" "j \<in> row_class eqs (seeds ! b)" "uses_var eqs j v" for i j v
  proof -
    have "(i, j) \<in> shares eqs" using that by (auto simp: shares_def row_class_def)
    then have "j \<in> row_class eqs i" by (auto simp: row_class_def shares_def)
    then show False using row_class_eq [OF that(1)] that(3) dis by auto
  qed
  then have "{w. \<exists>r \<in> row_class eqs (seeds ! a). uses_var eqs r w} \<inter> {w. \<exists>r \<in> row_class eqs (seeds ! b). uses_var eqs r w} = {}"
    by blast
  then show "set (cp_equations (buildComponents eqs ! a)) \<inter> set (cp_equations (buildComponents eqs ! b)) = {}"
    "set (cp_variables (buildComponents eqs ! a)) \<inter> set (cp_variables (buildComponents eqs ! b)) = {}"
    using n dis unfolding component_of_def by simp_all
qed

lemma built_nonempty:
  assumes "c \<in> set (buildComponents eqs)"
  obtains i where "i \<in> set (cp_equations c)"
proof -
  obtain seeds where s: "list_all2 (component_of eqs) seeds (buildComponents eqs)" "set seeds \<subseteq> {..<length eqs}" using build_spec by blast
  then obtain k where "component_of eqs k c" "k < length eqs" using assms by (force simp: list_all2_conv_all_nth in_set_conv_nth)
  then have "k \<in> set (cp_equations c)" by (simp add: component_of_def row_class_def)
  then show thesis by (rule that)
qed

lemma built_class:
  assumes "c \<in> set (buildComponents eqs)" "i \<in> set (cp_equations c)"
  shows "set (cp_equations c) = {j. j < length eqs \<and> (i, j) \<in> (shares eqs)\<^sup>*}"
  using built_component [OF assms] by (auto simp: component_of_def row_class_def)

lemma built_fields:
  assumes "c \<in> set (buildComponents eqs)"
  shows "sorted (cp_equations c)" "distinct (cp_equations c)" "sorted (cp_variables c)" "distinct (cp_variables c)"
    "set (cp_variables c) = {v. \<exists>i \<in> set (cp_equations c). uses_var eqs i v}"
    "cp_rejection c = NoRejection \<longleftrightarrow> (\<forall>i \<in> set (cp_equations c). eq_rejection (eqs ! i) = NoRejection)"
proof -
  obtain i where "i \<in> set (cp_equations c)" using built_nonempty [OF assms] .
  from built_component [OF assms this]
  show "sorted (cp_equations c)" "distinct (cp_equations c)" "sorted (cp_variables c)" "distinct (cp_variables c)"
    "set (cp_variables c) = {v. \<exists>i \<in> set (cp_equations c). uses_var eqs i v}"
    "cp_rejection c = NoRejection \<longleftrightarrow> (\<forall>i \<in> set (cp_equations c). eq_rejection (eqs ! i) = NoRejection)"
    by (simp_all add: component_of_def)
qed

text \<open>
  C35. \<open>buildComponents\<close> splits the rows into the classes of rows linked through shared variables:
  every row is in exactly one component, a component holds a row together with all rows it is linked
  to, its variables are those of its rows in ascending order, two components share no variable, and a
  component is rejected exactly when one of its rows is.
\<close>

theorem components_exact:
  "(\<Union>c \<in> set (buildComponents eqs). set (cp_equations c)) = {..<length eqs} \<and>
   (\<forall>c \<in> set (buildComponents eqs). sorted (cp_equations c) \<and> distinct (cp_equations c) \<and> sorted (cp_variables c) \<and> distinct (cp_variables c) \<and>
      (\<forall>i \<in> set (cp_equations c). set (cp_equations c) = {j. j < length eqs \<and> (i, j) \<in> (shares eqs)\<^sup>*}) \<and>
      set (cp_variables c) = {v. \<exists>i \<in> set (cp_equations c). uses_var eqs i v} \<and>
      (cp_rejection c = NoRejection \<longleftrightarrow> (\<forall>i \<in> set (cp_equations c). eq_rejection (eqs ! i) = NoRejection))) \<and>
   (\<forall>a < length (buildComponents eqs). \<forall>b < length (buildComponents eqs). a \<noteq> b \<longrightarrow>
      set (cp_equations (buildComponents eqs ! a)) \<inter> set (cp_equations (buildComponents eqs ! b)) = {} \<and>
      set (cp_variables (buildComponents eqs ! a)) \<inter> set (cp_variables (buildComponents eqs ! b)) = {})"
proof (intro conjI ballI)
  show "(\<Union>c \<in> set (buildComponents eqs). set (cp_equations c)) = {..<length eqs}" by (rule built_partition)
next
  fix c assume c: "c \<in> set (buildComponents eqs)"
  show "sorted (cp_equations c)" "distinct (cp_equations c)" "sorted (cp_variables c)" "distinct (cp_variables c)"
    "set (cp_variables c) = {v. \<exists>i \<in> set (cp_equations c). uses_var eqs i v}"
    "cp_rejection c = NoRejection \<longleftrightarrow> (\<forall>i \<in> set (cp_equations c). eq_rejection (eqs ! i) = NoRejection)"
    by (rule built_fields [OF c])+
  fix i assume "i \<in> set (cp_equations c)"
  then show "set (cp_equations c) = {j. j < length eqs \<and> (i, j) \<in> (shares eqs)\<^sup>*}" by (rule built_class [OF c])
next
  show "\<forall>a < length (buildComponents eqs). \<forall>b < length (buildComponents eqs). a \<noteq> b \<longrightarrow>
      set (cp_equations (buildComponents eqs ! a)) \<inter> set (cp_equations (buildComponents eqs ! b)) = {} \<and>
      set (cp_variables (buildComponents eqs ! a)) \<inter> set (cp_variables (buildComponents eqs ! b)) = {}"
    using built_disjoint by blast
qed

section \<open>The parity solver\<close>

lemma columnOf_Some: "columnOf cmp v = Some c \<Longrightarrow> c < length (cp_variables cmp) \<and> cp_variables cmp ! c = v"
  by (auto simp: columnOf_def find_Some_iff)

lemma columnOf_var: "v \<in> set (cp_variables cmp) \<Longrightarrow> \<exists>c. columnOf cmp v = Some c"
  by (cases "columnOf cmp v") (auto simp: columnOf_def find_None_iff in_set_conv_nth)

lemma par_toggle:
  assumes "j < n" "n < length row"
  shows "par n (\<lambda>c. row[j := \<not> row ! j] ! c \<and> y c) = (par n (\<lambda>c. row ! c \<and> y c) \<noteq> y j)"
proof -
  have "par n (\<lambda>c. row[j := \<not> row ! j] ! c \<and> y c) = par n (\<lambda>c. (row ! c \<and> y c) \<noteq> (c = j \<and> y j))"
    using assms by (intro par_cong) (auto simp: nth_list_update)
  then show ?thesis using assms(1) unfolding par_xor par_one by simp
qed

definition bit_value :: "component \<Rightarrow> (nat \<Rightarrow> bool) \<Rightarrow> nat \<Rightarrow> int" where
  "bit_value cmp y v = (if y (the (columnOf cmp v)) then 1 else 0)"

definition term_sum :: "(nat \<Rightarrow> int) \<Rightarrow> (nat \<times> int) list \<Rightarrow> int" where
  "term_sum x terms = (\<Sum>(v, c) \<leftarrow> terms. c * x v)"

lemma parityTerm_even: "even k \<Longrightarrow> parityTerm cmp (v, k) r = r"
  by (simp add: parityTerm_def)

lemma parityTerm_odd: "odd k \<Longrightarrow> parityTerm cmp (v, k) (Some row) = map_option (\<lambda>c. row[c := \<not> row ! c]) (columnOf cmp v)"
  by (simp add: parityTerm_def)

lemma parityTerms_None: "fold (parityTerm cmp) terms None = None"
  by (induction terms) (auto simp: parityTerm_def)

lemma parityTerms:
  assumes "fold (parityTerm cmp) terms (Some row) = Some row'" "length row = length (cp_variables cmp) + 2"
  shows "length row' = length row \<and> par (length (cp_variables cmp)) (\<lambda>c. row' ! c \<and> y c) =
    (par (length (cp_variables cmp)) (\<lambda>c. row ! c \<and> y c) \<noteq> odd (term_sum (bit_value cmp y) terms))"
  using assms
proof (induction terms arbitrary: row)
  case Nil
  then show ?case by (simp add: term_sum_def)
next
  case (Cons t terms)
  obtain v k where t: "t = (v, k)" by (cases t)
  show ?case
  proof (cases "even k")
    case True
    then have "fold (parityTerm cmp) terms (Some row) = Some row'" using Cons.prems(1) by (simp add: t parityTerm_even)
    then show ?thesis using Cons.IH Cons.prems(2) True by (simp add: t term_sum_def)
  next
    case False
    obtain c where c: "columnOf cmp v = Some c"
      using Cons.prems(1) False parityTerms_None by (cases "columnOf cmp v") (auto simp: t parityTerm_odd)
    then have "fold (parityTerm cmp) terms (Some (row[c := \<not> row ! c])) = Some row'"
      using Cons.prems(1) False by (simp add: t parityTerm_odd)
    then show ?thesis
      using Cons.IH [of "row[c := \<not> row ! c]"] Cons.prems(2) False par_toggle [of c "length (cp_variables cmp)" row y] columnOf_Some [OF c] c
      by (auto simp: t term_sum_def bit_value_def)
  qed
qed

lemma parityRow_sat:
  assumes "parityRow eqs cmp i = Some row"
  shows "length row = length (cp_variables cmp) + 2 \<and>
    row_sat (length (cp_variables cmp)) y row = even (term_sum (bit_value cmp y) (eq_terms (eqs ! i)) - eq_rhs (eqs ! i))"
proof -
  let ?n = "length (cp_variables cmp)"
  obtain row' where r: "fold (parityTerm cmp) (eq_terms (eqs ! i)) (Some (replicate (?n + 2) False)) = Some row'"
      "row = row'[?n := odd (eq_rhs (eqs ! i))]"
    using assms by (auto simp: parityRow_def Let_def)
  have "replicate (?n + 2) False ! c = False" if "c < ?n" for c using that by (intro nth_replicate) simp
  then have "par ?n (\<lambda>c. replicate (?n + 2) False ! c \<and> y c) = par ?n (\<lambda>c. False)" by (intro par_cong) blast
  then have l: "length row' = ?n + 2" "par ?n (\<lambda>c. row' ! c \<and> y c) = odd (term_sum (bit_value cmp y) (eq_terms (eqs ! i)))"
    using parityTerms [OF r(1), of y] by (simp_all add: par_False)
  have "par ?n (\<lambda>c. row ! c \<and> y c) = par ?n (\<lambda>c. row' ! c \<and> y c)" by (intro par_cong) (simp add: r(2))
  then show ?thesis using l by (simp add: row_sat_def r(2))
qed

lemma parityRows_nth:
  assumes "parityRows eqs cmp rows = Some m"
  shows "length m = length rows \<and> (\<forall>j < length rows. parityRow eqs cmp (rows ! j) = Some (m ! j))"
  using assms
proof (induction rows arbitrary: m)
  case (Cons r rows)
  then obtain row m' where "parityRow eqs cmp r = Some row" "parityRows eqs cmp rows = Some m'" "m = row # m'"
    by (auto simp: bind_eq_Some_conv)
  then show ?case using Cons.IH by (auto simp: less_Suc_eq_0_disj)
qed simp

lemma parityRows_sat:
  assumes "parityRows eqs cmp rows = Some m"
  shows "sat (length (cp_variables cmp)) y m \<longleftrightarrow>
    (\<forall>i \<in> set rows. even (term_sum (bit_value cmp y) (eq_terms (eqs ! i)) - eq_rhs (eqs ! i)))"
proof -
  have "row_sat (length (cp_variables cmp)) y (m ! j) =
      even (term_sum (bit_value cmp y) (eq_terms (eqs ! (rows ! j))) - eq_rhs (eqs ! (rows ! j)))" if "j < length rows" for j
    using parityRows_nth [OF assms] parityRow_sat [of eqs cmp "rows ! j" "m ! j" y] that by blast
  then show ?thesis using parityRows_nth [OF assms] unfolding sat_def all_set_conv_all_nth by simp
qed

lemma parityTerms_columns:
  assumes "fold (parityTerm cmp) terms (Some row) = Some row'" "(v, c) \<in> set terms" "odd c"
  shows "\<exists>k. columnOf cmp v = Some k"
  using assms(1,2)
proof (induction terms arbitrary: row)
  case (Cons t terms)
  obtain w k where t: "t = (w, k)" by (cases t)
  show ?case
  proof (cases "even k")
    case True
    then show ?thesis using Cons assms(3) by (auto simp: t parityTerm_even)
  next
    case False
    obtain d where d: "columnOf cmp w = Some d"
      using Cons.prems(1) False parityTerms_None by (cases "columnOf cmp w") (auto simp: t parityTerm_odd)
    then have "fold (parityTerm cmp) terms (Some (row[d := \<not> row ! d])) = Some row'"
      using Cons.prems(1) False by (simp add: t parityTerm_odd)
    then show ?thesis using Cons.IH Cons.prems(2) d by (auto simp: t)
  qed
qed simp

lemma parityTerms_defined:
  assumes "\<forall>(v, c) \<in> set terms. odd c \<longrightarrow> v \<in> set (cp_variables cmp)"
  shows "\<exists>row'. fold (parityTerm cmp) terms (Some row) = Some row'"
  using assms
proof (induction terms arbitrary: row)
  case (Cons t terms)
  obtain v k where t: "t = (v, k)" by (cases t)
  show ?case
  proof (cases "even k")
    case True
    then show ?thesis using Cons by (simp add: t parityTerm_even)
  next
    case False
    then obtain c where "columnOf cmp v = Some c" using Cons.prems columnOf_var [of v cmp] by (auto simp: t)
    then show ?thesis using Cons False by (simp add: t parityTerm_odd)
  qed
qed simp

lemma term_sum_cong: "(\<And>v c. (v, c) \<in> set terms \<Longrightarrow> odd c \<Longrightarrow> odd (x v) = odd (z v)) \<Longrightarrow> odd (term_sum x terms) = odd (term_sum z terms)"
  by (induction terms) (fastforce simp: term_sum_def)+

lemma solveParity_spec:
  assumes "solveParity eqs cmp = Some r"
  shows "pr_consistent r \<longleftrightarrow> (\<exists>x. \<forall>i \<in> set (cp_equations cmp). even (term_sum x (eq_terms (eqs ! i)) - eq_rhs (eqs ! i)))"
proof -
  let ?n = "length (cp_variables cmp)" and ?rows = "cp_equations cmp"
  obtain m where m: "parityRows eqs cmp ?rows = Some m" using assms by (auto simp: solveParity_def)
  let ?init = "\<lparr>pt_matrix = m, pt_provenance = map (\<lambda>r. [r]) ?rows, pt_pivot = 0\<rparr>"
  let ?st = "fold (parityColumn ?n) [0..<?n] ?init"
  have "\<forall>row \<in> set m. ?n < length row"
    using parityRows_nth [OF m] parityRow_sat by (fastforce simp: in_set_conv_nth)
  then have red: "reduced ?n ?n ?st" "\<And>y. sat ?n y (pt_matrix ?st) = sat ?n y m"
    using columns_reduced [of ?init ?n ?n] by simp_all
  have cons: "pr_consistent r \<longleftrightarrow> (\<forall>j < length (pt_matrix ?st). \<not> contradictory ?n (pt_matrix ?st ! j))"
  proof (cases "find (\<lambda>r. contradictory ?n (pt_matrix ?st ! r)) [0..<length (pt_matrix ?st)]")
    case None
    then have "pr_consistent r" using assms m by (auto simp: solveParity_def Let_def)
    moreover have "\<forall>j < length (pt_matrix ?st). \<not> contradictory ?n (pt_matrix ?st ! j)"
      using None unfolding find_None_iff by auto
    ultimately show ?thesis by blast
  next
    case (Some j)
    then have "\<not> pr_consistent r" using assms m by (auto simp: solveParity_def Let_def)
    moreover have "\<exists>j < length (pt_matrix ?st). contradictory ?n (pt_matrix ?st ! j)"
      using Some unfolding find_Some_iff by auto
    ultimately show ?thesis by blast
  qed
  have "pr_consistent r \<longleftrightarrow> (\<exists>y. sat ?n y m)"
    using cons reduced_solvable [OF red(1)] contradictory_unsat red(2) unfolding sat_def by metis
  also have "\<dots> \<longleftrightarrow> (\<exists>x. \<forall>i \<in> set ?rows. even (term_sum x (eq_terms (eqs ! i)) - eq_rhs (eqs ! i)))"
  proof
    assume "\<exists>y. sat ?n y m"
    then show "\<exists>x. \<forall>i \<in> set ?rows. even (term_sum x (eq_terms (eqs ! i)) - eq_rhs (eqs ! i))"
      using parityRows_sat [OF m] by blast
  next
    assume "\<exists>x. \<forall>i \<in> set ?rows. even (term_sum x (eq_terms (eqs ! i)) - eq_rhs (eqs ! i))"
    then obtain x where x: "\<And>i. i \<in> set ?rows \<Longrightarrow> even (term_sum x (eq_terms (eqs ! i)) - eq_rhs (eqs ! i))" by blast
    define y where "y c \<longleftrightarrow> odd (x (cp_variables cmp ! c))" for c
    have "odd (term_sum (bit_value cmp y) (eq_terms (eqs ! i))) = odd (term_sum x (eq_terms (eqs ! i)))" if i: "i \<in> set ?rows" for i
    proof (rule term_sum_cong)
      fix v c assume v: "(v, c) \<in> set (eq_terms (eqs ! i))" "odd c"
      obtain j where "j < length ?rows" "?rows ! j = i" using i by (auto simp: in_set_conv_nth)
      then obtain row where "parityRow eqs cmp i = Some row" using parityRows_nth [OF m] by auto
      then obtain row' where "fold (parityTerm cmp) (eq_terms (eqs ! i)) (Some (replicate (?n + 2) False)) = Some row'"
        by (auto simp: parityRow_def Let_def)
      then have "\<exists>k. columnOf cmp v = Some k" using parityTerms_columns v by blast
      then obtain k where "columnOf cmp v = Some k" by blast
      then show "odd (bit_value cmp y v) = odd (x v)" using columnOf_Some by (auto simp: bit_value_def y_def)
    qed
    then show "\<exists>y. sat ?n y m" using parityRows_sat [OF m] x by auto
  qed
  finally show ?thesis .
qed

lemma parityRows_defined:
  assumes "\<forall>i \<in> set rows. \<forall>(v, c) \<in> set (eq_terms (eqs ! i)). odd c \<longrightarrow> v \<in> set (cp_variables cmp)"
  shows "\<exists>m. parityRows eqs cmp rows = Some m"
  using assms
proof (induction rows)
  case (Cons i rows)
  have "\<forall>(v, c) \<in> set (eq_terms (eqs ! i)). odd c \<longrightarrow> v \<in> set (cp_variables cmp)" using Cons.prems by simp
  from parityTerms_defined [OF this] obtain row where
    "fold (parityTerm cmp) (eq_terms (eqs ! i)) (Some (replicate (length (cp_variables cmp) + 2) False)) = Some row" by blast
  then have "parityRow eqs cmp i = Some (row[length (cp_variables cmp) := odd (eq_rhs (eqs ! i))])"
    by (simp add: parityRow_def Let_def)
  then show ?case using Cons by auto
qed simp

text \<open>
  C36. On a component that \<open>buildComponents\<close> made, the parity solver returns, and it calls the
  component consistent exactly when some integer assignment satisfies every row modulo two.
\<close>

theorem parity_decides:
  assumes "c \<in> set (buildComponents eqs)"
  shows "\<exists>r. solveParity eqs c = Some r \<and> (pr_consistent r \<longleftrightarrow>
    (\<exists>x. \<forall>i \<in> set (cp_equations c). even (term_sum x (eq_terms (eqs ! i)) - eq_rhs (eqs ! i))))"
proof -
  obtain i where "component_of eqs i c" using build_spec [of eqs] assms by (metis in_set_conv_nth list_all2_conv_all_nth)
  then have "\<forall>i \<in> set (cp_equations c). \<forall>(v, k) \<in> set (eq_terms (eqs ! i)). odd k \<longrightarrow> v \<in> set (cp_variables c)"
    by (fastforce simp: component_of_def uses_var_def)
  from parityRows_defined [OF this] obtain r where "solveParity eqs c = Some r" by (auto simp: solveParity_def Let_def)
  then show ?thesis using solveParity_spec by blast
qed

definition witness_rows :: "equation list" where
  "witness_rows =
     [\<lparr>eq_arc = 0, eq_terms = [(0, 2), (1, 1)], eq_rhs = 0, eq_rejection = NoRejection\<rparr>,
      \<lparr>eq_arc = 1, eq_terms = [(0, 1)], eq_rhs = 0, eq_rejection = NoRejection\<rparr>,
      \<lparr>eq_arc = 2, eq_terms = [(0, 1)], eq_rhs = 1, eq_rejection = NoRejection\<rparr>]"

definition witness_component :: component where
  "witness_component = \<lparr>cp_equations = [0, 1, 2], cp_variables = [0, 1], cp_rejection = NoRejection\<rparr>"

lemma witness_built: "buildComponents witness_rows = [witness_component]"
  by (simp add: buildComponents_def witness_rows_def witness_component_def growComponent.simps visitTerm_def pushAdjacent_def
      equationsOf_def upt_rec firstRejection_def)

theorem components_exact_witness:
  "{0, 1, 2} = {j. j < length witness_rows \<and> (0, j) \<in> (shares witness_rows)\<^sup>*} \<and>
    {0, 1} = {v. uses_var witness_rows 0 v \<or> uses_var witness_rows 1 v \<or> uses_var witness_rows 2 v}"
proof -
  have c: "witness_component \<in> set (buildComponents witness_rows)" by (simp add: witness_built)
  have e: "set (cp_equations witness_component) = {0, 1, 2}" "set (cp_variables witness_component) = {0, 1}"
    by (simp_all add: witness_component_def)
  have "\<forall>i \<in> set (cp_equations witness_component).
      set (cp_equations witness_component) = {j. j < length witness_rows \<and> (i, j) \<in> (shares witness_rows)\<^sup>*}"
    using components_exact [of witness_rows] c by (elim conjE) (drule (1) bspec, elim conjE, assumption)
  moreover have "set (cp_variables witness_component) = {v. \<exists>i \<in> set (cp_equations witness_component). uses_var witness_rows i v}"
    using components_exact [of witness_rows] c by (elim conjE) (drule (1) bspec, elim conjE, assumption)
  then have "{0, 1} = {v. uses_var witness_rows 0 v \<or> uses_var witness_rows 1 v \<or> uses_var witness_rows 2 v}" unfolding e by simp
  ultimately show ?thesis unfolding e by blast
qed

lemma witness_solved: "solveParity witness_rows witness_component =
    Some \<lparr>pr_consistent = False, pr_rank = 2, pr_witnessEquations = [0, 2], pr_witnessEquation = 0\<rparr>"
  by (simp add: solveParity_def witness_rows_def witness_component_def parityRow_def parityTerm_def columnOf_def upt_rec
      parityColumn_def findSource_def swapRows_def eliminateRow_def xorRow_def Let_def contradictory_def numeral_2_eq_2 All_less_Suc)

theorem parity_decides_witness:
  "\<not> (\<exists>x. \<forall>i \<in> set (cp_equations witness_component). even (term_sum x (eq_terms (witness_rows ! i)) - eq_rhs (witness_rows ! i)))"
  using parity_decides [of witness_component witness_rows] by (auto simp: witness_built witness_solved)

text \<open>
  C37. The witness of an inconsistency is not one: the solver exchanges rows without exchanging their
  provenance, so that the equations it names may have a common solution, here the rows
  \<open>2 x + y = 0\<close> and \<open>x = 1\<close> of a system in which \<open>x = 0\<close> and \<open>x = 1\<close> clash.
\<close>

theorem parity_witness_unsound:
  "\<exists>eqs c r x. c \<in> set (buildComponents eqs) \<and> solveParity eqs c = Some r \<and> \<not> pr_consistent r \<and>
     list_all (\<lambda>i. even (term_sum x (eq_terms (eqs ! i)) - eq_rhs (eqs ! i))) (pr_witnessEquations r)"
proof -
  define x :: "nat \<Rightarrow> int" where "x = (\<lambda>v. if v = 0 then 1 else 0)"
  define r where "r = \<lparr>pr_consistent = False, pr_rank = 2, pr_witnessEquations = [0, 2], pr_witnessEquation = 0\<rparr>"
  have "list_all (\<lambda>i. even (term_sum x (eq_terms (witness_rows ! i)) - eq_rhs (witness_rows ! i))) (pr_witnessEquations r)"
    by (simp add: term_sum_def witness_rows_def numeral_2_eq_2 x_def r_def)
  moreover have "witness_component \<in> set (buildComponents witness_rows)" by (simp add: witness_built)
  moreover have "solveParity witness_rows witness_component = Some r" "\<not> pr_consistent r" by (simp_all add: witness_solved r_def)
  ultimately show ?thesis by blast
qed

section \<open>Bounded completion\<close>

lemma sumTerms_spec:
  assumes "sumTerms values terms s = Some (Some r)"
  shows "r = s + term_sum (\<lambda>v. the (values v)) terms"
  using assms
proof (induction terms arbitrary: s)
  case (Cons t terms)
  obtain v c where t: "t = (v, c)" by (cases t)
  obtain x where x: "values v = Some x" using Cons.prems by (auto simp: t bind_eq_Some_conv)
  obtain s' where s': "Option.bind (multiplyChecked c x) (addChecked s) = Some s'" "sumTerms values terms s' = Some (Some r)"
    using Cons.prems x by (auto simp: t split: option.splits)
  have "s' = s + c * x" using s'(1) by (auto simp: bind_eq_Some_conv multiplyChecked_def addChecked_def split: if_splits)
  then show ?case using Cons.IH [OF s'(2)] x by (simp add: t term_sum_def)
qed (simp add: term_sum_def)

lemma checkRows_spec:
  "checkRows eqs values rows = Some NoRejection \<Longrightarrow> i \<in> set rows \<Longrightarrow>
     term_sum (\<lambda>v. the (values v)) (eq_terms (eqs ! i)) = eq_rhs (eqs ! i)"
proof (induction rows)
  case (Cons r rows)
  then obtain s where "sumTerms values (eq_terms (eqs ! r)) 0 = Some (Some s)" "s = eq_rhs (eqs ! r)" "checkRows eqs values rows = Some NoRejection"
    by (auto simp: bind_eq_Some_conv split: option.splits if_splits)
  then show ?case using Cons sumTerms_spec [of "values" "eq_terms (eqs ! r)" 0] by auto
qed simp

lemma finishCompletion_sound:
  assumes "finishCompletion eqs c pivots = Some r" "cr_rejection r = NoRejection"
  obtains "values" where "checkRows eqs values (cp_equations c) = Some NoRejection"
    "cr_values r = map (\<lambda>v. (v, the (values v))) (remdups_adj (sort (cp_variables c)))"
  using assms by (auto simp: finishCompletion_def rejectCompletion_def Let_def bind_eq_Some_conv split: if_split_asm)

lemma pivotValues_reason: "pivotValues lo hi vars vs values \<noteq> Inl NoRejection"
  by (induction lo hi vars vs "values" rule: pivotValues.induct) (auto simp: pivotValue_def split: sum.split)

lemma readCompletion_sound:
  assumes "readCompletion eqs c lo hi st = Some r" "cr_rejection r = NoRejection"
  obtains "values" where "finishCompletion eqs c values = Some r"
  using assms by (auto simp: readCompletion_def rejectCompletion_def Let_def pivotValues_reason split: if_split_asm sum.split_asm)

lemma completeBounded_sound:
  assumes "completeBounded eqs c lo hi = Some r" "cr_rejection r = NoRejection"
  obtains st where "readCompletion eqs c lo hi st = Some r"
  using assms by (auto simp: completeBounded_def rejectCompletion_def bind_eq_Some_conv split: if_split_asm)

text \<open>
  C38. Whatever the floating-point elimination did, a completion that is not rejected gives every
  variable of the component one value, and these integers satisfy every equation of the component
  exactly.
\<close>

theorem completion_sound:
  assumes "completeBounded eqs c lo hi = Some r" "cr_rejection r = NoRejection"
  shows "\<exists>x. cr_values r = map (\<lambda>v. (v, x v)) (remdups_adj (sort (cp_variables c))) \<and>
    (\<forall>i \<in> set (cp_equations c). term_sum x (eq_terms (eqs ! i)) = eq_rhs (eqs ! i))"
proof -
  obtain st where "readCompletion eqs c lo hi st = Some r" using completeBounded_sound assms .
  then obtain pivots where "finishCompletion eqs c pivots = Some r" using readCompletion_sound assms(2) by metis
  then obtain "values" where v: "checkRows eqs values (cp_equations c) = Some NoRejection"
      "cr_values r = map (\<lambda>v. (v, the (values v))) (remdups_adj (sort (cp_variables c)))"
    using finishCompletion_sound assms(2) by metis
  show ?thesis by (rule exI [of _ "\<lambda>v. the (values v)"]) (use v checkRows_spec [OF v(1)] in blast)
qed

definition completion_rows :: "equation list" where
  "completion_rows = [\<lparr>eq_arc = 0, eq_terms = [(0, 1), (1, 1)], eq_rhs = 4, eq_rejection = NoRejection\<rparr>]"

definition completion_component :: component where
  "completion_component = \<lparr>cp_equations = [0], cp_variables = [0, 1], cp_rejection = NoRejection\<rparr>"

lemmas half_floats = lddiv_def ldsub_def ldmul_def ldround_def ldabs_def ldlt_def ldle_def ld_key_def ld_isnan_def ld_of_int_def lenc_def ldec_def
  fencode_def fround_def binary80_def bitlen.simps fdecode_def signed_mant_def Let_def

lemma completion_parity: "solveParity completion_rows completion_component =
    Some \<lparr>pr_consistent = True, pr_rank = 1, pr_witnessEquations = [], pr_witnessEquation = kNoWitness\<rparr>"
  by (simp add: solveParity_def completion_rows_def completion_component_def parityRow_def parityTerm_def columnOf_def upt_rec
      parityColumn_def findSource_def swapRows_def eliminateRow_def xorRow_def Let_def contradictory_def numeral_2_eq_2 All_less_Suc)

lemma completion_matrix: "realRows completion_rows completion_component [0] =
    Some [[ld_of_int 1, ld_of_int 1, ld_of_int 4]]"
  by (simp add: completion_rows_def completion_component_def realRow_def realTerm_def columnOf_def upt_rec half_floats)

lemma completion_constants:
  "ld_of_int 1 = 151106504079791792062464" "ld_of_int 4 = 151124950823865501614080" "ld_of_int 2 = 151115727451828646838272"
  "ld_of_int 10 = 151136480038911570083840" "kPivotTolerance = 150738487031082572089548"
  by (simp_all add: kPivotTolerance_def half_floats)

lemma completion_divisions: "lddiv 151106504079791792062464 151106504079791792062464 = 151106504079791792062464"
  "lddiv 151124950823865501614080 151106504079791792062464 = 151124950823865501614080"
  by (simp_all add: half_floats)

lemma completion_column: "fold (realColumn 2) [0, 1] \<lparr>rs_matrix = [[ld_of_int 1, ld_of_int 1, ld_of_int 4]], rs_pivotColumn = [], rs_pivotRow = 0\<rparr> =
    \<lparr>rs_matrix = [[ld_of_int 1, ld_of_int 1, ld_of_int 4]], rs_pivotColumn = [0], rs_pivotRow = 1\<rparr>"
proof -
  have "\<not> ldle (ldabs 151106504079791792062464) 150738487031082572089548" by (simp add: half_floats)
  then show ?thesis
    by (simp add: realColumn_def upt_rec divideRow_def swapRows_def completion_constants completion_divisions numeral_2_eq_2 Let_def)
qed

lemma completion_value: "pivotValue 2 10 (ld_of_int 4) = Inr 4"
proof -
  have "ldsub 151124950823865501614080 (ldround 151124950823865501614080) = 0" by (simp add: half_floats)
  moreover have "f64_of_ld 151124950823865501614080 = 4616189618054758400"
    by (simp add: f64_of_ld_def enc64_def binary64_def half_floats)
  moreover have "fv_llround (ldec 151124950823865501614080) = 4" by (simp add: half_floats int64_min_def int64_max_def)
  moreover have "f64_isfinite 4616189618054758400" by (simp add: f64_isfinite_def)
  moreover have "\<not> ldlt kPivotTolerance (ldabs 0)" "\<not> ldlt 151124950823865501614080 151115727451828646838272"
    "\<not> ldlt 151136480038911570083840 151124950823865501614080" by (simp_all add: completion_constants half_floats)
  ultimately show ?thesis by (simp add: pivotValue_def completion_constants)
qed

lemma completion_found: "completeBounded completion_rows completion_component 2 10 =
    Some \<lparr>cr_rejection = NoRejection, cr_values = [(0, 4), (1, 0)]\<rparr>"
proof -
  have c: "cp_variables completion_component = [0, 1]" "cp_equations completion_component = [0]" "cp_rejection completion_component = NoRejection"
    by (simp_all add: completion_component_def)
  have "finishCompletion completion_rows completion_component [0 \<mapsto> 4] = Some \<lparr>cr_rejection = NoRejection, cr_values = [(0, 4), (1, 0)]\<rparr>"
    by (simp add: finishCompletion_def c completion_rows_def multiplyChecked_def addChecked_def int64_max_def int64_min_def)
  then have "readCompletion completion_rows completion_component 2 10
      \<lparr>rs_matrix = [[ld_of_int 1, ld_of_int 1, ld_of_int 4]], rs_pivotColumn = [0], rs_pivotRow = 1\<rparr> =
      Some \<lparr>cr_rejection = NoRejection, cr_values = [(0, 4), (1, 0)]\<rparr>"
    by (simp add: readCompletion_def c completion_value numeral_2_eq_2 del: One_nat_def)
  moreover have "[0..<2] = [0, Suc 0]" "length [0, 1 :: nat] = 2" by (simp_all add: upt_rec)
  ultimately show ?thesis using completion_column
    by (simp only: completeBounded_def c completion_parity completion_matrix Option.bind.bind_lunit parity_result.simps One_nat_def) simp
qed

theorem completion_sound_witness:
  "\<exists>x. [(0, 4), (1, 0)] = map (\<lambda>v. (v, x v)) [0, 1] \<and> term_sum x (eq_terms (completion_rows ! 0)) = eq_rhs (completion_rows ! 0)"
  using completion_sound [OF completion_found] by (simp add: completion_component_def)

end
