(* ===== verification/ImageFiles.thy ===== *)
theory ImageFiles
  imports Serial Floats
begin

text \<open>
  The encoders of \<open>src/imageio\<close>: checksums and byte appenders (\<open>detail.hpp\<close>), the ZIP writer
  (\<open>zip.cpp\<close>), the PNG writer (\<open>png.cpp\<close>), the OpenEXR writer (\<open>exr_header.hpp\<close>,
  \<open>exr.cpp\<close>) and the front end (\<open>image.cpp\<close>). A function that ends
  in \<open>writeFile(path, out)\<close> returns \<open>Some out\<close>, the bytes it hands to the file system, and \<open>None\<close>
  where it refuses its input.
\<close>

unbundle bit_operations_syntax

section \<open>Checksums\<close>

definition crc_round :: "u32 \<Rightarrow> u32" where
  "crc_round c = (if c AND 1 \<noteq> 0 then 0xedb88320 XOR drop_bit 1 c else drop_bit 1 c)"

definition crcTable :: "u32 list" where
  "crcTable = map (\<lambda>n. fold (\<lambda>_ c. crc_round c) [0..<8] (of_nat n)) [0..<256]"

definition crc32Update :: "u32 \<Rightarrow> bytes \<Rightarrow> u32" where
  "crc32Update crc data =
     fold (\<lambda>b crc. (let idx = (crc XOR ucast b) AND 0xff in crcTable ! unat idx XOR drop_bit 8 crc)) data crc"

definition crc32 :: "bytes \<Rightarrow> u32" where
  "crc32 data = crc32Update 0xffffffff data XOR 0xffffffff"

definition adler32 :: "bytes \<Rightarrow> u32" where
  "adler32 data =
     (let (a, b) = fold (\<lambda>x (a, b). (let a = (a + ucast x) mod 65521; b = (b + a) mod 65521 in (a, b))) data (1, 0)
      in push_bit 16 b OR a)"

section \<open>Byte appenders\<close>

definition appendU16LE :: "bytes \<Rightarrow> 16 word \<Rightarrow> bytes" where
  "appendU16LE out v = out @ [low_byte v, low_byte (drop_bit 8 v)]"

definition appendU32LE :: "bytes \<Rightarrow> u32 \<Rightarrow> bytes" where
  "appendU32LE out v = out @ [low_byte v, low_byte (drop_bit 8 v), low_byte (drop_bit 16 v), low_byte (drop_bit 24 v)]"

definition appendU32BE :: "bytes \<Rightarrow> u32 \<Rightarrow> bytes" where
  "appendU32BE out v = out @ [low_byte (drop_bit 24 v), low_byte (drop_bit 16 v), low_byte (drop_bit 8 v), low_byte v]"

definition appendU64LE :: "bytes \<Rightarrow> u64 \<Rightarrow> bytes" where
  "appendU64LE out v = fold (\<lambda>i out. out @ [low_byte (drop_bit (8 * i) v)]) [0..<8] out"

definition appendI32LE :: "bytes \<Rightarrow> i32 \<Rightarrow> bytes" where
  "appendI32LE out v = appendU32LE out v"

definition appendFloatLE :: "bytes \<Rightarrow> f32 \<Rightarrow> bytes" where
  "appendFloatLE out f = appendU32LE out f"

definition appendCString :: "bytes \<Rightarrow> bytes \<Rightarrow> bytes" where
  "appendCString out s = (out @ s) @ [0]"

abbreviation ascii :: "string \<Rightarrow> bytes" where
  "ascii s \<equiv> map of_char s"

section \<open>ZIP\<close>

record zip_entry =
  ze_name :: bytes
  ze_data :: bytes
  ze_crc :: u32

definition zip_add :: "bytes \<Rightarrow> bytes \<Rightarrow> zip_entry list \<Rightarrow> zip_entry list" where
  "zip_add name data entries = entries @ [\<lparr>ze_name = name, ze_data = data, ze_crc = crc32 data\<rparr>]"

definition localHeader :: "zip_entry \<Rightarrow> bytes \<Rightarrow> bytes" where
  "localHeader e out =
     (let size = of_nat (length (ze_data e)) :: u32; nameLen = of_nat (length (ze_name e)) :: 16 word;
          out = appendU32LE out 0x04034b50;
          out = appendU16LE out 20;
          out = appendU16LE out 0;
          out = appendU16LE out 0;
          out = appendU16LE out 0;
          out = appendU16LE out 0;
          out = appendU32LE out (ze_crc e);
          out = appendU32LE out size;
          out = appendU32LE out size;
          out = appendU16LE out nameLen;
          out = appendU16LE out 0
      in (out @ ze_name e) @ ze_data e)"

definition centralHeader :: "zip_entry \<Rightarrow> u32 \<Rightarrow> bytes \<Rightarrow> bytes" where
  "centralHeader e localOffset out =
     (let size = of_nat (length (ze_data e)) :: u32; nameLen = of_nat (length (ze_name e)) :: 16 word;
          out = appendU32LE out 0x02014b50;
          out = appendU16LE out 20;
          out = appendU16LE out 20;
          out = appendU16LE out 0;
          out = appendU16LE out 0;
          out = appendU16LE out 0;
          out = appendU16LE out 0;
          out = appendU32LE out (ze_crc e);
          out = appendU32LE out size;
          out = appendU32LE out size;
          out = appendU16LE out nameLen;
          out = appendU16LE out 0;
          out = appendU16LE out 0;
          out = appendU16LE out 0;
          out = appendU16LE out 0;
          out = appendU32LE out 0;
          out = appendU32LE out localOffset
      in out @ ze_name e)"

definition zip_finish :: "zip_entry list \<Rightarrow> bytes" where
  "zip_finish entries =
     (let (out, localOffsets) = fold (\<lambda>e (out, offs). (localHeader e out, offs @ [of_nat (length out)])) entries ([], []);
          cdStart = of_nat (length out) :: u32;
          out = fold (\<lambda>i out. centralHeader (entries ! i) (localOffsets ! i) out) [0..<length entries] out;
          cdSize = of_nat (length out) - cdStart;
          count = of_nat (length entries) :: 16 word;
          out = appendU32LE out 0x06054b50;
          out = appendU16LE out 0;
          out = appendU16LE out 0;
          out = appendU16LE out count;
          out = appendU16LE out count;
          out = appendU32LE out cdSize;
          out = appendU32LE out cdStart
      in appendU16LE out 0)"

section \<open>PNG\<close>

definition writeChunk :: "bytes \<Rightarrow> bytes \<Rightarrow> bytes \<Rightarrow> bytes" where
  "writeChunk out ty data =
     (let out = appendU32BE out (of_nat (length data));
          crcStart = length out;
          out = out @ ty;
          out = out @ data;
          crc = crc32 (drop crcStart out)
      in appendU32BE out crc)"

definition kMaxBlock :: nat where "kMaxBlock = 65535"

definition storedBlock :: "bytes \<Rightarrow> nat \<Rightarrow> nat \<Rightarrow> bytes \<Rightarrow> bytes" where
  "storedBlock raw pos block out =
     (let final = (pos + block = length raw);
          out = out @ [if final then 1 else 0];
          len = of_nat block :: 16 word;
          out = appendU16LE out len;
          out = appendU16LE out (NOT len)
      in out @ take block (drop pos raw))"

text \<open>The \<open>do ... while (pos < raw.size())\<close> loop; a block is never empty while bytes are left.\<close>

function storedBlocks :: "bytes \<Rightarrow> nat \<Rightarrow> bytes \<Rightarrow> bytes" where
  "storedBlocks raw pos out =
     (let block = min kMaxBlock (length raw - pos);
          out = storedBlock raw pos block out
      in if pos + block < length raw then storedBlocks raw (pos + block) out else out)"
  by pat_completeness auto
termination by (relation "measure (\<lambda>(raw, pos, _). length raw - pos)") (auto simp: kMaxBlock_def)

declare storedBlocks.simps [simp del]

definition zlibStored :: "bytes \<Rightarrow> bytes" where
  "zlibStored raw = appendU32BE (storedBlocks raw 0 [0x78, 0x01]) (adler32 raw)"

definition pngSignature :: bytes where
  "pngSignature = [137, 80, 78, 71, 13, 10, 26, 10]"

definition ihdrBytes :: "i32 \<Rightarrow> i32 \<Rightarrow> i32 \<Rightarrow> bytes" where
  "ihdrBytes width height channels =
     appendU32BE (appendU32BE [] width) height @ [8, if channels = 4 then 6 else 2, 0, 0, 0]"

definition scanlines :: "nat \<Rightarrow> nat \<Rightarrow> bytes \<Rightarrow> bytes" where
  "scanlines h rowBytes rgba =
     fold (\<lambda>y raw. (raw @ [0]) @ take rowBytes (drop (y * rowBytes) rgba)) [0..<h] []"

text \<open>The null pointer is \<open>None\<close>.\<close>

definition writePng :: "i32 \<Rightarrow> i32 \<Rightarrow> i32 \<Rightarrow> bytes option \<Rightarrow> bytes option" where
  "writePng width height channels rgba =
     (if sint width \<le> 0 \<or> sint height \<le> 0 \<or> (channels \<noteq> 3 \<and> channels \<noteq> 4) \<or> rgba = None then None
      else
        (let w = unat width; h = unat height; ch = unat channels; rowBytes = w * ch;
             raw = scanlines h rowBytes (the rgba);
             out = writeChunk pngSignature (ascii ''IHDR'') (ihdrBytes width height channels);
             out = writeChunk out (ascii ''IDAT'') (zlibStored raw);
             out = writeChunk out (ascii ''IEND'') []
         in Some out))"

text \<open>\<open>std::lround\<close>: to nearest, ties away from zero, of a finite value.\<close>

definition lround :: "f32 \<Rightarrow> int" where
  "lround x = (case dec32 x of
     FFin s m e \<Rightarrow> signed_mant s (if 0 \<le> e then m * 2 ^ nat e else (2 * m + 2 ^ nat (- e)) div (2 * 2 ^ nat (- e)))
   | _ \<Rightarrow> 0)"

definition toneMap :: "f32 \<Rightarrow> u8" where
  "toneMap p =
     (let low = (if flt 0 p then p else 0);
          clamped = (if flt low f32_1 then low else f32_1)
      in word_of_int (lround (fmul clamped 0x437F0000)))"

definition writePngTonemapped :: "i32 \<Rightarrow> i32 \<Rightarrow> i32 \<Rightarrow> f32 list option \<Rightarrow> bytes option" where
  "writePngTonemapped width height channels pixels =
     (if sint width \<le> 0 \<or> sint height \<le> 0 \<or> (channels \<noteq> 3 \<and> channels \<noteq> 4) \<or> pixels = None then None
      else writePng width height channels
             (Some (map (\<lambda>i. toneMap (the pixels ! i)) [0..<unat width * unat height * unat channels])))"

section \<open>OpenEXR\<close>

text \<open>A channel is its name and the component of the source pixel it draws from.\<close>

type_synonym exr_channel = "bytes \<times> nat"

definition exrChannelLayout :: "i32 \<Rightarrow> exr_channel list" where
  "exrChannelLayout channels =
     (if channels = 1 then [(ascii ''Y'', 0)]
      else if channels = 3 then [(ascii ''B'', 2), (ascii ''G'', 1), (ascii ''R'', 0)]
      else if channels = 4 then [(ascii ''A'', 3), (ascii ''B'', 2), (ascii ''G'', 1), (ascii ''R'', 0)]
      else [])"

definition exrWriteAttr :: "bytes \<Rightarrow> bytes \<Rightarrow> bytes \<Rightarrow> bytes \<Rightarrow> bytes" where
  "exrWriteAttr out name ty value =
     appendU32LE (appendCString (appendCString out name) ty) (of_nat (length value)) @ value"

definition exrBox2i :: "i32 \<Rightarrow> i32 \<Rightarrow> i32 \<Rightarrow> i32 \<Rightarrow> bytes" where
  "exrBox2i xMin yMin xMax yMax = appendI32LE (appendI32LE (appendI32LE (appendI32LE [] xMin) yMin) xMax) yMax"

definition exrChannelEntry :: "exr_channel \<Rightarrow> bytes \<Rightarrow> bytes" where
  "exrChannelEntry ch out =
     appendU32LE (appendU32LE (appendU32LE (appendCString out (fst ch)) 2 @ [0, 0, 0, 0]) 1) 1"

definition exrHeader :: "i32 \<Rightarrow> i32 \<Rightarrow> exr_channel list \<Rightarrow> bytes" where
  "exrHeader width height layout =
     (let out = appendU32LE (appendU32LE [] 0x01312f76) 2;
          channelList = fold exrChannelEntry layout [] @ [0];
          out = exrWriteAttr out (ascii ''channels'') (ascii ''chlist'') channelList;
          out = exrWriteAttr out (ascii ''compression'') (ascii ''compression'') [0];
          out = exrWriteAttr out (ascii ''dataWindow'') (ascii ''box2i'') (exrBox2i 0 0 (width - 1) (height - 1));
          out = exrWriteAttr out (ascii ''displayWindow'') (ascii ''box2i'') (exrBox2i 0 0 (width - 1) (height - 1));
          out = exrWriteAttr out (ascii ''lineOrder'') (ascii ''lineOrder'') [0];
          out = exrWriteAttr out (ascii ''pixelAspectRatio'') (ascii ''float'') (appendFloatLE [] f32_1);
          out = exrWriteAttr out (ascii ''screenWindowCenter'') (ascii ''v2f'') (appendFloatLE (appendFloatLE [] 0) 0);
          out = exrWriteAttr out (ascii ''screenWindowWidth'') (ascii ''float'') (appendFloatLE [] f32_1)
      in out @ [0])"

text \<open>The offset table for \<open>h\<close> scanlines, then one scanline block.\<close>

definition exrTable :: "nat \<Rightarrow> nat \<Rightarrow> nat \<Rightarrow> bytes \<Rightarrow> bytes" where
  "exrTable h firstBlock blockStride out =
     fold (\<lambda>y out. appendU64LE out (of_nat (firstBlock + y * blockStride))) [0..<h] out"

definition exrScanline :: "exr_channel list \<Rightarrow> nat \<Rightarrow> nat \<Rightarrow> nat \<Rightarrow> f32 list \<Rightarrow> bytes \<Rightarrow> bytes" where
  "exrScanline layout w ch y row out =
     (let out = appendI32LE out (of_nat y);
          out = appendU32LE out (of_nat (ch * w * 4))
      in fold (\<lambda>c out. fold (\<lambda>x out. appendFloatLE out (row ! (x * ch + snd c))) [0..<w] out) layout out)"

definition writeExr :: "i32 \<Rightarrow> i32 \<Rightarrow> i32 \<Rightarrow> f32 list option \<Rightarrow> bytes option" where
  "writeExr width height channels pixels =
     (let layout = exrChannelLayout channels
      in if sint width \<le> 0 \<or> sint height \<le> 0 \<or> layout = [] \<or> pixels = None then None
         else
           (let w = unat width; h = unat height; ch = unat channels;
                out = exrHeader width height layout;
                pixelBytes = ch * w * 4;
                blockStride = 8 + pixelBytes;
                firstBlock = length out + h * 8;
                out = exrTable h firstBlock blockStride out;
                out = fold (\<lambda>y out. exrScanline layout w ch y (drop (y * w * ch) (the pixels)) out) [0..<h] out
            in Some out))"

section \<open>Saving a baked image\<close>

record image =
  im_width :: i32
  im_height :: i32
  im_channels :: i32
  im_pixels :: "f32 list"

datatype image_format = Png | Exr

definition savePng :: "image \<Rightarrow> bytes option" where
  "savePng im =
     (if sint (im_width im) \<le> 0 \<or> sint (im_height im) \<le> 0 then None
      else if im_channels im = 3 \<or> im_channels im = 4
      then writePngTonemapped (im_width im) (im_height im) (im_channels im) (Some (im_pixels im))
      else if im_channels im = 1
      then writePngTonemapped (im_width im) (im_height im) 3
             (Some (concat (map (\<lambda>i. replicate 3 (im_pixels im ! i)) [0..<unat (im_width im) * unat (im_height im)])))
      else None)"

definition ascii_lower :: "u8 \<Rightarrow> u8" where
  "ascii_lower c = (if 65 \<le> c \<and> c \<le> 90 then c + 32 else c)"

definition hasExrExtension :: "bytes \<Rightarrow> bool" where
  "hasExrExtension path =
     (if length path < 4 then False
      else map ascii_lower (drop (length path - 4) path) = ascii ''.exr'')"

definition pixelsMatchShape :: "image \<Rightarrow> bool" where
  "pixelsMatchShape im =
     (if sint (im_width im) \<le> 0 \<or> sint (im_height im) \<le> 0 \<or> sint (im_channels im) \<le> 0 then False
      else length (im_pixels im) = unat (im_width im) * unat (im_height im) * unat (im_channels im))"

definition saveImageAs :: "image \<Rightarrow> image_format \<Rightarrow> bytes option" where
  "saveImageAs im fmt =
     (if \<not> pixelsMatchShape im then None
      else if fmt = Exr then writeExr (im_width im) (im_height im) (im_channels im) (Some (im_pixels im))
      else savePng im)"

definition saveImage :: "bytes \<Rightarrow> image \<Rightarrow> bytes option" where
  "saveImage path im = saveImageAs im (if hasExrExtension path then Exr else Png)"

end
