(* ===== verification/ImageStream.thy ===== *)
theory ImageStream
  imports ImageFiles
begin

text \<open>
  The band writers of \<open>src/imageio/src/stream.cpp\<close>. An output file is its bytes so far and its
  stream state; \<open>io bs\<close> says whether the stream is still good once the bytes \<open>bs\<close> have been
  written. \<open>size_t\<close> values are natural numbers: \<open>fits\<close> bounds those of the PNG writer.
\<close>

section \<open>The output file\<close>

record out_file =
  of_data :: bytes
  of_good :: bool

definition of_open :: "(bytes \<Rightarrow> bool) \<Rightarrow> out_file" where
  "of_open io = \<lparr>of_data = [], of_good = io []\<rparr>"

definition of_write :: "(bytes \<Rightarrow> bool) \<Rightarrow> bytes \<Rightarrow> out_file \<Rightarrow> bool \<times> out_file" where
  "of_write io data f =
     (let f = (if data \<noteq> [] \<and> of_good f
               then \<lparr>of_data = of_data f @ data, of_good = io (of_data f @ data)\<rparr> else f)
      in (of_good f, f))"

definition of_close :: "(bytes \<Rightarrow> bool) \<Rightarrow> out_file \<Rightarrow> bool \<times> out_file" where
  "of_close io f = (let f = f\<lparr>of_good := of_good f \<and> io (of_data f)\<rparr> in (of_good f, f))"

section \<open>PNG\<close>

text \<open>The running Adler-32, its two sums.\<close>

definition adler_update :: "bytes \<Rightarrow> u32 \<times> u32 \<Rightarrow> u32 \<times> u32" where
  "adler_update data ab =
     fold (\<lambda>x (a, b). (let a = (a + ucast x) mod 65521; b = (b + a) mod 65521 in (a, b))) data ab"

definition adler_value :: "u32 \<times> u32 \<Rightarrow> u32" where
  "adler_value ab = push_bit 16 (snd ab) OR fst ab"

definition zlibStoredSize :: "nat \<Rightarrow> nat" where
  "zlibStoredSize raw =
     (let blocks = (if raw = 0 then 1 else (raw + kMaxBlock - 1) div kMaxBlock)
      in 2 + blocks * 5 + raw + 4)"

record png_stream =
  ps_file :: out_file
  ps_width :: nat
  ps_height :: nat
  ps_sourceChannels :: nat
  ps_fileChannels :: nat
  ps_ok :: bool
  ps_finished :: bool
  ps_rowsWritten :: nat
  ps_crc :: u32
  ps_adler :: "u32 \<times> u32"
  ps_pending :: bytes

definition png_fits :: "i32 \<Rightarrow> i32 \<Rightarrow> i32 \<Rightarrow> bool" where
  "png_fits width height channels =
     (let w = unat width; ch = (if channels = 1 then 3 else unat channels); limit = (2 ^ 32 - 1) div 2
      in w \<le> limit div ch \<and> w * ch + 1 \<le> limit div unat height \<and>
         zlibStoredSize ((w * ch + 1) * unat height) \<le> limit)"

text \<open>The prologue: the bytes and the running checksum.\<close>

definition png_prologue :: "i32 \<Rightarrow> i32 \<Rightarrow> nat \<Rightarrow> nat \<Rightarrow> nat \<Rightarrow> u32 \<Rightarrow> bytes \<times> u32" where
  "png_prologue width height w h fileChannels crc =
     (let out = [137, 80, 78, 71, 13, 10, 26, 10];
          ihdr = ascii ''IHDR'';
          ihdr = appendU32BE ihdr width;
          ihdr = appendU32BE ihdr height;
          ihdr = ihdr @ [8, if fileChannels = 4 then 6 else 2, 0, 0, 0];
          out = appendU32BE out 13;
          out = out @ ihdr;
          out = appendU32BE out (crc32 ihdr);
          raw = (w * fileChannels + 1) * h;
          out = appendU32BE out (of_nat (zlibStoredSize raw));
          idat = ascii ''IDAT'' @ [0x78, 0x01]
      in (out @ idat, crc32Update crc idat))"

definition png_open :: "(bytes \<Rightarrow> bool) \<Rightarrow> i32 \<Rightarrow> i32 \<Rightarrow> i32 \<Rightarrow> png_stream" where
  "png_open io width height channels =
     (let fileChannels = (if channels = 1 then 3 else unat channels);
          (out, crc) = png_prologue width height (unat width) (unat height) fileChannels 0xffffffff;
          file = of_open io;
          (good, file) = (if of_good file then of_write io out file else (False, file))
      in \<lparr>ps_file = file, ps_width = unat width, ps_height = unat height, ps_sourceChannels = unat channels,
          ps_fileChannels = fileChannels, ps_ok = good, ps_finished = False, ps_rowsWritten = 0, ps_crc = crc,
          ps_adler = (1, 0), ps_pending = []\<rparr>)"

definition png_fail :: "png_stream \<Rightarrow> bool \<times> png_stream" where
  "png_fail s = (False, s\<lparr>ps_ok := False\<rparr>)"

definition rowPixels :: "nat \<Rightarrow> nat \<Rightarrow> nat \<Rightarrow> f32 list \<Rightarrow> bytes" where
  "rowPixels width fileChannels sourceChannels row =
     concat (map (\<lambda>x. map (\<lambda>c. (let source = (if sourceChannels = 1 then 0 else c)
                                 in toneMap (row ! (x * sourceChannels + source)))) [0..<fileChannels]) [0..<width])"

definition appendRow :: "f32 list \<Rightarrow> png_stream \<Rightarrow> png_stream" where
  "appendRow row s =
     (let added = 0 # rowPixels (ps_width s) (ps_fileChannels s) (ps_sourceChannels s) row
      in s\<lparr>ps_pending := ps_pending s @ added, ps_adler := adler_update added (ps_adler s)\<rparr>)"

definition emitBlock :: "(bytes \<Rightarrow> bool) \<Rightarrow> nat \<Rightarrow> bool \<Rightarrow> png_stream \<Rightarrow> bool \<times> png_stream" where
  "emitBlock io n final s =
     (let block = [if final then 1 else 0];
          len = of_nat n :: 16 word;
          block = appendU16LE block len;
          block = appendU16LE block (NOT len);
          block = block @ take n (ps_pending s);
          s = s\<lparr>ps_pending := drop n (ps_pending s), ps_crc := crc32Update (ps_crc s) block\<rparr>;
          (good, file) = of_write io block (ps_file s);
          s = s\<lparr>ps_file := file\<rparr>
      in if good then (True, s) else png_fail s)"

text \<open>\<open>while (pending_.size() > kMaxBlock)\<close>: every round removes a block.\<close>

function emitBlocks :: "(bytes \<Rightarrow> bool) \<Rightarrow> png_stream \<Rightarrow> bool \<times> png_stream" where
  "emitBlocks io s =
     (if length (ps_pending s) > kMaxBlock
      then (case emitBlock io kMaxBlock False s of
              (ok, s) \<Rightarrow> if ok then emitBlocks io s else (False, s))
      else (True, s))"
  by pat_completeness auto
termination
  by (relation "measure (\<lambda>(io, s). length (ps_pending s))")
    (auto simp: emitBlock_def png_fail_def kMaxBlock_def Let_def split_beta split: if_splits)

declare emitBlocks.simps [simp del]

fun png_rows :: "(bytes \<Rightarrow> bool) \<Rightarrow> nat \<Rightarrow> f32 list \<Rightarrow> png_stream \<Rightarrow> bool \<times> png_stream" where
  "png_rows io 0 rows s = (True, s)"
| "png_rows io (Suc n) rows s =
     (case emitBlocks io (appendRow rows s) of
        (ok, s) \<Rightarrow> if ok then png_rows io n (drop (ps_width s * ps_sourceChannels s) rows) s else (False, s))"

definition png_writeRows :: "(bytes \<Rightarrow> bool) \<Rightarrow> f32 list option \<Rightarrow> i32 \<Rightarrow> png_stream \<Rightarrow> bool \<times> png_stream" where
  "png_writeRows io rows count s =
     (if \<not> ps_ok s \<or> ps_finished s \<or> rows = None \<or> sint count < 0 \<or> unat count > ps_height s - ps_rowsWritten s
      then png_fail s
      else (case png_rows io (unat count) (the rows) s of
              (ok, s) \<Rightarrow> if ok then (True, s\<lparr>ps_rowsWritten := ps_rowsWritten s + unat count\<rparr>) else (False, s)))"

definition png_finish :: "(bytes \<Rightarrow> bool) \<Rightarrow> png_stream \<Rightarrow> bool \<times> png_stream" where
  "png_finish io s =
     (if \<not> ps_ok s \<or> ps_finished s \<or> ps_rowsWritten s \<noteq> ps_height s then png_fail s
      else
        (let s = s\<lparr>ps_finished := True\<rparr>;
             (ok, s) = emitBlock io (length (ps_pending s)) True s
         in if \<not> ok then (False, s)
            else
              (let tail = appendU32BE [] (adler_value (ps_adler s));
                   s = s\<lparr>ps_crc := crc32Update (ps_crc s) tail\<rparr>;
                   tail = appendU32BE tail (ps_crc s XOR 0xffffffff);
                   tail = appendU32BE tail 0;
                   tail = tail @ ascii ''IEND'';
                   tail = appendU32BE tail (crc32 (ascii ''IEND''));
                   (wrote, file) = of_write io tail (ps_file s);
                   (closed, file) = (if wrote then of_close io file else (False, file));
                   s = s\<lparr>ps_file := file\<rparr>
               in if closed then (True, s) else png_fail s)))"

section \<open>OpenEXR\<close>

record exr_stream =
  es_file :: out_file
  es_width :: nat
  es_height :: nat
  es_channels :: nat
  es_layout :: "exr_channel list"
  es_ok :: bool
  es_finished :: bool
  es_rowsWritten :: nat

definition exr_open :: "(bytes \<Rightarrow> bool) \<Rightarrow> i32 \<Rightarrow> i32 \<Rightarrow> i32 \<Rightarrow> exr_stream" where
  "exr_open io width height channels =
     (let layout = exrChannelLayout channels; w = unat width; h = unat height; ch = unat channels;
          out = exrHeader width height layout;
          blockStride = 8 + ch * w * 4;
          firstBlock = length out + h * 8;
          out = exrTable h firstBlock blockStride out;
          file = of_open io;
          (good, file) = (if of_good file then of_write io out file else (False, file))
      in \<lparr>es_file = file, es_width = w, es_height = h, es_channels = ch, es_layout = layout,
          es_ok = good, es_finished = False, es_rowsWritten = 0\<rparr>)"

definition exr_fail :: "exr_stream \<Rightarrow> bool \<times> exr_stream" where
  "exr_fail s = (False, s\<lparr>es_ok := False\<rparr>)"

fun exr_rows :: "(bytes \<Rightarrow> bool) \<Rightarrow> nat list \<Rightarrow> f32 list \<Rightarrow> exr_stream \<Rightarrow> bool \<times> exr_stream" where
  "exr_rows io [] rows s = (True, s)"
| "exr_rows io (y # ys) rows s =
     (let block = exrScanline (es_layout s) (es_width s) (es_channels s) (es_rowsWritten s + y)
                    (drop (y * es_width s * es_channels s) rows) [];
          (good, file) = of_write io block (es_file s);
          s = s\<lparr>es_file := file\<rparr>
      in if \<not> good then exr_fail s else exr_rows io ys rows s)"

definition exr_writeRows :: "(bytes \<Rightarrow> bool) \<Rightarrow> f32 list option \<Rightarrow> i32 \<Rightarrow> exr_stream \<Rightarrow> bool \<times> exr_stream" where
  "exr_writeRows io rows count s =
     (if \<not> es_ok s \<or> es_finished s \<or> rows = None \<or> sint count < 0 \<or> unat count > es_height s - es_rowsWritten s
      then exr_fail s
      else (case exr_rows io [0..<unat count] (the rows) s of
              (ok, s) \<Rightarrow> if ok then (True, s\<lparr>es_rowsWritten := es_rowsWritten s + unat count\<rparr>) else (False, s)))"

definition exr_finish :: "(bytes \<Rightarrow> bool) \<Rightarrow> exr_stream \<Rightarrow> bool \<times> exr_stream" where
  "exr_finish io s =
     (if \<not> es_ok s \<or> es_finished s \<or> es_rowsWritten s \<noteq> es_height s then exr_fail s
      else
        (let s = s\<lparr>es_finished := True\<rparr>;
             (closed, file) = of_close io (es_file s);
             s = s\<lparr>es_file := file\<rparr>
         in if closed then (True, s) else exr_fail s))"

section \<open>The writer\<close>

datatype image_stream = PngStream png_stream | ExrStream exr_stream

definition stream_open :: "(bytes \<Rightarrow> bool) \<Rightarrow> i32 \<Rightarrow> i32 \<Rightarrow> i32 \<Rightarrow> image_format \<Rightarrow> image_stream option" where
  "stream_open io width height channels fmt =
     (if sint width \<le> 0 \<or> sint height \<le> 0 \<or> (channels \<noteq> 1 \<and> channels \<noteq> 3 \<and> channels \<noteq> 4) then None
      else if fmt = Exr then
        (let writer = exr_open io width height channels in if es_ok writer then Some (ExrStream writer) else None)
      else if \<not> png_fits width height channels then None
      else (let writer = png_open io width height channels in if ps_ok writer then Some (PngStream writer) else None))"

definition stream_writeRows :: "(bytes \<Rightarrow> bool) \<Rightarrow> f32 list option \<Rightarrow> i32 \<Rightarrow> image_stream \<Rightarrow> bool \<times> image_stream" where
  "stream_writeRows io rows count s =
     (case s of
        PngStream p \<Rightarrow> (case png_writeRows io rows count p of (ok, p) \<Rightarrow> (ok, PngStream p))
      | ExrStream e \<Rightarrow> (case exr_writeRows io rows count e of (ok, e) \<Rightarrow> (ok, ExrStream e)))"

definition stream_finish :: "(bytes \<Rightarrow> bool) \<Rightarrow> image_stream \<Rightarrow> bool \<times> image_stream" where
  "stream_finish io s =
     (case s of
        PngStream p \<Rightarrow> (case png_finish io p of (ok, p) \<Rightarrow> (ok, PngStream p))
      | ExrStream e \<Rightarrow> (case exr_finish io e of (ok, e) \<Rightarrow> (ok, ExrStream e)))"

definition stream_file :: "image_stream \<Rightarrow> out_file" where
  "stream_file s = (case s of PngStream p \<Rightarrow> ps_file p | ExrStream e \<Rightarrow> es_file e)"

end
