(* ===== verification/StreamProof.thy ===== *)
theory StreamProof
  imports ImageStream
begin

text \<open>
  The band writers against the one-shot writers: what a band writer has put in the file after any
  bands is a function of the rows alone, and at the end it is the one-shot file.
\<close>

section \<open>Appending\<close>

definition le16 :: "16 word \<Rightarrow> bytes" where "le16 v = appendU16LE [] v"
definition be32 :: "u32 \<Rightarrow> bytes" where "be32 v = appendU32BE [] v"

lemma append_forms: "appendU16LE out v = out @ le16 v" "appendU32BE out n = out @ be32 n"
  by (simp_all add: appendU16LE_def le16_def appendU32BE_def be32_def)

lemma append_lengths [simp]: "length (le16 v) = 2" "length (be32 n) = 4"
  by (simp_all add: le16_def appendU16LE_def be32_def appendU32BE_def)

lemma crc32Update_append: "crc32Update c (xs @ ys) = crc32Update (crc32Update c xs) ys"
  by (simp add: crc32Update_def)

lemma adler_update_append: "adler_update (xs @ ys) ab = adler_update ys (adler_update xs ab)"
  by (simp add: adler_update_def)

lemma adler32_update: "adler32 data = adler_value (adler_update data (1, 0))"
  by (simp add: adler32_def adler_value_def adler_update_def split_beta Let_def)

section \<open>Stored blocks\<close>

definition stored :: "bool \<Rightarrow> bytes \<Rightarrow> bytes" where
  "stored final xs = [if final then 1 else 0] @ le16 (of_nat (length xs)) @ le16 (NOT (of_nat (length xs))) @ xs"

lemma kMaxBlock_pos [simp]: "0 < kMaxBlock"
  by (simp add: kMaxBlock_def)

lemma block_less [simp]: "kMaxBlock < n \<Longrightarrow> n - kMaxBlock < n"
  by (simp add: kMaxBlock_def)

text \<open>The blocks that leave while more than one block is pending, and what stays.\<close>

function emitted :: "bytes \<Rightarrow> bytes" where
  "emitted p = (if kMaxBlock < length p then stored False (take kMaxBlock p) @ emitted (drop kMaxBlock p) else [])"
  by pat_completeness auto
termination by (relation "measure length") (auto simp: kMaxBlock_def)

function left :: "bytes \<Rightarrow> bytes" where
  "left p = (if kMaxBlock < length p then left (drop kMaxBlock p) else p)"
  by pat_completeness auto
termination by (relation "measure length") (auto simp: kMaxBlock_def)

declare emitted.simps [simp del] left.simps [simp del]

lemma emitted_small: "length p \<le> kMaxBlock \<Longrightarrow> emitted p = [] \<and> left p = p"
  by (simp add: emitted.simps left.simps)

lemma emitted_big: "kMaxBlock < length p \<Longrightarrow>
    emitted p = stored False (take kMaxBlock p) @ emitted (drop kMaxBlock p) \<and> left p = left (drop kMaxBlock p)"
  by (subst emitted.simps, subst left.simps) simp

lemma emitted_append: "emitted (p @ q) = emitted p @ emitted (left p @ q) \<and> left (p @ q) = left (left p @ q)"
proof (induction p rule: emitted.induct)
  case (1 p)
  show ?case
  proof (cases "kMaxBlock < length p")
    case True
    then show ?thesis using "1.IH" [OF True] emitted_big [of p] emitted_big [of "p @ q"] by simp
  next
    case False
    then show ?thesis using emitted_small [of p] by simp
  qed
qed

lemma storedBlocks_eq:
  "pos \<le> length raw \<Longrightarrow> storedBlocks raw pos out = out @ emitted (drop pos raw) @ stored True (left (drop pos raw))"
proof (induction raw pos out rule: storedBlocks.induct)
  case (1 raw pos out)
  let ?rest = "drop pos raw"
  have sb: "storedBlock raw pos n out = out @ stored (pos + n = length raw) (take n ?rest)" if "n \<le> length ?rest" for n
    using that by (simp add: storedBlock_def append_forms stored_def Let_def)
  show ?case
  proof (cases "kMaxBlock < length ?rest")
    case True
    then have b: "min kMaxBlock (length raw - pos) = kMaxBlock" "pos + kMaxBlock < length raw" by auto
    have "storedBlocks raw pos out = storedBlocks raw (pos + kMaxBlock) (out @ stored False (take kMaxBlock ?rest))"
      using b True sb [of kMaxBlock] by (subst storedBlocks.simps) (simp add: Let_def)
    also have "\<dots> = (out @ stored False (take kMaxBlock ?rest)) @ emitted (drop (pos + kMaxBlock) raw) @
        stored True (left (drop (pos + kMaxBlock) raw))"
      using "1.IH" [OF refl refl] b True sb [of kMaxBlock] by (simp add: Let_def)
    finally show ?thesis using emitted_big [OF True] by (simp add: add.commute)
  next
    case False
    then have "min kMaxBlock (length raw - pos) = length raw - pos" by auto
    then have "storedBlocks raw pos out = out @ stored True ?rest"
      using sb [of "length raw - pos"] "1.prems" by (subst storedBlocks.simps) (simp add: Let_def)
    then show ?thesis using emitted_small [of ?rest] False by simp
  qed
qed

lemma zlibStored_eq: "zlibStored raw = [0x78, 0x01] @ emitted raw @ stored True (left raw) @ be32 (adler32 raw)"
  using storedBlocks_eq [of 0 raw "[0x78, 0x01]"] by (simp add: zlibStored_def append_forms)

lemma stored_length [simp]: "length (stored b xs) = 5 + length xs"
  by (simp add: stored_def)

lemma blocks_length:
  "length (emitted p) + length (stored True (left p)) =
    (if length p = 0 then 1 else (length p + kMaxBlock - 1) div kMaxBlock) * 5 + length p"
proof (induction p rule: emitted.induct)
  case (1 p)
  show ?case
  proof (cases "kMaxBlock < length p")
    case True
    then have "length (drop kMaxBlock p) \<noteq> 0" by simp
    then have ih: "length (emitted (drop kMaxBlock p)) + length (stored True (left (drop kMaxBlock p))) =
        ((length p - kMaxBlock + kMaxBlock - 1) div kMaxBlock) * 5 + (length p - kMaxBlock)"
      using "1.IH" [OF True] by simp
    have "(length p + kMaxBlock - 1) div kMaxBlock = Suc ((length p - 1) div kMaxBlock)"
    proof -
      have "length p + kMaxBlock - 1 = (length p - 1) + kMaxBlock" using True by simp
      then show ?thesis by (simp add: div_add_self2)
    qed
    moreover have "(length p - Suc 0) div kMaxBlock * 5 + length p - kMaxBlock + kMaxBlock =
        (length p - Suc 0) div kMaxBlock * 5 + length p" using True by simp
    moreover have "p \<noteq> []" using True by auto
    ultimately show ?thesis using ih True emitted_big [OF True] by simp
  next
    case False
    have "length p \<noteq> 0 \<Longrightarrow> (length p + kMaxBlock - 1) div kMaxBlock = 1"
      using False by (cases p) (simp_all add: div_nat_eqI)
    then show ?thesis using emitted_small [of p] False by simp
  qed
qed

lemma zlibStored_length: "length (zlibStored raw) = zlibStoredSize (length raw)"
  using blocks_length [of raw] by (simp add: zlibStored_eq zlibStoredSize_def Let_def)

section \<open>The PNG stream\<close>

abbreviation io_good :: "bytes \<Rightarrow> bool" where "io_good \<equiv> \<lambda>_. True"

lemma of_write_good: "of_good f \<Longrightarrow> of_write io_good data f = (True, \<lparr>of_data = of_data f @ data, of_good = True\<rparr>)"
  by (cases f) (simp add: of_write_def)

text \<open>After the raw bytes \<open>R\<close>, with the prologue \<open>P\<close> in the file and \<open>c\<close> the checksum of its end.\<close>

definition png_after :: "bytes \<Rightarrow> u32 \<Rightarrow> bytes \<Rightarrow> png_stream \<Rightarrow> bool" where
  "png_after P c R s \<longleftrightarrow> ps_ok s \<and> \<not> ps_finished s \<and> ps_file s = \<lparr>of_data = P @ emitted R, of_good = True\<rparr> \<and>
     ps_crc s = crc32Update c (emitted R) \<and> ps_adler s = adler_update R (1, 0) \<and> ps_pending s = left R"

definition png_shape :: "png_stream \<Rightarrow> nat \<times> nat \<times> nat \<times> nat \<times> nat" where
  "png_shape s = (ps_width s, ps_height s, ps_sourceChannels s, ps_fileChannels s, ps_rowsWritten s)"

lemma emitBlock_good:
  assumes "of_good (ps_file s)" "n \<le> length (ps_pending s)"
  shows "emitBlock io_good n final s = (True, s\<lparr>ps_pending := drop n (ps_pending s),
     ps_crc := crc32Update (ps_crc s) (stored final (take n (ps_pending s))),
     ps_file := \<lparr>of_data = of_data (ps_file s) @ stored final (take n (ps_pending s)), of_good = True\<rparr>\<rparr>)"
proof -
  have "[if final then 1 else 0] @ le16 (of_nat n) @ le16 (NOT (of_nat n)) @ take n (ps_pending s) =
      stored final (take n (ps_pending s))" using assms(2) by (simp add: stored_def)
  then show ?thesis using of_write_good [OF assms(1)] by (simp add: emitBlock_def append_forms Let_def)
qed

lemma emitBlocks_good:
  "of_good (ps_file s) \<Longrightarrow> emitBlocks io_good s = (True, s\<lparr>ps_pending := left (ps_pending s),
     ps_crc := crc32Update (ps_crc s) (emitted (ps_pending s)),
     ps_file := \<lparr>of_data = of_data (ps_file s) @ emitted (ps_pending s), of_good = True\<rparr>\<rparr>)"
proof (induction "length (ps_pending s)" arbitrary: s rule: less_induct)
  case less
  show ?case
  proof (cases "kMaxBlock < length (ps_pending s)")
    case True
    let ?s1 = "snd (emitBlock io_good kMaxBlock False s)"
    have e: "emitBlock io_good kMaxBlock False s = (True, ?s1)"
      using emitBlock_good [OF less.prems, of kMaxBlock False] True by simp
    have s1: "ps_pending ?s1 = drop kMaxBlock (ps_pending s)"
        "ps_crc ?s1 = crc32Update (ps_crc s) (stored False (take kMaxBlock (ps_pending s)))"
        "ps_file ?s1 = \<lparr>of_data = of_data (ps_file s) @ stored False (take kMaxBlock (ps_pending s)), of_good = True\<rparr>"
      and same: "\<And>p c f. ?s1\<lparr>ps_pending := p, ps_crc := c, ps_file := f\<rparr> = s\<lparr>ps_pending := p, ps_crc := c, ps_file := f\<rparr>"
      using emitBlock_good [OF less.prems, of kMaxBlock False] True by simp_all
    have "emitBlocks io_good s = emitBlocks io_good ?s1" using True by (subst emitBlocks.simps, subst e) simp
    also have "\<dots> = (True, ?s1\<lparr>ps_pending := left (ps_pending ?s1), ps_crc := crc32Update (ps_crc ?s1) (emitted (ps_pending ?s1)),
        ps_file := \<lparr>of_data = of_data (ps_file ?s1) @ emitted (ps_pending ?s1), of_good = True\<rparr>\<rparr>)"
      by (rule less.hyps) (use True in \<open>simp_all add: s1\<close>)
    finally show ?thesis unfolding same by (simp add: s1 emitted_big [OF True] crc32Update_append)
  next
    case False
    then show ?thesis using emitted_small [of "ps_pending s"] less.prems
      by (subst emitBlocks.simps) (cases s; cases "ps_file s"; simp add: crc32Update_def)
  qed
qed

definition pngRow :: "nat \<Rightarrow> nat \<Rightarrow> nat \<Rightarrow> f32 list \<Rightarrow> bytes" where
  "pngRow w f c row = 0 # rowPixels w f c row"

lemma png_row:
  assumes "png_after P c R s"
  shows "\<exists>s'. emitBlocks io_good (appendRow row s) = (True, s') \<and>
    png_after P c (R @ pngRow (ps_width s) (ps_fileChannels s) (ps_sourceChannels s) row) s' \<and> png_shape s' = png_shape s"
proof -
  let ?row = "pngRow (ps_width s) (ps_fileChannels s) (ps_sourceChannels s) row"
  have a: "appendRow row s = s\<lparr>ps_pending := left R @ ?row, ps_adler := adler_update (R @ ?row) (1, 0)\<rparr>"
    using assms by (simp add: appendRow_def png_after_def pngRow_def adler_update_append Let_def)
  have "of_good (ps_file (appendRow row s))" using assms by (simp add: a png_after_def)
  from emitBlocks_good [OF this] show ?thesis
    using assms emitted_append [of R ?row]
    by (simp add: png_after_def a png_shape_def crc32Update_append)
qed

lemma png_rows_after:
  "png_after P c R s \<Longrightarrow> \<exists>s'. png_rows io_good n rows s = (True, s') \<and> png_shape s' = png_shape s \<and>
    png_after P c (R @ concat (map (\<lambda>y. pngRow (ps_width s) (ps_fileChannels s) (ps_sourceChannels s)
      (drop (y * (ps_width s * ps_sourceChannels s)) rows)) [0..<n])) s'"
proof (induction n arbitrary: R rows s)
  case (Suc n)
  obtain s1 where s1: "emitBlocks io_good (appendRow rows s) = (True, s1)" "png_shape s1 = png_shape s"
      "png_after P c (R @ pngRow (ps_width s) (ps_fileChannels s) (ps_sourceChannels s) rows) s1"
    using png_row [OF Suc.prems] by blast
  have sh: "ps_width s1 = ps_width s" "ps_fileChannels s1 = ps_fileChannels s" "ps_sourceChannels s1 = ps_sourceChannels s"
    using s1(2) by (simp_all add: png_shape_def)
  have "map (\<lambda>y. pngRow w f k (drop (y * d) rows)) [0..<Suc n] =
      pngRow w f k rows # map (\<lambda>y. pngRow w f k (drop (y * d) (drop d rows))) [0..<n]" for w f k d
    by (simp add: upt_conv_Cons [OF zero_less_Suc] map_Suc_upt [symmetric] o_def algebra_simps del: upt_Suc)
  then show ?case
    using Suc.IH [OF s1(3), of "drop (ps_width s * ps_sourceChannels s) rows"] s1(1,2) by (simp add: sh del: upt_Suc)
qed (simp add: png_shape_def)

section \<open>Rows and bands\<close>

definition raw_rows :: "nat \<Rightarrow> nat \<Rightarrow> nat \<Rightarrow> nat \<Rightarrow> f32 list \<Rightarrow> bytes" where
  "raw_rows w f c n px = concat (map (\<lambda>y. pngRow w f c (drop (y * (w * c)) px)) [0..<n])"

definition png_channels :: "nat \<Rightarrow> nat \<Rightarrow> bool" where
  "png_channels c f \<longleftrightarrow> (c = 1 \<and> f = 3) \<or> (c = f \<and> (f = 3 \<or> f = 4))"

lemma grid_less: "x < w \<Longrightarrow> k < c \<Longrightarrow> x * c + k < w * c" for x :: nat
proof -
  assume "x < w" "k < c"
  then have "x * c + k < Suc x * c" by simp
  also have "\<dots> \<le> w * c" using \<open>x < w\<close> by (intro mult_le_mono1) simp
  finally show ?thesis .
qed

lemma pngRow_cong:
  assumes "png_channels c f" "\<forall>i < w * c. row ! i = row' ! i"
  shows "pngRow w f c row = pngRow w f c row'"
proof -
  have "row ! (x * c + (if c = 1 then 0 else k)) = row' ! (x * c + (if c = 1 then 0 else k))" if "x < w" "k < f" for x k
    using assms grid_less [of x w "if c = 1 then 0 else k" c] that by (auto simp: png_channels_def split: if_splits)
  then have "map (\<lambda>x. map (\<lambda>k. toneMap (row ! (x * c + (if c = 1 then 0 else k)))) [0..<f]) [0..<w] =
      map (\<lambda>x. map (\<lambda>k. toneMap (row' ! (x * c + (if c = 1 then 0 else k)))) [0..<f]) [0..<w]"
    by (intro map_cong refl) auto
  then show ?thesis unfolding pngRow_def rowPixels_def Let_def by (simp only:)
qed

lemma upt_split: "[0..<n + k] = [0..<n] @ map (\<lambda>y. n + y) [0..<k]" for n k :: nat
proof -
  have "[0..<n + k] = [0..<n] @ [n..<n + k]" by (rule upt_add_eq_append) simp
  moreover have "map (\<lambda>y. n + y) [0..<k] = [n..<n + k]" using map_add_upt [of n k] by (simp add: add.commute)
  ultimately show ?thesis by simp
qed

lemma raw_rows_append:
  assumes c: "png_channels c f" and l: "length px = n * (w * c)"
  shows "raw_rows w f c (n + k) (px @ qx) = raw_rows w f c n px @ raw_rows w f c k qx"
proof -
  have a: "pngRow w f c (drop (y * (w * c)) (px @ qx)) = pngRow w f c (drop (y * (w * c)) px)" if "y < n" for y
  proof (rule pngRow_cong [OF c], intro allI impI)
    fix i assume "i < w * c"
    then have "y * (w * c) + i < length px" unfolding l by (rule grid_less [OF that])
    then have "i < length px - y * (w * c)" by linarith
    then show "drop (y * (w * c)) (px @ qx) ! i = drop (y * (w * c)) px ! i" by (simp add: nth_append)
  qed
  have b: "drop ((n + y) * (w * c)) (px @ qx) = drop (y * (w * c)) qx" for y
    using l by (simp add: algebra_simps)
  have m: "map (\<lambda>y. pngRow w f c (drop (y * (w * c)) (px @ qx))) [0..<n] = map (\<lambda>y. pngRow w f c (drop (y * (w * c)) px)) [0..<n]"
    by (rule map_cong [OF refl]) (rule a, simp)
  show ?thesis unfolding raw_rows_def upt_split map_append concat_append map_map o_def b m ..
qed

definition band_ok :: "nat \<Rightarrow> f32 list \<times> i32 \<Rightarrow> bool" where
  "band_ok d b \<longleftrightarrow> 0 \<le> sint (snd b) \<and> length (fst b) = unat (snd b) * d"

definition band_rows :: "(f32 list \<times> i32) list \<Rightarrow> nat" where
  "band_rows bands = sum_list (map (\<lambda>b. unat (snd b)) bands)"

fun write_bands :: "(bytes \<Rightarrow> bool) \<Rightarrow> (f32 list \<times> i32) list \<Rightarrow> image_stream \<Rightarrow> bool \<times> image_stream" where
  "write_bands io [] s = (True, s)"
| "write_bands io (b # bands) s =
     (case stream_writeRows io (Some (fst b)) (snd b) s of
        (ok, s) \<Rightarrow> if ok then write_bands io bands s else (False, s))"

lemma png_bands:
  "png_after P c R s \<Longrightarrow> png_shape s = (w, h, k, f, r) \<Longrightarrow> png_channels k f \<Longrightarrow> \<forall>b \<in> set bands. band_ok (w * k) b \<Longrightarrow>
    r + band_rows bands \<le> h \<Longrightarrow>
    \<exists>s'. write_bands io_good bands (PngStream s) = (True, PngStream s') \<and>
      png_after P c (R @ raw_rows w f k (band_rows bands) (concat (map fst bands))) s' \<and>
      png_shape s' = (w, h, k, f, r + band_rows bands)"
proof (induction bands arbitrary: R r s)
  case Nil
  then show ?case by (simp add: band_rows_def raw_rows_def)
next
  case (Cons b bands)
  obtain px n where b: "b = (px, n)" by (cases b)
  note sh = Cons.prems(2) [unfolded png_shape_def]
  obtain s1 where s1: "png_rows io_good (unat n) px s = (True, s1)" "png_shape s1 = png_shape s"
      "png_after P c (R @ raw_rows w f k (unat n) px) s1"
    using png_rows_after [OF Cons.prems(1), of "unat n" px] sh by (auto simp: raw_rows_def)
  define s2 where "s2 = s1\<lparr>ps_rowsWritten := ps_rowsWritten s1 + unat n\<rparr>"
  have ok: "band_ok (w * k) (px, n)" using Cons.prems(4) by (simp add: b)
  have n: "unat n \<le> h - r" using Cons.prems(5) by (simp add: b band_rows_def)
  have "png_writeRows io_good (Some px) n s = (True, s2)"
    using Cons.prems(1) sh n ok s1(1) by (simp add: png_writeRows_def png_after_def band_ok_def s2_def)
  then have step: "write_bands io_good (b # bands) (PngStream s) = write_bands io_good bands (PngStream s2)"
    by (simp add: b stream_writeRows_def)
  have s2: "png_after P c (R @ raw_rows w f k (unat n) px) s2" "png_shape s2 = (w, h, k, f, r + unat n)"
    using s1 sh by (simp_all add: s2_def png_after_def png_shape_def)
  have "length px = unat n * (w * k)" using ok by (simp add: band_ok_def)
  from Cons.IH [OF s2 Cons.prems(3)] raw_rows_append [OF Cons.prems(3) this] Cons.prems(4,5)
  show ?case unfolding step by (simp add: b band_rows_def add.assoc)
qed

section \<open>The one-shot image\<close>

lemma concat_grid:
  assumes "0 < f"
  shows "concat (map (\<lambda>x. map (g x) [0..<f]) [0..<w]) = map (\<lambda>j. g (j div f) (j mod f)) [0..<w * f]"
proof (induction w)
  case (Suc w)
  have "[0..<Suc w * f] = [0..<w * f] @ map (\<lambda>k. w * f + k) [0..<f]"
    using upt_split [of "w * f" f] by (simp add: add.commute)
  moreover have "map ((\<lambda>j. g (j div f) (j mod f)) \<circ> (\<lambda>k. w * f + k)) [0..<f] = map (g w) [0..<f]"
    using assms by (intro map_cong) simp_all
  ultimately show ?case using Suc by simp
qed simp

definition expanded :: "nat \<Rightarrow> nat \<Rightarrow> f32 list \<Rightarrow> f32 list" where
  "expanded k n px = (if k = 1 then concat (map (\<lambda>i. replicate 3 (px ! i)) [0..<n]) else px)"

lemma expanded_nth:
  assumes "png_channels k f" "j < n * f" "length px = n * k"
  shows "expanded k n px ! j = px ! ((j div f) * k + (if k = 1 then 0 else j mod f))"
proof (cases "k = 1")
  case True
  then have f: "f = 3" using assms(1) by (auto simp: png_channels_def)
  have "replicate 3 a = map (\<lambda>_. a) [0..<3]" for a :: f32 by (simp add: map_replicate_const)
  then have "expanded k n px = map (\<lambda>j. px ! (j div 3)) [0..<n * 3]"
    using concat_grid [of 3 "\<lambda>x _. px ! x" n] True by (simp add: expanded_def)
  then show ?thesis using assms(2) True f by simp
next
  case False
  then show ?thesis using assms(1) by (auto simp: expanded_def png_channels_def)
qed

lemma scanlines_eq:
  assumes c: "png_channels k f" and l: "length px = w * h * k"
  shows "scanlines h (w * f) (map (\<lambda>i. toneMap (expanded k (w * h) px ! i)) [0..<w * h * f]) = raw_rows w f k h px"
proof -
  have f: "0 < f" using c by (auto simp: png_channels_def)
  let ?b = "map (\<lambda>i. toneMap (expanded k (w * h) px ! i)) [0..<w * h * f]"
  have row: "take (w * f) (drop (y * (w * f)) ?b) = rowPixels w f k (drop (y * (w * k)) px)" if y: "y < h" for y
  proof -
    have yb: "y * (w * f) + w * f \<le> w * h * f"
    proof -
      have "Suc y * (w * f) \<le> h * (w * f)" using y by (intro mult_le_mono1) simp
      then show ?thesis by (simp add: algebra_simps)
    qed
    have "toneMap (expanded k (w * h) px ! (y * (w * f) + j)) =
        toneMap (drop (y * (w * k)) px ! ((j div f) * k + (if k = 1 then 0 else j mod f)))" if j: "j < w * f" for j
    proof -
      have jb: "y * (w * f) + j < w * h * f" using yb j by linarith
      have e: "(y * (w * f) + j) div f = y * w + j div f" "(y * (w * f) + j) mod f = j mod f"
      proof -
        have q: "y * (w * f) + j = j + (y * w) * f" by simp
        show "(y * (w * f) + j) div f = y * w + j div f" "(y * (w * f) + j) mod f = j mod f"
          unfolding q using f by simp_all
      qed
      have "y * (w * k) \<le> length px" using y l by (simp add: algebra_simps)
      then show ?thesis
        using expanded_nth [OF c jb l, unfolded e] by (simp add: add_mult_distrib mult.assoc add.assoc)
    qed
    then have "map (\<lambda>j. toneMap (expanded k (w * h) px ! (y * (w * f) + j))) [0..<w * f] = rowPixels w f k (drop (y * (w * k)) px)"
      using concat_grid [OF f, of "\<lambda>x c. toneMap (drop (y * (w * k)) px ! (x * k + (if k = 1 then 0 else c)))" w]
      by (simp add: rowPixels_def Let_def cong: map_cong)
    moreover have "take (w * f) (drop (y * (w * f)) ?b) =
        map (\<lambda>j. toneMap (expanded k (w * h) px ! (y * (w * f) + j))) [0..<w * f]"
    proof (rule nth_equalityI)
      have yl: "y * (w * f) \<le> w * h * f" using yb by linarith
      fix i assume "i < length (take (w * f) (drop (y * (w * f)) ?b))"
      then have i: "i < w * f" by simp
      then have "y * (w * f) + i < w * h * f" using yb by linarith
      then show "take (w * f) (drop (y * (w * f)) ?b) ! i =
          map (\<lambda>j. toneMap (expanded k (w * h) px ! (y * (w * f) + j))) [0..<w * f] ! i"
        using i yl by simp
    qed (use yb in simp)
    ultimately show ?thesis by simp
  qed
  have "fold (\<lambda>y raw. (raw @ [0]) @ take (w * f) (drop (y * (w * f)) ?b)) ys out =
      out @ concat (map (\<lambda>y. 0 # take (w * f) (drop (y * (w * f)) ?b)) ys)" for ys out
    by (induction ys arbitrary: out) simp_all
  then have "scanlines h (w * f) ?b = concat (map (\<lambda>y. 0 # take (w * f) (drop (y * (w * f)) ?b)) [0..<h])"
    unfolding scanlines_def by (simp only: append_Nil)
  moreover have "map (\<lambda>y. 0 # take (w * f) (drop (y * (w * f)) ?b)) [0..<h] = map (\<lambda>y. pngRow w f k (drop (y * (w * k)) px)) [0..<h]"
    unfolding pngRow_def by (rule map_cong [OF refl], rule arg_cong, rule row) simp
  ultimately show ?thesis unfolding raw_rows_def by (simp only:)
qed

lemma savePng_eq:
  assumes s: "0 < sint width" "0 < sint height" "channels = 1 \<or> channels = 3 \<or> channels = 4"
    and px: "length px = unat width * unat height * unat channels"
  shows "saveImageAs \<lparr>im_width = width, im_height = height, im_channels = channels, im_pixels = px\<rparr> Png =
    writePng width height (if channels = 1 then 3 else channels)
      (Some (map (\<lambda>i. toneMap (expanded (unat channels) (unat width * unat height) px ! i))
        [0..<unat width * unat height * (if channels = 1 then 3 else unat channels)]))"
  using s px
  by (auto simp: saveImageAs_def pixelsMatchShape_def savePng_def writePngTonemapped_def expanded_def)

section \<open>The whole PNG file\<close>

lemma chunk_eq: "writeChunk out ty data = out @ be32 (of_nat (length data)) @ ty @ data @ be32 (crc32 (ty @ data))"
  by (simp add: writeChunk_def append_forms Let_def)

lemma png_open_after:
  assumes c: "channels = 1 \<or> channels = 3 \<or> channels = 4" and f: "f = (if channels = 1 then 3 else unat channels)"
    and p: "png_prologue width height (unat width) (unat height) f 0xffffffff = (P, c0)"
  shows "png_after P c0 [] (png_open io_good width height channels)"
    "png_shape (png_open io_good width height channels) = (unat width, unat height, unat channels, f, 0)"
  using emitted_small [of "[]"] p
  by (simp_all add: png_open_def f [symmetric] of_open_def of_write_good png_after_def png_shape_def crc32Update_def
      adler_update_def Let_def)

lemma png_finish_good:
  assumes a: "png_after P c R s" and r: "ps_rowsWritten s = ps_height s"
  shows "\<exists>s'. png_finish io_good s = (True, s') \<and>
    of_data (ps_file s') = P @ emitted R @ stored True (left R) @ be32 (adler32 R) @
      be32 (crc32Update c (emitted R @ stored True (left R) @ be32 (adler32 R)) XOR 0xffffffff) @
      be32 0 @ ascii ''IEND'' @ be32 (crc32 (ascii ''IEND''))"
proof -
  define s0 where "s0 = s\<lparr>ps_finished := True\<rparr>"
  have f: "of_good (ps_file s0)" using a by (simp add: png_after_def s0_def)
  note e = emitBlock_good [OF f, of "length (ps_pending s0)" True, simplified]
  have w: "of_write io_good x \<lparr>of_data = y, of_good = True\<rparr> = (True, \<lparr>of_data = y @ x, of_good = True\<rparr>)" for x y
    by (simp add: of_write_good)
  have "ps_ok s \<and> \<not> ps_finished s" using a by (simp add: png_after_def)
  then show ?thesis
    using a r
    by (simp add: png_finish_def s0_def [symmetric] e w of_close_def append_forms Let_def)
      (simp add: s0_def png_after_def adler32_update crc32Update_append)
qed

lemma writePng_eq:
  assumes "0 < sint width" "0 < sint height" "ch = 3 \<or> ch = 4" "scanlines (unat height) (unat width * unat ch) bytes = R"
    and p: "png_prologue width height (unat width) (unat height) (unat ch) 0xffffffff = (P, c)"
    and n: "length R = (unat width * unat ch + 1) * unat height"
  shows "writePng width height ch (Some bytes) =
    Some (P @ emitted R @ stored True (left R) @ be32 (adler32 R) @
      be32 (crc32Update c (emitted R @ stored True (left R) @ be32 (adler32 R)) XOR 0xffffffff) @
      be32 0 @ ascii ''IEND'' @ be32 (crc32 (ascii ''IEND'')))"
proof -
  have color: "(if unat ch = 4 then 6 else 2 :: u8) = (if ch = 4 then 6 else 2)" using assms(3) by auto
  have ih: "ihdrBytes width height ch = be32 width @ be32 height @ [8, if ch = 4 then 6 else 2, 0, 0, 0]"
    by (simp add: ihdrBytes_def append_forms)
  then have len: "length (ihdrBytes width height ch) = 13" by simp
  have P: "P = pngSignature @ be32 13 @ ascii ''IHDR'' @ ihdrBytes width height ch @
      be32 (crc32 (ascii ''IHDR'' @ ihdrBytes width height ch)) @ be32 (of_nat (length (zlibStored R))) @
      ascii ''IDAT'' @ [0x78, 0x01]"
    and c: "c = crc32Update 0xffffffff (ascii ''IDAT'' @ [0x78, 0x01])"
    using p by (auto simp: png_prologue_def append_forms zlibStored_length n color pngSignature_def ih Let_def)
  have w: "writePng width height ch (Some bytes) =
      Some (writeChunk (writeChunk (writeChunk pngSignature (ascii ''IHDR'') (ihdrBytes width height ch))
        (ascii ''IDAT'') (zlibStored R)) (ascii ''IEND'') [])"
    using assms(1-4) by (auto simp: writePng_def Let_def)
  show ?thesis
    unfolding w P c chunk_eq
    using len
    by (simp add: zlibStored_eq crc32_def crc32Update_append [symmetric])
qed

lemma raw_rows_length: "length (raw_rows w f c n px) = (w * f + 1) * n"
proof -
  have "length (pngRow w f c row) = w * f + 1" for row
    by (simp add: pngRow_def rowPixels_def length_concat o_def sum_list_triv)
  then show ?thesis by (simp add: raw_rows_def length_concat o_def sum_list_triv)
qed

lemma png_bands_file:
  assumes s: "0 < sint width" "0 < sint height" "channels = 1 \<or> channels = 3 \<or> channels = 4" "png_fits width height channels"
    and b: "\<forall>b \<in> set bands. band_ok (unat width * unat channels) b" "band_rows bands = unat height"
  shows "\<exists>st st1 st2. stream_open io_good width height channels Png = Some st \<and> write_bands io_good bands st = (True, st1) \<and>
    stream_finish io_good st1 = (True, st2) \<and>
    saveImageAs \<lparr>im_width = width, im_height = height, im_channels = channels, im_pixels = concat (map fst bands)\<rparr> Png =
      Some (of_data (stream_file st2))"
proof -
  let ?w = "unat width" and ?h = "unat height" and ?k = "unat channels" and ?px = "concat (map fst bands)"
  define f where "f = (if channels = 1 then 3 else ?k)"
  obtain P c where p: "png_prologue width height ?w ?h f 0xffffffff = (P, c)" by fastforce
  define s0 where "s0 = png_open io_good width height channels"
  have s0: "png_after P c [] s0" "png_shape s0 = (?w, ?h, ?k, f, 0)"
    using png_open_after [OF s(3) f_def p] by (simp_all add: s0_def)
  have ch: "png_channels ?k f" using s(3) by (auto simp: png_channels_def f_def)
  obtain s1 where s1: "write_bands io_good bands (PngStream s0) = (True, PngStream s1)"
      "png_after P c (raw_rows ?w f ?k ?h ?px) s1" "png_shape s1 = (?w, ?h, ?k, f, ?h)"
    using png_bands [OF s0 ch b(1)] b(2) by auto
  have len: "length (concat (map fst bs)) = band_rows bs * (?w * ?k)" if "\<forall>b \<in> set bs. band_ok (?w * ?k) b" for bs
    using that by (induction bs) (simp_all add: band_rows_def band_ok_def add_mult_distrib)
  have l: "length ?px = ?w * ?h * ?k" using len [OF b(1)] b(2) by (simp add: mult.assoc mult.left_commute)
  define ch' where "ch' = (if channels = 1 then 3 else channels)"
  have ch': "unat ch' = f" "ch' = 3 \<or> ch' = 4" using s(3) by (auto simp: ch'_def f_def)
  obtain s2 where s2: "png_finish io_good s1 = (True, s2)" "of_data (ps_file s2) = the (writePng width height ch'
      (Some (map (\<lambda>i. toneMap (expanded ?k (?w * ?h) ?px ! i)) [0..<?w * ?h * f])))"
    and w: "writePng width height ch' (Some (map (\<lambda>i. toneMap (expanded ?k (?w * ?h) ?px ! i)) [0..<?w * ?h * f])) \<noteq> None"
    using png_finish_good [OF s1(2)] s1(3) writePng_eq [OF s(1,2) ch'(2), unfolded ch'(1), OF scanlines_eq [OF ch l] p raw_rows_length]
    by (auto simp: png_shape_def)
  have "ps_ok s0" using s0(1) by (simp add: png_after_def)
  then have "stream_open io_good width height channels Png = Some (PngStream s0)"
    using s by (auto simp: stream_open_def s0_def Let_def)
  moreover have "stream_finish io_good (PngStream s1) = (True, PngStream s2)" by (simp add: stream_finish_def s2(1))
  moreover have "saveImageAs \<lparr>im_width = width, im_height = height, im_channels = channels, im_pixels = ?px\<rparr> Png =
      Some (of_data (stream_file (PngStream s2)))"
    using savePng_eq [OF s(1-3) l] s2(2) w by (simp add: stream_file_def ch'_def [symmetric] f_def [symmetric])
  ultimately show ?thesis using s1(1) by blast
qed

section \<open>The OpenEXR stream\<close>

definition exrRow :: "exr_channel list \<Rightarrow> nat \<Rightarrow> nat \<Rightarrow> nat \<Rightarrow> f32 list \<Rightarrow> bytes" where
  "exrRow layout w ch y row = exrScanline layout w ch y row []"

lemma fold_out:
  assumes "\<And>x out. x \<in> set xs \<Longrightarrow> g x out = out @ g x []"
  shows "fold g xs out = out @ fold g xs []"
  using assms
proof (induction xs arbitrary: out)
  case (Cons x xs)
  have "fold g xs (g x out) = g x out @ fold g xs []" "fold g xs (g x []) = g x [] @ fold g xs []"
    by (rule Cons.IH, rule Cons.prems, simp)+
  moreover have "g x out = out @ g x []" by (rule Cons.prems) simp
  ultimately show ?case by (simp only: fold_simps append_assoc)
qed simp

lemma exrScanline_out: "exrScanline layout w ch y row out = out @ exrRow layout w ch y row"
proof -
  have px: "fold (\<lambda>x out. appendFloatLE out (row ! (x * ch + k))) xs out =
      out @ fold (\<lambda>x out. appendFloatLE out (row ! (x * ch + k))) xs []" for xs k out
    by (rule fold_out) (simp add: appendFloatLE_def appendU32LE_def)
  define G where "G out = fold (\<lambda>c out. fold (\<lambda>x out. appendFloatLE out (row ! (x * ch + snd c))) [0..<w] out) layout out" for out
  define H where "H out = appendU32LE (appendI32LE out (of_nat y)) (of_nat (ch * w * 4))" for out
  have G: "G out = out @ G []" for out unfolding G_def by (rule fold_out) (rule px)
  have H: "H out = out @ H []" for out by (simp add: H_def appendI32LE_def appendU32LE_def)
  have e: "exrScanline layout w ch y row out = G (H out)" for out unfolding exrScanline_def G_def H_def Let_def ..
  have "G (H out) = out @ (H [] @ G [])" using G [of "H out"] H [of out] by simp
  also have "\<dots> = out @ G (H [])" using G [of "H []"] by simp
  finally show ?thesis by (simp only: e exrRow_def)
qed

lemma exrRow_cong:
  assumes "\<forall>c \<in> set layout. snd c < ch" "\<forall>i < w * ch. row ! i = row' ! i"
  shows "exrRow layout w ch y row = exrRow layout w ch y row'"
proof -
  have row_eq: "fold (\<lambda>x out. appendFloatLE out (row ! (x * ch + snd c))) [0..<w] out =
      fold (\<lambda>x out. appendFloatLE out (row' ! (x * ch + snd c))) [0..<w] out" if "c \<in> set layout" for c out
    by (rule fold_cong) (use assms that grid_less [of _ w "snd c" ch] in auto)
  have "fold (\<lambda>c out. fold (\<lambda>x out. appendFloatLE out (row ! (x * ch + snd c))) [0..<w] out) layout o0 =
      fold (\<lambda>c out. fold (\<lambda>x out. appendFloatLE out (row' ! (x * ch + snd c))) [0..<w] out) layout o0" for o0
    by (rule fold_cong [OF refl refl]) (rule ext, erule row_eq)
  then show ?thesis unfolding exrRow_def exrScanline_def Let_def by (simp only:)
qed

definition exr_blocks :: "exr_channel list \<Rightarrow> nat \<Rightarrow> nat \<Rightarrow> nat \<Rightarrow> nat \<Rightarrow> f32 list \<Rightarrow> bytes" where
  "exr_blocks layout w ch r n px = concat (map (\<lambda>y. exrRow layout w ch (r + y) (drop (y * (w * ch)) px)) [0..<n])"

lemma exr_blocks_append:
  assumes c: "\<forall>c \<in> set layout. snd c < ch" and l: "length px = n * (w * ch)"
  shows "exr_blocks layout w ch r (n + k) (px @ qx) = exr_blocks layout w ch r n px @ exr_blocks layout w ch (r + n) k qx"
proof -
  have a: "exrRow layout w ch (r + y) (drop (y * (w * ch)) (px @ qx)) = exrRow layout w ch (r + y) (drop (y * (w * ch)) px)"
    if "y < n" for y
  proof (rule exrRow_cong [OF c], intro allI impI)
    fix i assume "i < w * ch"
    then have "y * (w * ch) + i < length px" unfolding l by (rule grid_less [OF that])
    then have "i < length px - y * (w * ch)" by linarith
    then show "drop (y * (w * ch)) (px @ qx) ! i = drop (y * (w * ch)) px ! i" by (simp add: nth_append)
  qed
  have b: "drop ((n + y) * (w * ch)) (px @ qx) = drop (y * (w * ch)) qx" "r + (n + y) = r + n + y" for y
    using l by (simp_all add: algebra_simps)
  have m: "map (\<lambda>y. exrRow layout w ch (r + y) (drop (y * (w * ch)) (px @ qx))) [0..<n] =
      map (\<lambda>y. exrRow layout w ch (r + y) (drop (y * (w * ch)) px)) [0..<n]"
    by (rule map_cong [OF refl]) (rule a, simp)
  show ?thesis unfolding exr_blocks_def upt_split map_append concat_append map_map o_def b m ..
qed

lemma exr_rows_good:
  "of_good (es_file s) \<Longrightarrow> exr_rows io_good ys rows s = (True, s\<lparr>es_file := \<lparr>of_data = of_data (es_file s) @
    concat (map (\<lambda>y. exrRow (es_layout s) (es_width s) (es_channels s) (es_rowsWritten s + y)
      (drop (y * (es_width s * es_channels s)) rows)) ys), of_good = True\<rparr>\<rparr>)"
proof (induction ys arbitrary: s)
  case Nil
  then show ?case by (cases s; cases "es_file s") simp
next
  case (Cons y ys)
  then show ?case by (simp add: of_write_good exrRow_def [symmetric] Let_def mult.assoc)
qed

definition exr_after :: "bytes \<Rightarrow> nat \<Rightarrow> nat \<Rightarrow> nat \<Rightarrow> exr_channel list \<Rightarrow> nat \<Rightarrow> f32 list \<Rightarrow> exr_stream \<Rightarrow> bool" where
  "exr_after P w h ch layout r px s \<longleftrightarrow> es_ok s \<and> \<not> es_finished s \<and> es_width s = w \<and> es_height s = h \<and> es_channels s = ch \<and>
     es_layout s = layout \<and> es_rowsWritten s = r \<and> es_file s = \<lparr>of_data = P @ exr_blocks layout w ch 0 r px, of_good = True\<rparr>"

lemma exr_bands:
  "exr_after P w h ch layout r px s \<Longrightarrow> \<forall>c \<in> set layout. snd c < ch \<Longrightarrow> length px = r * (w * ch) \<Longrightarrow>
    \<forall>b \<in> set bands. band_ok (w * ch) b \<Longrightarrow> r + band_rows bands \<le> h \<Longrightarrow>
    \<exists>s'. write_bands io_good bands (ExrStream s) = (True, ExrStream s') \<and>
      exr_after P w h ch layout (r + band_rows bands) (px @ concat (map fst bands)) s'"
proof (induction bands arbitrary: r px s)
  case Nil
  then show ?case by (simp add: band_rows_def)
next
  case (Cons b bands)
  obtain qx n where b: "b = (qx, n)" by (cases b)
  note a = Cons.prems(1) [unfolded exr_after_def]
  have ok: "band_ok (w * ch) (qx, n)" using Cons.prems(4) by (simp add: b)
  have n: "unat n \<le> h - r" using Cons.prems(5) by (simp add: b band_rows_def)
  have good: "of_good (es_file s)" using a by simp
  define s2 where "s2 = s\<lparr>es_file := \<lparr>of_data = of_data (es_file s) @ exr_blocks layout w ch r (unat n) qx, of_good = True\<rparr>,
      es_rowsWritten := r + unat n\<rparr>"
  have "exr_writeRows io_good (Some qx) n s = (True, s2)"
    using a n ok exr_rows_good [OF good, of "[0..<unat n]" qx]
    by (simp add: exr_writeRows_def band_ok_def s2_def exr_blocks_def)
  then have step: "write_bands io_good (b # bands) (ExrStream s) = write_bands io_good bands (ExrStream s2)"
    by (simp add: b stream_writeRows_def)
  have "exr_after P w h ch layout (r + unat n) (px @ qx) s2"
    using a exr_blocks_append [OF Cons.prems(2,3), of 0 "unat n" qx] by (simp add: exr_after_def s2_def)
  moreover have "length (px @ qx) = (r + unat n) * (w * ch)" using Cons.prems(3) ok by (simp add: band_ok_def add_mult_distrib)
  ultimately show ?case
    using Cons.IH [of "r + unat n" "px @ qx" s2] Cons.prems(2,4,5) unfolding step by (simp add: b band_rows_def add.assoc)
qed

lemma exr_bands_file:
  assumes s: "0 < sint width" "0 < sint height" "channels = 1 \<or> channels = 3 \<or> channels = 4"
    and b: "\<forall>b \<in> set bands. band_ok (unat width * unat channels) b" "band_rows bands = unat height"
  shows "\<exists>st st1 st2. stream_open io_good width height channels Exr = Some st \<and> write_bands io_good bands st = (True, st1) \<and>
    stream_finish io_good st1 = (True, st2) \<and>
    saveImageAs \<lparr>im_width = width, im_height = height, im_channels = channels, im_pixels = concat (map fst bands)\<rparr> Exr =
      Some (of_data (stream_file st2))"
proof -
  let ?w = "unat width" and ?h = "unat height" and ?k = "unat channels" and ?px = "concat (map fst bands)"
  let ?L = "exrChannelLayout channels"
  let ?hd = "exrHeader width height ?L"
  define P where "P = exrTable ?h (length ?hd + ?h * 8) (8 + ?k * ?w * 4) ?hd"
  define s0 where "s0 = exr_open io_good width height channels"
  have L: "\<forall>c \<in> set ?L. snd c < ?k" "?L \<noteq> []" using s(3) by (auto simp: exrChannelLayout_def)
  have s0: "exr_after P ?w ?h ?k ?L 0 [] s0"
    by (simp add: s0_def exr_open_def exr_after_def of_open_def of_write_good exr_blocks_def P_def Let_def)
  obtain s1 where s1: "write_bands io_good bands (ExrStream s0) = (True, ExrStream s1)" "exr_after P ?w ?h ?k ?L ?h ?px s1"
    using exr_bands [OF s0 L(1) _ b(1)] b(2) by auto
  obtain s2 where s2: "exr_finish io_good s1 = (True, s2)" "of_data (es_file s2) = P @ exr_blocks ?L ?w ?k 0 ?h ?px"
    using s1(2) by (auto simp: exr_finish_def exr_after_def of_close_def Let_def)
  have "stream_open io_good width height channels Exr = Some (ExrStream s0)"
    using s s0 by (auto simp: stream_open_def s0_def exr_after_def Let_def)
  moreover have "stream_finish io_good (ExrStream s1) = (True, ExrStream s2)" by (simp add: stream_finish_def s2(1))
  moreover have "saveImageAs \<lparr>im_width = width, im_height = height, im_channels = channels, im_pixels = ?px\<rparr> Exr =
      Some (of_data (stream_file (ExrStream s2)))"
  proof -
    have len: "length (concat (map fst bs)) = band_rows bs * (?w * ?k)" if "\<forall>b \<in> set bs. band_ok (?w * ?k) b" for bs
      using that by (induction bs) (simp_all add: band_rows_def band_ok_def add_mult_distrib)
    have l: "length ?px = ?w * ?h * ?k" using len [OF b(1)] b(2) by (simp add: mult.assoc mult.left_commute)
    have "fold (\<lambda>y out. exrScanline ?L ?w ?k y (drop (y * ?w * ?k) ?px) out) ys out =
        out @ concat (map (\<lambda>y. exrRow ?L ?w ?k y (drop (y * (?w * ?k)) ?px)) ys)" for ys out
      by (induction ys arbitrary: out) (simp_all add: exrScanline_out mult.assoc)
    then show ?thesis
      using s l L(2)
      by (auto simp: saveImageAs_def pixelsMatchShape_def writeExr_def stream_file_def s2(2) P_def exr_blocks_def Let_def)
  qed
  ultimately show ?thesis using s1(1) by blast
qed

end
