(* ===== verification/ZipProof.thy ===== *)
theory ZipProof
  imports ImageFiles
begin

text \<open>
  A reader of ZIP archives without compression, written from the format and not from the writer:
  end record, central directory, local headers, checksum of every entry. What the writer produces
  it reads back.
\<close>

section \<open>The reference reader\<close>

definition rd16 :: "bytes \<Rightarrow> nat \<Rightarrow> nat" where
  "rd16 bs p = unat (bs ! p) + 256 * unat (bs ! (p + 1))"

definition rd32 :: "bytes \<Rightarrow> nat \<Rightarrow> nat" where
  "rd32 bs p = rd16 bs p + 65536 * rd16 bs (p + 2)"

definition slice :: "bytes \<Rightarrow> nat \<Rightarrow> nat \<Rightarrow> bytes" where
  "slice bs p n = take n (drop p bs)"

definition unzip_entry :: "bytes \<Rightarrow> nat \<Rightarrow> (bytes \<times> bytes) option" where
  "unzip_entry bs p =
     (let off = rd32 bs (p + 42); name = slice bs (p + 46) (rd16 bs (p + 28));
          data = slice bs (off + 30 + rd16 bs (off + 26) + rd16 bs (off + 28)) (rd32 bs (off + 22))
      in if rd32 bs p = 0x02014b50 \<and> rd32 bs off = 0x04034b50 \<and> rd16 bs (off + 8) = 0 \<and>
            slice bs (off + 30) (rd16 bs (off + 26)) = name \<and>
            rd32 bs (p + 16) = unat (crc32 data) \<and> rd32 bs (off + 14) = unat (crc32 data)
         then Some (name, data) else None)"

fun unzip_entries :: "bytes \<Rightarrow> nat \<Rightarrow> nat \<Rightarrow> nat \<Rightarrow> (bytes \<times> bytes) list option" where
  "unzip_entries bs fin p 0 = (if p = fin then Some [] else None)"
| "unzip_entries bs fin p (Suc n) =
     Option.bind (unzip_entry bs p) (\<lambda>e. map_option ((#) e)
       (unzip_entries bs fin (p + 46 + rd16 bs (p + 28) + rd16 bs (p + 30) + rd16 bs (p + 32)) n))"

definition unzip_archive :: "bytes \<Rightarrow> (bytes \<times> bytes) list option" where
  "unzip_archive bs =
     (let e = length bs - 22
      in if length bs < 22 \<or> rd32 bs e \<noteq> 0x06054b50 then None
         else unzip_entries bs (rd32 bs (e + 16) + rd32 bs (e + 12)) (rd32 bs (e + 16)) (rd16 bs (e + 10)))"

section \<open>What stands where\<close>

definition le16' :: "16 word \<Rightarrow> bytes" where "le16' v = appendU16LE [] v"
definition le32 :: "u32 \<Rightarrow> bytes" where "le32 v = appendU32LE [] v"

lemma le_append: "appendU16LE out v = out @ le16' v" "appendU32LE out n = out @ le32 n"
  by (simp_all add: appendU16LE_def le16'_def appendU32LE_def le32_def)

lemma le_length [simp]: "length (le16' v) = 2" "length (le32 n) = 4"
  by (simp_all add: le16'_def appendU16LE_def le32_def appendU32LE_def)

definition placed :: "bytes \<Rightarrow> nat \<Rightarrow> bytes \<Rightarrow> bool" where
  "placed bs p xs \<longleftrightarrow> (\<exists>post. drop p bs = xs @ post) \<and> p + length xs \<le> length bs"

lemma placed_append: "placed bs p (xs @ ys) \<longleftrightarrow> placed bs p xs \<and> placed bs (p + length xs) ys"
proof
  assume "placed bs p (xs @ ys)"
  then obtain post where post: "drop p bs = xs @ ys @ post" and l: "p + length xs + length ys \<le> length bs"
    by (auto simp: placed_def)
  have "drop (p + length xs) bs = drop (length xs) (drop p bs)" by (simp add: add.commute)
  then show "placed bs p xs \<and> placed bs (p + length xs) ys" using post l by (auto simp: placed_def)
next
  assume a: "placed bs p xs \<and> placed bs (p + length xs) ys"
  then obtain post post' where post: "drop p bs = xs @ post" "drop (p + length xs) bs = ys @ post'"
      and l: "p + length xs + length ys \<le> length bs"
    by (auto simp: placed_def)
  have "drop (p + length xs) bs = drop (length xs) (drop p bs)" by (simp add: add.commute)
  then have "post = ys @ post'" using post by simp
  then show "placed bs p (xs @ ys)" using post l by (auto simp: placed_def)
qed

lemma placed_slice: "placed bs p xs \<Longrightarrow> n = length xs \<Longrightarrow> slice bs p n = xs"
  by (auto simp: placed_def slice_def)

lemma placed_nth: "placed bs p xs \<Longrightarrow> i < length xs \<Longrightarrow> bs ! (p + i) = xs ! i"
proof -
  assume a: "placed bs p xs" "i < length xs"
  then obtain post where "drop p bs = xs @ post" "p + length xs \<le> length bs" by (auto simp: placed_def)
  then have "drop p bs ! i = xs ! i" using a(2) by (simp add: nth_append)
  then show ?thesis using \<open>p + length xs \<le> length bs\<close> by simp
qed

lemma unat_low_byte: "unat (low_byte (drop_bit k (v :: 'a::len word))) = unat v div 2 ^ k mod 256"
proof -
  have "drop_bit k v AND 0xFF = take_bit 8 (drop_bit k v)" by (simp add: take_bit_eq_mask mask_eq_exp_minus_1)
  then have "low_byte (drop_bit k v) = (ucast (drop_bit k v) :: u8)"
    unfolding low_byte_def by (intro bit_word_eqI) (auto simp: bit_simps)
  then have "unat (low_byte (drop_bit k v)) = take_bit 8 (unat (drop_bit k v))"
    by (simp only: unsigned_ucast_eq) simp
  also have "\<dots> = take_bit 8 (drop_bit k (unat v))" by (simp only: unsigned_drop_bit_eq)
      (metis drop_bit_take_bit take_bit_length_eq unsigned_take_bit_eq)?
  finally show ?thesis by (simp add: take_bit_eq_mod drop_bit_eq_div)
qed

lemma placed_le16: "placed bs p (le16' v) \<Longrightarrow> rd16 bs p = unat v"
proof -
  assume a: "placed bs p (le16' v)"
  have "bs ! p = low_byte (drop_bit 0 v)" "bs ! (p + 1) = low_byte (drop_bit 8 v)"
    using placed_nth [OF a, of 0] placed_nth [OF a, of 1] by (simp_all add: le16'_def appendU16LE_def)
  moreover have "unat v < 65536" using unsigned_less [of v] by simp
  ultimately show ?thesis unfolding rd16_def by (simp only: unat_low_byte) simp
qed

lemma four_bytes:
  assumes "n < 4294967296"
  shows "n mod 256 + 256 * (n div 256 mod 256) + (65536 * (n div 65536 mod 256) + 16777216 * (n div 16777216)) = (n :: nat)"
proof -
  obtain a b c where abc: "a = n div 256" "b = a div 256" "c = b div 256" by blast
  have e: "n = 256 * a + n mod 256" "a = 256 * b + a mod 256" "b = 256 * c + b mod 256" by (simp_all add: abc)
  have d: "n div 65536 = b" "n div 16777216 = c" by (simp_all add: abc div_mult2_eq [symmetric])
  show ?thesis unfolding d abc(1) [symmetric] using e by linarith
qed

lemma placed_le32: "placed bs p (le32 v) \<Longrightarrow> rd32 bs p = unat v"
proof -
  assume a: "placed bs p (le32 v)"
  have "bs ! p = low_byte (drop_bit 0 v)" "bs ! (p + 1) = low_byte (drop_bit 8 v)"
    "bs ! (p + 2) = low_byte (drop_bit 16 v)" "bs ! (p + 2 + 1) = low_byte (drop_bit 24 v)"
    using placed_nth [OF a, of 0] placed_nth [OF a, of 1] placed_nth [OF a, of 2] placed_nth [OF a, of 3]
    by (simp_all add: le32_def appendU32LE_def numeral_3_eq_3)
  moreover have "unat v < 4294967296" using unsigned_less [of v] by simp
  ultimately show ?thesis unfolding rd32_def rd16_def using four_bytes [of "unat v"]
    by (simp only: unat_low_byte) simp
qed

section \<open>The archive as a concatenation\<close>

definition local_bytes :: "zip_entry \<Rightarrow> bytes" where
  "local_bytes e = le32 0x04034b50 @ le16' 20 @ le16' 0 @ le16' 0 @ le16' 0 @ le16' 0 @ le32 (ze_crc e) @
     le32 (of_nat (length (ze_data e))) @ le32 (of_nat (length (ze_data e))) @ le16' (of_nat (length (ze_name e))) @
     le16' 0 @ ze_name e @ ze_data e"

definition central_bytes :: "zip_entry \<Rightarrow> u32 \<Rightarrow> bytes" where
  "central_bytes e off = le32 0x02014b50 @ le16' 20 @ le16' 20 @ le16' 0 @ le16' 0 @ le16' 0 @ le16' 0 @ le32 (ze_crc e) @
     le32 (of_nat (length (ze_data e))) @ le32 (of_nat (length (ze_data e))) @ le16' (of_nat (length (ze_name e))) @
     le16' 0 @ le16' 0 @ le16' 0 @ le16' 0 @ le32 0 @ le32 off @ ze_name e"

definition end_bytes :: "nat \<Rightarrow> u32 \<Rightarrow> u32 \<Rightarrow> bytes" where
  "end_bytes n cdSize cdStart = le32 0x06054b50 @ le16' 0 @ le16' 0 @ le16' (of_nat n) @ le16' (of_nat n) @
     le32 cdSize @ le32 cdStart @ le16' 0"

fun located :: "nat \<Rightarrow> zip_entry list \<Rightarrow> (zip_entry \<times> nat) list" where
  "located off [] = []"
| "located off (e # es) = (e, off) # located (off + length (local_bytes e)) es"

lemma localHeader_append: "localHeader e out = out @ local_bytes e"
  by (simp add: localHeader_def local_bytes_def Let_def le_append)

lemma centralHeader_append: "centralHeader e off out = out @ central_bytes e off"
  by (simp add: centralHeader_def central_bytes_def Let_def le_append)

lemma located_fst: "map fst (located off es) = es"
  by (induction es arbitrary: off) auto

lemma located_length [simp]: "length (located off es) = length es"
  by (induction es arbitrary: off) auto

lemma fold_local:
  "fold (\<lambda>e (out, offs). (localHeader e out, offs @ [of_nat (length out)])) es (out, offs) =
     (out @ concat (map local_bytes es), offs @ map (of_nat \<circ> snd) (located (length out) es))"
  by (induction es arbitrary: out offs) (auto simp: localHeader_append)

lemma fold_snoc_parts: "fold (\<lambda>i out. out @ g i) is out = out @ concat (map g is)"
  by (induction "is" arbitrary: out) auto

lemma zip_finish_bytes:
  "zip_finish es =
     (let locals = concat (map local_bytes es);
          central = concat (map (\<lambda>(e, off). central_bytes e (of_nat off)) (located 0 es))
      in locals @ central @ end_bytes (length es) (of_nat (length locals + length central) - of_nat (length locals)) (of_nat (length locals)))"
proof -
  have nth: "fst (located 0 es ! i) = es ! i" if "i < length es" for i
    using nth_map [of i "located 0 es" fst] that by (simp add: located_fst)
  have "map (\<lambda>i. central_bytes (es ! i) (map (of_nat \<circ> snd) (located 0 es) ! i)) [0..<length es] =
      map (\<lambda>(e, off). central_bytes e (of_nat off)) (located 0 es)"
    by (rule nth_equalityI) (simp_all add: nth case_prod_beta)
  then have c: "fold (\<lambda>i out. centralHeader (es ! i) (map (of_nat \<circ> snd) (located 0 es) ! i) out) [0..<length es] out =
      out @ concat (map (\<lambda>(e, off). central_bytes e (of_nat off)) (located 0 es))" for out
    by (simp only: centralHeader_append fold_snoc_parts)
  have l: "fold (\<lambda>e (out, offs). (localHeader e out, offs @ [of_nat (length out)])) es ([], []) =
      (concat (map local_bytes es), map (of_nat \<circ> snd) (located 0 es))"
    by (simp only: fold_local append_Nil list.size)
  show ?thesis
    unfolding zip_finish_def l Let_def prod.case c end_bytes_def le_append length_append by (simp only: append_assoc)
qed

lemma placed_local:
  "placed bs p (concat (map local_bytes es)) \<Longrightarrow> (e, off) \<in> set (located p es) \<Longrightarrow> placed bs off (local_bytes e)"
  by (induction es arbitrary: p) (auto simp: placed_append)

section \<open>Reading it back\<close>

lemma u16_of_nat: "n < 65536 \<Longrightarrow> unat (of_nat n :: 16 word) = n"
  by (simp add: unsigned_of_nat take_bit_nat_eq_self)

lemma u32_of_nat: "n < 4294967296 \<Longrightarrow> unat (of_nat n :: u32) = n"
  by (simp add: unsigned_of_nat take_bit_nat_eq_self)

definition entry_ok :: "zip_entry \<Rightarrow> bool" where
  "entry_ok e \<longleftrightarrow> ze_crc e = crc32 (ze_data e) \<and> length (ze_name e) < 65536 \<and> length (ze_data e) < 4294967296"

lemma central_fields:
  assumes "placed bs p (central_bytes e off)" "entry_ok e"
  shows "rd32 bs p = 0x02014b50" "rd32 bs (p + 16) = unat (ze_crc e)" "rd16 bs (p + 28) = length (ze_name e)"
    "rd16 bs (p + 30) = 0" "rd16 bs (p + 32) = 0" "rd32 bs (p + 42) = unat off"
    "slice bs (p + 46) (length (ze_name e)) = ze_name e"
  using assms unfolding central_bytes_def placed_append entry_ok_def
  by (auto dest!: placed_le16 placed_le32 intro!: placed_slice simp: u16_of_nat add.commute [of _ p])

lemma local_fields:
  assumes "placed bs p (local_bytes e)" "entry_ok e"
  shows "rd32 bs p = 0x04034b50" "rd16 bs (p + 8) = 0" "rd32 bs (p + 14) = unat (ze_crc e)"
    "rd32 bs (p + 22) = length (ze_data e)" "rd16 bs (p + 26) = length (ze_name e)" "rd16 bs (p + 28) = 0"
    "slice bs (p + 30) (length (ze_name e)) = ze_name e"
    "slice bs (p + 30 + length (ze_name e)) (length (ze_data e)) = ze_data e"
  using assms unfolding local_bytes_def placed_append entry_ok_def
  by (auto dest!: placed_le16 placed_le32 intro!: placed_slice simp: u16_of_nat u32_of_nat add.commute [of _ p] add.assoc [symmetric])

lemma end_fields:
  assumes "placed bs p (end_bytes n sz start)" "n < 65536"
  shows "rd32 bs p = 0x06054b50" "rd16 bs (p + 10) = n" "rd32 bs (p + 12) = unat sz" "rd32 bs (p + 16) = unat start"
  using assms unfolding end_bytes_def placed_append
  by (auto dest!: placed_le16 placed_le32 simp: u16_of_nat add.commute [of _ p])

lemma unzip_entry_reads:
  assumes "placed bs p (central_bytes e (of_nat off))" "placed bs off (local_bytes e)" "off < 4294967296" "entry_ok e"
  shows "unzip_entry bs p = Some (ze_name e, ze_data e)"
  using assms(4)
  by (simp add: unzip_entry_def Let_def central_fields [OF assms(1,4)] local_fields [OF assms(2,4)] u32_of_nat [OF assms(3)]
      entry_ok_def)

lemma central_length [simp]: "length (central_bytes e off) = 46 + length (ze_name e)"
  by (simp add: central_bytes_def)

lemma unzip_entries_reads:
  assumes "placed bs p (concat (map (\<lambda>(e, off). central_bytes e (of_nat off)) ps))"
    "\<forall>(e, off) \<in> set ps. placed bs off (local_bytes e) \<and> off < 4294967296 \<and> entry_ok e"
  shows "unzip_entries bs (p + length (concat (map (\<lambda>(e, off). central_bytes e (of_nat off)) ps))) p (length ps) =
    Some (map (\<lambda>(e, off). (ze_name e, ze_data e)) ps)"
  using assms
proof (induction ps arbitrary: p)
  case (Cons q ps)
  obtain e off where q: "q = (e, off)" by (cases q)
  have pc: "placed bs p (central_bytes e (of_nat off))"
    and pr: "placed bs (p + (46 + length (ze_name e))) (concat (map (\<lambda>(e, off). central_bytes e (of_nat off)) ps))"
    using Cons.prems(1) by (simp_all add: q placed_append)
  have l: "placed bs off (local_bytes e)" "off < 4294967296" "entry_ok e" using Cons.prems(2) by (simp_all add: q)
  have ih: "unzip_entries bs (p + (46 + length (ze_name e)) + length (concat (map (\<lambda>(e, off). central_bytes e (of_nat off)) ps)))
      (p + (46 + length (ze_name e))) (length ps) = Some (map (\<lambda>(e, off). (ze_name e, ze_data e)) ps)"
    using Cons.IH [OF pr] Cons.prems(2) by simp
  show ?case
    using ih by (simp add: q unzip_entry_reads [OF pc l] central_fields [OF pc l(3)] add.assoc)
qed simp

lemma placed_self: "placed (a @ xs @ b) (length a) xs"
  by (auto simp: placed_def)

lemma located_below: "(e, off) \<in> set (located p es) \<Longrightarrow> off < p + length (concat (map local_bytes es)) \<and> e \<in> set es"
proof (induction es arbitrary: p)
  case (Cons x es)
  have "0 < length (local_bytes x)" by (simp add: local_bytes_def)
  with Cons.prems Cons.IH [of "p + length (local_bytes x)"] show ?case by auto
qed simp

lemma unzip_finish:
  assumes ok: "\<forall>e \<in> set es. entry_ok e" and n: "length es < 65536" and size: "length (zip_finish es) < 4294967296"
  shows "unzip_archive (zip_finish es) = Some (map (\<lambda>e. (ze_name e, ze_data e)) es)"
proof -
  define locals where "locals = concat (map local_bytes es)"
  define ps where "ps = located 0 es"
  define central where "central = concat (map (\<lambda>(e, off). central_bytes e (of_nat off)) ps)"
  define fin where "fin = end_bytes (length es) (of_nat (length locals + length central) - of_nat (length locals)) (of_nat (length locals))"
  have bs: "zip_finish es = locals @ central @ fin"
    by (simp add: zip_finish_bytes locals_def ps_def central_def fin_def Let_def)
  have fin_len: "length fin = 22" by (simp add: fin_def end_bytes_def)
  have lim: "length locals + length central < 4294967296" using size by (simp add: bs)
  have diff: "of_nat (length locals + length central) - of_nat (length locals) = (of_nat (length central) :: u32)" by simp
  let ?bs = "locals @ central @ fin" and ?e = "length (locals @ central @ fin) - 22"
  have e: "?e = length (locals @ central)" by (simp add: fin_len)
  have "placed ?bs ?e fin" unfolding e using placed_self [of "locals @ central" fin "[]"] by simp
  then have p: "placed ?bs ?e (end_bytes (length es) (of_nat (length central)) (of_nat (length locals)))"
    unfolding fin_def diff .
  have "length central < 4294967296" "length locals < 4294967296" using lim by simp_all
  then have f: "rd32 ?bs ?e = 0x06054b50" "rd16 ?bs (?e + 10) = length es"
      "rd32 ?bs (?e + 12) = length central" "rd32 ?bs (?e + 16) = length locals"
    by (simp_all only: end_fields [OF p n] u32_of_nat)
  have "placed ?bs 0 locals" using placed_self [of "[]" locals "central @ fin"] by simp
  then have "\<forall>(e, off) \<in> set ps. placed ?bs off (local_bytes e) \<and> off < 4294967296 \<and> entry_ok e"
    using placed_local [of ?bs 0 es] located_below [of _ _ 0 es] ok lim unfolding locals_def ps_def by fastforce
  then have "unzip_entries ?bs (length locals + length central) (length locals) (length ps) =
      Some (map (\<lambda>(e, off). (ze_name e, ze_data e)) ps)"
    using unzip_entries_reads [of ?bs "length locals" ps] placed_self [of locals central fin] unfolding central_def by simp
  moreover have "map (\<lambda>(e, off). (ze_name e, ze_data e)) ps = map (\<lambda>e. (ze_name e, ze_data e)) es"
    using located_fst [of 0 es] unfolding ps_def by (metis (no_types, lifting) case_prod_beta list.map_comp comp_def map_eq_conv)
  ultimately show ?thesis
    unfolding bs unzip_archive_def Let_def f by (simp add: fin_len ps_def)
qed

lemma zip_adds:
  "fold (\<lambda>(n, d). zip_add n d) files es =
     es @ map (\<lambda>(n, d). \<lparr>ze_name = n, ze_data = d, ze_crc = crc32 d\<rparr>) files"
  by (induction files arbitrary: es) (auto simp: zip_add_def)

lemma finish_holds_data: "e \<in> set es \<Longrightarrow> length (ze_data e) \<le> length (zip_finish es)"
proof -
  assume "e \<in> set es"
  then have "length (local_bytes e) \<le> length (concat (map local_bytes es))"
    by (auto simp: length_concat intro!: member_le_sum_list)
  moreover have "length (ze_data e) \<le> length (local_bytes e)" by (simp add: local_bytes_def)
  ultimately show ?thesis by (simp add: zip_finish_bytes Let_def)
qed

end
