(* ===== verification/ImageProps.thy ===== *)
theory ImageProps
  imports StreamProof ZipProof
begin

text \<open>
  The properties of the image encoders: the CRC table against the bitwise definition, the band
  writers against the one-shot writers, and archives and streams read back by reference readers.
\<close>

section \<open>The checksum\<close>

lemma low_bit: "c AND 1 \<noteq> 0 \<longleftrightarrow> bit (c :: u32) 0"
  by (simp add: and_one_eq odd_iff_mod_2_eq_one [symmetric] bit_0)

lemma crc_round_bit: "crc_round c = (if bit c 0 then 0xedb88320 XOR drop_bit 1 c else drop_bit 1 c)"
  unfolding crc_round_def low_bit ..

lemma crc_round_xor: "crc_round (x XOR y) = crc_round x XOR crc_round y"
proof -
  have d: "drop_bit 1 (x XOR y) = drop_bit 1 x XOR drop_bit 1 y" by simp
  have b: "bit (x XOR y) 0 \<longleftrightarrow> bit x 0 \<noteq> bit y 0" by (simp add: bit_xor_iff)
  show ?thesis unfolding crc_round_bit d b
    by (cases "bit x 0"; cases "bit y 0") (simp_all add: ac_simps xor.left_commute)
qed

lemma crc_rounds_xor: "(crc_round ^^ n) (x XOR y) = (crc_round ^^ n) x XOR (crc_round ^^ n) y"
  by (induction n) (simp_all add: crc_round_xor)

lemma crc_rounds_high: "\<forall>i < n. \<not> bit h i \<Longrightarrow> (crc_round ^^ n) h = drop_bit n h"
proof (induction n)
  case (Suc n)
  then have "(crc_round ^^ n) h = drop_bit n h" "\<not> bit (drop_bit n h) 0" by (auto simp: bit_drop_bit_eq)
  then show ?case using crc_round_bit [of "drop_bit n h"] by simp
qed simp

lemma unat_back: "of_nat (unat x) = (x :: u32)"
  by (simp add: of_nat_unat)

lemma crc_table_rounds:
  "(crc_round ^^ 8) x = crcTable ! unat (x AND 0xff) XOR drop_bit 8 x"
proof -
  let ?l = "x AND 0xff" and ?h = "x AND NOT 0xff"
  have m: "(0xff :: u32) = mask 8" by (simp add: mask_eq_exp_minus_1)
  have x: "x = ?l XOR ?h" unfolding m by (rule bit_word_eqI) (auto simp: bit_simps)
  have h: "\<forall>i < 8. \<not> bit ?h i" unfolding m by (auto simp: bit_simps)
  have d: "drop_bit 8 ?h = drop_bit 8 x" unfolding m by (rule bit_word_eqI) (auto simp: bit_simps dest: bit_imp_le_length)
  have "unat ?l < 2 ^ 8" unfolding m take_bit_eq_mask [symmetric] using take_bit_nat_less_exp [of 8 "unat x"] by (simp add: unsigned_take_bit_eq)
  then have "unat ?l < 256" by simp
  then have t: "crcTable ! unat ?l = fold (\<lambda>_ c. crc_round c) [0..<8] (of_nat (unat ?l))" by (simp add: crcTable_def)
  have f: "fold (\<lambda>_ c. crc_round c) [0..<n] y = (crc_round ^^ n) y" for n y by (induction n) simp_all
  have "(crc_round ^^ 8) x = (crc_round ^^ 8) ?l XOR (crc_round ^^ 8) ?h" using crc_rounds_xor [of 8 ?l ?h] x by simp
  then show ?thesis using t crc_rounds_high [OF h] by (simp only: f d unat_back)
qed

text \<open>
  C30. The table-driven CRC-32 is the bitwise one: eight shift-and-xor rounds of the reflected
  polynomial for every byte.
\<close>

theorem crc32_bitwise:
  "crc32 data = fold (\<lambda>b c. (crc_round ^^ 8) (c XOR ucast b)) data 0xffffffff XOR 0xffffffff"
proof -
  have "drop_bit 8 (ucast b :: u32) = 0" for b :: u8
    by (rule bit_word_eqI) (auto simp: bit_simps dest: bit_imp_le_length)
  then have "drop_bit 8 (c XOR ucast b) = drop_bit 8 c" for c :: u32 and b :: u8
    by (simp only: drop_bit_xor xor.right_neutral)
  then have "crcTable ! unat ((c XOR ucast b) AND 0xff) XOR drop_bit 8 c = (crc_round ^^ 8) (c XOR ucast b)" for c :: u32 and b :: u8
    using crc_table_rounds [of "c XOR ucast b"] by (simp only:)
  then have "(\<lambda>(b :: u8) crc. (let idx = (crc XOR ucast b) AND 0xff in crcTable ! unat idx XOR drop_bit 8 crc)) =
      (\<lambda>b c. (crc_round ^^ 8) (c XOR ucast b))"
    unfolding Let_def by (intro ext) (simp only:)
  then show ?thesis unfolding crc32_def crc32Update_def by (simp only:)
qed

section \<open>Band writers\<close>

text \<open>
  C28. Writing an image band by band gives, for both formats and however the rows are grouped into
  bands, byte for byte the file that the one-shot writer produces for the same pixels.
\<close>

theorem stream_equals_oneshot:
  assumes "0 < sint width" "0 < sint height" "channels = 1 \<or> channels = 3 \<or> channels = 4"
    "fmt = Png \<longrightarrow> png_fits width height channels"
    "\<forall>b \<in> set bands. band_ok (unat width * unat channels) b" "band_rows bands = unat height"
  shows "\<exists>st st1 st2. stream_open io_good width height channels fmt = Some st \<and> write_bands io_good bands st = (True, st1) \<and>
    stream_finish io_good st1 = (True, st2) \<and>
    saveImageAs \<lparr>im_width = width, im_height = height, im_channels = channels, im_pixels = concat (map fst bands)\<rparr> fmt =
      Some (of_data (stream_file st2))"
proof (cases fmt)
  case Png
  then show ?thesis using png_bands_file [OF assms(1-3) _ assms(5,6)] assms(4) by simp
next
  case Exr
  then show ?thesis using exr_bands_file [OF assms(1-3) assms(5,6)] by simp
qed

theorem stream_equals_oneshot_witness:
  "\<exists>st st1 st2. stream_open io_good 1 2 1 Png = Some st \<and> write_bands io_good [([f32_1], 1), ([f32_half], 1)] st = (True, st1) \<and>
    stream_finish io_good st1 = (True, st2)"
  using stream_equals_oneshot [of 1 2 1 Png "[([f32_1], 1), ([f32_half], 1)]"]
  by (auto simp: png_fits_def zlibStoredSize_def kMaxBlock_def band_ok_def band_rows_def)



section \<open>Archives\<close>

text \<open>
  C31. An archive whose offsets, sizes, names and entry count fit their fields is read back by a
  reader that follows the format: the end record leads to the directory, the directory to the local
  headers, the checksums agree, and the files come out with their names in the order they were added.
\<close>

theorem zip_readable:
  assumes "length files < 65536" "\<forall>(name, data) \<in> set files. length name < 65536"
    "length (zip_finish (fold (\<lambda>(name, data). zip_add name data) files [])) < 4294967296"
  shows "unzip_archive (zip_finish (fold (\<lambda>(name, data). zip_add name data) files [])) = Some files"
proof -
  let ?es = "fold (\<lambda>(name, data). zip_add name data) files []"
  have "\<forall>e \<in> set ?es. entry_ok e"
    using finish_holds_data [of _ ?es] assms(2,3) by (fastforce simp: zip_adds entry_ok_def)
  from unzip_finish [OF this] assms(1,3) show ?thesis by (simp add: zip_adds comp_def case_prod_beta)
qed

theorem zip_readable_witness:
  "unzip_archive (zip_finish (zip_add [66] [] (zip_add [65] [1, 2, 3] []))) = Some [([65], [1, 2, 3]), ([66], [])]"
proof -
  have "length (zip_finish (fold (\<lambda>(name, data). zip_add name data) [([65], [1, 2, 3]), ([66], [])] [])) < 4294967296"
    by (simp add: zip_add_def zip_finish_bytes Let_def local_bytes_def end_bytes_def)
  from zip_readable [OF _ _ this] show ?thesis by simp
qed

end
