(* ===== verification/Input.thy ===== *)
theory Input
  imports Vectors
begin

text \<open>
  The input layer of \<open>src/app/include/cyber/app/input.hpp\<close> and \<open>src/app/src/input.cpp\<close>: chorded
  modifiers, stroke capture, the double-tap and press-and-hold recognizers and hover tracking. Times
  are doubles and positions pairs of floats, with their IEEE arithmetic.
\<close>

definition distanceSquared2 :: "vec2 \<Rightarrow> vec2 \<Rightarrow> f32" where
  "distanceSquared2 a b = (let d = sub2 a b in fadd (fmul (v2x d) (v2x d)) (fmul (v2y d) (v2y d)))"

definition distance2 :: "vec2 \<Rightarrow> vec2 \<Rightarrow> f32" where
  "distance2 a b = fsqrt (distanceSquared2 a b)"

section \<open>Modifiers\<close>

datatype modifier = NoModifier | Shift | Ctrl | Alt | Meta

definition modifier_bits :: "modifier \<Rightarrow> u32" where
  "modifier_bits m = (case m of NoModifier \<Rightarrow> 0 | Shift \<Rightarrow> push_bit 0 1 | Ctrl \<Rightarrow> push_bit 1 1 | Alt \<Rightarrow> push_bit 2 1 | Meta \<Rightarrow> push_bit 3 1)"

definition or_modifiers :: "modifier \<Rightarrow> modifier \<Rightarrow> u32" where
  "or_modifiers a b = modifier_bits a OR modifier_bits b"

definition or_modifier :: "u32 \<Rightarrow> modifier \<Rightarrow> u32" where
  "or_modifier a b = a OR modifier_bits b"

text \<open>\<open>ModifierState\<close> is its mask.\<close>

definition mod_press :: "modifier \<Rightarrow> u32 \<Rightarrow> u32" where "mod_press m held = held OR modifier_bits m"
definition mod_release :: "modifier \<Rightarrow> u32 \<Rightarrow> u32" where "mod_release m held = held AND NOT (modifier_bits m)"
definition mod_set :: "u32 \<Rightarrow> u32 \<Rightarrow> u32" where "mod_set new held = new"
definition mod_clear :: "u32 \<Rightarrow> u32" where "mod_clear held = 0"
definition mod_isDown :: "u32 \<Rightarrow> modifier \<Rightarrow> bool" where "mod_isDown held m \<longleftrightarrow> held AND modifier_bits m \<noteq> 0"
definition mod_matches :: "u32 \<Rightarrow> u32 \<Rightarrow> bool" where "mod_matches held chord \<longleftrightarrow> held = chord"

section \<open>Strokes\<close>

record stroke_sample =
  ss_position :: vec2
  ss_pressure :: f32
  ss_time :: f64

type_synonym stroke = "stroke_sample list"

definition duration :: "stroke \<Rightarrow> f64" where
  "duration st = (if length st < 2 then 0 else dsub (ss_time (last st)) (ss_time (hd st)))"

definition arcLength :: "stroke \<Rightarrow> f32" where
  "arcLength st =
     fold (\<lambda>i total. fadd total (distance2 (ss_position (st ! (i - 1))) (ss_position (st ! i)))) [1..<length st] 0"

record stroke_capture =
  sc_current :: stroke
  sc_active :: bool

definition stroke_capture0 :: stroke_capture where
  "stroke_capture0 = \<lparr>sc_current = [], sc_active = False\<rparr>"

definition sc_begin :: "vec2 \<Rightarrow> f32 \<Rightarrow> f64 \<Rightarrow> stroke_capture \<Rightarrow> stroke_capture" where
  "sc_begin position pressure time c =
     c\<lparr>sc_current := [\<lparr>ss_position = position, ss_pressure = pressure, ss_time = time\<rparr>], sc_active := True\<rparr>"

definition sc_extend :: "vec2 \<Rightarrow> f32 \<Rightarrow> f64 \<Rightarrow> stroke_capture \<Rightarrow> stroke_capture" where
  "sc_extend position pressure time c =
     (if \<not> sc_active c then c
      else c\<lparr>sc_current := sc_current c @ [\<lparr>ss_position = position, ss_pressure = pressure, ss_time = time\<rparr>]\<rparr>)"

definition sc_end :: "vec2 \<Rightarrow> f32 \<Rightarrow> f64 \<Rightarrow> stroke_capture \<Rightarrow> stroke \<times> stroke_capture" where
  "sc_end position pressure time c =
     (if \<not> sc_active c then ([], c)
      else (let c = c\<lparr>sc_current := sc_current c @ [\<lparr>ss_position = position, ss_pressure = pressure, ss_time = time\<rparr>],
                      sc_active := False\<rparr>
            in (sc_current c, c)))"

definition sc_cancel :: "stroke_capture \<Rightarrow> stroke_capture" where
  "sc_cancel c = c\<lparr>sc_active := False, sc_current := []\<rparr>"

section \<open>Double tap\<close>

record double_tap =
  dt_maxInterval :: f64
  dt_maxDistance :: f32
  dt_lastPosition :: vec2
  dt_lastTime :: f64
  dt_hasPending :: bool

definition double_tap0 :: "f64 \<Rightarrow> f32 \<Rightarrow> double_tap" where
  "double_tap0 maxInterval maxDistance =
     \<lparr>dt_maxInterval = maxInterval, dt_maxDistance = maxDistance, dt_lastPosition = vec2_zero, dt_lastTime = 0,
      dt_hasPending = False\<rparr>"

definition dt_tap :: "vec2 \<Rightarrow> f64 \<Rightarrow> double_tap \<Rightarrow> bool \<times> double_tap" where
  "dt_tap position time d =
     (if dt_hasPending d \<and> dle (dsub time (dt_lastTime d)) (dt_maxInterval d) \<and>
         fle (distance2 position (dt_lastPosition d)) (dt_maxDistance d)
      then (True, d\<lparr>dt_hasPending := False\<rparr>)
      else (False, d\<lparr>dt_lastPosition := position, dt_lastTime := time, dt_hasPending := True\<rparr>))"

definition dt_reset :: "double_tap \<Rightarrow> double_tap" where
  "dt_reset d = d\<lparr>dt_hasPending := False\<rparr>"

section \<open>Press and hold\<close>

record press_hold =
  ph_holdDuration :: f64
  ph_moveSlop :: f32
  ph_pressPosition :: vec2
  ph_pressTime :: f64
  ph_pressed :: bool
  ph_fired :: bool

definition press_hold0 :: "f64 \<Rightarrow> f32 \<Rightarrow> press_hold" where
  "press_hold0 holdDuration moveSlop =
     \<lparr>ph_holdDuration = holdDuration, ph_moveSlop = moveSlop, ph_pressPosition = vec2_zero, ph_pressTime = 0,
      ph_pressed = False, ph_fired = False\<rparr>"

definition ph_press :: "vec2 \<Rightarrow> f64 \<Rightarrow> press_hold \<Rightarrow> press_hold" where
  "ph_press position time s = s\<lparr>ph_pressPosition := position, ph_pressTime := time, ph_pressed := True, ph_fired := False\<rparr>"

definition ph_move :: "vec2 \<Rightarrow> press_hold \<Rightarrow> bool \<times> press_hold" where
  "ph_move position s =
     (if \<not> ph_pressed s then (False, s)
      else if flt (ph_moveSlop s) (distance2 position (ph_pressPosition s)) then (False, s\<lparr>ph_pressed := False\<rparr>)
      else (True, s))"

definition ph_update :: "f64 \<Rightarrow> press_hold \<Rightarrow> bool \<times> press_hold" where
  "ph_update now s =
     (if \<not> ph_pressed s \<or> ph_fired s then (False, s)
      else if dle (ph_holdDuration s) (dsub now (ph_pressTime s)) then (True, s\<lparr>ph_fired := True\<rparr>)
      else (False, s))"

definition ph_release :: "press_hold \<Rightarrow> press_hold" where
  "ph_release s = s\<lparr>ph_pressed := False, ph_fired := False\<rparr>"

section \<open>Hover\<close>

definition kNoTarget :: u32 where "kNoTarget = 0xFFFFFFFF"

record hover_state =
  hs_position :: vec2
  hs_target :: u32
  hs_hovering :: bool
  hs_targetChanged :: bool

definition hover_state0 :: hover_state where
  "hover_state0 = \<lparr>hs_position = vec2_zero, hs_target = kNoTarget, hs_hovering = False, hs_targetChanged = False\<rparr>"

definition hs_update :: "vec2 \<Rightarrow> u32 \<Rightarrow> hover_state \<Rightarrow> hover_state" where
  "hs_update position target h =
     (let h = h\<lparr>hs_targetChanged := \<not> hs_hovering h \<or> target \<noteq> hs_target h\<rparr>
      in h\<lparr>hs_position := position, hs_target := target, hs_hovering := True\<rparr>)"

definition hs_clear :: "hover_state \<Rightarrow> hover_state" where
  "hs_clear h =
     (let h = h\<lparr>hs_targetChanged := hs_hovering h \<and> hs_target h \<noteq> kNoTarget\<rparr>
      in h\<lparr>hs_hovering := False, hs_target := kNoTarget\<rparr>)"

section \<open>Event streams\<close>

text \<open>What a shell feeds the recognizers: one event after the other, the result of each kept.\<close>

datatype ph_event = PhPress vec2 f64 | PhMove vec2 | PhUpdate f64 | PhRelease

definition ph_step :: "ph_event \<Rightarrow> press_hold \<Rightarrow> bool \<times> press_hold" where
  "ph_step e s =
     (case e of PhPress p t \<Rightarrow> (False, ph_press p t s) | PhMove p \<Rightarrow> (False, snd (ph_move p s))
              | PhUpdate now \<Rightarrow> ph_update now s | PhRelease \<Rightarrow> (False, ph_release s))"

fun ph_run :: "ph_event list \<Rightarrow> press_hold \<Rightarrow> bool list" where
  "ph_run [] s = []"
| "ph_run (e # es) s = (case ph_step e s of (fires, s) \<Rightarrow> fires # ph_run es s)"

fun dt_run :: "(vec2 \<times> f64) list \<Rightarrow> double_tap \<Rightarrow> bool list" where
  "dt_run [] d = []"
| "dt_run ((p, t) # taps) d = (case dt_tap p t d of (double, d) \<Rightarrow> double # dt_run taps d)"

end
