(* ===== verification/InputProps.thy ===== *)
theory InputProps
  imports Input
begin

text \<open>
  The gesture recognizers as state machines: a hold fires once, at the first update that is late
  enough, unless the pointer left the slop before; taps are paired greedily and a pair is consumed.
\<close>

section \<open>Press and hold\<close>

text \<open>When an event lets a pending hold survive, and when it makes it fire.\<close>

definition ph_due :: "f64 \<Rightarrow> f64 \<Rightarrow> ph_event \<Rightarrow> bool" where
  "ph_due hold t e = (case e of PhUpdate now \<Rightarrow> dle hold (dsub now t) | _ \<Rightarrow> False)"

definition ph_cancels :: "f32 \<Rightarrow> vec2 \<Rightarrow> ph_event \<Rightarrow> bool" where
  "ph_cancels slop p e = (case e of PhMove q \<Rightarrow> flt slop (distance2 q p) | PhRelease \<Rightarrow> True | _ \<Rightarrow> False)"

definition ph_between :: "ph_event \<Rightarrow> bool" where
  "ph_between e = (case e of PhPress _ _ \<Rightarrow> False | _ \<Rightarrow> True)"

lemma ph_run_length [simp]: "length (ph_run es s) = length es"
  by (induction es arbitrary: s) (auto split: prod.split)

lemma ph_step_idle:
  "ph_between e \<Longrightarrow> \<not> ph_pressed s \<or> ph_fired s \<Longrightarrow> \<exists>s'. ph_step e s = (False, s') \<and> (\<not> ph_pressed s' \<or> ph_fired s')"
  by (cases e) (auto simp: ph_step_def ph_between_def ph_move_def ph_update_def ph_release_def)

lemma ph_run_idle:
  "\<forall>e \<in> set es. ph_between e \<Longrightarrow> \<not> ph_pressed s \<or> ph_fired s \<Longrightarrow> i < length es \<Longrightarrow> \<not> ph_run es s ! i"
proof (induction es arbitrary: s i)
  case (Cons e es)
  then obtain s' where "ph_step e s = (False, s')" "\<not> ph_pressed s' \<or> ph_fired s'"
    using ph_step_idle [of e s] by auto
  then show ?case using Cons by (cases i) auto
qed simp

lemma ph_step_pending:
  assumes "ph_between e" "ph_pressed s" "\<not> ph_fired s"
  shows "fst (ph_step e s) = ph_due (ph_holdDuration s) (ph_pressTime s) e"
    "\<not> ph_due (ph_holdDuration s) (ph_pressTime s) e \<Longrightarrow> \<not> ph_cancels (ph_moveSlop s) (ph_pressPosition s) e \<Longrightarrow>
       snd (ph_step e s) = s"
    "ph_due (ph_holdDuration s) (ph_pressTime s) e \<or> ph_cancels (ph_moveSlop s) (ph_pressPosition s) e \<Longrightarrow>
       \<not> ph_pressed (snd (ph_step e s)) \<or> ph_fired (snd (ph_step e s))"
  using assms
  by (cases e; simp add: ph_step_def ph_between_def ph_due_def ph_cancels_def ph_move_def ph_update_def ph_release_def)+

lemma ph_run_pending:
  assumes "\<forall>e \<in> set es. ph_between e" "ph_pressed s" "\<not> ph_fired s" "i < length es"
  shows "ph_run es s ! i \<longleftrightarrow> ph_due (ph_holdDuration s) (ph_pressTime s) (es ! i) \<and>
    (\<forall>j < i. \<not> ph_due (ph_holdDuration s) (ph_pressTime s) (es ! j) \<and>
             \<not> ph_cancels (ph_moveSlop s) (ph_pressPosition s) (es ! j))"
  using assms
proof (induction es arbitrary: i)
  case (Cons e es)
  let ?due = "ph_due (ph_holdDuration s) (ph_pressTime s)" and ?cancels = "ph_cancels (ph_moveSlop s) (ph_pressPosition s)"
  have e: "ph_between e" using Cons.prems(1) by simp
  note st = ph_step_pending [OF e Cons.prems(2,3)]
  have run: "ph_run (e # es) s = fst (ph_step e s) # ph_run es (snd (ph_step e s))" by (simp add: case_prod_beta)
  show ?case
  proof (cases i)
    case 0
    then show ?thesis by (simp add: run st(1) del: ph_run.simps)
  next
    case (Suc k)
    then have k: "k < length es" using Cons.prems(4) by simp
    show ?thesis
    proof (cases "?due e \<or> ?cancels e")
      case True
      then have "\<not> ph_run es (snd (ph_step e s)) ! k" using ph_run_idle [OF _ st(3) k] Cons.prems(1) by simp
      then show ?thesis using True Suc by (auto simp: run simp del: ph_run.simps)
    next
      case False
      then have "ph_run es (snd (ph_step e s)) ! k \<longleftrightarrow> ?due (es ! k) \<and> (\<forall>j < k. \<not> ?due (es ! j) \<and> \<not> ?cancels (es ! j))"
        using Cons.IH [OF _ Cons.prems(2,3) k] Cons.prems(1) st(2) by simp
      then show ?thesis using False Suc by (simp add: run All_less_Suc2 del: ph_run.simps)
    qed
  qed
qed simp

text \<open>
  C32. After a press, and until the next one, the hold fires at exactly one update: the first whose
  time is the hold duration past the press, provided that neither a release nor a move beyond the
  slop came before it. In particular it does fire when such an update comes, and never twice.
\<close>

theorem press_hold_fires:
  assumes "\<forall>e \<in> set es. ph_between e" "i < length es"
  shows "ph_run es (ph_press p t s) ! i \<longleftrightarrow> ph_due (ph_holdDuration s) t (es ! i) \<and>
    (\<forall>j < i. \<not> ph_due (ph_holdDuration s) t (es ! j) \<and> \<not> ph_cancels (ph_moveSlop s) p (es ! j))"
  using ph_run_pending [of es "ph_press p t s" i] assms by (simp add: ph_press_def)

theorem press_hold_fires_witness:
  "ph_run [PhUpdate 0x7FF8000000000000, PhUpdate 0] (ph_press vec2_zero 0 (press_hold0 0 0x41400000)) ! 1"
proof -
  have d: "dsub 0 0 = 0" "dsub 0x7FF8000000000000 0 = 0x7FF8000000000000"
    by (simp_all add: dsub_def dec64_def enc64_def fdecode_def binary64_def fencode_def fround_def signed_mant_def)
  have l: "\<not> dle 0 0x7FF8000000000000" "dle 0 0"
    by (simp_all add: dle_def f64_isnan_def f64_key_def Let_def)
  show ?thesis
    using press_hold_fires [of "[PhUpdate 0x7FF8000000000000, PhUpdate 0]" 1 vec2_zero 0 "press_hold0 0 0x41400000"]
    by (simp add: ph_between_def ph_due_def ph_cancels_def press_hold0_def d l)
qed

section \<open>Double taps\<close>

definition tap_close :: "f64 \<Rightarrow> f32 \<Rightarrow> vec2 \<times> f64 \<Rightarrow> vec2 \<times> f64 \<Rightarrow> bool" where
  "tap_close interval dist a b \<longleftrightarrow> dle (dsub (snd b) (snd a)) interval \<and> fle (distance2 (fst b) (fst a)) dist"

fun pair_taps :: "(vec2 \<times> f64 \<Rightarrow> vec2 \<times> f64 \<Rightarrow> bool) \<Rightarrow> (vec2 \<times> f64) list \<Rightarrow> bool list" where
  "pair_taps close (a # b # taps) =
     (if close a b then False # True # pair_taps close taps else False # pair_taps close (b # taps))"
| "pair_taps close [a] = [False]"
| "pair_taps close [] = []"

lemma dt_first:
  assumes "\<not> dt_hasPending d"
  shows "dt_tap p t d = (False, d\<lparr>dt_lastPosition := p, dt_lastTime := t, dt_hasPending := True\<rparr>)"
  using assms by (simp add: dt_tap_def)

lemma dt_second:
  assumes "dt_hasPending d"
  shows "dt_tap p t d = (if tap_close (dt_maxInterval d) (dt_maxDistance d) (dt_lastPosition d, dt_lastTime d) (p, t)
    then (True, d\<lparr>dt_hasPending := False\<rparr>)
    else (False, d\<lparr>dt_lastPosition := p, dt_lastTime := t, dt_hasPending := True\<rparr>))"
  using assms by (simp add: dt_tap_def tap_close_def)

lemma dt_run_pairs:
  assumes "dt_hasPending d"
  shows "False # dt_run taps d =
    pair_taps (tap_close (dt_maxInterval d) (dt_maxDistance d)) ((dt_lastPosition d, dt_lastTime d) # taps) \<and>
   (\<forall>d'. \<not> dt_hasPending d' \<longrightarrow> dt_maxInterval d' = dt_maxInterval d \<longrightarrow> dt_maxDistance d' = dt_maxDistance d \<longrightarrow>
      dt_run taps d' = pair_taps (tap_close (dt_maxInterval d) (dt_maxDistance d)) taps)"
  using assms
proof (induction taps arbitrary: d)
  case (Cons a taps)
  obtain p t where a: "a = (p, t)" by (cases a)
  let ?d = "d\<lparr>dt_lastPosition := p, dt_lastTime := t, dt_hasPending := True\<rparr>"
  have ih: "False # dt_run taps ?d = pair_taps (tap_close (dt_maxInterval d) (dt_maxDistance d)) ((p, t) # taps)"
    "\<And>d'. \<not> dt_hasPending d' \<Longrightarrow> dt_maxInterval d' = dt_maxInterval d \<Longrightarrow> dt_maxDistance d' = dt_maxDistance d \<Longrightarrow>
      dt_run taps d' = pair_taps (tap_close (dt_maxInterval d) (dt_maxDistance d)) taps"
    using Cons.IH [of ?d] by simp_all
  have one: "False # dt_run (a # taps) d =
      pair_taps (tap_close (dt_maxInterval d) (dt_maxDistance d)) ((dt_lastPosition d, dt_lastTime d) # a # taps)"
    using ih(2) [of "d\<lparr>dt_hasPending := False\<rparr>"] ih(1) dt_second [OF Cons.prems, of p t] by (simp add: a)
  have "dt_run (a # taps) d' = pair_taps (tap_close (dt_maxInterval d) (dt_maxDistance d)) (a # taps)"
    if "\<not> dt_hasPending d'" "dt_maxInterval d' = dt_maxInterval d" "dt_maxDistance d' = dt_maxDistance d" for d'
    using Cons.IH [of "d'\<lparr>dt_lastPosition := p, dt_lastTime := t, dt_hasPending := True\<rparr>"] that dt_first [OF that(1), of p t]
    by (simp add: a)
  with one show ?case by blast
qed simp

text \<open>
  C33. The double-tap recognizer pairs taps greedily: a tap completes a double tap exactly when it is
  close in time and place to the one before it and that one has not completed a pair itself, so three
  quick taps are one double tap.
\<close>

theorem double_taps_pair:
  "dt_run taps (double_tap0 interval dist) = pair_taps (tap_close interval dist) taps"
  using dt_run_pairs [of "(double_tap0 interval dist)\<lparr>dt_hasPending := True\<rparr>" taps] by (simp add: double_tap0_def)

end
