(* ===== verification/Undo.thy ===== *)
theory Undo
  imports Serial
begin

text \<open>
  The undo journal of \<open>src/app/src/undo.cpp\<close>. A \<open>Command\<close> is an abstract class: its
  \<open>apply\<close> and \<open>revert\<close> act on the application's state \<open>'s\<close>, which is passed
  explicitly; \<open>estimatedBytes\<close> and \<open>label\<close> are \<open>const\<close> queries and are fields. Sizes are
  64-bit (\<open>size_t\<close>), so the byte accounting is word arithmetic that wraps as the code's.
\<close>

section \<open>Commands and the stack\<close>

record 's command =
  c_apply :: "'s \<Rightarrow> 's"
  c_revert :: "'s \<Rightarrow> 's"
  c_bytes :: u64
  c_label :: bytes

record 's undo_stack =
  u_undo :: "'s command list"
  u_redo :: "'s command list"
  u_budget :: u64
  u_used :: u64
  u_evicted :: u64

definition undo_init :: "u64 \<Rightarrow> 's undo_stack" where
  "undo_init b = \<lparr>u_undo = [], u_redo = [], u_budget = b, u_used = 0, u_evicted = 0\<rparr>"

function enforceBudget :: "'s undo_stack \<Rightarrow> 's undo_stack" where
  "enforceBudget u =
     (if u_used u > u_budget u \<and> length (u_undo u) > 1 then
        enforceBudget (u\<lparr>u_used := u_used u - c_bytes (hd (u_undo u)),
                        u_undo := tl (u_undo u),
                        u_evicted := u_evicted u + 1\<rparr>)
      else u)"
  by pat_completeness auto
termination
  by (relation "measure (\<lambda>u. length (u_undo u))") auto

declare enforceBudget.simps [simp del]

definition setBudget :: "u64 \<Rightarrow> 's undo_stack \<Rightarrow> 's undo_stack" where
  "setBudget b u = enforceBudget (u\<lparr>u_budget := b\<rparr>)"

text \<open>The application's state and the stack travel together; a null command is \<open>None\<close>.\<close>

definition push :: "'s command option \<Rightarrow> 's \<times> 's undo_stack \<Rightarrow> 's \<times> 's undo_stack" where
  "push cmd st = (case st of (s, u) \<Rightarrow>
     (case cmd of
        None \<Rightarrow> (s, u)
      | Some c \<Rightarrow> (c_apply c s,
          enforceBudget (u\<lparr>u_used := u_used u + c_bytes c,
                           u_undo := u_undo u @ [c],
                           u_redo := []\<rparr>))))"

definition undo :: "'s \<times> 's undo_stack \<Rightarrow> bool \<times> 's \<times> 's undo_stack" where
  "undo st = (case st of (s, u) \<Rightarrow>
     if u_undo u = [] then (False, s, u)
     else let c = last (u_undo u) in
       (True, c_revert c s,
        u\<lparr>u_undo := butlast (u_undo u), u_used := u_used u - c_bytes c,
          u_redo := u_redo u @ [c]\<rparr>))"

definition redo :: "'s \<times> 's undo_stack \<Rightarrow> bool \<times> 's \<times> 's undo_stack" where
  "redo st = (case st of (s, u) \<Rightarrow>
     if u_redo u = [] then (False, s, u)
     else let c = last (u_redo u) in
       (True, c_apply c s,
        enforceBudget (u\<lparr>u_redo := butlast (u_redo u), u_used := u_used u + c_bytes c,
                         u_undo := u_undo u @ [c]\<rparr>)))"

definition clear :: "'s undo_stack \<Rightarrow> 's undo_stack" where
  "clear u = u\<lparr>u_undo := [], u_redo := [], u_used := 0, u_evicted := 0\<rparr>"

section \<open>Accounting\<close>

definition used_inv :: "'s undo_stack \<Rightarrow> bool" where
  "used_inv u \<longleftrightarrow> u_used u = sum_list (map c_bytes (u_undo u))"

definition within_budget :: "'s undo_stack \<Rightarrow> bool" where
  "within_budget u \<longleftrightarrow> u_used u \<le> u_budget u \<or> length (u_undo u) \<le> 1"

lemma enforce_used: "used_inv u \<Longrightarrow> used_inv (enforceBudget u)"
proof (induction u rule: enforceBudget.induct)
  case (1 u)
  show ?case
  proof (cases "u_used u > u_budget u \<and> length (u_undo u) > 1")
    case True
    then obtain c cs where "u_undo u = c # cs" by (cases "u_undo u") auto
    with 1 True show ?thesis by (subst enforceBudget.simps) (auto simp: used_inv_def)
  next
    case False
    with 1 show ?thesis by (subst enforceBudget.simps) auto
  qed
qed

lemma enforce_within: "within_budget (enforceBudget u)"
proof (induction u rule: enforceBudget.induct)
  case (1 u)
  then show ?case
    by (cases "u_used u > u_budget u \<and> length (u_undo u) > 1";
        subst enforceBudget.simps) (auto simp: within_budget_def)
qed

text \<open>Eviction drops a prefix of the oldest commands and counts it; nothing else changes.\<close>

lemma enforce_evicts:
  "\<exists>k. u_undo (enforceBudget u) = drop k (u_undo u) \<and> k \<le> length (u_undo u) - 1 \<and>
     u_evicted (enforceBudget u) = u_evicted u + of_nat k \<and>
     u_redo (enforceBudget u) = u_redo u \<and> u_budget (enforceBudget u) = u_budget u"
proof (induction u rule: enforceBudget.induct)
  case (1 u)
  show ?case
  proof (cases "u_used u > u_budget u \<and> length (u_undo u) > 1")
    case True
    with 1 obtain k where k: "u_undo (enforceBudget u) = drop k (tl (u_undo u))"
        "k \<le> length (tl (u_undo u)) - 1"
        "u_evicted (enforceBudget u) = u_evicted u + 1 + of_nat k"
        "u_redo (enforceBudget u) = u_redo u" "u_budget (enforceBudget u) = u_budget u"
      using enforceBudget.simps [of u] by auto
    then show ?thesis
      using True by (intro exI [of _ "Suc k"]) (auto simp: drop_Suc)
  next
    case False
    then show ?thesis
      using enforceBudget.simps [of u] by (intro exI [of _ 0]) auto
  qed
qed

lemma enforce_noop: "within_budget u \<Longrightarrow> enforceBudget u = u"
  by (subst enforceBudget.simps) (auto simp: within_budget_def)

section \<open>Every reachable journal\<close>

datatype 's journal_op = Push "'s command option" | Undo | Redo | SetBudget u64 | Clear

fun journal_step :: "'s journal_op \<Rightarrow> 's \<times> 's undo_stack \<Rightarrow> 's \<times> 's undo_stack" where
  "journal_step (Push c) st = push c st"
| "journal_step Undo st = snd (undo st)"
| "journal_step Redo st = snd (redo st)"
| "journal_step (SetBudget b) st = (fst st, setBudget b (snd st))"
| "journal_step Clear st = (fst st, clear (snd st))"

definition journal_run :: "'s journal_op list \<Rightarrow> 's \<times> 's undo_stack \<Rightarrow> 's \<times> 's undo_stack" where
  "journal_run ops st = fold journal_step ops st"

lemma sum_list_butlast_word:
  "xs \<noteq> [] \<Longrightarrow> sum_list (map f xs) - f (last xs) = (sum_list (map f (butlast xs)) :: u64)"
  by (induction xs rule: rev_induct) auto

lemma journal_step_used: "used_inv (snd st) \<Longrightarrow> used_inv (snd (journal_step op st))"
proof (cases op; cases st)
  fix c s u
  assume "used_inv (snd st)" "op = Push c" "st = (s, u)"
  then show ?thesis
    by (cases c) (auto simp: push_def intro!: enforce_used, simp add: used_inv_def)
next
  fix s u
  assume "used_inv (snd st)" "op = Undo" "st = (s, u)"
  then show ?thesis
    by (auto simp: undo_def used_inv_def Let_def sum_list_butlast_word)
next
  fix s u
  assume "used_inv (snd st)" "op = Redo" "st = (s, u)"
  then show ?thesis
    by (auto simp: redo_def Let_def intro!: enforce_used, simp add: used_inv_def)
qed (auto simp: setBudget_def clear_def used_inv_def [of "_\<lparr>u_budget := _\<rparr>"] used_inv_def
      intro!: enforce_used [unfolded used_inv_def])

text \<open>
  Without wrap-around of the 64-bit byte counter the journal is within its budget in every
  state; \<open>pushed_bytes\<close> bounds what the counter can ever hold.
\<close>

fun pushed_bytes :: "'s journal_op list \<Rightarrow> nat" where
  "pushed_bytes [] = 0"
| "pushed_bytes (Push (Some c) # ops) = unat (c_bytes c) + pushed_bytes ops"
| "pushed_bytes (_ # ops) = pushed_bytes ops"

lemma pushed_bytes_Cons: "pushed_bytes (op # ops) = pushed_bytes [op] + pushed_bytes ops"
  by (cases "op # ops" rule: pushed_bytes.cases) auto

definition held_bytes :: "'s undo_stack \<Rightarrow> nat" where
  "held_bytes u = sum_list (map (unat \<circ> c_bytes) (u_undo u @ u_redo u))"

definition undo_bytes :: "'s undo_stack \<Rightarrow> nat" where
  "undo_bytes u = sum_list (map (unat \<circ> c_bytes) (u_undo u))"

lemma sum_bytes_of_nat:
  "sum_list (map c_bytes cs) = (of_nat (sum_list (map (unat \<circ> c_bytes) cs)) :: u64)"
  by (induction cs) auto

lemma unat_used: "used_inv u \<Longrightarrow> undo_bytes u < 2 ^ 64 \<Longrightarrow> unat (u_used u) = undo_bytes u"
  by (simp add: used_inv_def undo_bytes_def sum_bytes_of_nat unat_of_nat take_bit_nat_eq_self)

lemma undo_bytes_le: "undo_bytes u \<le> held_bytes u"
  by (simp add: undo_bytes_def held_bytes_def)

lemma sum_list_drop_le: "sum_list (drop k xs) \<le> (sum_list xs :: nat)"
  by (metis append_take_drop_id le_add2 sum_list_append)

lemma held_enforce: "held_bytes (enforceBudget u) \<le> held_bytes u"
proof -
  obtain k where "u_undo (enforceBudget u) = drop k (u_undo u)" "u_redo (enforceBudget u) = u_redo u"
    using enforce_evicts [of u] by auto
  then show ?thesis
    using sum_list_drop_le [of k "map (unat \<circ> c_bytes) (u_undo u)"]
    by (simp add: held_bytes_def drop_map)
qed

lemma sum_list_butlast_nat:
  "xs \<noteq> [] \<Longrightarrow> sum_list (map f xs) = (sum_list (map f (butlast xs)) + f (last xs) :: nat)"
  by (induction xs rule: rev_induct) auto

lemma journal_step_held: "held_bytes (snd (journal_step op st)) \<le> held_bytes (snd st) + pushed_bytes [op]"
proof (cases op)
  case (Push c)
  show ?thesis
  proof (cases st; cases c)
    fix s u d
    assume "st = (s, u)" "c = Some d"
    then show ?thesis
      using held_enforce [of "u\<lparr>u_used := u_used u + c_bytes d, u_undo := u_undo u @ [d], u_redo := []\<rparr>"]
      by (simp add: Push push_def) (simp add: held_bytes_def)
  qed (simp add: Push push_def)
next
  case Undo
  then show ?thesis
    using sum_list_butlast_nat [of "u_undo (snd st)" "unat \<circ> c_bytes"]
    by (cases st) (auto simp: undo_def Let_def held_bytes_def)
next
  case Redo
  then show ?thesis
    using sum_list_butlast_nat [of "u_redo (snd st)" "unat \<circ> c_bytes"]
    by (cases st) (auto simp: redo_def Let_def intro!: order_trans [OF held_enforce],
        auto simp: held_bytes_def)
next
  case (SetBudget b)
  then show ?thesis
    using held_enforce [of "(snd st)\<lparr>u_budget := b\<rparr>"] by (simp add: setBudget_def held_bytes_def)
qed (simp add: clear_def held_bytes_def)

lemma journal_step_within:
  assumes "used_inv (snd st)" "within_budget (snd st)" "held_bytes (snd st) < 2 ^ 64"
  shows "within_budget (snd (journal_step op st))"
proof (cases op)
  case Undo
  obtain s u where st: "st = (s, u)" by (cases st)
  show ?thesis
  proof (cases "u_undo u = [] \<or> length (u_undo u) \<le> 1")
    case True
    then show ?thesis
      using assms(2) by (auto simp: Undo st undo_def within_budget_def Let_def)
  next
    case False
    let ?u' = "snd (journal_step Undo st)"
    have "undo_bytes ?u' \<le> undo_bytes u"
      using False sum_list_butlast_nat [of "u_undo u" "unat \<circ> c_bytes"]
      by (auto simp: st undo_def undo_bytes_def Let_def)
    moreover have "undo_bytes u < 2 ^ 64"
      using assms(3) undo_bytes_le [of u] by (simp add: st)
    moreover have "used_inv ?u'" using journal_step_used [OF assms(1)] by blast
    ultimately have "unat (u_used ?u') \<le> unat (u_used u)"
      using unat_used [of u] unat_used [of ?u'] assms(1) by (simp add: st)
    then show ?thesis
      using assms(2) False by (auto simp: Undo st undo_def within_budget_def Let_def word_le_nat_alt)
  qed
next
  case (Push c)
  then show ?thesis
    using assms(2) by (cases st; cases c) (auto simp: push_def enforce_within)
next
  case Redo
  then show ?thesis
    using assms(2) by (cases st) (auto simp: redo_def Let_def enforce_within)
qed (auto simp: setBudget_def clear_def enforce_within, auto simp: within_budget_def)

lemma journal_run_inv:
  "used_inv (snd st) \<Longrightarrow> within_budget (snd st) \<Longrightarrow> held_bytes (snd st) + pushed_bytes ops < 2 ^ 64 \<Longrightarrow>
    used_inv (snd (journal_run ops st)) \<and> within_budget (snd (journal_run ops st))"
proof (induction ops arbitrary: st)
  case (Cons op ops)
  from Cons.prems journal_step_held [of op st] pushed_bytes_Cons [of op ops]
  have "held_bytes (snd (journal_step op st)) + pushed_bytes ops < 2 ^ 64" by simp
  with Cons.IH [of "journal_step op st"] Cons.prems journal_step_used [of st op]
    journal_step_within [of st op]
  show ?case by (simp add: journal_run_def)
qed (simp add: journal_run_def)

section \<open>Undo and redo are inverse\<close>

definition invertible :: "'s command \<Rightarrow> bool" where
  "invertible c \<longleftrightarrow> (\<forall>s. c_revert c (c_apply c s) = s) \<and> (\<forall>s. c_apply c (c_revert c s) = s)"

lemma redo_after_undo:
  assumes "u_undo u \<noteq> []" "within_budget u" "invertible (last (u_undo u))"
  shows "redo (snd (undo (s, u))) = (True, s, u)"
  using assms enforce_noop [of u] by (simp add: undo_def redo_def Let_def invertible_def)

lemma undo_after_push:
  assumes "invertible c"
  shows "\<exists>u'. undo (push (Some c) (s, u)) = (True, s, u') \<and> u_redo u' = [c]"
proof -
  let ?v = "u\<lparr>u_used := u_used u + c_bytes c, u_undo := u_undo u @ [c], u_redo := []\<rparr>"
  obtain k where "u_undo (enforceBudget ?v) = drop k (u_undo u @ [c])" "k \<le> length (u_undo u)"
      "u_redo (enforceBudget ?v) = []"
    using enforce_evicts [of ?v] by auto
  with assms show ?thesis by (auto simp: push_def undo_def Let_def invertible_def)
qed

text \<open>Undoing \<open>n\<close> actions and redoing them leads back to the very same state.\<close>

definition undo_n :: "nat \<Rightarrow> 's \<times> 's undo_stack \<Rightarrow> 's \<times> 's undo_stack" where
  "undo_n n = ((\<lambda>st. snd (undo st)) ^^ n)"

definition redo_n :: "nat \<Rightarrow> 's \<times> 's undo_stack \<Rightarrow> 's \<times> 's undo_stack" where
  "redo_n n = ((\<lambda>st. snd (redo st)) ^^ n)"

lemma redo_n_undo_n:
  assumes "n \<le> length (u_undo u)" "\<forall>c \<in> set (u_undo u). invertible c"
    "used_inv u" "within_budget u" "held_bytes u < 2 ^ 64"
  shows "redo_n n (undo_n n (s, u)) = (s, u)"
  using assms
proof (induction n arbitrary: s u)
  case 0
  then show ?case by (simp add: redo_n_def undo_n_def)
next
  case (Suc n)
  obtain s1 u1 where u1: "snd (undo (s, u)) = (s1, u1)" by (cases "snd (undo (s, u))")
  have ne: "u_undo u \<noteq> []" using Suc.prems(1) by auto
  then have un: "u_undo u1 = butlast (u_undo u)"
    using u1 by (auto simp: undo_def Let_def)
  have "used_inv u1" "within_budget u1" "held_bytes u1 < 2 ^ 64"
    using journal_step_used [of "(s, u)" Undo] journal_step_within [of "(s, u)" Undo]
      journal_step_held [of Undo "(s, u)"] Suc.prems u1 by simp_all
  then have "redo_n n (undo_n n (s1, u1)) = (s1, u1)"
    using Suc.prems un by (intro Suc.IH) (auto dest: in_set_butlastD)
  moreover have "snd (redo (s1, u1)) = (s, u)"
    using redo_after_undo [OF ne Suc.prems(4), of s] Suc.prems(2) ne u1 by simp
  ultimately show ?case
    using u1 by (simp add: redo_n_def undo_n_def funpow_Suc_right del: funpow.simps)
      (metis comp_apply funpow.simps(2) funpow_swap1)
qed

section \<open>Persisted metadata\<close>

record journal_entry =
  je_label :: bytes
  je_bytes :: u64

record journal_metadata =
  jm_undo :: "journal_entry list"
  jm_redo :: "journal_entry list"
  jm_evicted :: u64

definition metadata :: "'s undo_stack \<Rightarrow> journal_metadata" where
  "metadata u =
     \<lparr>jm_undo = map (\<lambda>c. \<lparr>je_label = c_label c, je_bytes = c_bytes c\<rparr>) (u_undo u),
      jm_redo = map (\<lambda>c. \<lparr>je_label = c_label c, je_bytes = c_bytes c\<rparr>) (rev (u_redo u)),
      jm_evicted = u_evicted u\<rparr>"

definition writeEntries :: "bytes \<Rightarrow> journal_entry list \<Rightarrow> bytes" where
  "writeEntries w entries =
     fold (\<lambda>e w. w_u64 (w_str w (je_label e)) (je_bytes e)) entries
       (w_u32 w (of_nat (length entries)))"

fun readEntriesLoop :: "nat \<Rightarrow> journal_entry list \<Rightarrow> reader \<Rightarrow> journal_entry list option \<times> reader" where
  "readEntriesLoop 0 entries r = (Some entries, r)"
| "readEntriesLoop (Suc n) entries r =
     (let (label, r) = r_str r; (b, r) = r_u64 r
      in if \<not> r_ok r then (None, r)
         else readEntriesLoop n (entries @ [\<lparr>je_label = label, je_bytes = b\<rparr>]) r)"

definition readEntries :: "reader \<Rightarrow> journal_entry list option \<times> reader" where
  "readEntries r =
     (let (count, r) = r_u32 r
      in if \<not> r_ok r \<or> unat count > r_remaining r div 12 then (None, r)
         else readEntriesLoop (unat count) [] r)"

definition serializeMetadata :: "'s undo_stack \<Rightarrow> bytes \<Rightarrow> bytes" where
  "serializeMetadata u w =
     (let meta = metadata u
      in w_u64 (writeEntries (writeEntries w (jm_undo meta)) (jm_redo meta)) (jm_evicted meta))"

definition loadMetadata :: "reader \<Rightarrow> journal_metadata option \<times> reader" where
  "loadMetadata r =
     (case readEntries r of
        (None, r) \<Rightarrow> (None, r)
      | (Some us, r) \<Rightarrow>
          (case readEntries r of
             (None, r) \<Rightarrow> (None, r)
           | (Some rs, r) \<Rightarrow>
               (let (ev, r) = r_u64 r
                in if \<not> r_ok r then (None, r)
                   else (Some \<lparr>jm_undo = us, jm_redo = rs, jm_evicted = ev\<rparr>, r))))"

definition enc_entry :: "journal_entry \<Rightarrow> bytes" where
  "enc_entry e = enc_str (je_label e) @ enc_u64 (je_bytes e)"

definition enc_entries :: "journal_entry list \<Rightarrow> bytes" where
  "enc_entries es = writeEntries [] es"

definition entries_valid :: "journal_entry list \<Rightarrow> bool" where
  "entries_valid es \<longleftrightarrow> fits_u32 es \<and> (\<forall>e \<in> set es. fits_u32 (je_label e))"

lemma writeEntries_append:
  "writeEntries w es = w @ enc_u32 (of_nat (length es)) @ concat (map enc_entry es)"
proof -
  have "fold (\<lambda>e w. w_u64 (w_str w (je_label e)) (je_bytes e)) es w = w @ concat (map enc_entry es)"
    for w
    by (induction es arbitrary: w) (auto simp: w_append enc_entry_def)
  then show ?thesis by (simp add: writeEntries_def w_append)
qed

lemma readEntriesLoop_enc:
  "\<forall>e \<in> set es. fits_u32 (je_label e) \<Longrightarrow> reads_from r (concat (map enc_entry es) @ rest) \<Longrightarrow>
    \<exists>r'. readEntriesLoop (length es) acc r = (Some (acc @ es), r') \<and> reads_from r' rest"
proof (induction es arbitrary: acc r)
  case (Cons e es)
  let ?tail = "concat (map enc_entry es) @ rest"
  obtain r1 where r1: "r_str r = (je_label e, r1)" "reads_from r1 (enc_u64 (je_bytes e) @ ?tail)"
    using str.rd_enc_pair [of "je_label e" r "enc_u64 (je_bytes e) @ ?tail"] Cons.prems
    by (auto simp: enc_entry_def [of e])
  obtain r2 where r2: "r_u64 r1 = (je_bytes e, r2)" "reads_from r2 ?tail"
    using u64.rd_enc_pair [OF _ r1(2)] by auto
  have eq: "\<lparr>je_label = je_label e, je_bytes = je_bytes e\<rparr> = e" by simp
  from Cons.IH [of r2 "acc @ [e]"] Cons.prems(1) r1 r2 reads_from_ok [OF r2(2)]
  show ?case by (simp add: eq)
qed simp

lemma concat_entries_length: "12 * length es \<le> length (concat (map enc_entry es))"
  by (induction es) (auto simp: enc_entry_def)

interpretation journal_entries: ocodec enc_entries readEntries entries_valid
proof unfold_locales
  fix es r rest
  assume v: "entries_valid es" and "reads_from r (enc_entries es @ rest)"
  then have "reads_from r (enc_u32 (of_nat (length es)) @ concat (map enc_entry es) @ rest)"
    by (simp add: enc_entries_def writeEntries_append)
  then obtain r1 where r1: "r_u32 r = (of_nat (length es), r1)"
      "reads_from r1 (concat (map enc_entry es) @ rest)"
    using u32.rd_enc_pair by blast
  have "length es \<le> r_remaining r1 div 12"
    using concat_entries_length [of es] by (simp add: reads_from_remaining [OF r1(2)])
  with r1 v reads_from_ok [OF r1(2)] readEntriesLoop_enc [of es r1 rest "[]"]
  show "\<exists>r'. readEntries r = (Some es, r') \<and> reads_from r' rest"
    by (auto simp: readEntries_def entries_valid_def)
qed

definition enc_metadata :: "journal_metadata \<Rightarrow> bytes" where
  "enc_metadata m = enc_entries (jm_undo m) @ enc_entries (jm_redo m) @ enc_u64 (jm_evicted m)"

definition metadata_valid :: "journal_metadata \<Rightarrow> bool" where
  "metadata_valid m \<longleftrightarrow> entries_valid (jm_undo m) \<and> entries_valid (jm_redo m)"

lemma serializeMetadata_append: "serializeMetadata u w = w @ enc_metadata (metadata u)"
  by (simp add: serializeMetadata_def enc_metadata_def enc_entries_def writeEntries_append w_append Let_def)

interpretation journal_meta: ocodec enc_metadata loadMetadata metadata_valid
proof unfold_locales
  fix m r rest
  assume v: "metadata_valid m" and "reads_from r (enc_metadata m @ rest)"
  then obtain r1 where r1: "readEntries r = (Some (jm_undo m), r1)"
      "reads_from r1 (enc_entries (jm_redo m) @ enc_u64 (jm_evicted m) @ rest)"
    using journal_entries.ord_enc [of "jm_undo m" r] by (auto simp: metadata_valid_def enc_metadata_def)
  obtain r2 where r2: "readEntries r1 = (Some (jm_redo m), r2)"
      "reads_from r2 (enc_u64 (jm_evicted m) @ rest)"
    using v journal_entries.ord_enc [OF _ r1(2)] by (auto simp: metadata_valid_def)
  obtain r3 where r3: "r_u64 r2 = (jm_evicted m, r3)" "reads_from r3 rest"
    using u64.rd_enc_pair [OF _ r2(2)] by auto
  show "\<exists>r'. loadMetadata r = (Some m, r') \<and> reads_from r' rest"
    using r1 r2 r3 reads_from_ok [OF r3(2)] by (simp add: loadMetadata_def)
qed

text \<open>A forged entry count never makes the reader walk further than the buffer allows.\<close>

lemma readEntries_count_bound:
  assumes "r_u32 r = (count, r1)" "unat count > r_remaining r1 div 12"
  shows "fst (readEntries r) = None"
  using assms by (simp add: readEntries_def)

end
