(* ===== verification/ParamsProps.thy ===== *)
theory ParamsProps
  imports RemeshParams
begin

text \<open>
  The properties of parameter and guidance validation and of the derived edge length.
\<close>

text \<open>
  C18. Validation always ends with parameters inside the documented ranges; it reports an issue
  exactly when an input was outside, it changes nothing when none was, and it is fatal exactly
  when a \<open>float\<close> parameter is not finite.
\<close>

theorem validate_parameters_exact:
  "case validateParameters raw of (p, iss) \<Rightarrow> params_in_range p \<and> (iss = [] \<longleftrightarrow> params_in_range raw) \<and>
     (issues_ok iss \<longleftrightarrow> params_usable raw) \<and> ((p, iss) = (raw, []) \<longleftrightarrow> params_in_range raw)"
proof -
  obtain p iss where r: "validateParameters raw = (p, iss)" by fastforce
  show ?thesis using validateParameters_spec [OF r] by (auto simp: r)
qed

text \<open>
  Validation is idempotent: a second pass over validated parameters changes and reports
  nothing, so validating at every entry point is the same as validating once.
\<close>

theorem validate_parameters_idempotent:
  "validateParameters (fst (validateParameters raw)) = (fst (validateParameters raw), [])"
proof -
  obtain p iss where r: "validateParameters raw = (p, iss)" by fastforce
  obtain p2 iss2 where r2: "validateParameters p = (p2, iss2)" by fastforce
  have "params_in_range p" by (rule validateParameters_spec(1) [OF r])
  then show ?thesis using validateParameters_spec(2,3) [OF r2] by (simp add: r r2)
qed

text \<open>
  C19. Guidance that passes validation can be honoured as it stands: every guide of the input is
  kept with its points, has at least two finite points, a finite positive radius and a strength
  in range, and the density is absent or carries one value in range per vertex or per face and
  is not neutral.
\<close>

theorem validate_guidance_exact:
  assumes "validateGuidance raw nv nf = (g, iss)" "issues_ok iss"
  shows "(\<forall>x \<in> set (g_guides g). guide_usable x \<and> frange 0 f32_1 (fg_strength x)) \<and>
    map fg_points (g_guides g) = map fg_points (g_guides raw) \<and> density_usable (g_density g) nv nf"
  by (rule validateGuidance_spec [OF assms])

definition sample_guidance :: guidance where
  "sample_guidance = \<lparr>g_guides = [], g_density = \<lparr>df_vertexValues = [0x40000000, f32_half], df_faceValues = []\<rparr>\<rparr>"

theorem validate_guidance_exact_witness:
  "density_usable (g_density (fst (validateGuidance sample_guidance 2 5))) 2 5"
proof -
  have n: "\<not> flt 0x40000000 kDensityMin" "\<not> flt kDensityMax 0x40000000" "\<not> flt f32_half kDensityMin"
    "\<not> flt kDensityMax f32_half" "f32_isfinite 0x40000000" "f32_isfinite f32_half"
    by (simp_all add: flt_def f32_key_def kDensityMin_def kDensityMax_def f32_isfinite_def)
  obtain g iss where r: "validateGuidance sample_guidance 2 5 = (g, iss)" by fastforce
  have "issues_ok iss"
    using r by (auto simp: validateGuidance_def sample_guidance_def validateDensity_def n issues_ok_def issue_def
        numeral_2_eq_2 Let_def split: if_splits)
  from validate_guidance_exact [OF r this] show ?thesis by (simp add: r)
qed

text \<open>
  C20. The check \<open>derived edge length is not usable\<close> runs before the narrowing to \<open>float\<close>: a large
  but finite surface area passes it and the call reports success with an infinite length.
\<close>

theorem edge_length_overflow:
  "targetEdgeLength 0x7FE0000000000000 1 f32_1 = (0x7F800000, []) \<and> \<not> f32_isfinite 0x7F800000"
  using targetEdgeLength_huge by (simp add: f32_isfinite_def)

end
