(* ===== verification/Spec2Isabelle.thy ===== *)
theory Spec2Isabelle
  imports BridgeProps DocProps FlowProps HalfProps ImageProps InputProps JournalProps ParamsProps
begin

text \<open>
  A verification library for CyberRemesher, a C++20 engine that turns triangle meshes into quad
  meshes, with an editing application around it. Paths below are relative to \<open>src/\<close>.

  \<^bold>\<open>The program.\<close> \<open>src/core\<close> holds the radial-edge mesh kernel, its attribute columns, the
  diagnostics, the parameters and the remeshing pipeline; \<open>src/quadrangulate\<close> the quad layout
  solvers; \<open>src/app\<close> the editing model (document container, undo journal, input layer);
  \<open>src/net\<close> a local bridge that exchanges meshes with other tools; \<open>src/imageio\<close> the image
  writers; \<open>src/bake\<close>, \<open>src/uv\<close>, \<open>src/retopo\<close>, \<open>src/render\<close> the tools on top of them.

  \<^bold>\<open>Theories and sources.\<close>
  \<^item> \<open>Prelude\<close>: machine integers, lists, options, the sorted association list that models
    \<open>std::map\<close>, and cyclic linked lists (\<open>chain\<close>, \<open>ring\<close>, \<open>walk\<close>: a \<open>do ... while\<close> around a
    cycle is an option, \<open>None\<close> when the cycle does not close).
  \<^item> \<open>Floats\<close>, \<open>Vectors\<close>: \<open>float\<close> and \<open>double\<close> as IEEE-754 bit patterns with exact
    round-to-nearest arithmetic; \<open>math.hpp\<close>. \<open>Text\<close>: decimal conversions.
  \<^item> \<open>Attributes\<close>: \<open>core/attributes.hpp\<close>.
  \<^item> \<open>MeshData\<close> (\<open>mesh.hpp\<close>, \<open>mesh.cpp\<close>), \<open>MeshOps\<close> (\<open>mesh_ops.cpp\<close>), \<open>MeshCheck\<close> and
    \<open>MeshFeature\<close> (\<open>mesh_diagnostics.cpp\<close>) are the definitions; \<open>MeshPools\<close>, \<open>MeshInv\<close>,
    \<open>MeshLink\<close>, \<open>MeshRadial\<close>, \<open>MeshAdd\<close>, \<open>MeshRemove\<close>, \<open>MeshBuild\<close>, \<open>MeshIslands\<close>,
    \<open>MeshOpsInv\<close>, \<open>MeshHoles\<close>, \<open>MeshSteps\<close> the invariant and its preservation, \<open>MeshProps\<close>
    the properties. A pointer is an index, an element array a list with its free list.
  \<^item> \<open>RemeshParams\<close>, \<open>ParamsProps\<close>: \<open>remesh_params.hpp/.cpp\<close> and the validation part of
    \<open>guidance.hpp\<close> and \<open>guidance.cpp\<close>.
  \<^item> \<open>Serial\<close> (\<open>app/serial.hpp\<close>), \<open>Document\<close> (\<open>document.hpp/.cpp\<close>), with \<open>DocCodec\<close>,
    \<open>DocAttrs\<close>, \<open>DocMesh\<close>, \<open>DocCompact\<close>, \<open>DocEdges\<close>, \<open>DocLoad\<close>, \<open>DocRound\<close>, \<open>DocSafe\<close>
    (codec contracts as locales, interpreted section by section) and \<open>DocProps\<close>.
  \<^item> \<open>Undo\<close>, \<open>JournalProps\<close>: \<open>app/undo.hpp/.cpp\<close>. \<open>Input\<close>, \<open>InputProps\<close>: \<open>app/input.hpp/.cpp\<close>.
  \<^item> \<open>Bridge\<close>, \<open>BridgeProps\<close>: \<open>net/protocol.cpp\<close>, the frame reader and \<open>session.cpp\<close>.
  \<^item> \<open>ImageFiles\<close>, \<open>ImageStream\<close>, \<open>StreamProof\<close>, \<open>ZipProof\<close>, \<open>ImageProps\<close>: the ZIP, PNG and
    OpenEXR writers of \<open>imageio\<close>, in one shot and band by band.
  \<^item> \<open>MinCostFlow\<close>, \<open>FlowSearch\<close>, \<open>FlowPath\<close>, \<open>FlowSolve\<close>, \<open>FlowOpt\<close>, \<open>FlowProps\<close>:
    \<open>quadrangulate/min_cost_flow.hpp\<close>.
  \<^item> \<open>HalfLattice\<close>, \<open>HalfSolve\<close>, \<open>HalfProof\<close>, \<open>HalfProps\<close>:
    \<open>quadrangulate/half_lattice_components.hpp/.cpp\<close>.

  \<^bold>\<open>What the lemmas show.\<close> The mesh lemmas carry one structural invariant (\<open>mesh_inv\<close>: element
  pools, edges and vertex lists, radial cycles, face cycles, corners, no wire edges) through every
  operation, and describe each result exactly. The document lemmas compose a codec contract (what
  is written is read back, whatever follows it) into the round trip of the whole file, and a safety
  contract (every count is paid for in bytes) into the loading of arbitrary bytes. The journal and
  bridge lemmas are invariants of transition systems over the public methods. The image lemmas
  relate the band writers to the one-shot writers and archives to an independent reader. The flow
  lemmas prove the successive-shortest-path engine totally correct with cut and potential
  certificates, the lattice lemmas the elimination over the two-element field.

  \<^bold>\<open>Parameters and bounds.\<close> A loop that may not end is a \<open>partial_function\<close> into options, and
  that it returns is part of the theorem. \<open>kInvalidIndex\<close> is the last 32-bit index; the sources
  never check for it, so operations that allocate carry a premise (\<open>capacity\<close>, \<open>merge_room\<close>)
  that the arrays stay below it. Parameters stand for what is not in the repository: the arc
  cosine of the C library, the iteration order of an \<open>unordered_map\<close>, the contents of the
  received chunks. The \<open>int\<close> arithmetic of the flow engine is unbounded here, and its theorem
  bounds the costs by \<open>kInf\<close>. \<open>long double\<close> is the 80-bit format of x87.

  \<^bold>\<open>Not modelled\<close>, and why: the BVH, the import and export formats (\<open>io_*.cpp\<close>), rasterising and
  baking, rendering, GPU back ends and the C interface are input/output, numerics or glue around
  the parts above; the cross-field and seamless solvers rest on floating-point convergence that
  no contract of the code states; the JSON dispatch of the bridge is written against a third-party
  JSON library; sockets and files are input/output. \<open>PROJECT.json\<close> lists every part.
\<close>

end
